(* ===== verification/Prelude.thy ===== *)
theory Prelude
  imports Main "HOL-Library.Word"
begin

text \<open>
  Shared by every component: the names of the machine types of the code, the theorem
  collections the proofs are driven by, and lemmas on words, lists and cyclic indices that
  more than one component needs.
\<close>

unbundle bit_operations_syntax

section \<open>Machine types and theorem collections\<close>

type_synonym u8 = "8 word"
type_synonym u32 = "32 word"
type_synonym u64 = "64 word"

named_theorems atomic_defs "unfolding of the operations of util/atomic.h"
named_theorems field_simps_meta "bit fields of packed words"

section \<open>Words\<close>

lemma unat_add_small:
  "unat x + unat y < 2 ^ LENGTH('a) \<Longrightarrow> unat (x + y) = unat x + unat y"
  for x y :: "'a::len word"
  by (simp add: unat_word_ariths)

lemma unat_sub_small: "unat y \<le> unat x \<Longrightarrow> unat (x - y) = unat x - unat y"
  for x y :: "'a::len word"
  by (simp add: unat_sub word_le_nat_alt)

lemma unat_of_nat_eq: "n < 2 ^ LENGTH('a) \<Longrightarrow> unat (of_nat n :: 'a::len word) = n"
  by (rule of_nat_inverse[OF refl])

lemma xor_cancel_right [simp]: "(x XOR y) XOR y = x"
  for x y :: "'a::len word"
  by (simp add: xor.assoc)

lemma xor_cancel_left [simp]: "y XOR (y XOR x) = x"
  for x y :: "'a::len word"
  by (simp flip: xor.assoc)

lemma bit_push_one: "bit (push_bit k (1 :: 'a::len word)) n \<longleftrightarrow> n = k \<and> k < LENGTH('a)"
  by (auto simp: bit_simps)

lemma and_single_bit_eq_0:
  fixes p :: "'a::len word"
  assumes "k < LENGTH('a)"
  shows "p AND push_bit k 1 = 0 \<longleftrightarrow> \<not> bit p k"
proof
  assume "p AND push_bit k 1 = 0"
  then have "\<not> bit (p AND push_bit k 1) k" by simp
  then show "\<not> bit p k" using assms by (simp only: bit_and_iff bit_push_one) simp
next
  assume "\<not> bit p k"
  then show "p AND push_bit k 1 = 0"
    by (intro bit_word_eqI) (auto simp only: bit_and_iff bit_push_one bit_0_eq bot_apply bot_bool_def)
qed

text \<open>Multiplication by a word with a known inverse can be undone.\<close>

lemma mult_inverse_cancel:
  "c * d = 1 \<Longrightarrow> x * c * d = x" "c * d = 1 \<Longrightarrow> x * d * c = x"
  for x c d :: "'a::comm_ring_1"
  by (simp_all add: mult.assoc mult.commute [of d c])

section \<open>Signed integers\<close>

text \<open>Values of int32_t and int64_t are integers in the range of the type. An addition or subtraction that leaves it is
  undefined, the value None; the operations of std::atomic wrap around.\<close>

definition int32_range :: "int \<Rightarrow> bool" where "int32_range x \<longleftrightarrow> - (2 ^ 31) \<le> x \<and> x < 2 ^ 31"
definition int64_range :: "int \<Rightarrow> bool" where "int64_range x \<longleftrightarrow> - (2 ^ 63) \<le> x \<and> x < 2 ^ 63"

definition sub32 :: "int \<Rightarrow> int \<Rightarrow> int option" where
  "sub32 x y = (if int32_range (x - y) then Some (x - y) else None)"

definition add64 :: "int \<Rightarrow> int \<Rightarrow> int option" where
  "add64 x y = (if int64_range (x + y) then Some (x + y) else None)"

definition sub64 :: "int \<Rightarrow> int \<Rightarrow> int option" where
  "sub64 x y = (if int64_range (x - y) then Some (x - y) else None)"

definition wrap64 :: "int \<Rightarrow> int" where "wrap64 x = signed_take_bit 63 x"

named_theorems signed_defs "unfolding of checked signed arithmetic"
lemmas [signed_defs] = int32_range_def int64_range_def sub32_def add64_def sub64_def

lemma wrap64_id: "int64_range x \<Longrightarrow> wrap64 x = x"
  by (simp add: wrap64_def int64_range_def signed_take_bit_int_eq_self)

lemma wrap64_range: "int64_range (wrap64 x)"
  using signed_take_bit_int_greater_eq_minus_exp[of 63 x] signed_take_bit_int_less_exp[of 63 x]
  by (simp add: wrap64_def int64_range_def)

section \<open>Lists\<close>

lemma sum_list_update_nat:
  "i < length xs \<Longrightarrow> sum_list (xs[i := y]) + xs ! i = sum_list xs + (y :: nat)"
  by (induction xs arbitrary: i) (auto split: nat.splits)

lemma map_update_same: "i < length xs \<Longrightarrow> f y = f (xs ! i) \<Longrightarrow> map f (xs[i := y]) = map f xs"
  by (simp add: list_eq_iff_nth_eq nth_list_update)

lemma takeWhile_split: "j \<notin> set xs \<Longrightarrow> takeWhile (\<lambda>l. l \<noteq> j) (xs @ j # ys) = xs"
  by (induction xs) auto

end
