(* ===== verification/Atomics.thy ===== *)
theory Atomics
  imports Prelude
begin

text \<open>
  The wrappers RelaxedAtomic and AcqRelAtomic of util/atomic.h. A cell is the value it
  holds; an operation returns its result together with the value the cell holds afterwards.
  Every operation is one indivisible step; the memory orders of the C++ operations only
  restrict how steps of different threads are observed and are not distinguished, so the
  AcqRel operations are the Relaxed ones under the names the code calls.

  A compare-and-swap returns its flag, the new value of the reference parameter expected,
  and the new value of the cell. The weak form may fail spuriously: this choice of the
  hardware is its first argument.
\<close>

section \<open>RelaxedAtomic\<close>

definition StoreRelaxed :: "'a \<Rightarrow> 'a \<Rightarrow> 'a" where
  "StoreRelaxed v desired = desired"

definition LoadRelaxed :: "'a \<Rightarrow> 'a" where
  "LoadRelaxed v = v"

definition CasStrongRelaxed :: "'a \<Rightarrow> 'a \<Rightarrow> 'a \<Rightarrow> bool \<times> 'a \<times> 'a" where
  "CasStrongRelaxed v expected desired =
     (if v = expected then (True, expected, desired) else (False, v, v))"

definition CasWeakRelaxed :: "bool \<Rightarrow> 'a \<Rightarrow> 'a \<Rightarrow> 'a \<Rightarrow> bool \<times> 'a \<times> 'a" where
  "CasWeakRelaxed spurious v expected desired =
     (if spurious then (False, v, v) else CasStrongRelaxed v expected desired)"

definition ExchangeRelaxed :: "'a \<Rightarrow> 'a \<Rightarrow> 'a \<times> 'a" where
  "ExchangeRelaxed v desired = (v, desired)"

definition FetchAddRelaxed :: "'a::plus \<Rightarrow> 'a \<Rightarrow> 'a \<times> 'a" where
  "FetchAddRelaxed v operand = (v, v + operand)"

definition FetchSubRelaxed :: "'a::minus \<Rightarrow> 'a \<Rightarrow> 'a \<times> 'a" where
  "FetchSubRelaxed v operand = (v, v - operand)"

definition FetchAndRelaxed :: "'a::semiring_bit_operations \<Rightarrow> 'a \<Rightarrow> 'a \<times> 'a" where
  "FetchAndRelaxed v operand = (v, v AND operand)"

definition FetchOrRelaxed :: "'a::semiring_bit_operations \<Rightarrow> 'a \<Rightarrow> 'a \<times> 'a" where
  "FetchOrRelaxed v operand = (v, v OR operand)"

definition FetchXorRelaxed :: "'a::semiring_bit_operations \<Rightarrow> 'a \<Rightarrow> 'a \<times> 'a" where
  "FetchXorRelaxed v operand = (v, v XOR operand)"

section \<open>AcqRelAtomic\<close>

definition StoreRelease :: "'a \<Rightarrow> 'a \<Rightarrow> 'a" where
  "StoreRelease v desired = StoreRelaxed v desired"

definition LoadAcquire :: "'a \<Rightarrow> 'a" where
  "LoadAcquire v = LoadRelaxed v"

definition CasWeakRelease :: "bool \<Rightarrow> 'a \<Rightarrow> 'a \<Rightarrow> 'a \<Rightarrow> bool \<times> 'a \<times> 'a" where
  "CasWeakRelease spurious v expected desired = CasWeakRelaxed spurious v expected desired"

definition CasStrongRelease :: "'a \<Rightarrow> 'a \<Rightarrow> 'a \<Rightarrow> bool \<times> 'a \<times> 'a" where
  "CasStrongRelease v expected desired = CasStrongRelaxed v expected desired"

definition CasWeakAcqRel :: "bool \<Rightarrow> 'a \<Rightarrow> 'a \<Rightarrow> 'a \<Rightarrow> bool \<times> 'a \<times> 'a" where
  "CasWeakAcqRel spurious v expected desired = CasWeakRelaxed spurious v expected desired"

definition CasStrongAcqRel :: "'a \<Rightarrow> 'a \<Rightarrow> 'a \<Rightarrow> bool \<times> 'a \<times> 'a" where
  "CasStrongAcqRel v expected desired = CasStrongRelaxed v expected desired"

definition ExchangeAcqRel :: "'a \<Rightarrow> 'a \<Rightarrow> 'a \<times> 'a" where
  "ExchangeAcqRel v desired = ExchangeRelaxed v desired"

definition FetchAddAcqRel :: "'a::plus \<Rightarrow> 'a \<Rightarrow> 'a \<times> 'a" where
  "FetchAddAcqRel v operand = FetchAddRelaxed v operand"

definition FetchSubAcqRel :: "'a::minus \<Rightarrow> 'a \<Rightarrow> 'a \<times> 'a" where
  "FetchSubAcqRel v operand = FetchSubRelaxed v operand"

definition FetchAndAcqRel :: "'a::semiring_bit_operations \<Rightarrow> 'a \<Rightarrow> 'a \<times> 'a" where
  "FetchAndAcqRel v operand = FetchAndRelaxed v operand"

definition FetchOrAcqRel :: "'a::semiring_bit_operations \<Rightarrow> 'a \<Rightarrow> 'a \<times> 'a" where
  "FetchOrAcqRel v operand = FetchOrRelaxed v operand"

definition FetchXorAcqRel :: "'a::semiring_bit_operations \<Rightarrow> 'a \<Rightarrow> 'a \<times> 'a" where
  "FetchXorAcqRel v operand = FetchXorRelaxed v operand"

lemmas [atomic_defs] =
  StoreRelaxed_def LoadRelaxed_def CasStrongRelaxed_def CasWeakRelaxed_def ExchangeRelaxed_def
  FetchAddRelaxed_def FetchSubRelaxed_def FetchAndRelaxed_def FetchOrRelaxed_def
  FetchXorRelaxed_def StoreRelease_def LoadAcquire_def CasWeakRelease_def CasStrongRelease_def
  CasWeakAcqRel_def CasStrongAcqRel_def ExchangeAcqRel_def FetchAddAcqRel_def
  FetchSubAcqRel_def FetchAndAcqRel_def FetchOrAcqRel_def FetchXorAcqRel_def

section \<open>What a compare-and-swap tells its caller\<close>

lemma CasStrong_cases:
  assumes "CasStrongAcqRel v e d = (ok, e', v')"
  obtains (success) "ok" "v = e" "e' = e" "v' = d" | (failure) "\<not> ok" "v \<noteq> e" "e' = v" "v' = v"
  using assms by (auto simp: atomic_defs split: if_splits)

lemma CasWeak_cases:
  assumes "CasWeakAcqRel sp v e d = (ok, e', v')"
  obtains (success) "ok" "v = e" "e' = e" "v' = d" "\<not> sp" | (failure) "\<not> ok" "e' = v" "v' = v"
  using assms by (auto simp: atomic_defs split: if_splits)

end
