(* ===== verification/Bounded_Queue.thy ===== *)
theory Bounded_Queue
  imports Atomics "HOL-Library.Monad_Syntax"
begin

text \<open>
  Queue of util/queue.h, the bounded ring buffer with a sequence number per slot, run by one
  thread at a time; Queue_Concurrent has the interleaved runs. Positions and sequence numbers
  are int64_t: an addition or a difference that overflows is the value None, as is a loop that retries for
  ever. Positions only grow, so the invariant leaves the last of them room for a capacity below 2^63.
  The weak compare-and-swap fails spuriously as often as the argument spurious says.

  The locale bounded_fifo is the interface the clients of the queue use: a partial push and pop
  over a list of bounded length.
\<close>

section \<open>Data and operations\<close>

record 'a qnode =
  q_seq :: int
  q_data :: 'a

record 'a queue =
  q_capicity :: int
  q_buffer :: "'a qnode list"
  q_head :: int
  q_tail :: int

definition Queue_new :: "'a \<Rightarrow> int \<Rightarrow> 'a queue" where
  "Queue_new dflt capicity =
     \<lparr>q_capicity = capicity,
      q_buffer = map (\<lambda>i. \<lparr>q_seq = int i, q_data = dflt\<rparr>) [0..<nat capicity],
      q_head = 0, q_tail = 0\<rparr>"

definition slot :: "'a queue \<Rightarrow> int \<Rightarrow> nat" where
  "slot q pos = nat (pos mod q_capicity q)"

definition qnode_at :: "'a queue \<Rightarrow> int \<Rightarrow> 'a qnode" where
  "qnode_at q pos = q_buffer q ! slot q pos"

definition set_qnode :: "'a queue \<Rightarrow> int \<Rightarrow> 'a qnode \<Rightarrow> 'a queue" where
  "set_qnode q pos n = q\<lparr>q_buffer := (q_buffer q)[slot q pos := n]\<rparr>"

partial_function (option) push_loop :: "nat \<Rightarrow> 'a queue \<Rightarrow> int \<Rightarrow> (int option \<times> 'a queue) option" where
  [code]: "push_loop spurious q pos =
     do { diff \<leftarrow> sub64 (LoadAcquire (q_seq (qnode_at q pos))) pos;
          if diff = 0 then
            do { next \<leftarrow> add64 pos 1;
                 case CasWeakAcqRel (0 < spurious) (q_head q) pos next of
                   (ok, pos', h) \<Rightarrow>
                     if ok then Some (Some pos, q\<lparr>q_head := h\<rparr>)
                     else push_loop (spurious - 1) q pos' }
          else if diff < 0 then Some (None, q)
          else push_loop spurious q (LoadAcquire (q_head q)) }"

definition Push :: "nat \<Rightarrow> 'a queue \<Rightarrow> 'a \<Rightarrow> (bool \<times> 'a queue) option" where
  "Push spurious q v =
     do { (r, q) \<leftarrow> push_loop spurious q (LoadAcquire (q_head q));
          case r of
            None \<Rightarrow> Some (False, q)
          | Some pos \<Rightarrow>
              do { let q = set_qnode q pos (qnode_at q pos\<lparr>q_data := v\<rparr>);
                   next \<leftarrow> add64 pos 1;
                   let q = set_qnode q pos (qnode_at q pos\<lparr>q_seq := StoreRelease (q_seq (qnode_at q pos)) next\<rparr>);
                   Some (True, q) } }"

partial_function (option) pop_loop :: "nat \<Rightarrow> 'a queue \<Rightarrow> int \<Rightarrow> (int option \<times> 'a queue) option" where
  [code]: "pop_loop spurious q pos =
     do { next \<leftarrow> add64 pos 1;
          diff \<leftarrow> sub64 (LoadAcquire (q_seq (qnode_at q pos))) next;
          if diff = 0 then
            (case CasWeakAcqRel (0 < spurious) (q_tail q) pos next of
               (ok, pos', t) \<Rightarrow>
                 if ok then Some (Some pos, q\<lparr>q_tail := t\<rparr>)
                 else pop_loop (spurious - 1) q pos')
          else if diff < 0 then Some (None, q)
          else pop_loop spurious q (LoadAcquire (q_tail q)) }"

definition Pop :: "nat \<Rightarrow> 'a queue \<Rightarrow> ('a option \<times> 'a queue) option" where
  "Pop spurious q =
     do { (r, q) \<leftarrow> pop_loop spurious q (LoadAcquire (q_tail q));
          case r of
            None \<Rightarrow> Some (None, q)
          | Some pos \<Rightarrow>
              do { let value = q_data (qnode_at q pos);
                   free \<leftarrow> add64 pos (q_capicity q);
                   let q = set_qnode q pos (qnode_at q pos\<lparr>q_seq := StoreRelease (q_seq (qnode_at q pos)) free\<rparr>);
                   Some (Some value, q) } }"

definition Size :: "'a queue \<Rightarrow> int" where
  "Size q = (let size = LoadRelaxed (q_head q) - LoadRelaxed (q_tail q) in if 0 \<le> size then size else 0)"

definition Capicity :: "'a queue \<Rightarrow> int" where
  "Capicity q = q_capicity q"

section \<open>The invariant between two operations\<close>

definition ring_inv :: "'a queue \<Rightarrow> bool" where
  "ring_inv q \<longleftrightarrow>
     length (q_buffer q) = nat (q_capicity q) \<and>
     0 \<le> q_tail q \<and> q_tail q \<le> q_head q \<and> q_head q \<le> q_tail q + q_capicity q \<and>
     (\<forall>p \<in> {q_tail q..<q_head q}. q_seq (qnode_at q p) = p + 1) \<and>
     (\<forall>p \<in> {q_head q..<q_tail q + q_capicity q}. q_seq (qnode_at q p) = p)"

text \<open>How often a value can still be pushed before a position overflows.\<close>

definition pushes_left :: "'a queue \<Rightarrow> int" where
  "pushes_left q = 2 ^ 63 - 1 - q_capicity q - q_head q"

text \<open>The code needs a capacity of at least two.\<close>

definition queue_inv :: "'a queue \<Rightarrow> bool" where
  "queue_inv q \<longleftrightarrow> 2 \<le> q_capicity q \<and> ring_inv q \<and> 0 \<le> pushes_left q"

definition queue_list :: "'a queue \<Rightarrow> 'a list" where
  "queue_list q = map (\<lambda>p. q_data (qnode_at q p)) [q_tail q..q_head q - 1]"

lemma slot_less: "0 < q_capicity q \<Longrightarrow> length (q_buffer q) = nat (q_capicity q) \<Longrightarrow> slot q p < length (q_buffer q)"
  by (simp add: slot_def)

text \<open>Positions less than a capacity apart live in different slots.\<close>

lemma slot_eq_iff:
  assumes "0 < q_capicity q" "p \<le> p'" "p' < p + q_capicity q"
  shows "slot q p = slot q p' \<longleftrightarrow> p = p'"
proof
  assume "slot q p = slot q p'"
  then have "p mod q_capicity q = p' mod q_capicity q" using assms(1) pos_mod_sign[OF assms(1)]
    by (simp add: slot_def eq_nat_nat_iff)
  then have "(p' - p) mod q_capicity q = 0" by (metis diff_self mod_0 mod_diff_eq)
  then show "p = p'" using assms(2,3) by simp
qed simp

lemma qnode_at_set:
  assumes "0 < q_capicity q" "length (q_buffer q) = nat (q_capicity q)"
  shows "qnode_at (set_qnode q p n) p' = (if slot q p = slot q p' then n else qnode_at q p')"
  using slot_less[OF assms] by (simp add: qnode_at_def set_qnode_def slot_def nth_list_update)

lemma set_qnode_simps [simp]:
  "q_capicity (set_qnode q p n) = q_capicity q" "q_head (set_qnode q p n) = q_head q"
  "q_tail (set_qnode q p n) = q_tail q" "length (q_buffer (set_qnode q p n)) = length (q_buffer q)"
  by (simp_all add: set_qnode_def)

lemma qnode_at_frame [simp]:
  "qnode_at (q\<lparr>q_head := h\<rparr>) p = qnode_at q p" "qnode_at (q\<lparr>q_tail := t\<rparr>) p = qnode_at q p"
  by (simp_all add: qnode_at_def slot_def)

lemma slot_frame [simp]:
  "slot (q\<lparr>q_head := h\<rparr>) p = slot q p" "slot (q\<lparr>q_tail := t\<rparr>) p = slot q p"
  "slot (set_qnode q p' n) p = slot q p"
  by (simp_all add: slot_def set_qnode_def)


section \<open>Push and Pop refine a bounded list\<close>

lemma queue_invD:
  assumes "queue_inv q"
  shows "0 < q_capicity q" "2 \<le> q_capicity q" "length (q_buffer q) = nat (q_capicity q)"
    "0 \<le> q_tail q" "q_tail q \<le> q_head q" "q_head q \<le> q_tail q + q_capicity q"
    "\<And>p. q_tail q \<le> p \<Longrightarrow> p < q_head q \<Longrightarrow> q_seq (qnode_at q p) = p + 1"
    "\<And>p. q_head q \<le> p \<Longrightarrow> p < q_tail q + q_capicity q \<Longrightarrow> q_seq (qnode_at q p) = p"
    "q_head q + q_capicity q < 2 ^ 63"
  using assms by (auto simp: queue_inv_def ring_inv_def pushes_left_def)

lemma length_queue_list: "queue_inv q \<Longrightarrow> int (length (queue_list q)) = q_head q - q_tail q"
  by (simp add: queue_list_def queue_invD)

lemma seq_at_head_full:
  assumes "queue_inv q" "q_head q = q_tail q + q_capicity q"
  shows "q_seq (qnode_at q (q_head q)) = q_tail q + 1"
proof -
  have "qnode_at q (q_head q) = qnode_at q (q_tail q)" using assms(2) by (simp add: qnode_at_def slot_def)
  then show ?thesis using queue_invD[OF assms(1)] assms(2) by simp
qed

lemma Push_full:
  assumes "queue_inv q" "q_head q = q_tail q + q_capicity q"
  shows "Push spurious q v = Some (False, q)"
proof -
  have "push_loop spurious q (q_head q) = Some (None, q)"
    using seq_at_head_full[OF assms] queue_invD[OF assms(1)] assms(2)
    by (subst push_loop.simps) (simp add: atomic_defs signed_defs)
  then show ?thesis by (simp add: Push_def atomic_defs)
qed

lemma push_loop_room:
  assumes "queue_inv q" "q_head q < q_tail q + q_capicity q"
  shows "push_loop spurious q (q_head q) = Some (Some (q_head q), q\<lparr>q_head := q_head q + 1\<rparr>)"
proof (induction spurious)
  case 0
  show ?case using queue_invD[OF assms(1)] assms(2) by (subst push_loop.simps) (simp add: atomic_defs signed_defs)
next
  case (Suc spurious)
  then show ?case using queue_invD[OF assms(1)] assms(2) by (subst push_loop.simps) (simp add: atomic_defs signed_defs)
qed

lemma Push_room:
  fixes v :: 'a
  assumes "queue_inv q" "q_head q < q_tail q + q_capicity q"
  defines "q' \<equiv> set_qnode (q\<lparr>q_head := q_head q + 1\<rparr>) (q_head q) \<lparr>q_seq = q_head q + 1, q_data = v\<rparr>"
  shows "Push spurious q v = Some (True, q')"
proof -
  have "0 < q_capicity q" "length (q_buffer q) = nat (q_capicity q)" "add64 (q_head q) 1 = Some (q_head q + 1)"
    using queue_invD[OF assms(1)] by (simp_all add: signed_defs)
  then show ?thesis
    by (simp add: Push_def push_loop_room[OF assms(1,2)] atomic_defs Let_def q'_def qnode_at_set)
       (cases "qnode_at q (q_head q)", simp add: set_qnode_def slot_def)
qed

lemma Pop_empty:
  assumes "queue_inv q" "q_head q = q_tail q"
  shows "Pop spurious q = Some (None, q)"
proof -
  have "pop_loop spurious q (q_tail q) = Some (None, q)"
    using queue_invD[OF assms(1)] assms(2) by (subst pop_loop.simps) (simp add: atomic_defs signed_defs)
  then show ?thesis by (simp add: Pop_def atomic_defs)
qed

lemma pop_loop_item:
  assumes "queue_inv q" "q_tail q < q_head q"
  shows "pop_loop spurious q (q_tail q) = Some (Some (q_tail q), q\<lparr>q_tail := q_tail q + 1\<rparr>)"
proof (induction spurious)
  case 0
  show ?case using queue_invD[OF assms(1)] assms(2) by (subst pop_loop.simps) (simp add: atomic_defs signed_defs)
next
  case (Suc spurious)
  then show ?case using queue_invD[OF assms(1)] assms(2) by (subst pop_loop.simps) (simp add: atomic_defs signed_defs)
qed

lemma Pop_item:
  assumes "queue_inv q" "q_tail q < q_head q"
  defines "q' \<equiv> set_qnode (q\<lparr>q_tail := q_tail q + 1\<rparr>) (q_tail q)
      (qnode_at q (q_tail q)\<lparr>q_seq := q_tail q + q_capicity q\<rparr>)"
  shows "Pop spurious q = Some (Some (q_data (qnode_at q (q_tail q))), q')"
proof -
  have "add64 (q_tail q) (q_capicity q) = Some (q_tail q + q_capicity q)"
    using queue_invD[OF assms(1)] by (simp add: signed_defs)
  then show ?thesis by (simp add: Pop_def pop_loop_item[OF assms(1,2)] atomic_defs Let_def q'_def)
qed

lemma push_room_inv:
  fixes v :: 'a
  assumes "queue_inv q" "q_head q < q_tail q + q_capicity q"
  defines "q' \<equiv> set_qnode (q\<lparr>q_head := q_head q + 1\<rparr>) (q_head q) \<lparr>q_seq = q_head q + 1, q_data = v\<rparr>"
  shows "ring_inv q'" "queue_list q' = queue_list q @ [v]"
proof -
  note I = queue_invD[OF assms(1)]
  have node: "qnode_at q' p = (if p = q_head q then \<lparr>q_seq = q_head q + 1, q_data = v\<rparr> else qnode_at q p)"
    if "q_tail q \<le> p" "p < q_tail q + q_capicity q" for p
    using that I slot_eq_iff[OF I(1), of p "q_head q"] slot_eq_iff[OF I(1), of "q_head q" p] assms(2)
    unfolding q'_def by (cases p "q_head q" rule: linorder_cases) (auto simp: qnode_at_set)
  have f: "q_capicity q' = q_capicity q" "q_tail q' = q_tail q" "q_head q' = q_head q + 1"
    "length (q_buffer q') = length (q_buffer q)" by (simp_all add: q'_def)
  show "ring_inv q'" using I assms(2) node by (auto simp: ring_inv_def f)
  show "queue_list q' = queue_list q @ [v]"
    using I assms(2) node by (auto simp: queue_list_def f upto_rec2[of "q_tail q" "q_head q"])
qed

lemma pop_item_inv:
  assumes "queue_inv q" "q_tail q < q_head q"
  defines "q' \<equiv> set_qnode (q\<lparr>q_tail := q_tail q + 1\<rparr>) (q_tail q)
      (qnode_at q (q_tail q)\<lparr>q_seq := q_tail q + q_capicity q\<rparr>)"
  shows "queue_inv q'" "queue_list q = q_data (qnode_at q (q_tail q)) # queue_list q'"
proof -
  note I = queue_invD[OF assms(1)]
  have node: "qnode_at q' p = qnode_at q p" if "q_tail q < p" "p < q_tail q + q_capicity q" for p
    using that I slot_eq_iff[OF I(1), of "q_tail q" p] unfolding q'_def by (simp add: qnode_at_set)
  have last: "q_seq (qnode_at q' (q_tail q + q_capicity q)) = q_tail q + q_capicity q"
    using I unfolding q'_def by (simp add: qnode_at_set) (simp add: slot_def)
  have f: "q_capicity q' = q_capicity q" "q_tail q' = q_tail q + 1" "q_head q' = q_head q"
    "length (q_buffer q') = length (q_buffer q)" by (simp_all add: q'_def)
  show "queue_inv q'"
    unfolding queue_inv_def ring_inv_def pushes_left_def f
  proof (intro conjI ballI)
    fix p assume "p \<in> {q_head q..<q_tail q + 1 + q_capicity q}"
    then consider "q_head q \<le> p" "p < q_tail q + q_capicity q" | "p = q_tail q + q_capicity q" by force
    then show "q_seq (qnode_at q' p) = p" using I assms(2) node last by cases auto
  qed (use I assms(2) node in auto)
  show "queue_list q = q_data (qnode_at q (q_tail q)) # queue_list q'"
    using I assms(2) node by (auto simp: queue_list_def f upto_rec1[of "q_tail q" "q_head q - 1"])
qed

section \<open>The interface of a bounded queue\<close>

text \<open>
  What a client of the queue relies on: a push appends unless the queue is full, a pop removes
  the first element unless the queue is empty, and both return.
\<close>

locale bounded_fifo =
  fixes inv :: "'q \<Rightarrow> bool" and elems :: "'q \<Rightarrow> 'a list" and cap :: "'q \<Rightarrow> int" and left :: "'q \<Rightarrow> int"
    and push :: "'q \<Rightarrow> 'a \<Rightarrow> (bool \<times> 'q) option" and pop :: "'q \<Rightarrow> ('a option \<times> 'q) option"
  assumes push_full: "inv q \<Longrightarrow> int (length (elems q)) = cap q \<Longrightarrow> push q v = Some (False, q)"
    and push_room: "inv q \<Longrightarrow> int (length (elems q)) < cap q \<Longrightarrow> 0 < left q \<Longrightarrow>
      \<exists>q'. push q v = Some (True, q') \<and> inv q' \<and> elems q' = elems q @ [v] \<and> cap q' = cap q \<and> left q' = left q - 1"
    and pop_empty: "inv q \<Longrightarrow> elems q = [] \<Longrightarrow> pop q = Some (None, q)"
    and pop_item: "inv q \<Longrightarrow> elems q = x # xs \<Longrightarrow>
      \<exists>q'. pop q = Some (Some x, q') \<and> inv q' \<and> elems q' = xs \<and> cap q' = cap q \<and> left q' = left q"
    and bounded: "inv q \<Longrightarrow> int (length (elems q)) \<le> cap q"
begin

lemma push_cases:
  assumes "inv q" "0 < left q"
  obtains (room) q' where "int (length (elems q)) < cap q" "push q v = Some (True, q')" "inv q'"
      "elems q' = elems q @ [v]" "cap q' = cap q" "left q' = left q - 1"
    | (full) "int (length (elems q)) = cap q" "push q v = Some (False, q)"
proof (cases "int (length (elems q)) = cap q")
  case True
  then show thesis using assms(1) push_full full by blast
next
  case False
  then have "int (length (elems q)) < cap q" using bounded[OF assms(1)] by simp
  then show thesis using push_room[OF assms(1) _ assms(2), of v] room by blast
qed

fun push_all :: "'q \<Rightarrow> 'a list \<Rightarrow> (nat \<times> 'q) option" where
  "push_all q [] = Some (0, q)"
| "push_all q (v # vs) =
     (case push q v of
        None \<Rightarrow> None
      | Some (ok, q) \<Rightarrow> map_option (\<lambda>(n, q). (if ok then Suc n else n, q)) (push_all q vs))"

fun drain :: "nat \<Rightarrow> 'q \<Rightarrow> ('a list \<times> 'q) option" where
  "drain 0 q = None"
| "drain (Suc fuel) q =
     (case pop q of
        None \<Rightarrow> None
      | Some (None, q) \<Rightarrow> Some ([], q)
      | Some (Some x, q) \<Rightarrow> map_option (\<lambda>(xs, q). (x # xs, q)) (drain fuel q))"

text \<open>A run of pushes keeps what fits, in order, and refuses the rest.\<close>

lemma push_all_keeps_prefix:
  assumes "inv q" "int (length vs) \<le> left q"
  shows "\<exists>q' n. push_all q vs = Some (n, q') \<and> inv q' \<and> cap q' = cap q \<and>
    n = min (length vs) (nat (cap q) - length (elems q)) \<and> elems q' = elems q @ take n vs"
  using assms
proof (induction vs arbitrary: q)
  case (Cons v vs)
  have l: "0 < left q" using Cons.prems(2) by simp
  from Cons.prems(1) l show ?case
  proof (cases rule: push_cases[where v = v])
    case (room q')
    have "int (length vs) \<le> left q'" using Cons.prems(2) room(6) by simp
    from Cons.IH[OF room(3) this] room show ?thesis by (force simp: min_def split: if_splits)
  next
    case full
    from Cons.IH[OF Cons.prems(1)] Cons.prems(2) full show ?thesis by (auto simp: min_def)
  qed
qed simp

text \<open>Popping until the queue reports empty returns the elements in order.\<close>

lemma drain_all:
  assumes "inv q" "length (elems q) < fuel"
  shows "\<exists>q'. drain fuel q = Some (elems q, q') \<and> inv q' \<and> elems q' = []"
  using assms
proof (induction fuel arbitrary: q)
  case (Suc fuel)
  show ?case
  proof (cases "elems q")
    case Nil
    then show ?thesis using Suc.prems pop_empty by auto
  next
    case (Cons x xs)
    then obtain q' where "pop q = Some (Some x, q')" "inv q'" "elems q' = xs"
      using pop_item Suc.prems by blast
    with Suc.IH[of q'] Suc.prems Cons show ?thesis by auto
  qed
qed simp

lemma push_all_drain:
  assumes "inv q" "elems q = []" "int (length vs) \<le> left q"
  shows "\<exists>n q' q''. push_all q vs = Some (n, q') \<and> drain (Suc (length vs)) q' = Some (take (nat (cap q)) vs, q'')"
proof -
  obtain q' n where p: "push_all q vs = Some (n, q')" "inv q'" "n = min (length vs) (nat (cap q))"
    "elems q' = take n vs"
    using push_all_keeps_prefix[OF assms(1,3)] assms(2) by auto
  then have "length (elems q') < Suc (length vs)" by simp
  from drain_all[OF p(2) this] p show ?thesis by (auto simp: min_def split: if_splits)
qed

end

interpretation ring: bounded_fifo queue_inv queue_list q_capicity pushes_left "Push spurious" "Pop spurious" for spurious
proof
  fix q :: "'a queue" and v x :: 'a and xs
  assume I: "queue_inv q"
  note len = length_queue_list[OF I]
  { assume "int (length (queue_list q)) = q_capicity q"
    then show "Push spurious q v = Some (False, q)" using Push_full[OF I] len by simp }
  { assume "int (length (queue_list q)) < q_capicity q" "0 < pushes_left q"
    then have h: "q_head q < q_tail q + q_capicity q" using len by simp
    from Push_room[OF I h] push_room_inv[OF I h, of v] \<open>0 < pushes_left q\<close> queue_invD(2)[OF I]
    show "\<exists>q'. Push spurious q v = Some (True, q') \<and> queue_inv q' \<and> queue_list q' = queue_list q @ [v] \<and>
        q_capicity q' = q_capicity q \<and> pushes_left q' = pushes_left q - 1" by (auto simp: queue_inv_def pushes_left_def) }
  { assume "queue_list q = []"
    then show "Pop spurious q = Some (None, q)" using Pop_empty[OF I] len by simp }
  { assume l: "queue_list q = x # xs"
    then have "q_tail q < q_head q" using len by auto
    from Pop_item[OF I this] pop_item_inv[OF I this] l
    show "\<exists>q'. Pop spurious q = Some (Some x, q') \<and> queue_inv q' \<and> queue_list q' = xs \<and>
        q_capicity q' = q_capicity q \<and> pushes_left q' = pushes_left q" by (auto simp: pushes_left_def) }
  show "int (length (queue_list q)) \<le> q_capicity q" using len queue_invD(6)[OF I] by simp
qed

lemma Queue_new_inv:
  assumes "2 \<le> c" "c < 2 ^ 63"
  shows "queue_inv (Queue_new d c)" "queue_list (Queue_new d c) = []" "q_capicity (Queue_new d c) = c"
    "pushes_left (Queue_new d c) = 2 ^ 63 - 1 - c"
  using assms by (auto simp: queue_inv_def ring_inv_def pushes_left_def Queue_new_def queue_list_def qnode_at_def slot_def)

section \<open>Properties of the ring buffer\<close>

text \<open>C21: With a capacity of at least two, in every state between two operations and as long as the next position plus the capacity stays
  below 2^63, Push returns, however often its compare-and-swap fails spuriously; it succeeds exactly when fewer than
  capicity_ elements are stored, then the new value is the last element, and otherwise the queue
  is unchanged. The invariant holds again.\<close>

theorem Push_refines:
  assumes "2 \<le> q_capicity q" "ring_inv q" "q_head q + 1 + q_capicity q < 2 ^ 63"
  shows "\<exists>q'. Push spurious q v = Some (int (length (queue_list q)) < q_capicity q, q') \<and> ring_inv q' \<and>
    q_capicity q' = q_capicity q \<and>
    queue_list q' = (if int (length (queue_list q)) < q_capicity q then queue_list q @ [v] else queue_list q)"
proof -
  have q: "queue_inv q" "0 < pushes_left q" using assms by (simp_all add: queue_inv_def pushes_left_def)
  then show ?thesis
    by (cases rule: ring.push_cases[where v = v and spurious = spurious]) (simp_all add: assms queue_inv_def)
qed

theorem Push_refines_witness:
  "\<exists>q'. Push 3 (Queue_new (0::nat) 2) 7 = Some (True, q') \<and> queue_list q' = [7]"
proof -
  have "ring_inv (Queue_new (0::nat) 2)" using Queue_new_inv(1)[of 2 "0::nat"] by (simp add: queue_inv_def)
  from Push_refines[OF _ this, of 3 7] Queue_new_inv(2,3)[of 2 "0::nat"] show ?thesis by (auto simp: Queue_new_def)
qed

text \<open>C31: With a capacity of at least two, in every state between two operations and as long as the positions plus the capacity are
  below 2^63, Pop returns, however often its compare-and-swap fails spuriously; on an empty queue it reports failure
  and changes nothing, otherwise it hands out the oldest element and removes exactly it.\<close>

theorem Pop_refines:
  assumes "2 \<le> q_capicity q" "ring_inv q" "q_head q + q_capicity q < 2 ^ 63"
  shows "case queue_list q of
      [] \<Rightarrow> Pop spurious q = Some (None, q)
    | x # xs \<Rightarrow> \<exists>q'. Pop spurious q = Some (Some x, q') \<and> ring_inv q' \<and> queue_list q' = xs \<and>
        q_capicity q' = q_capicity q"
proof -
  have "queue_inv q" using assms by (simp add: queue_inv_def pushes_left_def)
  then show ?thesis using ring.pop_empty[of q spurious] ring.pop_item[of q _ _ spurious]
    by (auto simp: queue_inv_def split: list.split)
qed

text \<open>A value that was pushed comes out, after a spurious failure.\<close>

theorem Pop_refines_witness:
  "\<exists>q q'. queue_list q = [7 :: nat] \<and> Pop 1 q = Some (Some 7, q') \<and> queue_list q' = []"
proof -
  obtain q where q: "queue_inv q" "queue_list q = [7 :: nat]"
    using ring.push_room[OF Queue_new_inv(1), of 2 "0::nat" 0 7] Queue_new_inv(2-4)[of 2 "0::nat"] by auto
  then have "2 \<le> q_capicity q" "ring_inv q" "q_head q + q_capicity q < 2 ^ 63" by (simp_all add: queue_inv_def pushes_left_def)
  from Pop_refines[OF this, of 1] q(2) show ?thesis by auto
qed

subsection \<open>A queue of capacity one\<close>

text \<open>
  With one slot the sequence number after a push, pos + 1, is the number that marks the slot
  free for the next producer.
\<close>

definition pop_stuck :: "'a queue \<Rightarrow> bool" where
  "pop_stuck q \<longleftrightarrow> q_tail q + 1 < q_seq (qnode_at q (q_tail q))"

lemma pop_loop_stuck:
  assumes "pop_stuck q"
  shows "pop_loop spurious q (q_tail q) = None"
proof (rule ccontr)
  assume "pop_loop spurious q (q_tail q) \<noteq> None"
  then obtain r where r: "pop_loop spurious q (q_tail q) = Some r" by auto
  have "\<not> (pop_stuck q \<and> q_tail q = q_tail q)"
  proof (rule pop_loop.raw_induct[where P = "\<lambda>_ q pos r. \<not> (pop_stuck q \<and> pos = q_tail q)", OF _ r])
    fix f :: "nat \<Rightarrow> 'a queue \<Rightarrow> int \<Rightarrow> (int option \<times> 'a queue) option" and q :: "'a queue" and sp pos r
    assume IH: "\<And>sp q pos r. f sp q pos = Some r \<Longrightarrow> \<not> (pop_stuck q \<and> pos = q_tail q)"
      and e: "do { next \<leftarrow> add64 pos 1;
          diff \<leftarrow> sub64 (LoadAcquire (q_seq (qnode_at q pos))) next;
          if diff = 0 then
            (case CasWeakAcqRel (0 < sp) (q_tail q) pos next of
               (ok, pos', t) \<Rightarrow> if ok then Some (Some pos, q\<lparr>q_tail := t\<rparr>) else f (sp - 1) q pos')
          else if diff < 0 then Some (None, q)
          else f sp q (LoadAcquire (q_tail q)) } = Some r"
    show "\<not> (pop_stuck q \<and> pos = q_tail q)"
      using e IH[of sp q "q_tail q" r] by (auto simp: pop_stuck_def atomic_defs signed_defs split: if_splits)
  qed
  with assms show False by simp
qed

text \<open>a queue constructed with capacity 1 is not a queue of one element: a second Push succeeds
  and overwrites the value of the first, and the Pop that follows never returns.\<close>

theorem queue_capacity_one_broken:
  "\<exists>q1 q2. Push s1 (Queue_new d 1) v = Some (True, q1) \<and> Push s2 q1 w = Some (True, q2) \<and>
    q_data (qnode_at q2 0) = w \<and> Pop s3 q2 = None"
proof -
  let ?q = "\<lambda>n x. \<lparr>q_capicity = 1, q_buffer = [\<lparr>q_seq = n, q_data = x\<rparr>], q_head = n, q_tail = 0\<rparr>"
  have loop: "push_loop sp (?q n x) n = Some (Some n, (?q n x)\<lparr>q_head := n + 1\<rparr>)" if "0 \<le> n" "n < 2" for sp n x
    using that
    by (induction sp) (subst push_loop.simps, simp add: atomic_defs signed_defs qnode_at_def slot_def)+
  have push: "Push sp (?q n x) y = Some (True, ?q (n + 1) y)" if "0 \<le> n" "n < 2" for sp n x y
    using loop[OF that, of sp x] that
    by (simp add: Push_def atomic_defs signed_defs Let_def qnode_at_def slot_def set_qnode_def)
  have "pop_stuck (?q 2 w)" by (simp add: pop_stuck_def qnode_at_def slot_def)
  then have "Pop s3 (?q 2 w) = None" using pop_loop_stuck[of "?q 2 w" s3] by (simp add: Pop_def atomic_defs)
  moreover have "Queue_new d 1 = ?q 0 d" by (simp add: Queue_new_def)
  ultimately show ?thesis using push[of 0 s1 d v] push[of 1 s2 v w] by (simp add: qnode_at_def slot_def)
qed

end
