(* ===== verification/Queue_Concurrent.thy ===== *)
theory Queue_Concurrent
  imports Bounded_Queue
begin

text \<open>
  The queue of util/queue.h under any interleaving of any number of producers and consumers.
  Every atomic operation and every access to the data of a slot is one step of one thread; a
  thread is where the text of Push or Pop puts it, with its local variables. Weak
  compare-and-swaps may fail spuriously. The field pushed is a ghost: the values in the order in
  which their producers won the compare-and-swap on head_.

  The invariant ties the sequence number of a slot to the thread that owns it. From it follow
  that no two threads ever access the data of one slot at the same time, and that the consumer
  that took position p reads the value of the producer that took position p.
\<close>

section \<open>Threads and steps\<close>

datatype 'a pc =
    Idle
  | PushLoad 'a int            \<comment> \<open>pos is loaded, next: load the sequence number\<close>
  | PushSeq 'a int int         \<comment> \<open>seq is loaded, next: compare and act\<close>
  | PushReload 'a              \<comment> \<open>diff was positive, next: load head_ again\<close>
  | PushWrite 'a int           \<comment> \<open>owns the slot of pos, next: write the data\<close>
  | PushPublish 'a int         \<comment> \<open>data written, next: store pos + 1\<close>
  | PushDone bool
  | PopLoad int
  | PopSeq int int
  | PopReload
  | PopRead int                \<comment> \<open>owns the slot of pos, next: read the data\<close>
  | PopPublish int 'a          \<comment> \<open>data read, next: store pos + capicity_\<close>
  | PopDone "'a option"

record 'a qsys =
  que :: "'a queue"
  pcs :: "nat \<Rightarrow> 'a pc"
  pushed :: "'a list"

definition set_seq :: "'a queue \<Rightarrow> int \<Rightarrow> int \<Rightarrow> 'a queue" where
  "set_seq q pos s = set_qnode q pos (qnode_at q pos\<lparr>q_seq := s\<rparr>)"

definition set_data :: "'a queue \<Rightarrow> int \<Rightarrow> 'a \<Rightarrow> 'a queue" where
  "set_data q pos v = set_qnode q pos (qnode_at q pos\<lparr>q_data := v\<rparr>)"

abbreviation goto :: "'a qsys \<Rightarrow> nat \<Rightarrow> 'a pc \<Rightarrow> 'a qsys" where
  "goto s t c \<equiv> s\<lparr>pcs := (pcs s)(t := c)\<rparr>"

inductive qstep :: "'a qsys \<Rightarrow> 'a qsys \<Rightarrow> bool" where
  push_call: "pcs s t = Idle \<Longrightarrow> qstep s (goto s t (PushLoad v (LoadAcquire (q_head (que s)))))"
| push_seq: "pcs s t = PushLoad v pos \<Longrightarrow>
    qstep s (goto s t (PushSeq v pos (LoadAcquire (q_seq (qnode_at (que s) pos)))))"
| push_cas: "pcs s t = PushSeq v pos sq \<Longrightarrow> sq - pos = 0 \<Longrightarrow>
    CasWeakAcqRel sp (q_head (que s)) pos (pos + 1) = (ok, pos', h) \<Longrightarrow>
    qstep s (if ok then (goto s t (PushWrite v pos))\<lparr>que := (que s)\<lparr>q_head := h\<rparr>, pushed := pushed s @ [v]\<rparr>
             else goto s t (PushLoad v pos'))"
| push_full: "pcs s t = PushSeq v pos sq \<Longrightarrow> sq - pos < 0 \<Longrightarrow> qstep s (goto s t (PushDone False))"
| push_late: "pcs s t = PushSeq v pos sq \<Longrightarrow> 0 < sq - pos \<Longrightarrow> qstep s (goto s t (PushReload v))"
| push_reload: "pcs s t = PushReload v \<Longrightarrow>
    qstep s (goto s t (PushLoad v (LoadAcquire (q_head (que s)))))"
| push_write: "pcs s t = PushWrite v pos \<Longrightarrow>
    qstep s ((goto s t (PushPublish v pos))\<lparr>que := set_data (que s) pos v\<rparr>)"
| push_publish: "pcs s t = PushPublish v pos \<Longrightarrow>
    qstep s ((goto s t (PushDone True))\<lparr>que := set_seq (que s) pos (pos + 1)\<rparr>)"
| push_return: "pcs s t = PushDone b \<Longrightarrow> qstep s (goto s t Idle)"
| pop_call: "pcs s t = Idle \<Longrightarrow> qstep s (goto s t (PopLoad (LoadAcquire (q_tail (que s)))))"
| pop_seq: "pcs s t = PopLoad pos \<Longrightarrow>
    qstep s (goto s t (PopSeq pos (LoadAcquire (q_seq (qnode_at (que s) pos)))))"
| pop_cas: "pcs s t = PopSeq pos sq \<Longrightarrow> sq - (pos + 1) = 0 \<Longrightarrow>
    CasWeakAcqRel sp (q_tail (que s)) pos (pos + 1) = (ok, pos', h) \<Longrightarrow>
    qstep s (if ok then (goto s t (PopRead pos))\<lparr>que := (que s)\<lparr>q_tail := h\<rparr>\<rparr>
             else goto s t (PopLoad pos'))"
| pop_empty: "pcs s t = PopSeq pos sq \<Longrightarrow> sq - (pos + 1) < 0 \<Longrightarrow> qstep s (goto s t (PopDone None))"
| pop_late: "pcs s t = PopSeq pos sq \<Longrightarrow> 0 < sq - (pos + 1) \<Longrightarrow> qstep s (goto s t PopReload)"
| pop_reload: "pcs s t = PopReload \<Longrightarrow>
    qstep s (goto s t (PopLoad (LoadAcquire (q_tail (que s)))))"
| pop_read: "pcs s t = PopRead pos \<Longrightarrow>
    qstep s (goto s t (PopPublish pos (q_data (qnode_at (que s) pos))))"
| pop_publish: "pcs s t = PopPublish pos v \<Longrightarrow>
    qstep s ((goto s t (PopDone (Some v)))\<lparr>que := set_seq (que s) pos (pos + q_capicity (que s))\<rparr>)"
| pop_return: "pcs s t = PopDone r \<Longrightarrow> qstep s (goto s t Idle)"

inductive qreach :: "'a queue \<Rightarrow> 'a qsys \<Rightarrow> bool" for q0 where
  start: "qreach q0 \<lparr>que = q0, pcs = (\<lambda>_. Idle), pushed = []\<rparr>"
| step: "qreach q0 s \<Longrightarrow> qstep s s' \<Longrightarrow> qreach q0 s'"

section \<open>The invariant\<close>

fun push_owns :: "'a pc \<Rightarrow> int option" where
  "push_owns (PushWrite v p) = Some p"
| "push_owns (PushPublish v p) = Some p"
| "push_owns _ = None"

fun pop_owns :: "'a pc \<Rightarrow> int option" where
  "pop_owns (PopRead p) = Some p"
| "pop_owns (PopPublish p v) = Some p"
| "pop_owns _ = None"

definition ring_ok :: "'a qsys \<Rightarrow> bool" where
  "ring_ok s \<longleftrightarrow>
     2 \<le> q_capicity (que s) \<and> length (q_buffer (que s)) = nat (q_capicity (que s)) \<and>
     0 \<le> q_tail (que s) \<and> q_tail (que s) \<le> q_head (que s) \<and>
     q_head (que s) \<le> q_tail (que s) + q_capicity (que s) \<and>
     int (length (pushed s)) = q_head (que s)"

definition owners_ok :: "'a qsys \<Rightarrow> bool" where
  "owners_ok s \<longleftrightarrow>
     (\<forall>t p. push_owns (pcs s t) = Some p \<longrightarrow> q_tail (que s) \<le> p \<and> p < q_head (que s)) \<and>
     (\<forall>t p. pop_owns (pcs s t) = Some p \<longrightarrow>
        0 \<le> p \<and> q_head (que s) - q_capicity (que s) \<le> p \<and> p < q_tail (que s)) \<and>
     (\<forall>t t' p. push_owns (pcs s t) = Some p \<longrightarrow> push_owns (pcs s t') = Some p \<longrightarrow> t = t') \<and>
     (\<forall>t t' p. pop_owns (pcs s t) = Some p \<longrightarrow> pop_owns (pcs s t') = Some p \<longrightarrow> t = t')"

definition pushing :: "'a qsys \<Rightarrow> int \<Rightarrow> bool" where
  "pushing s p \<longleftrightarrow> (\<exists>t. push_owns (pcs s t) = Some p)"

definition popping :: "'a qsys \<Rightarrow> int \<Rightarrow> bool" where
  "popping s p \<longleftrightarrow> (\<exists>t. pop_owns (pcs s t) = Some p)"

definition holds_value :: "'a qsys \<Rightarrow> int \<Rightarrow> bool" where
  "holds_value s p \<longleftrightarrow>
     q_seq (qnode_at (que s) p) = p + 1 \<and> q_data (qnode_at (que s) p) = pushed s ! nat p"

definition slots_ok :: "'a qsys \<Rightarrow> bool" where
  "slots_ok s \<longleftrightarrow>
     (\<forall>p. q_tail (que s) \<le> p \<longrightarrow> p < q_head (que s) \<longrightarrow>
        (if pushing s p then q_seq (qnode_at (que s) p) = p else holds_value s p)) \<and>
     (\<forall>p. q_head (que s) - q_capicity (que s) \<le> p \<longrightarrow> p < q_tail (que s) \<longrightarrow>
        (if popping s p then holds_value s p
         else q_seq (qnode_at (que s) p) = p + q_capicity (que s)))"

fun pc_ok :: "'a queue \<Rightarrow> 'a list \<Rightarrow> 'a pc \<Rightarrow> bool" where
  "pc_ok q vs (PushLoad v p) \<longleftrightarrow> 0 \<le> p \<and> p \<le> q_head q"
| "pc_ok q vs (PushSeq v p sq) \<longleftrightarrow> 0 \<le> p \<and> p \<le> q_head q \<and>
     (p = q_head q \<and> sq = p \<longrightarrow> q_seq (qnode_at q p) = p)"
| "pc_ok q vs (PushWrite v p) \<longleftrightarrow> vs ! nat p = v"
| "pc_ok q vs (PushPublish v p) \<longleftrightarrow> vs ! nat p = v \<and> q_data (qnode_at q p) = v"
| "pc_ok q vs (PopLoad p) \<longleftrightarrow> 0 \<le> p \<and> p \<le> q_tail q"
| "pc_ok q vs (PopSeq p sq) \<longleftrightarrow> 0 \<le> p \<and> p \<le> q_tail q \<and>
     (p = q_tail q \<and> sq = p + 1 \<longrightarrow> q_seq (qnode_at q p) = p + 1)"
| "pc_ok q vs (PopPublish p v) \<longleftrightarrow> vs ! nat p = v"
| "pc_ok q vs _ \<longleftrightarrow> True"

definition qsys_inv :: "'a qsys \<Rightarrow> bool" where
  "qsys_inv s \<longleftrightarrow> ring_ok s \<and> owners_ok s \<and> slots_ok s \<and> (\<forall>t. pc_ok (que s) (pushed s) (pcs s t))"

section \<open>Every step keeps it\<close>

lemma ring_okD:
  assumes "ring_ok s"
  shows "0 < q_capicity (que s)" "2 \<le> q_capicity (que s)"
    "length (q_buffer (que s)) = nat (q_capicity (que s))" "0 \<le> q_tail (que s)"
    "q_tail (que s) \<le> q_head (que s)" "q_head (que s) \<le> q_tail (que s) + q_capicity (que s)"
    "length (pushed s) = nat (q_head (que s))"
  using assms by (auto simp: ring_ok_def)

text \<open>The live positions, the last capicity_ ones below head_, are in distinct slots.\<close>

lemma live_slot_eq:
  assumes "0 < q_capicity q" "q_head q - q_capicity q \<le> p" "p < q_head q"
    "q_head q - q_capicity q \<le> p'" "p' < q_head q"
  shows "slot q p = slot q p' \<longleftrightarrow> p = p'"
  using slot_eq_iff[of q p p'] slot_eq_iff[of q p' p] assms by (cases p p' rule: linorder_cases) auto

lemma slot_head: "0 < q_capicity q \<Longrightarrow> slot q (p - q_capicity q) = slot q p"
  "0 < q_capicity q \<Longrightarrow> qnode_at q (p - q_capicity q) = qnode_at q p"
  by (simp_all add: slot_def qnode_at_def)

lemma slots_okD:
  assumes "slots_ok s"
  shows "q_tail (que s) \<le> p \<Longrightarrow> p < q_head (que s) \<Longrightarrow> pushing s p \<Longrightarrow> q_seq (qnode_at (que s) p) = p"
    "q_tail (que s) \<le> p \<Longrightarrow> p < q_head (que s) \<Longrightarrow> \<not> pushing s p \<Longrightarrow> holds_value s p"
    "q_head (que s) - q_capicity (que s) \<le> p \<Longrightarrow> p < q_tail (que s) \<Longrightarrow> popping s p \<Longrightarrow> holds_value s p"
    "q_head (que s) - q_capicity (que s) \<le> p \<Longrightarrow> p < q_tail (que s) \<Longrightarrow> \<not> popping s p \<Longrightarrow>
      q_seq (qnode_at (que s) p) = p + q_capicity (que s)"
  using assms by (auto simp: slots_ok_def split: if_splits)

lemma slot_seq_cases:
  assumes "slots_ok s"
  shows "q_tail (que s) \<le> p \<Longrightarrow> p < q_head (que s) \<Longrightarrow>
      q_seq (qnode_at (que s) p) = p \<or> q_seq (qnode_at (que s) p) = p + 1"
    "q_head (que s) - q_capicity (que s) \<le> p \<Longrightarrow> p < q_tail (que s) \<Longrightarrow>
      q_seq (qnode_at (que s) p) = p + 1 \<or> q_seq (qnode_at (que s) p) = p + q_capicity (que s)"
  using slots_okD[OF assms] by (auto simp: holds_value_def)

lemma pushing_upd:
  assumes "push_owns (pcs s t) = None"
  shows "pushing (s\<lparr>pcs := (pcs s)(t := c)\<rparr>) p \<longleftrightarrow> push_owns c = Some p \<or> pushing s p"
  using assms by (auto simp: pushing_def) (metis option.distinct(1))

lemma popping_upd:
  assumes "pop_owns (pcs s t) = None"
  shows "popping (s\<lparr>pcs := (pcs s)(t := c)\<rparr>) p \<longleftrightarrow> pop_owns c = Some p \<or> popping s p"
  using assms by (auto simp: popping_def) (metis option.distinct(1))

lemma owners_okD:
  assumes "owners_ok s"
  shows "push_owns (pcs s t) = Some p \<Longrightarrow> q_tail (que s) \<le> p \<and> p < q_head (que s)"
    "pop_owns (pcs s t) = Some p \<Longrightarrow>
      0 \<le> p \<and> q_head (que s) - q_capicity (que s) \<le> p \<and> p < q_tail (que s)"
    "push_owns (pcs s t) = Some p \<Longrightarrow> push_owns (pcs s t') = Some p \<Longrightarrow> t = t'"
    "pop_owns (pcs s t) = Some p \<Longrightarrow> pop_owns (pcs s t') = Some p \<Longrightarrow> t = t'"
  using assms unfolding owners_ok_def by blast+

lemma pushing_range:
  assumes "owners_ok s"
  shows "pushing s p \<Longrightarrow> q_tail (que s) \<le> p \<and> p < q_head (que s)"
    "popping s p \<Longrightarrow> 0 \<le> p \<and> q_head (que s) - q_capicity (que s) \<le> p \<and> p < q_tail (que s)"
  using owners_okD[OF assms] unfolding pushing_def popping_def by blast+

text \<open>A thread whose new state owns at most what the old one did, plus a position nobody owns.\<close>

lemma owners_okI:
  assumes "\<And>t p. push_owns (pcs s t) = Some p \<Longrightarrow> q_tail (que s) \<le> p \<and> p < q_head (que s)"
    and "\<And>t p. pop_owns (pcs s t) = Some p \<Longrightarrow>
        0 \<le> p \<and> q_head (que s) - q_capicity (que s) \<le> p \<and> p < q_tail (que s)"
    and "\<And>t t' p. push_owns (pcs s t) = Some p \<Longrightarrow> push_owns (pcs s t') = Some p \<Longrightarrow> t = t'"
    and "\<And>t t' p. pop_owns (pcs s t) = Some p \<Longrightarrow> pop_owns (pcs s t') = Some p \<Longrightarrow> t = t'"
  shows "owners_ok s"
  unfolding owners_ok_def using assms by blast

lemma slots_okI:
  assumes "\<And>p. q_tail (que s) \<le> p \<Longrightarrow> p < q_head (que s) \<Longrightarrow> pushing s p \<Longrightarrow>
      q_seq (qnode_at (que s) p) = p"
    and "\<And>p. q_tail (que s) \<le> p \<Longrightarrow> p < q_head (que s) \<Longrightarrow> \<not> pushing s p \<Longrightarrow> holds_value s p"
    and "\<And>p. q_head (que s) - q_capicity (que s) \<le> p \<Longrightarrow> p < q_tail (que s) \<Longrightarrow> popping s p \<Longrightarrow>
      holds_value s p"
    and "\<And>p. q_head (que s) - q_capicity (que s) \<le> p \<Longrightarrow> p < q_tail (que s) \<Longrightarrow> \<not> popping s p \<Longrightarrow>
      q_seq (qnode_at (que s) p) = p + q_capicity (que s)"
  shows "slots_ok s"
  unfolding slots_ok_def using assms by auto

lemma pushing_frame [simp]:
  "pushing (s\<lparr>que := q\<rparr>) p = pushing s p" "popping (s\<lparr>que := q\<rparr>) p = popping s p"
  "pushing (s\<lparr>pushed := vs\<rparr>) p = pushing s p" "popping (s\<lparr>pushed := vs\<rparr>) p = popping s p"
  by (simp_all add: pushing_def popping_def)

lemma inv_goto:
  assumes "qsys_inv s" "push_owns (pcs s t) = None" "pop_owns (pcs s t) = None"
    "push_owns c = None" "pop_owns c = None" "pc_ok (que s) (pushed s) c"
  shows "qsys_inv (goto s t c)"
proof -
  have po: "push_owns (((pcs s)(t := c)) t') = push_owns (pcs s t')" for t' using assms by simp
  have qo: "pop_owns (((pcs s)(t := c)) t') = pop_owns (pcs s t')" for t' using assms by simp
  have "pushing (goto s t c) p = pushing s p" "popping (goto s t c) p = popping s p" for p
    using assms by (simp_all add: pushing_upd popping_upd)
  then have "slots_ok (goto s t c) = slots_ok s" by (simp add: slots_ok_def holds_value_def)
  moreover have "owners_ok (goto s t c) = owners_ok s"
  proof -
    have g: "pcs (goto s t c) = (pcs s)(t := c)" "que (goto s t c) = que s" by simp_all
    show ?thesis unfolding owners_ok_def by (simp only: g po qo)
  qed
  ultimately show ?thesis using assms(1,6) by (simp add: qsys_inv_def ring_ok_def)
qed

text \<open>A slot whose sequence number admits the next producer is free: the queue is not full, and
  the last consumer of the slot has published.\<close>

lemma head_free:
  assumes "qsys_inv s" "q_seq (qnode_at (que s) (q_head (que s))) = q_head (que s)"
  shows "q_head (que s) < q_tail (que s) + q_capicity (que s)"
    "\<not> popping s (q_head (que s) - q_capicity (que s))"
proof -
  have R: "ring_ok s" and S: "slots_ok s" using assms(1) by (simp_all add: qsys_inv_def)
  note r = ring_okD[OF R] and n = slot_head(2)[OF ring_okD(1)[OF R], of "q_head (que s)"]
  show lt: "q_head (que s) < q_tail (que s) + q_capicity (que s)"
  proof (rule ccontr)
    assume "\<not> ?thesis"
    then have e: "q_head (que s) - q_capicity (que s) = q_tail (que s)" using r by simp
    show False using slot_seq_cases(1)[OF S, of "q_tail (que s)"] r assms(2) n e by auto
  qed
  show "\<not> popping s (q_head (que s) - q_capicity (que s))"
    using slots_okD(3)[OF S, of "q_head (que s) - q_capicity (que s)"] lt r assms(2) n
    by (auto simp: holds_value_def)
qed

lemma inv_push_cas:
  assumes "qsys_inv s" "pcs s t = PushSeq v pos pos" "q_head (que s) = pos"
  shows "qsys_inv ((goto s t (PushWrite v pos))\<lparr>que := (que s)\<lparr>q_head := pos + 1\<rparr>, pushed := pushed s @ [v]\<rparr>)"
  (is "qsys_inv ?s'")
proof -
  have R: "ring_ok s" and O: "owners_ok s" and S: "slots_ok s"
    and P: "\<And>t. pc_ok (que s) (pushed s) (pcs s t)" using assms(1) by (simp_all add: qsys_inv_def)
  note r = ring_okD[OF R]
  have sq: "q_seq (qnode_at (que s) pos) = pos" using P[of t] assms(2,3) by simp
  note f = head_free[OF assms(1), unfolded assms(3), OF sq]
  note own = owners_okD[OF O, unfolded assms(3)] and rng = pushing_range[OF O, unfolded assms(3)]
  have own2: "pos - q_capicity (que s) < p" if "popping s p" for p
    using rng(2)[OF that] f(2) that by (cases "p = pos - q_capicity (que s)") auto
  have pu: "pushing ?s' p \<longleftrightarrow> p = pos \<or> pushing s p" "popping ?s' p = popping s p" for p
    using assms(2) pushing_upd[of s t "PushWrite v pos" p] popping_upd[of s t "PushWrite v pos" p]
    by (auto simp: pushing_def popping_def)
  have ho: "holds_value ?s' p = holds_value s p" if "p < pos" "0 \<le> p" for p
    using that r assms(3) by (simp add: holds_value_def nth_append)
  have "ring_ok ?s'" using R f(1) assms(3) by (simp add: ring_ok_def)
  moreover have "owners_ok ?s'"
  proof (rule owners_okI)
    fix t' p assume "push_owns (pcs ?s' t') = Some p"
    then have "pushing ?s' p" unfolding pushing_def by (rule exI)
    then show "q_tail (que ?s') \<le> p \<and> p < q_head (que ?s')" using pu rng r assms(3) by force
  next
    fix t' p assume "pop_owns (pcs ?s' t') = Some p"
    then have "popping ?s' p" unfolding popping_def by (rule exI)
    then show "0 \<le> p \<and> q_head (que ?s') - q_capicity (que ?s') \<le> p \<and> p < q_tail (que ?s')"
      using pu own2 rng by force
  next
    fix t' t'' p assume "push_owns (pcs ?s' t') = Some p" "push_owns (pcs ?s' t'') = Some p"
    then show "t' = t''" using own(1,3) assms(2) by (fastforce split: if_splits)
  next
    fix t' t'' p assume "pop_owns (pcs ?s' t') = Some p" "pop_owns (pcs ?s' t'') = Some p"
    then show "t' = t''" using own(4) by (auto split: if_splits)
  qed
  moreover have "slots_ok ?s'"
  proof (rule slots_okI)
    fix p assume "q_tail (que ?s') \<le> p" "p < q_head (que ?s')"
    then have p: "q_tail (que s) \<le> p" "p = pos \<or> p < pos" by auto
    { assume "pushing ?s' p"
      then show "q_seq (qnode_at (que ?s') p) = p" using p slots_okD(1)[OF S, of p] sq assms(3) pu by auto }
    { assume "\<not> pushing ?s' p"
      then show "holds_value ?s' p" using p slots_okD(2)[OF S, of p] ho r(4) assms(3) pu by auto }
  next
    fix p assume "q_head (que ?s') - q_capicity (que ?s') \<le> p" "p < q_tail (que ?s')"
    then have p: "q_head (que s) - q_capicity (que s) \<le> p" "p < q_tail (que s)" "p < pos"
      using r assms(3) by auto
    { assume "popping ?s' p"
      then show "holds_value ?s' p" using p slots_okD(3)[OF S p(1,2)] rng(2) ho pu by auto }
    { assume "\<not> popping ?s' p"
      then show "q_seq (qnode_at (que ?s') p) = p + q_capicity (que ?s')"
        using slots_okD(4)[OF S p(1,2)] pu by simp }
  qed
  moreover have "pc_ok (que ?s') (pushed ?s') (pcs ?s' t')" for t'
    using P[of t'] r assms(2,3) own(1)[of t'] own(2)[of t']
    by (cases "t' = t"; cases "pcs s t'") (auto simp: nth_append)
  ultimately show ?thesis by (simp add: qsys_inv_def)
qed

lemma qnode_at_set_data:
  assumes "0 < q_capicity q" "length (q_buffer q) = nat (q_capicity q)"
  shows "qnode_at (set_data q pos v) p =
    (if slot q pos = slot q p then qnode_at q pos\<lparr>q_data := v\<rparr> else qnode_at q p)"
  by (simp add: set_data_def qnode_at_set[OF assms])

lemma qnode_at_set_seq:
  assumes "0 < q_capicity q" "length (q_buffer q) = nat (q_capicity q)"
  shows "qnode_at (set_seq q pos n) p =
    (if slot q pos = slot q p then qnode_at q pos\<lparr>q_seq := n\<rparr> else qnode_at q p)"
  by (simp add: set_seq_def qnode_at_set[OF assms])

lemma same_slot_same_node: "slot q p = slot q p' \<Longrightarrow> qnode_at q p = qnode_at q p'"
  by (simp add: qnode_at_def)

lemma set_data_simps [simp]:
  "q_capicity (set_data q p v) = q_capicity q" "q_head (set_data q p v) = q_head q"
  "q_tail (set_data q p v) = q_tail q" "length (q_buffer (set_data q p v)) = length (q_buffer q)"
  "q_capicity (set_seq q p n) = q_capicity q" "q_head (set_seq q p n) = q_head q"
  "q_tail (set_seq q p n) = q_tail q" "length (q_buffer (set_seq q p n)) = length (q_buffer q)"
  by (simp_all add: set_data_def set_seq_def)

text \<open>The same positions are owned, by the same threads.\<close>

lemma owners_ok_same:
  assumes "owners_ok s" "push_owns c = push_owns (pcs s t)" "pop_owns c = pop_owns (pcs s t)"
    "q_head q = q_head (que s)" "q_tail q = q_tail (que s)" "q_capicity q = q_capicity (que s)"
  shows "owners_ok ((goto s t c)\<lparr>que := q\<rparr>)"
    "pushing ((goto s t c)\<lparr>que := q\<rparr>) p = pushing s p" "popping ((goto s t c)\<lparr>que := q\<rparr>) p = popping s p"
proof -
  have po: "push_owns (((pcs s)(t := c)) t') = push_owns (pcs s t')" for t' using assms by simp
  have qo: "pop_owns (((pcs s)(t := c)) t') = pop_owns (pcs s t')" for t' using assms by simp
  have g: "pcs ((goto s t c)\<lparr>que := q\<rparr>) = (pcs s)(t := c)" "que ((goto s t c)\<lparr>que := q\<rparr>) = q" by simp_all
  show "owners_ok ((goto s t c)\<lparr>que := q\<rparr>)"
    using assms(1) unfolding owners_ok_def by (simp only: g po qo assms(4-6)) 
  show "pushing ((goto s t c)\<lparr>que := q\<rparr>) p = pushing s p" "popping ((goto s t c)\<lparr>que := q\<rparr>) p = popping s p"
    unfolding pushing_def popping_def by (simp_all only: g po qo)
qed

text \<open>A thread gives up the position it owns.\<close>

lemma owners_ok_release:
  assumes "owners_ok s" "push_owns c = None" "pop_owns c = None"
    "q_head q = q_head (que s)" "q_tail q = q_tail (que s)" "q_capicity q = q_capicity (que s)"
  shows "owners_ok ((goto s t c)\<lparr>que := q\<rparr>)"
    "pushing ((goto s t c)\<lparr>que := q\<rparr>) p \<longleftrightarrow> pushing s p \<and> push_owns (pcs s t) \<noteq> Some p"
    "popping ((goto s t c)\<lparr>que := q\<rparr>) p \<longleftrightarrow> popping s p \<and> pop_owns (pcs s t) \<noteq> Some p"
proof -
  note o = owners_okD[OF assms(1)]
  have po: "push_owns (((pcs s)(t := c)) t') = Some p \<longleftrightarrow> t' \<noteq> t \<and> push_owns (pcs s t') = Some p" for t' p
    using assms(2) by simp
  have qo: "pop_owns (((pcs s)(t := c)) t') = Some p \<longleftrightarrow> t' \<noteq> t \<and> pop_owns (pcs s t') = Some p" for t' p
    using assms(3) by simp
  have g: "pcs ((goto s t c)\<lparr>que := q\<rparr>) = (pcs s)(t := c)" "que ((goto s t c)\<lparr>que := q\<rparr>) = q" by simp_all
  show "owners_ok ((goto s t c)\<lparr>que := q\<rparr>)"
    unfolding owners_ok_def g po qo assms(4-6) using o by blast
  show "pushing ((goto s t c)\<lparr>que := q\<rparr>) p \<longleftrightarrow> pushing s p \<and> push_owns (pcs s t) \<noteq> Some p"
    unfolding pushing_def g po using o(3) by metis
  show "popping ((goto s t c)\<lparr>que := q\<rparr>) p \<longleftrightarrow> popping s p \<and> pop_owns (pcs s t) \<noteq> Some p"
    unfolding popping_def g qo using o(4) by metis
qed

lemma inv_push_write:
  assumes "qsys_inv s" "pcs s t = PushWrite v pos"
  shows "qsys_inv ((goto s t (PushPublish v pos))\<lparr>que := set_data (que s) pos v\<rparr>)" (is "qsys_inv ?s'")
proof -
  have R: "ring_ok s" and O: "owners_ok s" and S: "slots_ok s"
    and P: "\<And>t. pc_ok (que s) (pushed s) (pcs s t)" using assms(1) by (simp_all add: qsys_inv_def)
  note r = ring_okD[OF R] and own = owners_okD[OF O] and rng = pushing_range[OF O]
  have pos: "q_tail (que s) \<le> pos" "pos < q_head (que s)" using own(1)[of t pos] assms(2) by simp_all
  note same = owners_ok_same[OF O, of "PushPublish v pos" t "set_data (que s) pos v"]
  have pu: "pushing ?s' p = pushing s p" "popping ?s' p = popping s p" for p
    using same(2,3) assms(2) by simp_all
  have ps: "pushing s pos" using assms(2) by (auto simp: pushing_def intro: exI[of _ t])
  note nd = qnode_at_set_data[OF r(1,3), of pos v]
  have sq: "q_seq (qnode_at (set_data (que s) pos v) p) = q_seq (qnode_at (que s) p)" for p
    using same_slot_same_node[of "que s" pos p] by (simp add: nd)
  have nd': "qnode_at (set_data (que s) pos v) p = qnode_at (que s) p"
    if "p \<noteq> pos" "q_head (que s) - q_capicity (que s) \<le> p" "p < q_head (que s)" for p
    using live_slot_eq[OF r(1), of pos p] that pos r by (simp add: nd)
  have hv: "holds_value ?s' p = holds_value s p"
    if "p \<noteq> pos" "q_head (que s) - q_capicity (que s) \<le> p" "p < q_head (que s)" for p
    using nd'[OF that] by (simp add: holds_value_def)
  have "slots_ok ?s'"
  proof (rule slots_okI; unfold pu)
    fix p assume p: "q_tail (que ?s') \<le> p" "p < q_head (que ?s')" "\<not> pushing s p"
    then show "holds_value ?s' p" using slots_okD(2)[OF S, of p] hv[of p] ps r by force
  next
    fix p assume p: "q_head (que ?s') - q_capicity (que ?s') \<le> p" "p < q_tail (que ?s')" "popping s p"
    then show "holds_value ?s' p" using slots_okD(3)[OF S, of p] hv[of p] pos by force
  qed (use slots_okD(1,4)[OF S] sq in simp_all)
  moreover have "pc_ok (que ?s') (pushed ?s') (pcs ?s' t')" for t'
  proof (cases "t' = t")
    case True
    then show ?thesis using P[of t] assms(2) by (simp add: nd)
  next
    case False
    have "qnode_at (set_data (que s) pos v) p = qnode_at (que s) p" if "push_owns (pcs s t') = Some p" for p
    proof (rule nd')
      show "p \<noteq> pos" using own(3)[OF that, of t] assms(2) False by auto
    qed (use own(1)[OF that] r in auto)
    then show ?thesis using P[of t'] False by (cases "pcs s t'") (simp_all add: sq)
  qed
  moreover have "owners_ok ?s'" using same(1) assms(2) by simp
  ultimately show ?thesis using R by (simp add: qsys_inv_def ring_ok_def)
qed

lemma inv_push_publish:
  assumes "qsys_inv s" "pcs s t = PushPublish v pos"
  shows "qsys_inv ((goto s t (PushDone True))\<lparr>que := set_seq (que s) pos (pos + 1)\<rparr>)" (is "qsys_inv ?s'")
proof -
  have R: "ring_ok s" and O: "owners_ok s" and S: "slots_ok s"
    and P: "\<And>t. pc_ok (que s) (pushed s) (pcs s t)" using assms(1) by (simp_all add: qsys_inv_def)
  note r = ring_okD[OF R] and own = owners_okD[OF O] and rng = pushing_range[OF O]
  have pos: "q_tail (que s) \<le> pos" "pos < q_head (que s)" using own(1)[of t pos] assms(2) by simp_all
  note rel = owners_ok_release[OF O, of "PushDone True" "set_seq (que s) pos (pos + 1)" t]
  have pu: "pushing ?s' p \<longleftrightarrow> pushing s p \<and> p \<noteq> pos" "popping ?s' p = popping s p" for p
    using rel(2,3)[of p] assms(2) by auto
  have ps: "pushing s pos" using assms(2) by (auto simp: pushing_def intro: exI[of _ t])
  have sqpos: "q_seq (qnode_at (que s) pos) = pos" by (rule slots_okD(1)[OF S pos ps])
  note nd = qnode_at_set_seq[OF r(1,3), of pos "pos + 1"]
  have nd': "qnode_at (que ?s') p = qnode_at (que s) p"
    if "p \<noteq> pos" "q_head (que s) - q_capicity (que s) \<le> p" "p < q_head (que s)" for p
    using live_slot_eq[OF r(1), of pos p] that pos r by (simp add: nd)
  have dat: "q_data (qnode_at (set_seq (que s) pos (pos + 1)) p) = q_data (qnode_at (que s) p)" for p
    using same_slot_same_node[of "que s" pos p] by (simp add: nd)
  have hv: "holds_value ?s' p = holds_value s p"
    if "p \<noteq> pos" "q_head (que s) - q_capicity (que s) \<le> p" "p < q_head (que s)" for p
    using nd'[OF that] by (simp add: holds_value_def)
  have hpos: "holds_value ?s' pos" using P[of t] assms(2) by (simp add: holds_value_def nd)
  have "slots_ok ?s'"
  proof (rule slots_okI; unfold pu)
    fix p assume p: "q_tail (que ?s') \<le> p" "p < q_head (que ?s')" "pushing s p \<and> p \<noteq> pos"
    then show "q_seq (qnode_at (que ?s') p) = p" using slots_okD(1)[OF S, of p] nd'[of p] r by simp
  next
    fix p assume p: "q_tail (que ?s') \<le> p" "p < q_head (que ?s')" "\<not> (pushing s p \<and> p \<noteq> pos)"
    then show "holds_value ?s' p" using slots_okD(2)[OF S, of p] hv[of p] hpos r by force
  next
    fix p assume p: "q_head (que ?s') - q_capicity (que ?s') \<le> p" "p < q_tail (que ?s')" "popping s p"
    then show "holds_value ?s' p" using slots_okD(3)[OF S, of p] hv[of p] pos by force
  next
    fix p assume p: "q_head (que ?s') - q_capicity (que ?s') \<le> p" "p < q_tail (que ?s')" "\<not> popping s p"
    then show "q_seq (qnode_at (que ?s') p) = p + q_capicity (que ?s')"
      using slots_okD(4)[OF S, of p] nd'[of p] pos by simp
  qed
  moreover have "pc_ok (que ?s') (pushed ?s') (pcs ?s' t')" for t'
  proof -
    have "qnode_at (que ?s') p = qnode_at (que s) p"
      if "p = q_head (que s)" "q_seq (qnode_at (que s) p) = p" for p
      using same_slot_same_node[of "que s" pos p] that sqpos pos by (auto simp: nd)
    moreover have "qnode_at (que ?s') p = qnode_at (que s) p"
      if "p = q_tail (que s)" "q_seq (qnode_at (que s) p) = p + 1" for p
      using same_slot_same_node[of "que s" pos p] nd'[of p] that sqpos pos r by (cases "p = pos") auto
    ultimately show ?thesis using P[of t'] by (cases "t' = t"; cases "pcs s t'") (auto simp: dat)
  qed
  moreover have "owners_ok ?s'" using rel(1) by simp
  ultimately show ?thesis using R by (simp add: qsys_inv_def ring_ok_def)
qed

lemma tail_filled:
  assumes "qsys_inv s" "q_seq (qnode_at (que s) (q_tail (que s))) = q_tail (que s) + 1"
  shows "q_tail (que s) < q_head (que s)" "\<not> pushing s (q_tail (que s))"
proof -
  have R: "ring_ok s" and S: "slots_ok s" using assms(1) by (simp_all add: qsys_inv_def)
  note r = ring_okD[OF R] and n = slot_head(2)[OF ring_okD(1)[OF R], of "q_head (que s)"]
  show lt: "q_tail (que s) < q_head (que s)"
  proof (rule ccontr)
    assume "\<not> ?thesis"
    then have e: "q_tail (que s) = q_head (que s)" using r by simp
    show False
      using slot_seq_cases(2)[OF S, of "q_head (que s) - q_capicity (que s)"] r assms(2) n e by auto
  qed
  show "\<not> pushing s (q_tail (que s))" using slots_okD(1)[OF S, of "q_tail (que s)"] lt assms(2) by auto
qed

lemma inv_pop_cas:
  assumes "qsys_inv s" "pcs s t = PopSeq pos (pos + 1)" "q_tail (que s) = pos"
  shows "qsys_inv ((goto s t (PopRead pos))\<lparr>que := (que s)\<lparr>q_tail := pos + 1\<rparr>\<rparr>)" (is "qsys_inv ?s'")
proof -
  have R: "ring_ok s" and O: "owners_ok s" and S: "slots_ok s"
    and P: "\<And>t. pc_ok (que s) (pushed s) (pcs s t)" using assms(1) by (simp_all add: qsys_inv_def)
  note r = ring_okD[OF R]
  have sq: "q_seq (qnode_at (que s) pos) = pos + 1" using P[of t] assms(2,3) by simp
  note f = tail_filled[OF assms(1), unfolded assms(3), OF sq]
  note own = owners_okD[OF O, unfolded assms(3)] and rng = pushing_range[OF O, unfolded assms(3)]
  have own2: "pos < p" if "pushing s p" for p
    using rng(1)[OF that] f(2) that by (cases "p = pos") auto
  have pu: "popping ?s' p \<longleftrightarrow> p = pos \<or> popping s p" "pushing ?s' p = pushing s p" for p
    using assms(2) pushing_upd[of s t "PopRead pos" p] popping_upd[of s t "PopRead pos" p]
    by (auto simp: pushing_def popping_def)
  have ho: "holds_value ?s' p = holds_value s p" for p by (simp add: holds_value_def)
  have "ring_ok ?s'" using R f(1) assms(3) by (simp add: ring_ok_def)
  moreover have "owners_ok ?s'"
  proof (rule owners_okI)
    fix t' p assume "push_owns (pcs ?s' t') = Some p"
    then have "pushing ?s' p" unfolding pushing_def by (rule exI)
    then show "q_tail (que ?s') \<le> p \<and> p < q_head (que ?s')" using pu own2 rng by force
  next
    fix t' p assume "pop_owns (pcs ?s' t') = Some p"
    then have "popping ?s' p" unfolding popping_def by (rule exI)
    then show "0 \<le> p \<and> q_head (que ?s') - q_capicity (que ?s') \<le> p \<and> p < q_tail (que ?s')"
      using pu rng r assms(3) by force
  next
    fix t' t'' p assume "push_owns (pcs ?s' t') = Some p" "push_owns (pcs ?s' t'') = Some p"
    then show "t' = t''" using own(3) by (auto split: if_splits)
  next
    fix t' t'' p assume "pop_owns (pcs ?s' t') = Some p" "pop_owns (pcs ?s' t'') = Some p"
    then show "t' = t''" using own(2,4) assms(2) by (fastforce split: if_splits)
  qed
  moreover have "slots_ok ?s'"
  proof (rule slots_okI; unfold pu ho)
    fix p assume "q_head (que ?s') - q_capicity (que ?s') \<le> p" "p < q_tail (que ?s')"
      "p = pos \<or> popping s p"
    then show "holds_value s p"
      using slots_okD(3)[OF S, of p] slots_okD(2)[OF S, of pos] f assms(3) by (cases "p = pos") auto
  next
    fix p assume "q_head (que ?s') - q_capicity (que ?s') \<le> p" "p < q_tail (que ?s')"
      "\<not> (p = pos \<or> popping s p)"
    then show "q_seq (qnode_at (que ?s') p) = p + q_capicity (que ?s')"
      using slots_okD(4)[OF S, of p] assms(3) by auto
  qed (use slots_okD(1,2)[OF S] assms(3) in simp_all)
  moreover have "pc_ok (que ?s') (pushed ?s') (pcs ?s' t')" for t'
    using P[of t'] assms(2,3) by (cases "t' = t"; cases "pcs s t'") auto
  ultimately show ?thesis by (simp add: qsys_inv_def)
qed

lemma inv_pop_read:
  assumes "qsys_inv s" "pcs s t = PopRead pos"
  shows "qsys_inv (goto s t (PopPublish pos (q_data (qnode_at (que s) pos))))" (is "qsys_inv (goto s t ?c)")
proof -
  have R: "ring_ok s" and O: "owners_ok s" and S: "slots_ok s"
    and P: "\<And>t. pc_ok (que s) (pushed s) (pcs s t)" using assms(1) by (simp_all add: qsys_inv_def)
  have e: "goto s t ?c = (goto s t ?c)\<lparr>que := que s\<rparr>" by simp
  have pp: "popping s pos" using assms(2) by (auto simp: popping_def intro: exI[of _ t])
  then have "holds_value s pos" using slots_okD(3)[OF S] pushing_range(2)[OF O pp] by blast
  then have c: "pc_ok (que s) (pushed s) ?c" by (simp add: holds_value_def)
  note same = owners_ok_same[OF O, of ?c t "que s", folded e]
  have pu: "pushing (goto s t ?c) p = pushing s p" "popping (goto s t ?c) p = popping s p" for p
    using same(2,3)[of p] assms(2) by simp_all
  have "slots_ok (goto s t ?c) = slots_ok s" unfolding slots_ok_def pu by (simp add: holds_value_def)
  moreover have "owners_ok (goto s t ?c)" using same(1) assms(2) by simp
  ultimately show ?thesis using R S P c by (simp add: qsys_inv_def ring_ok_def)
qed

lemma inv_pop_publish:
  assumes "qsys_inv s" "pcs s t = PopPublish pos v"
  shows "qsys_inv ((goto s t (PopDone (Some v)))\<lparr>que := set_seq (que s) pos (pos + q_capicity (que s))\<rparr>)"
    (is "qsys_inv ?s'")
proof -
  have R: "ring_ok s" and O: "owners_ok s" and S: "slots_ok s"
    and P: "\<And>t. pc_ok (que s) (pushed s) (pcs s t)" using assms(1) by (simp_all add: qsys_inv_def)
  note r = ring_okD[OF R] and own = owners_okD[OF O] and rng = pushing_range[OF O]
  have pos: "q_head (que s) - q_capicity (que s) \<le> pos" "pos < q_tail (que s)"
    using own(2)[of t pos] assms(2) by simp_all
  note rel = owners_ok_release[OF O, of "PopDone (Some v)" "set_seq (que s) pos (pos + q_capicity (que s))" t]
  have pu: "popping ?s' p \<longleftrightarrow> popping s p \<and> p \<noteq> pos" "pushing ?s' p = pushing s p" for p
    using rel(2,3)[of p] assms(2) by auto
  have ps: "popping s pos" using assms(2) by (auto simp: popping_def intro: exI[of _ t])
  have sqpos: "q_seq (qnode_at (que s) pos) = pos + 1"
    using slots_okD(3)[OF S pos ps] by (simp add: holds_value_def)
  note nd = qnode_at_set_seq[OF r(1,3), of pos "pos + q_capicity (que s)"]
  have nd': "qnode_at (que ?s') p = qnode_at (que s) p"
    if "p \<noteq> pos" "q_head (que s) - q_capicity (que s) \<le> p" "p < q_head (que s)" for p
    using live_slot_eq[OF r(1), of pos p] that pos r by (simp add: nd)
  have dat: "q_data (qnode_at (set_seq (que s) pos (pos + q_capicity (que s))) p) = q_data (qnode_at (que s) p)" for p
    using same_slot_same_node[of "que s" pos p] by (simp add: nd)
  have hv: "holds_value ?s' p = holds_value s p"
    if "p \<noteq> pos" "q_head (que s) - q_capicity (que s) \<le> p" "p < q_head (que s)" for p
    using nd'[OF that] by (simp add: holds_value_def)
  have "slots_ok ?s'"
  proof (rule slots_okI; unfold pu)
    fix p assume p: "q_tail (que ?s') \<le> p" "p < q_head (que ?s')" "pushing s p"
    then show "q_seq (qnode_at (que ?s') p) = p" using slots_okD(1)[OF S, of p] nd'[of p] r pos by simp
  next
    fix p assume p: "q_tail (que ?s') \<le> p" "p < q_head (que ?s')" "\<not> pushing s p"
    then show "holds_value ?s' p" using slots_okD(2)[OF S, of p] hv[of p] pos r by force
  next
    fix p assume p: "q_head (que ?s') - q_capicity (que ?s') \<le> p" "p < q_tail (que ?s')" "popping s p \<and> p \<noteq> pos"
    then show "holds_value ?s' p" using slots_okD(3)[OF S, of p] hv[of p] r by force
  next
    fix p assume p: "q_head (que ?s') - q_capicity (que ?s') \<le> p" "p < q_tail (que ?s')"
      "\<not> (popping s p \<and> p \<noteq> pos)"
    then show "q_seq (qnode_at (que ?s') p) = p + q_capicity (que ?s')"
      using slots_okD(4)[OF S, of p] nd'[of p] r nd by (cases "p = pos") auto
  qed
  moreover have "pc_ok (que ?s') (pushed ?s') (pcs ?s' t')" for t'
  proof -
    note n = slot_head(1)[OF r(1), of "q_head (que s)"]
    have "qnode_at (que ?s') p = qnode_at (que s) p"
      if "p = q_head (que s)" "q_seq (qnode_at (que s) p) = p" for p
      using live_slot_eq[OF r(1), of pos "q_head (que s) - q_capicity (que s)"] n that sqpos pos r
        same_slot_same_node[of "que s" pos p]
      by (cases "pos = q_head (que s) - q_capicity (que s)") (auto simp: nd)
    moreover have "qnode_at (que ?s') p = qnode_at (que s) p"
      if "p = q_tail (que s)" "q_seq (qnode_at (que s) p) = p + 1" for p
      using tail_filled(1)[OF assms(1)] nd'[of p] that pos r by auto
    ultimately show ?thesis using P[of t'] by (cases "t' = t"; cases "pcs s t'") (auto simp: dat)
  qed
  moreover have "owners_ok ?s'" using rel(1) by simp
  ultimately show ?thesis using R by (simp add: qsys_inv_def ring_ok_def)
qed

lemma inv_nonneg:
  assumes "qsys_inv s"
  shows "0 \<le> q_tail (que s)" "0 \<le> q_head (que s)"
  using assms by (auto simp: qsys_inv_def ring_ok_def)

lemma qstep_inv:
  assumes "qstep s s'" "qsys_inv s"
  shows "qsys_inv s'"
  using assms
proof (induction rule: qstep.induct)
  case (push_cas s t v pos sq sp ok pos' h)
  from push_cas(3) show ?case
  proof (cases rule: CasWeak_cases)
    case success
    then show ?thesis using inv_push_cas[of s t v pos] push_cas by simp
  next
    case failure
    then show ?thesis using push_cas inv_goto[of s t "PushLoad v pos'"]
      by (simp add: qsys_inv_def ring_ok_def)
  qed
next
  case (pop_cas s t pos sq sp ok pos' h)
  from pop_cas(3) show ?case
  proof (cases rule: CasWeak_cases)
    case success
    then show ?thesis using inv_pop_cas[of s t pos] pop_cas by simp
  next
    case failure
    then show ?thesis using pop_cas inv_goto[of s t "PopLoad pos'"]
      by (simp add: qsys_inv_def ring_ok_def)
  qed
next
  case (push_seq s t v pos)
  then have "pc_ok (que s) (pushed s) (PushLoad v pos)" by (metis qsys_inv_def)
  with push_seq show ?case by (intro inv_goto) (auto simp: atomic_defs)
next
  case (pop_seq s t pos)
  then have "pc_ok (que s) (pushed s) (PopLoad pos)" by (metis qsys_inv_def)
  with pop_seq show ?case by (intro inv_goto) (auto simp: atomic_defs)
next
  case (push_write s t v pos) then show ?case by (simp add: inv_push_write)
next
  case (push_publish s t v pos) then show ?case by (simp add: inv_push_publish)
next
  case (pop_read s t pos) then show ?case by (simp add: inv_pop_read)
next
  case (pop_publish s t pos v) then show ?case by (simp add: inv_pop_publish)
qed (auto intro!: inv_goto simp: atomic_defs inv_nonneg)

lemma qreach_inv:
  assumes "2 \<le> c" "qreach (Queue_new d c) s"
  shows "qsys_inv s"
  using assms(2)
proof (induction rule: qreach.induct)
  case start
  have "q_seq (qnode_at (Queue_new d c) p) = p + c" if "- c \<le> p" "p < 0" for p
  proof -
    have "p mod c = (p + c) mod c" by simp
    also have "\<dots> = p + c" using that by (intro mod_pos_pos_trivial) auto
    finally show ?thesis using that assms(1) by (simp add: qnode_at_def slot_def Queue_new_def)
  qed
  then show ?case
    using assms(1) Queue_new_inv(1)[OF assms(1), of d]
    by (auto simp: qsys_inv_def ring_ok_def owners_ok_def slots_ok_def pushing_def popping_def queue_inv_def)
       (simp_all add: Queue_new_def)
next
  case (step s s')
  then show ?case using qstep_inv by blast
qed

section \<open>Undisturbed operations\<close>

text \<open>A thread that runs alone through the loop of Push wins the slot of head_ if it is free, and
  through the loop of Pop the slot of tail_ if it is filled.\<close>

lemma push_claims:
  assumes "qreach q0 s" "pcs s t = Idle" "q_seq (qnode_at (que s) (q_head (que s))) = q_head (que s)"
  shows "qreach q0 ((goto s t (PushWrite v (q_head (que s))))\<lparr>que := (que s)\<lparr>q_head := q_head (que s) + 1\<rparr>,
    pushed := pushed s @ [v]\<rparr>)"
proof -
  let ?h = "q_head (que s)"
  have 1: "qreach q0 (goto s t (PushLoad v ?h))"
    using qreach.step[OF assms(1) qstep.push_call[OF assms(2), of v]] by (simp add: atomic_defs)
  have 2: "qreach q0 (goto s t (PushSeq v ?h ?h))"
    using qreach.step[OF 1 qstep.push_seq[of _ t v ?h]] assms(3) by (simp add: atomic_defs)
  have "qreach q0 (if True then (goto (goto s t (PushSeq v ?h ?h)) t (PushWrite v ?h))
      \<lparr>que := (que (goto s t (PushSeq v ?h ?h)))\<lparr>q_head := ?h + 1\<rparr>,
       pushed := pushed (goto s t (PushSeq v ?h ?h)) @ [v]\<rparr>
    else goto (goto s t (PushSeq v ?h ?h)) t (PushLoad v ?h))"
    by (rule qreach.step[OF 2 qstep.push_cas[where sp = False and sq = ?h]]) (simp_all add: atomic_defs)
  then show ?thesis by simp
qed

lemma pop_claims:
  assumes "qreach q0 s" "pcs s t = Idle" "q_seq (qnode_at (que s) (q_tail (que s))) = q_tail (que s) + 1"
  shows "qreach q0 ((goto s t (PopRead (q_tail (que s))))\<lparr>que := (que s)\<lparr>q_tail := q_tail (que s) + 1\<rparr>\<rparr>)"
proof -
  let ?h = "q_tail (que s)"
  have 1: "qreach q0 (goto s t (PopLoad ?h))"
    using qreach.step[OF assms(1) qstep.pop_call[OF assms(2)]] by (simp add: atomic_defs)
  have 2: "qreach q0 (goto s t (PopSeq ?h (?h + 1)))"
    using qreach.step[OF 1 qstep.pop_seq[of _ t ?h]] assms(3) by (simp add: atomic_defs)
  have "qreach q0 (if True then (goto (goto s t (PopSeq ?h (?h + 1))) t (PopRead ?h))
      \<lparr>que := (que (goto s t (PopSeq ?h (?h + 1))))\<lparr>q_tail := ?h + 1\<rparr>\<rparr>
    else goto (goto s t (PopSeq ?h (?h + 1))) t (PopLoad ?h))"
    by (rule qreach.step[OF 2 qstep.pop_cas[where sp = False and sq = "?h + 1"]]) (simp_all add: atomic_defs)
  then show ?thesis by simp
qed

lemma push_finishes:
  assumes "qreach q0 s" "pcs s t = PushWrite v pos"
  shows "qreach q0 ((goto s t Idle)\<lparr>que := set_seq (set_data (que s) pos v) pos (pos + 1)\<rparr>)"
proof -
  have 1: "qreach q0 ((goto s t (PushPublish v pos))\<lparr>que := set_data (que s) pos v\<rparr>)"
    by (rule qreach.step[OF assms(1) qstep.push_write[OF assms(2)]])
  have 2: "qreach q0 ((goto s t (PushDone True))\<lparr>que := set_seq (set_data (que s) pos v) pos (pos + 1)\<rparr>)"
    using qreach.step[OF 1 qstep.push_publish[of _ t v pos]] by simp
  let ?Q = "set_seq (set_data (que s) pos v) pos (pos + 1)"
  have "qreach q0 (goto ((goto s t (PushDone True))\<lparr>que := ?Q\<rparr>) t Idle)"
    by (rule qreach.step[OF 2 qstep.push_return[of _ t True]]) simp
  moreover have "goto ((goto s t (PushDone True))\<lparr>que := ?Q\<rparr>) t Idle = (goto s t Idle)\<lparr>que := ?Q\<rparr>" by simp
  ultimately show ?thesis by (simp only:)
qed

section \<open>Safety of the concurrent queue\<close>

definition touches :: "'a pc \<Rightarrow> int \<Rightarrow> bool" where
  "touches c p \<longleftrightarrow> push_owns c = Some p \<or> pop_owns c = Some p"

text \<open>in every reachable state of any interleaving, two different threads that are between
  winning a position and publishing it are on different slots: no two threads ever read or write
  the data of one slot at the same time.\<close>

theorem queue_slots_exclusive:
  assumes "2 \<le> c" "qreach (Queue_new d c) s" "touches (pcs s t) p" "touches (pcs s t') p'" "t \<noteq> t'"
  shows "slot (que s) p \<noteq> slot (que s) p'"
proof -
  have I: "qsys_inv s" by (rule qreach_inv[OF assms(1,2)])
  then have R: "ring_ok s" and O: "owners_ok s" by (simp_all add: qsys_inv_def)
  note r = ring_okD[OF R] and own = owners_okD[OF O]
  have live: "q_head (que s) - q_capicity (que s) \<le> q \<and> q < q_head (que s)" if "touches (pcs s u) q" for u q
    using own(1,2)[of u q] that r by (auto simp: touches_def)
  have "p \<noteq> p'"
    using own(1,2)[of t p] own(1,2)[of t' p] own(3,4)[of t p t'] assms(3-5) by (fastforce simp: touches_def)
  then show ?thesis using live_slot_eq[OF r(1)] live assms(3,4) by blast
qed

theorem queue_slots_exclusive_witness:
  "\<exists>s. qreach (Queue_new (0::nat) 2) s \<and> pcs s 0 = PushWrite 5 0 \<and> pcs s 1 = PushWrite 6 1 \<and>
    slot (que s) 0 \<noteq> slot (que s) 1"
proof -
  let ?init = "Queue_new (0::nat) 2"
  let ?st = "\<lparr>que = ?init, pcs = (\<lambda>_. Idle), pushed = []\<rparr> :: nat qsys"
  have q0: "?init = \<lparr>q_capicity = 2, q_buffer = [\<lparr>q_seq = 0, q_data = 0\<rparr>, \<lparr>q_seq = 1, q_data = 0\<rparr>],
      q_head = 0, q_tail = 0\<rparr>" by (simp add: Queue_new_def upt_rec)
  have 1: "qreach ?init ((goto ?st 0 (PushWrite 5 0))\<lparr>que := ?init\<lparr>q_head := 1\<rparr>, pushed := [5]\<rparr>)"
    using push_claims[OF qreach.start[of ?init], where t = 0 and v = 5] by (simp add: q0 qnode_at_def slot_def)
  have 2: "qreach ?init ((goto (goto ?st 0 (PushWrite 5 0)) 1 (PushWrite 6 1))
      \<lparr>que := ?init\<lparr>q_head := 2\<rparr>, pushed := [5, 6]\<rparr>)"
    using push_claims[OF 1, where t = 1 and v = 6] by (simp add: q0 qnode_at_def slot_def)
  show ?thesis
    by (rule exI, rule conjI, rule 2, intro conjI,
        rule_tac [3] queue_slots_exclusive[OF _ 2, where t = 0 and t' = 1])
       (simp_all add: touches_def)
qed

text \<open>C14: in every interleaving, the consumer that took position p hands out exactly the p-th value
  in the order in which the producers won their positions; no two consumers hold the same
  position, and never more than capicity_ values are outstanding.\<close>

theorem queue_delivers_in_order:
  assumes "2 \<le> c" "qreach (Queue_new d c) s"
  shows "(pcs s t = PopPublish p v \<longrightarrow> 0 \<le> p \<and> p < int (length (pushed s)) \<and> v = pushed s ! nat p) \<and>
    (pop_owns (pcs s t) = Some p \<and> pop_owns (pcs s t') = Some p \<longrightarrow> t = t') \<and>
    q_tail (que s) \<le> int (length (pushed s)) \<and> int (length (pushed s)) \<le> q_tail (que s) + q_capicity (que s)"
proof -
  have I: "qsys_inv s" by (rule qreach_inv[OF assms(1,2)])
  then have R: "ring_ok s" and O: "owners_ok s" and P: "pc_ok (que s) (pushed s) (pcs s t)"
    by (simp_all add: qsys_inv_def)
  have "0 \<le> p \<and> p < int (length (pushed s)) \<and> v = pushed s ! nat p" if "pcs s t = PopPublish p v"
    using owners_okD(2)[OF O, of t p] that P R by (auto simp: ring_ok_def)
  then show ?thesis using owners_okD(4)[OF O] R by (auto simp: ring_ok_def)
qed

theorem queue_delivers_in_order_witness:
  "\<exists>s. qreach (Queue_new (0::nat) 2) s \<and> pcs s 1 = PopPublish 0 5 \<and> pushed s = [5] \<and> pushed s ! nat 0 = 5"
proof -
  let ?init = "Queue_new (0::nat) 2"
  let ?st = "\<lparr>que = ?init, pcs = (\<lambda>_. Idle), pushed = []\<rparr> :: nat qsys"
  have q0: "?init = \<lparr>q_capicity = 2, q_buffer = [\<lparr>q_seq = 0, q_data = 0\<rparr>, \<lparr>q_seq = 1, q_data = 0\<rparr>],
      q_head = 0, q_tail = 0\<rparr>" by (simp add: Queue_new_def upt_rec)
  let ?q = "\<lambda>t. \<lparr>q_capicity = 2, q_buffer = [\<lparr>q_seq = 1, q_data = 5\<rparr>, \<lparr>q_seq = 1, q_data = 0\<rparr>],
      q_head = 1, q_tail = t\<rparr> :: nat queue"
  have 1: "qreach ?init ((goto ?st 0 (PushWrite 5 0))\<lparr>que := ?init\<lparr>q_head := 1\<rparr>, pushed := [5]\<rparr>)"
    using push_claims[OF qreach.start[of ?init], where t = 0 and v = 5] by (simp add: q0 qnode_at_def slot_def)
  have 2: "qreach ?init ((goto ?st 0 Idle)\<lparr>que := ?q 0, pushed := [5]\<rparr>)"
    using push_finishes[OF 1, where t = 0 and v = 5 and pos = 0]
    by (simp add: q0 qnode_at_def slot_def set_data_def set_seq_def set_qnode_def)
  have 3: "qreach ?init ((goto (goto ?st 0 Idle) 1 (PopRead 0))\<lparr>que := ?q 1, pushed := [5]\<rparr>)"
    using pop_claims[OF 2, where t = 1] by (simp add: qnode_at_def slot_def)
  let ?e = "(goto (goto ?st 0 Idle) 1 (PopPublish 0 5))\<lparr>que := ?q 1, pushed := [5]\<rparr>"
  have 4: "qreach ?init ?e"
    using qreach.step[OF 3 qstep.pop_read[of _ 1 0]] by (simp add: qnode_at_def slot_def)
  have "pcs ?e 1 = PopPublish 0 5" by simp
  with queue_delivers_in_order[OF _ 4, where t = 1 and p = 0 and v = 5 and t' = 1]
  have "pushed ?e ! nat 0 = 5" by (simp only: simp_thms order_refl)
  with 4 show ?thesis by (intro exI[of _ ?e]) simp
qed

end
