(* ===== verification/Murmur.thy ===== *)
theory Murmur
  imports Prelude
begin

text \<open>
  MurmurHash3_x64_128 of util/murmur128_hash.cc, on 64-bit words. A key is the list of the
  len bytes it points to; the two output parameters are the returned pair. Reading the key
  through a uint64_t pointer is the little-endian read of the hosts the library is built for.

  The lemmas show that every stage is a bijection of the 128-bit state, so that the hash is
  injective on the keys of one length up to 16 bytes. The clock cache identifies an entry by
  its 128-bit hash alone; for such keys this loses nothing.
\<close>

unbundle bit_operations_syntax

section \<open>The hash function\<close>

definition rotl64 :: "u64 \<Rightarrow> nat \<Rightarrow> u64" where
  "rotl64 x r = push_bit r x OR drop_bit (64 - r) x"

definition fmix64 :: "u64 \<Rightarrow> u64" where
  "fmix64 k =
     (let k = k XOR drop_bit 33 k;
          k = k * 0xff51afd7ed558ccd;
          k = k XOR drop_bit 33 k;
          k = k * 0xc4ceb9fe1a85ec53
      in k XOR drop_bit 33 k)"

definition c1 :: u64 where "c1 = 0x87c37b91114253d5"

definition c2 :: u64 where "c2 = 0x4cf5ad432745937f"

fun le_bytes :: "u8 list \<Rightarrow> u64" where
  "le_bytes [] = 0"
| "le_bytes (b # bs) = ucast b OR push_bit 8 (le_bytes bs)"

definition block64 :: "u8 list \<Rightarrow> nat \<Rightarrow> u64" where
  "block64 data i = le_bytes (take 8 (drop (8 * i) data))"

definition murmur_body :: "u64 \<times> u64 \<Rightarrow> u64 \<times> u64 \<Rightarrow> u64 \<times> u64" where
  "murmur_body k h =
     (let (k1, k2) = k; (h1, h2) = h;
          k1 = k1 * c1;
          k1 = rotl64 k1 31;
          k1 = k1 * c2;
          h1 = h1 XOR k1;
          h1 = rotl64 h1 27;
          h1 = h1 + h2;
          h1 = h1 * 5 + 0x52dce729;
          k2 = k2 * c2;
          k2 = rotl64 k2 33;
          k2 = k2 * c1;
          h2 = h2 XOR k2;
          h2 = rotl64 h2 31;
          h2 = h2 + h1;
          h2 = h2 * 5 + 0x38495ab5
      in (h1, h2))"

text \<open>
  The switch on len and 15 enters at the case of the remainder and falls through to the
  lower cases: the statement of case j runs exactly when the remainder is at least j.
\<close>

definition tail_k2 :: "u8 list \<Rightarrow> nat \<Rightarrow> u64" where
  "tail_k2 tail rem =
     (let k2 = 0;
          k2 = (if 15 \<le> rem then k2 XOR push_bit 48 (ucast (tail ! 14)) else k2);
          k2 = (if 14 \<le> rem then k2 XOR push_bit 40 (ucast (tail ! 13)) else k2);
          k2 = (if 13 \<le> rem then k2 XOR push_bit 32 (ucast (tail ! 12)) else k2);
          k2 = (if 12 \<le> rem then k2 XOR push_bit 24 (ucast (tail ! 11)) else k2);
          k2 = (if 11 \<le> rem then k2 XOR push_bit 16 (ucast (tail ! 10)) else k2);
          k2 = (if 10 \<le> rem then k2 XOR push_bit 8 (ucast (tail ! 9)) else k2)
      in (if 9 \<le> rem then k2 XOR push_bit 0 (ucast (tail ! 8)) else k2))"

definition tail_k1 :: "u8 list \<Rightarrow> nat \<Rightarrow> u64" where
  "tail_k1 tail rem =
     (let k1 = 0;
          k1 = (if 8 \<le> rem then k1 XOR push_bit 56 (ucast (tail ! 7)) else k1);
          k1 = (if 7 \<le> rem then k1 XOR push_bit 48 (ucast (tail ! 6)) else k1);
          k1 = (if 6 \<le> rem then k1 XOR push_bit 40 (ucast (tail ! 5)) else k1);
          k1 = (if 5 \<le> rem then k1 XOR push_bit 32 (ucast (tail ! 4)) else k1);
          k1 = (if 4 \<le> rem then k1 XOR push_bit 24 (ucast (tail ! 3)) else k1);
          k1 = (if 3 \<le> rem then k1 XOR push_bit 16 (ucast (tail ! 2)) else k1);
          k1 = (if 2 \<le> rem then k1 XOR push_bit 8 (ucast (tail ! 1)) else k1)
      in (if 1 \<le> rem then k1 XOR push_bit 0 (ucast (tail ! 0)) else k1))"

definition murmur_tail :: "u8 list \<Rightarrow> nat \<Rightarrow> u64 \<times> u64 \<Rightarrow> u64 \<times> u64" where
  "murmur_tail tail rem h =
     (let (h1, h2) = h;
          h2 = (if 9 \<le> rem then h2 XOR rotl64 (tail_k2 tail rem * c2) 33 * c1 else h2);
          h1 = (if 1 \<le> rem then h1 XOR rotl64 (tail_k1 tail rem * c1) 31 * c2 else h1)
      in (h1, h2))"

definition murmur_final :: "nat \<Rightarrow> u64 \<times> u64 \<Rightarrow> u64 \<times> u64" where
  "murmur_final len h =
     (let (h1, h2) = h;
          h1 = h1 XOR of_nat len;
          h2 = h2 XOR of_nat len;
          h1 = h1 + h2;
          h2 = h2 + h1;
          h1 = fmix64 h1;
          h2 = fmix64 h2;
          h1 = h1 + h2;
          h2 = h2 + h1
      in (h1, h2))"

definition MurmurHash3_x64_128 :: "u8 list \<Rightarrow> u32 \<Rightarrow> u64 \<times> u64" where
  "MurmurHash3_x64_128 data seed =
     (let len = length data;
          nblocks = len div 16;
          h = (ucast seed, ucast seed);
          h = fold (\<lambda>i. murmur_body (block64 data (2 * i + 0), block64 data (2 * i + 1))) [0..<nblocks] h;
          tail = drop (nblocks * 16) data
      in murmur_final len (murmur_tail tail (len mod 16) h))"

section \<open>Each stage is a bijection\<close>

lemma xor_right_eq [simp]: "(x XOR a = y XOR a) = (x = y)" "(a XOR x = a XOR y) = (x = y)"
  for x y a :: "'a::len word"
  by (metis xor_cancel_right, metis xor_cancel_left)

lemma bit_rotl64:
  assumes "r < 64"
  shows "bit (rotl64 x r) n \<longleftrightarrow> n < 64 \<and> bit x (if r \<le> n then n - r else n + 64 - r)"
  using assms by (auto simp: rotl64_def bit_simps algebra_simps dest: bit_imp_le_length)

lemma rotl64_back:
  assumes "0 < r" "r < 64"
  shows "rotl64 (rotl64 x r) (64 - r) = x"
  using assms by (intro bit_word_eqI) (auto simp: bit_rotl64 dest: bit_imp_le_length)

lemma rotl64_eq_iff [simp]: "0 < r \<Longrightarrow> r < 64 \<Longrightarrow> (rotl64 x r = rotl64 y r) = (x = y)"
  by (metis rotl64_back)

lemma xorshift_twice: "32 \<le> s \<Longrightarrow> (k XOR drop_bit s k) XOR drop_bit s (k XOR drop_bit s k) = k"
  for k :: u64
  by (rule bit_word_eqI) (auto simp: bit_simps dest: bit_imp_le_length)

lemma mult_eq_by_inverse: "c * d = 1 \<Longrightarrow> (x * c = y * c) = (x = y)" for x y c d :: u64
  by (metis mult_inverse_cancel(1))

lemma mult_consts_eq [simp]:
  "(x * c1 = y * c1) = (x = y)" "(x * c2 = y * c2) = (x = y)" "(x * 5 = y * 5) = (x = y)"
  for x y :: u64
  by (rule mult_eq_by_inverse[where d = "0xa98409e882ce4d7d"], simp add: c1_def)
     (rule mult_eq_by_inverse[where d = "0xa81e14edd9de2c7f"], simp add: c2_def,
      rule mult_eq_by_inverse[where d = "0xcccccccccccccccd"], simp)

definition unfmix64 :: "u64 \<Rightarrow> u64" where
  "unfmix64 k =
     (let k = k XOR drop_bit 33 k;
          k = k * 0x9cb4b2f8129337db;
          k = k XOR drop_bit 33 k;
          k = k * 0x4f74430c22a54005
      in k XOR drop_bit 33 k)"

lemma xorshift33: "(k XOR drop_bit 33 k) XOR drop_bit 33 (k XOR drop_bit 33 k) = k" for k :: u64
  by (rule xorshift_twice) simp

lemma fmix_consts:
  "(0xff51afd7ed558ccd :: u64) * 0x4f74430c22a54005 = 1"
  "(0x4f74430c22a54005 :: u64) * 0xff51afd7ed558ccd = 1"
  "(0xc4ceb9fe1a85ec53 :: u64) * 0x9cb4b2f8129337db = 1"
  "(0x9cb4b2f8129337db :: u64) * 0xc4ceb9fe1a85ec53 = 1"
  by simp_all

lemma unfmix64_fmix64: "unfmix64 (fmix64 k) = k"
  unfolding fmix64_def unfmix64_def Let_def
  by (simp only: xorshift33 fmix_consts[THEN mult_inverse_cancel(1)])

lemma fmix64_unfmix64: "fmix64 (unfmix64 k) = k"
  unfolding fmix64_def unfmix64_def Let_def
  by (simp only: xorshift33 fmix_consts[THEN mult_inverse_cancel(1)])

text \<open>the finaliser fmix64 is a bijection of the 64-bit words: unfmix64, which undoes the two
  multiplications by the inverse constants and the three xor-shifts by themselves, inverts it
  from both sides.\<close>

theorem fmix64_bijective: "bij fmix64 \<and> unfmix64 (fmix64 k) = k \<and> fmix64 (unfmix64 k) = k"
  by (metis bijI' fmix64_unfmix64 unfmix64_fmix64)

lemma fmix64_eq_iff [simp]: "(fmix64 x = fmix64 y) = (x = y)"
  by (metis unfmix64_fmix64)

section \<open>Bytes of a block and of the tail\<close>

lemma bit_le_bytes:
  "bit (le_bytes bs) n \<longleftrightarrow> n < 64 \<and> n div 8 < length bs \<and> bit (bs ! (n div 8)) (n mod 8)"
proof (induction bs arbitrary: n)
  case (Cons b bs)
  show ?case
  proof (cases "n < 8")
    case True
    then show ?thesis by (auto simp: bit_simps)
  next
    case False
    then have "n div 8 = Suc ((n - 8) div 8)" "n mod 8 = (n - 8) mod 8"
      by (simp_all add: le_div_geq le_mod_geq)
    with False show ?thesis by (auto simp: bit_simps Cons.IH dest: bit_imp_le_length)
  qed
qed simp

lemma le_bytes_eq_iff:
  assumes "length as = length bs" "length as \<le> 8"
  shows "(le_bytes as = le_bytes bs) = (as = bs)"
proof
  assume e: "le_bytes as = le_bytes bs"
  show "as = bs"
  proof (rule nth_equalityI[OF assms(1)], rule bit_word_eqI)
    fix i j assume i: "i < length as" and j: "j < LENGTH(8)"
    have "bit (le_bytes as) (8 * i + j) = bit (le_bytes bs) (8 * i + j)" using e by simp
    then show "bit (as ! i) j = bit (bs ! i) j" using i j assms by (simp add: bit_le_bytes)
  qed
qed simp

lemma tail_step:
  assumes "8 * j + 8 \<le> 64"
  shows "push_bit (8 * j + 8) (le_bytes bs) XOR push_bit (8 * j) (ucast b) = push_bit (8 * j) (le_bytes (b # bs))"
  using assms
  by (intro bit_word_eqI) (auto simp: bit_simps nth_Cons' dest: bit_imp_le_length)

text \<open>One case of the fall-through switch, for the bytes of t from position j on.\<close>

lemma tail_case:
  assumes "8 * j + 8 \<le> 64"
  shows "(if Suc j \<le> length t then push_bit (8 * j + 8) (le_bytes (take m (drop (Suc j) t))) XOR
              push_bit (8 * j) (ucast (t ! j))
          else push_bit (8 * j + 8) (le_bytes (take m (drop (Suc j) t)))) =
         push_bit (8 * j) (le_bytes (take (Suc m) (drop j t)))"
proof (cases "j < length t")
  case True
  then have "take (Suc m) (drop j t) = t ! j # take m (drop (Suc j) t)"
    by (metis Cons_nth_drop_Suc take_Suc_Cons)
  with True tail_step[OF assms] show ?thesis by (simp del: le_bytes.simps)
qed simp

definition tail_part :: "u8 list \<Rightarrow> nat \<Rightarrow> u64" where
  "tail_part t j = push_bit (8 * j) (le_bytes (take (8 - j) (drop j t)))"

lemma tail_part_step:
  assumes "j < 8"
  shows "(if Suc j \<le> length t then tail_part t (Suc j) XOR push_bit (8 * j) (ucast (t ! j))
          else tail_part t (Suc j)) = tail_part t j"
proof -
  have "8 - j = Suc (7 - j)" "8 - Suc j = 7 - j" "8 * Suc j = 8 * j + 8" "8 * j + 8 \<le> 64"
    using assms by simp_all
  then show ?thesis using tail_case[of j t "7 - j"] by (simp only: tail_part_def)
qed

lemma tail_part_8: "0 = tail_part t 8"
  by (simp add: tail_part_def)

lemma tail_part_step_num:
  assumes "k = Suc j" "s = 8 * j" "j < 8" "acc = tail_part t k"
  shows "(if k \<le> length t then acc XOR push_bit s (ucast (t ! j)) else acc) = tail_part t j"
  unfolding assms(1,2,4) by (rule tail_part_step[OF assms(3)])

lemma tail_part_steps:
  "(if 8 \<le> length t then 0 XOR push_bit 56 (ucast (t ! 7)) else 0) = tail_part t 7"
  "(if 7 \<le> length t then tail_part t 7 XOR push_bit 48 (ucast (t ! 6)) else tail_part t 7) = tail_part t 6"
  "(if 6 \<le> length t then tail_part t 6 XOR push_bit 40 (ucast (t ! 5)) else tail_part t 6) = tail_part t 5"
  "(if 5 \<le> length t then tail_part t 5 XOR push_bit 32 (ucast (t ! 4)) else tail_part t 5) = tail_part t 4"
  "(if 4 \<le> length t then tail_part t 4 XOR push_bit 24 (ucast (t ! 3)) else tail_part t 4) = tail_part t 3"
  "(if 3 \<le> length t then tail_part t 3 XOR push_bit 16 (ucast (t ! 2)) else tail_part t 3) = tail_part t 2"
  "(if 2 \<le> length t then tail_part t 2 XOR push_bit 8 (ucast (t ! 1)) else tail_part t 2) = tail_part t 1"
  "(if 1 \<le> length t then tail_part t 1 XOR push_bit 0 (ucast (t ! 0)) else tail_part t 1) = tail_part t 0"
  by (rule tail_part_step_num; simp add: tail_part_8)+

lemma tail_k1_le_bytes: "tail_k1 t (length t) = le_bytes (take 8 t)"
proof -
  have "tail_k1 t (length t) = tail_part t 0"
    unfolding tail_k1_def Let_def by (simp only: tail_part_steps)
  then show ?thesis by (simp add: tail_part_def)
qed

lemma tail_k2_le_bytes:
  assumes "length t < 16"
  shows "tail_k2 t (length t) = le_bytes (drop 8 t)"
proof (cases "8 \<le> length t")
  case True
  then obtain u v where t: "t = u @ v" and u: "length u = 8"
    by (metis append_take_drop_id length_take min.absorb2)
  then have v: "length v < 8" using assms by simp
  have "tail_k2 t (length t) = tail_k1 v (length v)"
    unfolding tail_k2_def tail_k1_def Let_def t using u v by (simp add: nth_append)
  then show ?thesis using u v t by (simp add: tail_k1_le_bytes)
next
  case False
  then show ?thesis by (simp add: tail_k2_def)
qed

section \<open>Injectivity on keys of one length\<close>

lemma add_right_eq_word [simp]: "(x + a = y + a) = (x = y)" for x y a :: u64
  by simp

lemma murmur_body_inj: "murmur_body (k1, k2) h = murmur_body (l1, l2) h \<longleftrightarrow> k1 = l1 \<and> k2 = l2"
  by (cases h) (auto simp: murmur_body_def Let_def)

definition mix2 :: "u64 \<times> u64 \<Rightarrow> u64 \<times> u64" where
  "mix2 h = (fst h + snd h, snd h + (fst h + snd h))"

lemma mix2_inj: "mix2 h = mix2 h' \<longleftrightarrow> h = h'"
proof
  assume "mix2 h = mix2 h'"
  then have s: "fst h + snd h = fst h' + snd h'" "snd h + (fst h + snd h) = snd h' + (fst h' + snd h')"
    unfolding mix2_def by (blast dest: Pair_inject)+
  then have "snd h = snd h'" by (simp only: s(1) add_right_eq_word)
  with s(1) show "h = h'" by (simp add: prod_eq_iff)
qed simp

lemma murmur_final_mix2:
  "murmur_final len h = mix2 (map_prod fmix64 fmix64 (mix2 (map_prod (\<lambda>x. x XOR of_nat len) (\<lambda>x. x XOR of_nat len) h)))"
  by (cases h) (simp add: murmur_final_def mix2_def Let_def)

lemma murmur_final_inj: "murmur_final len h = murmur_final len h' \<longleftrightarrow> h = h'"
proof -
  have "map_prod fmix64 fmix64 p = map_prod fmix64 fmix64 q \<longleftrightarrow> p = q" for p q
    by (cases p; cases q) simp
  then show ?thesis unfolding murmur_final_mix2 mix2_inj by (cases h; cases h') (simp add: mix2_inj)
qed

lemma murmur_tail_inj:
  assumes "length s = length t" "length t < 16"
  shows "murmur_tail s (length t) h = murmur_tail t (length t) h \<longleftrightarrow> s = t"
proof (cases "length t = 0")
  case True
  then show ?thesis using assms by simp
next
  case False
  have k: "(tail_k1 s (length t) = tail_k1 t (length t)) = (take 8 s = take 8 t)"
    using assms tail_k1_le_bytes[of s] tail_k1_le_bytes[of t] le_bytes_eq_iff[of "take 8 s" "take 8 t"] by simp
  have k': "(tail_k2 s (length t) = tail_k2 t (length t)) = (drop 8 s = drop 8 t)"
    using assms tail_k2_le_bytes[of s] tail_k2_le_bytes[of t] le_bytes_eq_iff[of "drop 8 s" "drop 8 t"] by simp
  have st: "s = t \<longleftrightarrow> take 8 s = take 8 t \<and> drop 8 s = drop 8 t" by (metis append_take_drop_id)
  have "drop 8 s = drop 8 t" if "\<not> 9 \<le> length t" using that assms(1) by simp
  moreover have "murmur_tail s (length t) h = murmur_tail t (length t) h \<longleftrightarrow>
      tail_k1 s (length t) = tail_k1 t (length t) \<and>
      (9 \<le> length t \<longrightarrow> tail_k2 s (length t) = tail_k2 t (length t))"
    using False by (cases h) (simp add: murmur_tail_def Let_def Suc_le_eq)
  ultimately show ?thesis unfolding k k' st by blast
qed

text \<open>C37: for a fixed seed, two keys of the same length of at most 16 bytes have the same 128-bit
  hash only if they are the same key: on such keys the hash that stands for the key in the
  clock cache never confuses two keys.\<close>

theorem murmur_injective:
  assumes "length a = length b" "length b \<le> 16"
  shows "MurmurHash3_x64_128 a seed = MurmurHash3_x64_128 b seed \<longleftrightarrow> a = b"
proof (cases "length b = 16")
  case True
  let ?B = "\<lambda>d. (block64 d 0, block64 d 1)"
  have e: "a = b \<longleftrightarrow> take 8 a = take 8 b \<and> drop 8 a = drop 8 b" by (metis append_take_drop_id)
  have "block64 a 0 = block64 b 0 \<longleftrightarrow> take 8 a = take 8 b"
    "block64 a 1 = block64 b 1 \<longleftrightarrow> drop 8 a = drop 8 b"
    using assms True by (simp_all add: block64_def le_bytes_eq_iff)
  then have "murmur_body (?B a) h = murmur_body (?B b) h \<longleftrightarrow> a = b" for h
    by (simp add: e murmur_body_inj)
  moreover have "murmur_tail d 0 h = h" for d h by (cases h) (simp add: murmur_tail_def)
  ultimately show ?thesis
    using assms True by (simp add: MurmurHash3_x64_128_def Let_def murmur_final_inj)
next
  case False
  then show ?thesis
    using assms by (simp add: MurmurHash3_x64_128_def Let_def murmur_final_inj murmur_tail_inj)
qed

theorem murmur_injective_witness:
  "MurmurHash3_x64_128 [1,2,3,4,5,6,7,8] 0xFFFFFFFE \<noteq> MurmurHash3_x64_128 [1,2,3,4,5,6,7,9] 0xFFFFFFFE"
  by (subst murmur_injective) simp_all

text \<open>the hash agrees with the published test values of MurmurHash3_x64_128: the empty key with
  seed 0, and the five bytes of hello with seed 0.\<close>

theorem murmur_test_vectors:
  "MurmurHash3_x64_128 [] 0 = (0, 0) \<and>
   MurmurHash3_x64_128 [0x68, 0x65, 0x6c, 0x6c, 0x6f] 0 = (0xcbd8a7b341bd9b02, 0x5b1e906a48ae1d19)"
  by code_simp

end
