(* ===== verification/Clock_Handle.thy ===== *)
theory Clock_Handle
  imports Atomics
begin

text \<open>
  The handles of clock/handle.h and the meta word operations of clock/clock_cache.cc. The meta
  word packs, from the low bits up, a 30-bit reference counter, a 30-bit hit counter, the hit
  bit and the 3-bit state marker. A handle is a record; HandleImpl extends Handle by the meta
  word and the displacement counter. Pointers and function pointers are addresses, 0 for null.

  The lemmas read the fields as natural numbers and give the effect of every operation on them,
  with the bounds under which no counter carries into its neighbour.
\<close>

unbundle bit_operations_syntax

section \<open>Handles\<close>

type_synonym key128 = "u64 \<times> u64"

record handle =
  h_value :: u64
  del_cb :: u64
  hashed_key :: key128
  total_charge :: u64

record handle_impl = handle +
  meta :: u64
  displacements :: u32

text \<open>A slot as the constructor leaves it.\<close>

definition HandleImpl_new :: handle_impl where
  "HandleImpl_new = \<lparr>h_value = 0, del_cb = 0, hashed_key = (0, 0), total_charge = 0, meta = 0, displacements = 0\<rparr>"

definition GetTotalCharge :: "'a handle_scheme \<Rightarrow> u64" where
  "GetTotalCharge h = total_charge h"

definition GetHash :: "'a handle_scheme \<Rightarrow> key128" where
  "GetHash h = hashed_key h"

text \<open>FreeData returns the handle together with the deleter calls it makes.\<close>

definition FreeData :: "'a handle_scheme \<Rightarrow> 'a handle_scheme \<times> (u64 \<times> u64) list" where
  "FreeData h =
     (if del_cb h \<noteq> 0 \<and> h_value h \<noteq> 0 then (h\<lparr>h_value := 0\<rparr>, [(del_cb h, h_value h)]) else (h, []))"

section \<open>The constants of the meta word\<close>

definition kCounterNumBits :: nat where "kCounterNumBits = 30"
definition kCounterMask :: u64 where "kCounterMask = push_bit kCounterNumBits 1 - 1"
definition kRefCounterShift :: nat where "kRefCounterShift = 0"
definition kRefIncrement :: u64 where "kRefIncrement = push_bit kRefCounterShift 1"
definition kHitCounterShift :: nat where "kHitCounterShift = kCounterNumBits"
definition kHitIncrement :: u64 where "kHitIncrement = push_bit kHitCounterShift 1"
definition kHitBitShift :: nat where "kHitBitShift = 2 * kCounterNumBits"
definition kHitBitMask :: u64 where "kHitBitMask = push_bit kHitBitShift 1"
definition kStateShift :: nat where "kStateShift = kHitBitShift + 1"
definition kStateOccupiedBit :: u64 where "kStateOccupiedBit = 4"
definition kStateShareableBit :: u64 where "kStateShareableBit = 2"
definition kStateVisibleBit :: u64 where "kStateVisibleBit = 1"
definition kStateEmpty :: u64 where "kStateEmpty = 0"
definition kStateConstruction :: u64 where "kStateConstruction = kStateOccupiedBit"
definition kStateInvisible :: u64 where "kStateInvisible = kStateOccupiedBit OR kStateShareableBit"
definition kStateVisible :: u64 where
  "kStateVisible = kStateOccupiedBit OR kStateShareableBit OR kStateVisibleBit"
definition kMaxCountdown :: u64 where "kMaxCountdown = 3"

definition kInitHitCount :: int where "kInitHitCount = 3"
definition kMaxHitCount :: int where "kMaxHitCount = 2000"
definition kDecrHitPerEntryCount :: int where "kDecrHitPerEntryCount = 5000"

lemmas shift_defs =
  kCounterNumBits_def kRefCounterShift_def kHitCounterShift_def kHitBitShift_def kStateShift_def

lemmas state_defs =
  kStateOccupiedBit_def kStateShareableBit_def kStateVisibleBit_def kStateEmpty_def
  kStateConstruction_def kStateInvisible_def kStateVisible_def

section \<open>Operations on the meta word\<close>

definition RefIncr :: "handle_impl \<Rightarrow> u64 \<times> handle_impl" where
  "RefIncr h = (let (old, m) = FetchAddAcqRel (meta h) kRefIncrement in (old, h\<lparr>meta := m\<rparr>))"

definition RefDecr :: "handle_impl \<Rightarrow> handle_impl" where
  "RefDecr h = h\<lparr>meta := snd (FetchSubAcqRel (meta h) kRefIncrement)\<rparr>"

definition RefCount :: "u64 \<Rightarrow> int" where
  "RefCount m = uint (drop_bit kRefCounterShift m AND kCounterMask)"

definition HitCount :: "u64 \<Rightarrow> int" where
  "HitCount m = uint (drop_bit kHitCounterShift m AND kCounterMask)"

definition HitDecr :: "handle_impl \<Rightarrow> int \<Rightarrow> handle_impl" where
  "HitDecr h count = h\<lparr>meta := snd (FetchSubAcqRel (meta h) (kHitIncrement * of_int count))\<rparr>"

definition HitIncr :: "handle_impl \<Rightarrow> int \<Rightarrow> handle_impl" where
  "HitIncr h count =
     (let (old_meta, m) = FetchAddAcqRel (meta h) (kHitIncrement * of_int count);
          h = h\<lparr>meta := m\<rparr>;
          overflow = HitCount old_meta + count - kMaxHitCount
      in if 0 < overflow then HitDecr h overflow else h)"

definition MarkEmpty :: "handle_impl \<Rightarrow> handle_impl" where
  "MarkEmpty h = h\<lparr>meta := snd (ExchangeAcqRel (meta h) 0)\<rparr>"

definition FreeDataMarkEmpty :: "handle_impl \<Rightarrow> handle_impl \<times> (u64 \<times> u64) list" where
  "FreeDataMarkEmpty h = (let (h, calls) = FreeData h in (MarkEmpty h, calls))"

text \<open>The state marker of a meta word, meta >> kStateShift in the code.\<close>

definition state_of :: "u64 \<Rightarrow> u64" where
  "state_of m = drop_bit kStateShift m"

section \<open>The fields as natural numbers\<close>

definition f_ref :: "u64 \<Rightarrow> nat" where "f_ref m = unat m mod 2 ^ 30"
definition f_hit :: "u64 \<Rightarrow> nat" where "f_hit m = unat m div 2 ^ 30 mod 2 ^ 30"
definition f_bit :: "u64 \<Rightarrow> nat" where "f_bit m = unat m div 2 ^ 60 mod 2"
definition f_st :: "u64 \<Rightarrow> nat" where "f_st m = unat m div 2 ^ 61"

lemma counter_mask: "kCounterMask = mask 30"
  by (simp add: kCounterMask_def kCounterNumBits_def mask_eq_exp_minus_1)

lemma unat_drop_bit_word: "unat (drop_bit n m) = unat m div 2 ^ n" for m :: "'a::len word"
  by (simp only: unat_drop_bit_eq) (simp only: drop_bit_eq_div)

lemma unat_and_mask: "unat (m AND mask n) = unat m mod 2 ^ n" for m :: "'a::len word"
  by (simp only: unsigned_take_bit_eq flip: take_bit_eq_mask) (simp only: take_bit_eq_mod)

lemma RefCount_field: "RefCount m = int (f_ref m)"
  by (simp add: RefCount_def f_ref_def shift_defs counter_mask unat_and_mask uint_nat)

lemma HitCount_field: "HitCount m = int (f_hit m)"
  by (simp add: HitCount_def f_hit_def shift_defs counter_mask unat_and_mask uint_nat unat_drop_bit_word)

lemma unat_state_of: "unat (state_of m) = f_st m"
  by (simp add: state_of_def f_st_def shift_defs unat_drop_bit_word)

lemma state_of_eq_iff: "state_of m = w \<longleftrightarrow> f_st m = unat w"
  by (metis unat_state_of word_unat_eq_iff)

lemma state_of_consts:
  "state_of m = kStateEmpty \<longleftrightarrow> f_st m = 0" "state_of m = kStateConstruction \<longleftrightarrow> f_st m = 4"
  "state_of m = kStateInvisible \<longleftrightarrow> f_st m = 6" "state_of m = kStateVisible \<longleftrightarrow> f_st m = 7"
  by (simp_all add: state_of_eq_iff state_defs)

text \<open>Splitting a number at the field boundaries, and the converse.\<close>

lemma split_fields:
  fixes n A :: nat
  shows "n = n mod A + n div A mod A * A + n div (A * A) mod 2 * (A * A) + n div (A * A * 2) * (A * A * 2)"
proof -
  define q where "q = n div A div A"
  have e1: "n div (A * A) = q" by (simp add: q_def div_mult2_eq)
  have e2: "n div (A * A * 2) = q div 2" by (simp add: q_def div_mult2_eq)
  have "q mod 2 * (A * A) + q div 2 * (A * A * 2) = q * (A * A)"
    using mult_div_mod_eq[of 2 q] by (metis (no_types, lifting) add.commute add_mult_distrib mult.assoc mult.commute)
  moreover have "n div A mod A * A + q * (A * A) = n div A * A"
    using mult_div_mod_eq[of A "n div A"] by (metis add.commute add_mult_distrib mult.assoc mult.commute q_def)
  moreover have "n mod A + n div A * A = n" by simp
  ultimately show ?thesis unfolding e1 e2 by linarith
qed

lemma join_fields:
  fixes A r h b s :: nat
  assumes "r < A" "h < A" "b < 2"
  shows "(r + A * (h + A * (b + 2 * s))) mod A = r"
    "(r + A * (h + A * (b + 2 * s))) div A mod A = h"
    "(r + A * (h + A * (b + 2 * s))) div (A * A) mod 2 = b"
    "(r + A * (h + A * (b + 2 * s))) div (A * A * 2) = s"
  using assms by (simp_all add: div_mult2_eq)

lemma f_decomp: "unat m = f_ref m + f_hit m * 2 ^ 30 + f_bit m * 2 ^ 60 + f_st m * 2 ^ 61"
  using split_fields[of "unat m" "2 ^ 30"] by (simp add: f_ref_def f_hit_def f_bit_def f_st_def)

lemma f_bounds: "f_ref m < 2 ^ 30" "f_hit m < 2 ^ 30" "f_bit m < 2" "f_st m < 8"
proof -
  have "unat m < 2 ^ 64" using unsigned_less[of m] by simp
  then show "f_st m < 8" by (simp add: f_st_def less_mult_imp_div_less)
qed (simp_all add: f_ref_def f_hit_def f_bit_def)

text \<open>A number below 2^64 written in the fields determines them.\<close>

lemma fields_unique:
  assumes "unat m = r + h * 2 ^ 30 + b * 2 ^ 60 + s * 2 ^ 61" "r < 2 ^ 30" "h < 2 ^ 30" "b < 2"
  shows "f_ref m = r \<and> f_hit m = h \<and> f_bit m = b \<and> f_st m = s"
  using join_fields[of r "2 ^ 30" h b s] assms
  by (simp add: f_ref_def f_hit_def f_bit_def f_st_def algebra_simps)

section \<open>The effect of the operations on the fields\<close>

abbreviation meta_fields :: "u64 \<Rightarrow> nat \<times> nat \<times> nat \<times> nat" where
  "meta_fields m \<equiv> (f_ref m, f_hit m, f_bit m, f_st m)"

lemma fieldsI:
  assumes "unat m = r + h * 2 ^ 30 + b * 2 ^ 60 + s * 2 ^ 61" "r < 2 ^ 30" "h < 2 ^ 30" "b < 2"
  shows "meta_fields m = (r, h, b, s)"
  using fields_unique[OF assms] by simp

lemma fields_eq_iff: "m = m' \<longleftrightarrow> meta_fields m = meta_fields m'"
  by (metis f_decomp prod.inject word_unat_eq_iff)

lemma fields_RefIncr:
  assumes "f_ref m + 1 < 2 ^ 30"
  shows "meta_fields (m + 1) = (f_ref m + 1, f_hit m, f_bit m, f_st m)"
proof (rule fieldsI)
  have "unat m + 1 < 2 ^ 64"
    using assms f_bounds[of m] unfolding f_decomp[of m] by simp
  then show "unat (m + 1) = f_ref m + 1 + f_hit m * 2 ^ 30 + f_bit m * 2 ^ 60 + f_st m * 2 ^ 61"
    using f_decomp[of m] by (simp add: unat_add_small)
qed (use assms f_bounds in auto)

lemma fields_RefDecr:
  assumes "0 < f_ref m"
  shows "meta_fields (m - 1) = (f_ref m - 1, f_hit m, f_bit m, f_st m)"
proof (rule fieldsI)
  have "unat (1 :: u64) \<le> unat m" using assms f_decomp[of m] by simp
  then have "unat (m - 1) = unat m - 1" by (simp only: unat_sub_small unat_1)
  then show "unat (m - 1) = f_ref m - 1 + f_hit m * 2 ^ 30 + f_bit m * 2 ^ 60 + f_st m * 2 ^ 61"
    using f_decomp[of m] assms by simp
qed (use assms f_bounds[of m] in auto)

lemma hit_amount:
  assumes "c < 2 ^ 30"
  shows "unat (kHitIncrement * of_nat c) = c * 2 ^ 30"
proof -
  have "c * 2 ^ 30 < 2 ^ 64" using assms by simp
  then have "unat (of_nat (c * 2 ^ 30) :: u64) = c * 2 ^ 30" by (intro unat_of_nat_eq) simp
  moreover have "kHitIncrement * of_nat c = (of_nat (c * 2 ^ 30) :: u64)"
    by (simp add: kHitIncrement_def shift_defs push_bit_eq_mult)
  ultimately show ?thesis by (simp only:)
qed

lemma fields_HitIncr:
  assumes "f_hit m + c < 2 ^ 30"
  shows "meta_fields (m + kHitIncrement * of_nat c) = (f_ref m, f_hit m + c, f_bit m, f_st m)"
proof (rule fieldsI)
  have "unat m + c * 2 ^ 30 < 2 ^ 64"
    using assms f_bounds[of m] unfolding f_decomp[of m] by simp
  then show "unat (m + kHitIncrement * of_nat c) = f_ref m + (f_hit m + c) * 2 ^ 30 + f_bit m * 2 ^ 60 + f_st m * 2 ^ 61"
    using f_decomp[of m] assms by (simp add: unat_add_small hit_amount distrib_right)
qed (use assms f_bounds in auto)

lemma fields_HitDecr:
  assumes "c \<le> f_hit m"
  shows "meta_fields (m - kHitIncrement * of_nat c) = (f_ref m, f_hit m - c, f_bit m, f_st m)"
proof (rule fieldsI)
  have c: "c < 2 ^ 30" using assms f_bounds(2)[of m] by simp
  then have "unat (kHitIncrement * of_nat c) \<le> unat m"
    using assms f_decomp[of m] by (simp add: hit_amount)
  then have "unat (m - kHitIncrement * of_nat c) = unat m - c * 2 ^ 30"
    using c by (simp add: unat_sub_small hit_amount)
  then show "unat (m - kHitIncrement * of_nat c) = f_ref m + (f_hit m - c) * 2 ^ 30 + f_bit m * 2 ^ 60 + f_st m * 2 ^ 61"
    using f_decomp[of m] assms by (simp add: diff_mult_distrib)
qed (use assms f_bounds[of m] in auto)

text \<open>Building a meta word out of a state, the old hit bit and a hit count.\<close>

lemma f_bit_alt: "f_bit m = of_bool (bit m 60)"
proof -
  have "bit m 60 \<longleftrightarrow> odd (unat m div 2 ^ 60)"
    by (simp only: bit_unsigned_iff flip: bit_iff_odd [of "unat m"]) simp
  then show ?thesis by (simp add: f_bit_def odd_iff_mod_2_eq_one mod2_eq_if)
qed

lemma hit_bit_word: "m AND kHitBitMask = push_bit 60 (of_nat (f_bit m))"
proof -
  have m: "kHitBitMask = push_bit 60 1" by (simp add: kHitBitMask_def shift_defs)
  show ?thesis
  proof (cases "bit m 60")
    case False
    then have "m AND push_bit 60 1 = 0" by (subst and_single_bit_eq_0) simp_all
    then show ?thesis unfolding m using False by (simp add: f_bit_alt)
  next
    case True
    have "m AND push_bit 60 1 = push_bit 60 1"
      by (intro bit_word_eqI) (use True in \<open>auto simp only: bit_and_iff bit_push_one\<close>)
    then show ?thesis unfolding m using True by (simp only: f_bit_alt of_bool_eq of_nat_1)
  qed
qed

lemma unat_push_bit_small:
  "x * 2 ^ n < 2 ^ LENGTH('a) \<Longrightarrow> unat (push_bit n (of_nat x :: 'a::len word)) = x * 2 ^ n"
  using unat_of_nat_eq[of "x * 2 ^ n", where 'a = 'a] by (simp add: push_bit_eq_mult)

lemma bit_small: "unat (x :: u64) < 2 ^ n \<Longrightarrow> bit x k \<Longrightarrow> k < n"
proof (rule ccontr)
  assume "unat x < 2 ^ n" "bit x k" "\<not> k < n"
  then have "unat x < 2 ^ k" by (meson leD leI less_le_trans one_le_numeral power_increasing)
  then have "\<not> bit (unat x) k" by (simp add: bit_iff_odd)
  then show False using \<open>bit x k\<close> by (simp add: bit_unsigned_iff bit_imp_le_length)
qed

lemma or_eq_plus_high: "unat x < 2 ^ n \<Longrightarrow> push_bit n y OR x = push_bit n y + x" for x y :: u64
  by (subst disjunctive_add) (auto simp: bit_push_bit_iff dest: bit_small)

lemma fields_pack:
  assumes "h < 2 ^ 30" "s < 8"
  shows "meta_fields (push_bit 61 (of_nat s) OR (m AND kHitBitMask) OR push_bit 30 (of_nat h)) = (0, h, f_bit m, s)"
proof (rule fieldsI)
  let ?z = "push_bit 30 (of_nat h) :: u64" and ?y = "push_bit 60 (of_nat (f_bit m)) :: u64"
  have b: "f_bit m < 2" by (rule f_bounds)
  have z: "unat ?z = h * 2 ^ 30" using assms by (intro unat_push_bit_small) simp
  have y: "unat ?y = f_bit m * 2 ^ 60" using b by (intro unat_push_bit_small) simp
  have x: "unat (push_bit 61 (of_nat s) :: u64) = s * 2 ^ 61" using assms by (intro unat_push_bit_small) simp
  have zy: "?y OR ?z = ?y + ?z" using z assms by (intro or_eq_plus_high) simp
  have yz: "unat (?y + ?z) = f_bit m * 2 ^ 60 + h * 2 ^ 30"
    by (subst unat_add_small) (use y z b assms in simp_all)
  have "push_bit 61 (of_nat s) OR (?y + ?z) = push_bit 61 (of_nat s) + (?y + ?z)"
    using yz b assms by (intro or_eq_plus_high) simp
  then have "push_bit 61 (of_nat s) OR (m AND kHitBitMask) OR ?z = push_bit 61 (of_nat s) + (?y + ?z)"
    by (simp only: hit_bit_word or.assoc zy)
  moreover have "unat (push_bit 61 (of_nat s) + (?y + ?z)) = s * 2 ^ 61 + (f_bit m * 2 ^ 60 + h * 2 ^ 30)"
    by (subst unat_add_small) (use x yz b assms in simp_all)
  ultimately show "unat (push_bit 61 (of_nat s) OR (m AND kHitBitMask) OR ?z) =
      0 + h * 2 ^ 30 + f_bit m * 2 ^ 60 + s * 2 ^ 61" by simp
qed (use assms f_bounds in auto)

lemma fields_0: "meta_fields 0 = (0, 0, 0, 0)"
  by (simp add: f_ref_def f_hit_def f_bit_def f_st_def)

end
