(* ===== verification/Clock_Probe.thy ===== *)
theory Clock_Probe
  imports Clock_Handle "HOL-Library.Monad_Syntax"
begin

text \<open>
  Open addressing with double hashing: the templates FindSlot and Rollback of
  clock/clock_cache.cc over an abstract state, and what their walk visits.

  The do-while and while loops of the code need not end (they do not for every length), and a
  callback may index out of the array; both are the value None. When the probe sequence is a
  cycle, FindSlot is the structural recursion walk over it and Rollback the fold over the part
  before the target; for a length that is a power of two the cycle visits every slot once.
  The locale open_addressing is what the displacement counters of the cache rely on.
\<close>

unbundle bit_operations_syntax

section \<open>The loops of the code\<close>

definition ModLength :: "u64 \<Rightarrow> u64 \<Rightarrow> u64" where
  "ModLength len x = x mod len"

definition increment_of :: "key128 \<Rightarrow> u64" where
  "increment_of k = fst k OR 1"

partial_function (option) find_slot_loop ::
  "u64 \<Rightarrow> u64 \<Rightarrow> u64 \<Rightarrow> (nat \<Rightarrow> 's \<Rightarrow> (bool \<times> 's) option) \<Rightarrow> (nat \<Rightarrow> 's \<Rightarrow> (bool \<times> 's) option) \<Rightarrow>
   (nat \<Rightarrow> bool \<Rightarrow> 's \<Rightarrow> 's option) \<Rightarrow> u64 \<Rightarrow> 's \<Rightarrow> (nat option \<times> 's) option" where
  [code]: "find_slot_loop len inc first match_fn abort_fn update_fn current s =
     do { (matched, s) \<leftarrow> match_fn (unat current) s;
          if matched then Some (Some (unat current), s)
          else do { (abort, s) \<leftarrow> abort_fn (unat current) s;
                    if abort then Some (None, s)
                    else (let h = unat current;
                              current = ModLength len (current + inc);
                              is_last = (current = first)
                          in do { s \<leftarrow> update_fn h is_last s;
                                  if is_last then Some (None, s)
                                  else find_slot_loop len inc first match_fn abort_fn update_fn current s }) } }"

definition FindSlot ::
  "u64 \<Rightarrow> key128 \<Rightarrow> (nat \<Rightarrow> 's \<Rightarrow> (bool \<times> 's) option) \<Rightarrow> (nat \<Rightarrow> 's \<Rightarrow> (bool \<times> 's) option) \<Rightarrow>
   (nat \<Rightarrow> bool \<Rightarrow> 's \<Rightarrow> 's option) \<Rightarrow> 's \<Rightarrow> (nat option \<times> 's) option" where
  "FindSlot len key match_fn abort_fn update_fn s =
     (if len = 0 then None
      else let base = snd key; inc = increment_of key; first = ModLength len base
           in find_slot_loop len inc first match_fn abort_fn update_fn first s)"

text \<open>An access to the array of handles: None when the index is out of range.\<close>

definition on_slot :: "(handle_impl \<Rightarrow> handle_impl) \<Rightarrow> nat \<Rightarrow> handle_impl list \<Rightarrow> handle_impl list option" where
  "on_slot f i arr = (if i < length arr then Some (arr[i := f (arr ! i)]) else None)"

definition decr_displacement :: "handle_impl \<Rightarrow> handle_impl" where
  "decr_displacement h = h\<lparr>displacements := snd (FetchSubRelaxed (displacements h) 1)\<rparr>"

definition incr_displacement :: "handle_impl \<Rightarrow> handle_impl" where
  "incr_displacement h = h\<lparr>displacements := snd (FetchAddRelaxed (displacements h) 1)\<rparr>"

partial_function (option) rollback_loop ::
  "u64 \<Rightarrow> u64 \<Rightarrow> nat \<Rightarrow> u64 \<Rightarrow> handle_impl list \<Rightarrow> handle_impl list option" where
  [code]: "rollback_loop len inc h current arr =
     (if unat current \<noteq> h
      then do { arr \<leftarrow> on_slot decr_displacement (unat current) arr;
                rollback_loop len inc h (ModLength len (current + inc)) arr }
      else Some arr)"

definition Rollback :: "u64 \<Rightarrow> key128 \<Rightarrow> nat \<Rightarrow> handle_impl list \<Rightarrow> handle_impl list option" where
  "Rollback len key h arr =
     (if len = 0 then None
      else rollback_loop len (increment_of key) h (ModLength len (snd key)) arr)"

section \<open>Walks over a cyclic probe sequence\<close>

fun walk ::
  "(nat \<Rightarrow> 's \<Rightarrow> (bool \<times> 's) option) \<Rightarrow> (nat \<Rightarrow> 's \<Rightarrow> (bool \<times> 's) option) \<Rightarrow>
   (nat \<Rightarrow> bool \<Rightarrow> 's \<Rightarrow> 's option) \<Rightarrow> nat list \<Rightarrow> 's \<Rightarrow> (nat option \<times> 's) option" where
  "walk match_fn abort_fn update_fn [] s = Some (None, s)"
| "walk match_fn abort_fn update_fn (i # is) s =
     do { (matched, s) \<leftarrow> match_fn i s;
          if matched then Some (Some i, s)
          else do { (abort, s) \<leftarrow> abort_fn i s;
                    if abort then Some (None, s)
                    else do { s \<leftarrow> update_fn i (is = []) s; walk match_fn abort_fn update_fn is s } } }"

text \<open>The walk steps from each member of the list to the next, and from the last to the first.\<close>

definition probe_next :: "u64 \<Rightarrow> u64 \<Rightarrow> nat \<Rightarrow> nat" where
  "probe_next len inc i = unat (ModLength len (of_nat i + inc))"

fun steps_to :: "u64 \<Rightarrow> u64 \<Rightarrow> nat \<Rightarrow> nat list \<Rightarrow> bool" where
  "steps_to len inc first [] \<longleftrightarrow> False"
| "steps_to len inc first [i] \<longleftrightarrow> probe_next len inc i = first"
| "steps_to len inc first (i # j # is) \<longleftrightarrow> probe_next len inc i = j \<and> j \<noteq> first \<and> steps_to len inc first (j # is)"

lemma walk_Nil: "walk m a u [] = (\<lambda>s. Some (None, s))"
  by (rule ext) simp

lemma find_slot_loop_walk:
  assumes "steps_to len inc (unat first) (i # is)" "unat current = i"
  shows "find_slot_loop len inc first m a u current s = walk m a u (i # is) s"
  using assms
proof (induction "is" arbitrary: i current s)
  case Nil
  then have "unat (ModLength len (current + inc)) = unat first" by (auto simp: probe_next_def)
  then have "ModLength len (current + inc) = first" by (simp only: word_unat_eq_iff)
  with Nil show ?case by (subst find_slot_loop.simps) (simp add: Let_def walk_Nil cong: if_cong)
next
  case (Cons j js)
  have j: "unat (ModLength len (current + inc)) = j" and nf: "j \<noteq> unat first"
    using Cons.prems by (auto simp: probe_next_def)
  then have ne: "ModLength len (current + inc) \<noteq> first" by auto
  have IH: "find_slot_loop len inc first m a u (ModLength len (current + inc)) s = walk m a u (j # js) s" for s
    using Cons.prems j by (intro Cons.IH) auto
  show ?case
    by (subst find_slot_loop.simps, subst walk.simps) (simp add: Cons.prems(2) Let_def ne IH del: walk.simps cong: if_cong)
qed

lemma rollback_loop_fold:
  assumes "steps_to len inc first (i # is)" "unat current = i" "h \<in> set (i # is)" "\<forall>j \<in> set (i # is). j < length arr"
  shows "rollback_loop len inc h current arr =
     Some (foldl (\<lambda>arr j. arr[j := decr_displacement (arr ! j)]) arr (takeWhile (\<lambda>j. j \<noteq> h) (i # is)))"
  using assms
proof (induction "is" arbitrary: i current arr)
  case Nil
  then show ?case by (subst rollback_loop.simps) simp
next
  case (Cons j js)
  show ?case
  proof (cases "i = h")
    case True
    with Cons.prems show ?thesis by (subst rollback_loop.simps) simp
  next
    case False
    let ?arr = "arr[i := decr_displacement (arr ! i)]"
    have "unat (ModLength len (current + inc)) = j" using Cons.prems by (auto simp: probe_next_def)
    then have "rollback_loop len inc h (ModLength len (current + inc)) ?arr =
        Some (foldl (\<lambda>arr j. arr[j := decr_displacement (arr ! j)]) ?arr (takeWhile (\<lambda>j. j \<noteq> h) (j # js)))"
      using Cons.prems False by (intro Cons.IH) auto
    then show ?thesis
      using Cons.prems False by (subst rollback_loop.simps) (simp add: on_slot_def)
  qed
qed

section \<open>Lengths that are a power of two\<close>

text \<open>The probe sequence of a key in a table of 2 ^ b slots.\<close>

definition probe :: "nat \<Rightarrow> key128 \<Rightarrow> nat \<Rightarrow> nat" where
  "probe b key n = (unat (snd key) + n * unat (increment_of key)) mod 2 ^ b"

definition path :: "nat \<Rightarrow> key128 \<Rightarrow> nat list" where
  "path b key = map (probe b key) [0..<2 ^ b]"

lemma odd_increment: "odd (unat (increment_of key))"
proof -
  have "bit (increment_of key) 0" by (simp add: increment_of_def bit_simps)
  then have "bit (unat (increment_of key)) 0" by (simp add: bit_unsigned_iff)
  then show ?thesis by (simp add: bit_0)
qed

lemma probe_inj:
  assumes "probe b key m = probe b key n" "m < 2 ^ b" "n < 2 ^ b"
  shows "m = n"
proof -
  define i where "i = int (unat (increment_of key))"
  let ?b = "int (unat (snd key))" and ?i = i
  have odd: "odd i" unfolding i_def using odd_increment[of key] by (simp only: even_of_nat) simp
  have "int (probe b key m) = int (probe b key n)" using assms by simp
  then have "(?b + int m * ?i) mod 2 ^ b = (?b + int n * ?i) mod 2 ^ b"
    by (simp add: probe_def zmod_int i_def)
  then have "2 ^ b dvd (?b + int m * ?i) - (?b + int n * ?i)" by (simp only: mod_eq_dvd_iff)
  then have "2 ^ b dvd (int m - int n) * ?i" by (simp add: algebra_simps)
  moreover have "coprime (2 ^ b) ?i" using odd by (simp add: coprime_left_2_iff_odd)
  ultimately have "2 ^ b dvd int m - int n" by (simp add: coprime_dvd_mult_left_iff)
  moreover have "int m < 2 ^ b" "int n < 2 ^ b"
    using assms(2,3) by (metis of_nat_less_iff of_nat_numeral of_nat_power)+
  then have "\<bar>int m - int n\<bar> < 2 ^ b" by linarith
  ultimately show ?thesis using zdvd_imp_le[of "2 ^ b" "\<bar>int m - int n\<bar>"] by fastforce
qed

lemma path_length [simp]: "length (path b key) = 2 ^ b"
  by (simp add: path_def)

lemma path_distinct: "distinct (path b key)"
  unfolding path_def distinct_map by (auto intro!: inj_onI elim: probe_inj)

lemma path_set: "set (path b key) = {..<2 ^ b}"
proof (rule card_subset_eq)
  show "set (path b key) \<subseteq> {..<2 ^ b}" by (auto simp: path_def probe_def)
  show "card (set (path b key)) = card {..<(2 :: nat) ^ b}"
    by (simp add: distinct_card[OF path_distinct])
qed simp

lemma unat_length:
  assumes "b < 64"
  shows "unat (2 ^ b :: u64) = 2 ^ b"
proof -
  have "1 * (2 :: nat) ^ b < 2 ^ LENGTH(64)"
    unfolding mult_1 using assms by (intro power_strict_increasing) simp_all
  from unat_push_bit_small[OF this] show ?thesis by (simp only: of_nat_1 mult_1 push_bit_of_1)
qed

lemma probe_next_probe:
  assumes "b < 64"
  shows "probe_next (2 ^ b) (increment_of key) (probe b key n) = probe b key (Suc n)"
proof -
  let ?inc = "increment_of key"
  note two = unat_length[OF assms]
  have "probe b key n < 2 ^ b" by (simp add: probe_def)
  also have "(2 :: nat) ^ b < 2 ^ 64" using assms by (intro power_strict_increasing) simp_all
  finally have p: "unat (of_nat (probe b key n) :: u64) = probe b key n" by (simp add: unat_of_nat_eq)
  have dvd: "(2 :: nat) ^ b dvd 2 ^ 64" using assms by (intro le_imp_power_dvd) simp
  have "probe_next (2 ^ b) ?inc (probe b key n) = (probe b key n + unat ?inc) mod 2 ^ 64 mod 2 ^ b"
    by (simp add: probe_next_def ModLength_def unat_mod two p unat_word_ariths)
  also have "\<dots> = (probe b key n + unat ?inc) mod 2 ^ b"
    using dvd by (simp only: mod_mod_cancel)
  finally show ?thesis by (simp add: probe_def mod_simps algebra_simps)
qed

lemma steps_to_map:
  assumes "\<And>n. n < N \<Longrightarrow> probe_next len inc (f n) = f (Suc n)" "f N = first"
    "\<And>n. 0 < n \<Longrightarrow> n < N \<Longrightarrow> f n \<noteq> first" "m + Suc d = N"
  shows "steps_to len inc first (map f [m..<N])"
  using assms(4)
proof (induction d arbitrary: m)
  case 0
  then have "[m..<N] = [m]" by auto
  with 0 show ?case using assms(1)[of m] assms(2) by auto
next
  case (Suc d)
  then have "[m..<N] = m # Suc m # [Suc (Suc m)..<N]" "[Suc m..<N] = Suc m # [Suc (Suc m)..<N]"
    by (auto simp: upt_rec)
  moreover have "steps_to len inc first (map f [Suc m..<N])" using Suc by auto
  ultimately show ?case using assms(1)[of m] assms(3)[of "Suc m"] Suc.prems by auto
qed

lemma steps_to_probe:
  assumes "b < 64"
  shows "steps_to (2 ^ b) (increment_of key) (probe b key 0) (path b key)"
  unfolding path_def
proof (rule steps_to_map)
  show "probe b key (2 ^ b) = probe b key 0" by (simp add: probe_def)
  show "0 + Suc (2 ^ b - 1) = (2 :: nat) ^ b" by simp
  show "probe b key n \<noteq> probe b key 0" if "0 < n" "n < 2 ^ b" for n
    using probe_inj[of b key n 0] that by auto
qed (rule probe_next_probe[OF assms])

lemma path_Cons:
  assumes "b < 64"
  obtains js where "path b key = probe b key 0 # js"
    "steps_to (2 ^ b) (increment_of key) (probe b key 0) (probe b key 0 # js)"
    "unat (ModLength (2 ^ b) (snd key)) = probe b key 0"
proof
  note two = unat_length[OF assms]
  show p: "path b key = probe b key 0 # map (probe b key) [1..<2 ^ b]"
    by (simp add: path_def upt_conv_Cons)
  show "steps_to (2 ^ b) (increment_of key) (probe b key 0) (probe b key 0 # map (probe b key) [1..<2 ^ b])"
    using steps_to_probe[OF assms, of key] unfolding p .
  show "unat (ModLength (2 ^ b) (snd key)) = probe b key 0"
    by (simp add: ModLength_def unat_mod two probe_def)
qed

text \<open>FindSlot and Rollback on a table of 2 ^ b slots.\<close>

lemma FindSlot_walk:
  assumes "b < 64"
  shows "FindSlot (2 ^ b) key m a u s = walk m a u (path b key) s"
proof -
  obtain js where js: "path b key = probe b key 0 # js"
    "steps_to (2 ^ b) (increment_of key) (probe b key 0) (probe b key 0 # js)"
    "unat (ModLength (2 ^ b) (snd key)) = probe b key 0"
    by (rule path_Cons[OF assms])
  have "unat (2 ^ b :: u64) \<noteq> 0" unfolding unat_length[OF assms] by simp
  then have "(2 ^ b :: u64) \<noteq> 0" by (metis unsigned_0)
  then show ?thesis
    unfolding FindSlot_def Let_def js(1) using js(2,3) by (simp only: if_False find_slot_loop_walk)
qed

definition rolled :: "nat list \<Rightarrow> handle_impl list \<Rightarrow> handle_impl list" where
  "rolled is arr = foldl (\<lambda>arr j. arr[j := decr_displacement (arr ! j)]) arr is"

definition before :: "nat \<Rightarrow> key128 \<Rightarrow> nat \<Rightarrow> nat list" where
  "before b key h = takeWhile (\<lambda>j. j \<noteq> h) (path b key)"

lemma Rollback_rolled:
  assumes "b < 64" "length arr = 2 ^ b" "h < 2 ^ b"
  shows "Rollback (2 ^ b) key h arr = Some (rolled (before b key h) arr)"
proof -
  obtain js where js: "path b key = probe b key 0 # js"
    "steps_to (2 ^ b) (increment_of key) (probe b key 0) (probe b key 0 # js)"
    "unat (ModLength (2 ^ b) (snd key)) = probe b key 0"
    by (rule path_Cons[OF assms(1)])
  have "unat (2 ^ b :: u64) \<noteq> 0" unfolding unat_length[OF assms(1)] by simp
  then have nz: "(2 ^ b :: u64) \<noteq> 0" by (metis unsigned_0)
  have "set (probe b key 0 # js) = {..<2 ^ b}" using path_set[of b key] unfolding js(1) .
  then have "rollback_loop (2 ^ b) (increment_of key) h (ModLength (2 ^ b) (snd key)) arr =
      Some (rolled (before b key h) arr)"
    unfolding rolled_def before_def js(1) using assms(2,3)
    by (intro rollback_loop_fold[OF js(2,3)]) (simp_all only: lessThan_iff Ball_def, simp)
  then show ?thesis unfolding Rollback_def using nz by simp
qed

lemma rolled_length [simp]: "length (rolled is arr) = length arr"
  by (induction "is" arbitrary: arr) (simp_all add: rolled_def)

lemma rolled_nth:
  assumes "distinct is" "i < length arr"
  shows "rolled is arr ! i = (if i \<in> set is then decr_displacement (arr ! i) else arr ! i)"
  using assms
proof (induction "is" arbitrary: arr)
  case (Cons j js)
  let ?arr = "arr[j := decr_displacement (arr ! j)]"
  have "rolled (j # js) arr = rolled js ?arr" by (simp add: rolled_def)
  moreover have "?arr ! i = (if i = j then decr_displacement (arr ! i) else arr ! i)"
    using Cons.prems by (simp add: nth_list_update)
  ultimately show ?case using Cons.IH[of ?arr] Cons.prems by (cases "i = j") simp_all
qed (simp add: rolled_def)

section \<open>Displacement counting\<close>

text \<open>
  In a table T that holds a key, or nothing, at each index, the entry at j with key k was inserted
  by a walk along seq k that passed the members before j. The crossings of i are the entries whose
  walk passed i; the displacement counter of a slot is this number.
\<close>

definition crossers :: "('k \<Rightarrow> nat list) \<Rightarrow> nat \<Rightarrow> (nat \<Rightarrow> 'k option) \<Rightarrow> nat \<Rightarrow> nat set" where
  "crossers seq slots T i =
     {j. j < slots \<and> (\<exists>k. T j = Some k \<and> i \<in> set (takeWhile (\<lambda>l. l \<noteq> j) (seq k)))}"

definition crossings :: "('k \<Rightarrow> nat list) \<Rightarrow> nat \<Rightarrow> (nat \<Rightarrow> 'k option) \<Rightarrow> nat \<Rightarrow> nat" where
  "crossings seq slots T i = card (crossers seq slots T i)"

lemma crossers_finite: "finite (crossers seq slots T i)"
  by (rule finite_subset[of _ "{..<slots}"]) (auto simp: crossers_def)

locale open_addressing =
  fixes seq :: "'k \<Rightarrow> nat list" and slots :: nat
  assumes seq_distinct: "distinct (seq k)" and seq_slots: "set (seq k) = {..<slots}"
begin

lemma crossings_put:
  assumes "j < slots" "T j = None"
  shows "crossings seq slots (T(j := Some k)) i =
     crossings seq slots T i + (if i \<in> set (takeWhile (\<lambda>l. l \<noteq> j) (seq k)) then 1 else 0)"
proof (cases "i \<in> set (takeWhile (\<lambda>l. l \<noteq> j) (seq k))")
  case True
  with assms have "crossers seq slots (T(j := Some k)) i = insert j (crossers seq slots T i)"
    by (auto simp: crossers_def)
  moreover have "j \<notin> crossers seq slots T i" using assms by (simp add: crossers_def)
  ultimately show ?thesis using True by (simp add: crossings_def crossers_finite)
next
  case False
  with assms have "crossers seq slots (T(j := Some k)) i = crossers seq slots T i"
    by (auto simp: crossers_def)
  with False show ?thesis by (simp add: crossings_def)
qed

lemma crossings_clear:
  assumes "j < slots" "T j = Some k"
  shows "crossings seq slots (T(j := None)) i +
     (if i \<in> set (takeWhile (\<lambda>l. l \<noteq> j) (seq k)) then 1 else 0) = crossings seq slots T i"
  using crossings_put[of j "T(j := None)" k i] assms by (simp add: fun_upd_idem)

lemma crossings_pos:
  assumes "j < slots" "T j = Some k" "i \<in> set (takeWhile (\<lambda>l. l \<noteq> j) (seq k))"
  shows "0 < crossings seq slots T i"
  using crossings_clear[of j T k i] assms by simp

lemma crossings_le: "crossings seq slots T i \<le> slots"
  using card_mono[of "{..<slots}" "crossers seq slots T i"] by (auto simp: crossings_def crossers_def)

lemma crossings_empty: "(\<And>j. j < slots \<Longrightarrow> T j = None) \<Longrightarrow> crossings seq slots T i = 0"
  by (auto simp: crossings_def crossers_def)

text \<open>Every slot splits the walk of every key into what comes before and after it.\<close>

lemma seq_split:
  assumes "j < slots"
  obtains post where "seq k = takeWhile (\<lambda>l. l \<noteq> j) (seq k) @ j # post"
    "j \<notin> set (takeWhile (\<lambda>l. l \<noteq> j) (seq k))" "j \<notin> set post"
proof -
  have "j \<in> set (seq k)" using assms by (simp add: seq_slots)
  then obtain pre post where p: "seq k = pre @ j # post" "j \<notin> set pre" by (meson split_list_first)
  then have "takeWhile (\<lambda>l. l \<noteq> j) (seq k) = pre" by (subst p(1), subst takeWhile_append2) auto
  with p that[of post] seq_distinct[of k] show thesis by auto
qed

lemma before_less: "i \<in> set (takeWhile (\<lambda>l. l \<noteq> j) (seq k)) \<Longrightarrow> i < slots"
  using set_takeWhileD seq_slots by fastforce

end

interpretation oa: open_addressing "path b" "2 ^ b" for b
  by unfold_locales (simp_all add: path_distinct path_set)

section \<open>What FindSlot visits\<close>

definition trace_match :: "nat \<Rightarrow> nat list \<Rightarrow> (bool \<times> nat list) option" where
  "trace_match i s = Some (False, s @ [i])"

definition trace_abort :: "nat \<Rightarrow> nat list \<Rightarrow> (bool \<times> nat list) option" where
  "trace_abort i s = Some (False, s)"

definition trace_update :: "nat \<Rightarrow> bool \<Rightarrow> nat list \<Rightarrow> nat list option" where
  "trace_update i is_last s = Some s"

lemmas trace_defs = trace_match_def trace_abort_def trace_update_def

lemma walk_trace:
  "walk trace_match trace_abort trace_update is s = Some (None, s @ is)"
  by (induction "is" arbitrary: s) (simp_all add: trace_defs)

text \<open>C36: In a table of 2 ^ b slots the search of any key that neither matches nor aborts ends,
  after it has visited every slot of the table exactly once.\<close>

theorem FindSlot_visits_every_slot:
  assumes "b < 64"
  shows "\<exists>xs. FindSlot (2 ^ b) key trace_match trace_abort trace_update [] = Some (None, xs) \<and>
     distinct xs \<and> set xs = {..<2 ^ b}"
  using assms by (simp add: FindSlot_walk walk_trace path_distinct path_set)

lemma FindSlot_visits_every_slot_witness:
  "\<exists>xs. FindSlot (2 ^ 3) (7, 5) trace_match trace_abort trace_update [] = Some (None, xs) \<and>
     distinct xs \<and> set xs = {..<2 ^ 3}"
  by (rule FindSlot_visits_every_slot) simp

text \<open>A search that steps from 0 to 0 and waits for slot 1.\<close>

lemma find_slot_loop_stuck:
  "find_slot_loop 3 (- 1) 1 trace_match trace_abort trace_update 0 s = None"
proof (rule ccontr)
  assume "find_slot_loop 3 (- 1) 1 trace_match trace_abort trace_update 0 s \<noteq> None"
  then obtain r where r: "find_slot_loop 3 (- 1) 1 trace_match trace_abort trace_update 0 s = Some r" by auto
  have mod3: "ModLength 3 (0 + - 1) = 0" by (simp add: ModLength_def)
  have "\<not> ((3 :: u64) = 3 \<and> (- 1 :: u64) = - 1 \<and> (1 :: u64) = 1 \<and> trace_match = trace_match \<and> trace_abort = trace_abort \<and> trace_update = trace_update \<and> (0 :: u64) = 0)"
  proof (rule find_slot_loop.raw_induct[where P = "\<lambda>len inc first m a u current s r.
      \<not> (len = 3 \<and> inc = - 1 \<and> first = 1 \<and> m = trace_match \<and> a = trace_abort \<and> u = trace_update \<and> current = 0)", OF _ r])
    fix f :: "u64 \<Rightarrow> u64 \<Rightarrow> u64 \<Rightarrow> (nat \<Rightarrow> nat list \<Rightarrow> (bool \<times> nat list) option) \<Rightarrow>
        (nat \<Rightarrow> nat list \<Rightarrow> (bool \<times> nat list) option) \<Rightarrow> (nat \<Rightarrow> bool \<Rightarrow> nat list \<Rightarrow> nat list option) \<Rightarrow>
        u64 \<Rightarrow> nat list \<Rightarrow> (nat option \<times> nat list) option"
      and len inc first m a u current s r
    assume IH: "\<And>len inc first m a u current s r. f len inc first m a u current s = Some r \<Longrightarrow>
        \<not> (len = 3 \<and> inc = - 1 \<and> first = 1 \<and> m = trace_match \<and> a = trace_abort \<and> u = trace_update \<and> current = 0)"
      and e: "do { (matched, s) \<leftarrow> m (unat current) s;
          if matched then Some (Some (unat current), s)
          else do { (abort, s) \<leftarrow> a (unat current) s;
                    if abort then Some (None, s)
                    else (let h = unat current;
                              current = ModLength len (current + inc);
                              is_last = (current = first)
                          in do { s \<leftarrow> u h is_last s;
                                  if is_last then Some (None, s)
                                  else f len inc first m a u current s }) } } = Some r"
    show "\<not> (len = 3 \<and> inc = - 1 \<and> first = 1 \<and> m = trace_match \<and> a = trace_abort \<and> u = trace_update \<and> current = 0)"
      using e IH[of 3 "- 1" 1 trace_match trace_abort trace_update 0 "s @ [0]" r] mod3
      by (auto simp: trace_defs Let_def)
  qed
  then show False by simp
qed

text \<open>The comment of ClockCacheOptions only suggests a length of 2 ^ n. With three slots the
  search for the key (2 ^ 64 - 1, 1) never returns to its first slot: it does not end.\<close>

theorem FindSlot_diverges_length_3:
  "FindSlot 3 (- 1, 1) trace_match trace_abort trace_update s = None"
proof -
  have "increment_of (- 1, 1) = - 1" by (simp add: increment_of_def)
  moreover have "ModLength 3 1 = 1" "ModLength 3 (1 + - 1) = 0" by (simp_all add: ModLength_def)
  moreover have "trace_match (unat 1) s = Some (False, s @ [1])" "trace_abort i s = Some (False, s)"
    "trace_update i l s = Some s" for s :: "nat list" and i l by (simp_all add: trace_defs)
  ultimately show ?thesis
    using find_slot_loop_stuck[of "s @ [1]"]
    by (subst FindSlot_def) (simp add: find_slot_loop.simps[of 3 "- 1" 1 _ _ _ 1] Let_def)
qed

end
