(* ===== verification/Clock_Slots.thy ===== *)
theory Clock_Slots
  imports Clock_Probe
begin

text \<open>
  One slot of the clock cache: the static functions BeginSlotInsert, FinishSlotInsert, TryInsert,
  IsEvictionEffortExceeded and ClockUpdate of clock/clock_cache.cc and the bodies the lambdas of
  Lookup and Erase run on a slot, followed by the invariant of the slot array: the state
  marker is Empty, Invisible or Visible between operations, counters are bounded, and every
  displacement counter is the number of entries whose walk passed the slot.
\<close>

unbundle bit_operations_syntax

section \<open>Operations on a slot\<close>

text \<open>The result is the return value, the new value of already_matches, and the slot.\<close>

definition BeginSlotInsert :: "'a handle_scheme \<Rightarrow> handle_impl \<Rightarrow> bool \<Rightarrow> bool \<times> bool \<times> handle_impl" where
  "BeginSlotInsert handle h already_matches =
     (let (old_meta, m) = FetchOrAcqRel (meta h) (push_bit kStateShift kStateOccupiedBit);
          h = h\<lparr>meta := m\<rparr>;
          old_state = state_of old_meta
      in if old_state = kStateEmpty then (True, already_matches, h)
         else if old_state \<noteq> kStateVisible then (False, already_matches, h)
         else let (old_meta, h) = RefIncr h
              in if state_of old_meta = kStateVisible
                 then if hashed_key h = hashed_key handle then (False, True, RefDecr h)
                      else (False, already_matches, RefDecr h)
                 else if state_of old_meta = kStateInvisible then (False, already_matches, RefDecr h)
                 else (False, already_matches, h))"

definition FinishSlotInsert :: "'a handle_scheme \<Rightarrow> handle_impl \<Rightarrow> handle_impl" where
  "FinishSlotInsert handle h =
     (let h = h\<lparr>h_value := h_value handle, del_cb := del_cb handle,
                hashed_key := hashed_key handle, total_charge := total_charge handle\<rparr>;
          new_meta = push_bit kStateShift kStateVisible;
          new_meta = new_meta OR push_bit kHitCounterShift (of_int kInitHitCount)
      in h\<lparr>meta := snd (ExchangeAcqRel (meta h) new_meta)\<rparr>)"

definition TryInsert :: "'a handle_scheme \<Rightarrow> handle_impl \<Rightarrow> bool \<Rightarrow> bool \<times> bool \<times> handle_impl" where
  "TryInsert handle h already_matches =
     (let (b, already_matches, h) = BeginSlotInsert handle h already_matches
      in (b, already_matches, if b then FinishSlotInsert handle h else h))"

record eviction_data =
  freed_charge :: u64
  freed_count :: u64
  seen_pinned_count :: u64

definition IsEvictionEffortExceeded :: "eviction_data \<Rightarrow> u32 \<Rightarrow> bool" where
  "IsEvictionEffortExceeded data eviction_effort_cap \<longleftrightarrow>
     (freed_count data + 1) * ucast eviction_effort_cap \<le> seen_pinned_count data"

text \<open>
  The parameter hit_count_sum is a pointer, here its address; the statement of the code that adds
  to it moves this local copy of the pointer, so the caller's counter is not among the results. It points to
  one int64_t, and C++ defines the sum only up to the place after it: None is a pointer outside. The last
  result is this pointer; nothing reads it afterwards, so the caller goes on as it would with a defined one.
\<close>

definition move_pointer :: "u64 \<Rightarrow> int \<Rightarrow> u64 option" where
  "move_pointer p k = (if 0 \<le> k \<and> k \<le> 1 then Some (p + of_int (8 * k)) else None)"

definition ClockUpdate ::
  "handle_impl \<Rightarrow> eviction_data \<Rightarrow> u64 \<Rightarrow> int \<Rightarrow> bool \<times> handle_impl \<times> eviction_data \<times> u64 option" where
  "ClockUpdate h data hit_count_sum hit_decr_delta =
     (let m = LoadRelaxed (meta h)
      in if state_of m AND kStateShareableBit = 0 then (False, h, data, Some hit_count_sum)
         else if 0 < RefCount m
         then (False, h, data\<lparr>seen_pinned_count := seen_pinned_count data + 1\<rparr>, Some hit_count_sum)
         else let hit_count = HitCount m
              in if state_of m = kStateVisible \<and> 0 < hit_count
                 then let new_hit_count = max (hit_count - hit_decr_delta) 0;
                          new_meta = push_bit kStateShift kStateVisible OR (m AND kHitBitMask)
                                       OR push_bit kHitCounterShift (of_int new_hit_count);
                          (_, _, m') = CasStrongRelaxed (meta h) m new_meta
                      in (False, h\<lparr>meta := m'\<rparr>, data, move_pointer hit_count_sum new_hit_count)
                 else let (ok, _, m') = CasStrongAcqRel (meta h) m
                                          (push_bit kStateShift kStateConstruction OR (m AND kHitBitMask));
                          h = h\<lparr>meta := m'\<rparr>
                      in if ok then (True, h, data\<lparr>freed_charge := freed_charge data + GetTotalCharge h,
                                                   freed_count := freed_count data + 1\<rparr>, Some hit_count_sum)
                         else (False, h, data, Some hit_count_sum))"

text \<open>The match function of Lookup on a slot.\<close>

definition lookup_slot :: "key128 \<Rightarrow> handle_impl \<Rightarrow> bool \<times> handle_impl" where
  "lookup_slot key h =
     (let (old_meta, h) = RefIncr h
      in if state_of old_meta = kStateVisible
         then if hashed_key h = key then (True, HitIncr h 1) else (False, RefDecr h)
         else if state_of old_meta = kStateInvisible then (False, RefDecr h)
         else (False, h))"

text \<open>
  The loop of Erase after it has made the entry invisible: the first argument counts the spurious
  failures of the weak compare-and-swap. The result is whether the eraser took ownership.
\<close>

partial_function (option) erase_loop :: "nat \<Rightarrow> u64 \<Rightarrow> handle_impl \<Rightarrow> (bool \<times> handle_impl) option" where
  [code]: "erase_loop spurious old_meta h =
     (if 1 < RefCount old_meta then Some (False, RefDecr h)
      else (case CasWeakAcqRel (0 < spurious) (meta h) old_meta (push_bit kStateShift kStateConstruction) of
              (ok, old_meta, m) \<Rightarrow>
                if ok then Some (True, h\<lparr>meta := m\<rparr>)
                else erase_loop (spurious - 1) old_meta (h\<lparr>meta := m\<rparr>)))"

definition erase_begin :: "handle_impl \<Rightarrow> u64 \<times> handle_impl" where
  "erase_begin h =
     (let visible = push_bit kStateShift kStateVisibleBit;
          (old_meta, m) = FetchAndAcqRel (meta h) (NOT visible)
      in (old_meta AND NOT visible, h\<lparr>meta := m\<rparr>))"

section \<open>What the operations do to the fields\<close>

definition slot_ok :: "nat \<Rightarrow> handle_impl \<Rightarrow> bool" where
  "slot_ok n h \<longleftrightarrow> f_st (meta h) \<in> {0, 6, 7} \<and> f_ref (meta h) \<le> n \<and> f_hit (meta h) \<le> 2000"

definition occupied :: "handle_impl \<Rightarrow> bool" where
  "occupied h \<longleftrightarrow> f_st (meta h) \<noteq> 0"

definition visible_for :: "key128 \<Rightarrow> handle_impl \<Rightarrow> bool" where
  "visible_for key h \<longleftrightarrow> f_st (meta h) = 7 \<and> hashed_key h = key"

text \<open>The client's part of a slot, and the slot without its counters.\<close>

definition payload :: "handle_impl \<Rightarrow> handle" where
  "payload h = \<lparr>h_value = h_value h, del_cb = del_cb h, hashed_key = hashed_key h, total_charge = total_charge h\<rparr>"

lemma RefIncr_simp: "RefIncr h = (meta h, h\<lparr>meta := meta h + 1\<rparr>)"
  by (simp add: RefIncr_def atomic_defs kRefIncrement_def shift_defs)

lemma RefDecr_simp: "RefDecr h = h\<lparr>meta := meta h - 1\<rparr>"
  by (simp add: RefDecr_def atomic_defs kRefIncrement_def shift_defs)

lemma RefDecr_RefIncr: "RefDecr (h\<lparr>meta := meta h + 1\<rparr>) = h"
  by (simp add: RefDecr_simp)

lemma fields_HitIncr_slot:
  assumes "f_hit (meta h) + c < 2 ^ 30"
  shows "HitIncr h (int c) = h\<lparr>meta := meta (HitIncr h (int c))\<rparr>"
    "meta_fields (meta (HitIncr h (int c))) =
       (f_ref (meta h), min (f_hit (meta h) + c) 2000, f_bit (meta h), f_st (meta h))"
proof -
  let ?m = "meta h + kHitIncrement * of_nat c"
  have inc: "meta_fields ?m = (f_ref (meta h), f_hit (meta h) + c, f_bit (meta h), f_st (meta h))"
    using assms by (rule fields_HitIncr)
  show "HitIncr h (int c) = h\<lparr>meta := meta (HitIncr h (int c))\<rparr>"
    by (simp add: HitIncr_def HitDecr_def atomic_defs Let_def)
  show "meta_fields (meta (HitIncr h (int c))) =
       (f_ref (meta h), min (f_hit (meta h) + c) 2000, f_bit (meta h), f_st (meta h))"
  proof (cases "f_hit (meta h) + c \<le> 2000")
    case True
    then have "\<not> 0 < HitCount (meta h) + int c - kMaxHitCount"
      by (simp add: HitCount_field kMaxHitCount_def)
    then have "meta (HitIncr h (int c)) = ?m" by (simp add: HitIncr_def atomic_defs)
    with inc True show ?thesis by simp
  next
    case False
    let ?d = "f_hit (meta h) + c - 2000"
    have d: "int (f_hit (meta h)) + int c - 2000 = int ?d" "2000 < int (f_hit (meta h)) + int c"
      using False by simp_all
    have "meta (HitIncr h (int c)) = ?m - kHitIncrement * of_nat ?d"
      by (simp add: HitIncr_def HitDecr_def atomic_defs HitCount_field kMaxHitCount_def Let_def d
          del: of_nat_diff of_nat_add)
    moreover have "meta_fields (?m - kHitIncrement * of_nat ?d) = (f_ref ?m, f_hit ?m - ?d, f_bit ?m, f_st ?m)"
      by (rule fields_HitDecr) (use inc in simp)
    ultimately show ?thesis using inc False by simp
  qed
qed

lemma bit_st: "bit m (61 + k) \<longleftrightarrow> odd (f_st m div 2 ^ k)"
proof -
  have "bit m (61 + k) \<longleftrightarrow> bit (unat m) (61 + k)"
    using bit_imp_le_length[of m "61 + k"] by (auto simp: bit_unsigned_iff)
  also have "\<dots> \<longleftrightarrow> odd (unat m div 2 ^ 61 div 2 ^ k)"
    by (simp only: bit_iff_odd power_add div_mult2_eq)
  finally show ?thesis by (simp add: f_st_def)
qed

lemma or_occupied: "f_st m \<in> {6, 7} \<Longrightarrow> m OR push_bit kStateShift kStateOccupiedBit = m"
proof -
  assume "f_st m \<in> {6, 7}"
  then have b: "bit m 63" using bit_st[of m 2] by auto
  have "push_bit kStateShift kStateOccupiedBit = push_bit 63 1"
    by (simp add: shift_defs state_defs)
  moreover have "m OR push_bit 63 1 = m"
    by (intro bit_word_eqI) (use b in \<open>auto simp only: bit_or_iff bit_push_one\<close>)
  ultimately show ?thesis by simp
qed

lemma and_split: "(m AND NOT v) + (m AND v) = m" for m v :: u64
  by (subst disjunctive_add) (auto simp: bit_simps intro: bit_word_eqI)

lemma fields_and_not_visible:
  assumes "f_st m = 7"
  shows "meta_fields (m AND NOT (push_bit kStateShift kStateVisibleBit)) = (f_ref m, f_hit m, f_bit m, 6)"
proof -
  let ?v = "push_bit 61 1 :: u64"
  have v: "push_bit kStateShift kStateVisibleBit = ?v" by (simp add: shift_defs state_defs)
  have b: "bit m 61" using assms bit_st[of m 0] by simp
  have "m AND ?v = ?v" by (intro bit_word_eqI) (use b in \<open>auto simp only: bit_and_iff bit_push_one\<close>)
  moreover have "(m AND NOT ?v) + (m AND ?v) = m" by (rule and_split)
  ultimately have e: "m AND NOT ?v = m - ?v" by (simp add: eq_diff_eq)
  have uv: "unat ?v = 2 ^ 61" by simp
  have "unat m = f_ref m + f_hit m * 2 ^ 30 + f_bit m * 2 ^ 60 + 6 * 2 ^ 61 + 2 ^ 61"
    using f_decomp[of m] assms by simp
  then have "unat (m - ?v) = f_ref m + f_hit m * 2 ^ 30 + f_bit m * 2 ^ 60 + 6 * 2 ^ 61"
    using unat_sub_small[of ?v m] uv by simp
  then show ?thesis unfolding v e by (rule fieldsI) (use f_bounds in auto)
qed

lemma and_not_idem: "m AND NOT v AND NOT v = m AND NOT (v :: u64)"
  by (simp add: and.assoc)

lemma state_of_simps:
  "f_st m = 0 \<Longrightarrow> state_of m = kStateEmpty" "f_st m = 6 \<Longrightarrow> state_of m = kStateInvisible"
  "f_st m = 7 \<Longrightarrow> state_of m = kStateVisible"
  by (simp_all add: state_of_consts)

lemma state_neqs:
  "kStateEmpty \<noteq> kStateVisible" "kStateInvisible \<noteq> kStateVisible" "kStateEmpty \<noteq> kStateInvisible"
  by (simp_all add: state_defs)

lemma TryInsert_simps:
  "f_st (meta h) = 0 \<Longrightarrow> TryInsert handle h False = (True, False, FinishSlotInsert handle h)"
  "f_st (meta h) = 6 \<Longrightarrow> TryInsert handle h False = (False, False, h)"
  "f_st (meta h) = 7 \<Longrightarrow> TryInsert handle h False = (False, hashed_key h = hashed_key handle, h)"
  by (simp_all add: TryInsert_def BeginSlotInsert_def FetchOrAcqRel_def FetchOrRelaxed_def
      ExchangeAcqRel_def ExchangeRelaxed_def
      state_of_simps state_neqs state_neqs[symmetric] or_occupied RefIncr_simp RefDecr_simp FinishSlotInsert_def Let_def)

lemma FinishSlotInsert_fields:
  "meta_fields (meta (FinishSlotInsert handle h)) = (0, 3, 0, 7)"
  "payload (FinishSlotInsert handle h) = handle.truncate handle"
  "displacements (FinishSlotInsert handle h) = displacements h"
  "hashed_key (FinishSlotInsert handle h) = hashed_key handle"
  "total_charge (FinishSlotInsert handle h) = total_charge handle"
proof -
  have "meta (FinishSlotInsert handle h) = push_bit 61 (of_nat 7) OR (0 AND kHitBitMask) OR push_bit 30 (of_nat 3)"
    by (simp add: FinishSlotInsert_def atomic_defs shift_defs state_defs kInitHitCount_def)
  then show "meta_fields (meta (FinishSlotInsert handle h)) = (0, 3, 0, 7)"
    using fields_pack[of 3 7 0] fields_0 by simp
qed (simp_all add: FinishSlotInsert_def payload_def handle.truncate_def Let_def)

lemma lookup_slot_simps:
  "f_st (meta h) = 0 \<Longrightarrow> lookup_slot key h = (False, h\<lparr>meta := meta h + 1\<rparr>)"
  "f_st (meta h) = 6 \<Longrightarrow> lookup_slot key h = (False, h)"
  "f_st (meta h) = 7 \<Longrightarrow> hashed_key h \<noteq> key \<Longrightarrow> lookup_slot key h = (False, h)"
  "f_st (meta h) = 7 \<Longrightarrow> hashed_key h = key \<Longrightarrow> lookup_slot key h = (True, HitIncr (h\<lparr>meta := meta h + 1\<rparr>) 1)"
  by (simp_all add: lookup_slot_def RefIncr_simp RefDecr_simp state_of_simps state_neqs state_neqs[symmetric])

lemma lookup_slot_hit:
  assumes "f_st (meta h) = 7" "hashed_key h = key" "f_ref (meta h) + 1 < 2 ^ 30" "f_hit (meta h) \<le> 2000"
  obtains m where "lookup_slot key h = (True, h\<lparr>meta := m\<rparr>)"
    "meta_fields m = (f_ref (meta h) + 1, min (f_hit (meta h) + 1) 2000, f_bit (meta h), 7)"
proof -
  let ?h = "h\<lparr>meta := meta h + 1\<rparr>"
  have f: "meta_fields (meta ?h) = (f_ref (meta h) + 1, f_hit (meta h), f_bit (meta h), f_st (meta h))"
    using fields_RefIncr[OF assms(3)] by simp
  then have b: "f_hit (meta ?h) + 1 < 2 ^ 30" using assms(4) by simp
  have "HitIncr ?h 1 = h\<lparr>meta := meta (HitIncr ?h 1)\<rparr>" using fields_HitIncr_slot(1)[OF b] by simp
  moreover have "meta_fields (meta (HitIncr ?h 1)) =
      (f_ref (meta h) + 1, min (f_hit (meta h) + 1) 2000, f_bit (meta h), 7)"
    using fields_HitIncr_slot(2)[OF b] f assms(1) by simp
  ultimately show thesis using that lookup_slot_simps(4)[OF assms(1,2)] by metis
qed

text \<open>What Erase does to a visible entry: its reference, made invisible, and the loop.\<close>

definition erase_visible :: "nat \<Rightarrow> handle_impl \<Rightarrow> (bool \<times> handle_impl) option" where
  "erase_visible spurious h =
     (let (_, h) = RefIncr h; (old_meta, h) = erase_begin h in erase_loop spurious old_meta h)"

lemma erase_loop_shared: "1 < RefCount m \<Longrightarrow> erase_loop k m h = Some (False, RefDecr h)"
  by (subst erase_loop.simps) simp

lemma erase_loop_last:
  "\<not> 1 < RefCount (meta h) \<Longrightarrow>
   erase_loop k (meta h) h = Some (True, h\<lparr>meta := push_bit kStateShift kStateConstruction\<rparr>)"
proof (induction k)
  case 0
  then show ?case by (subst erase_loop.simps) (simp add: atomic_defs)
next
  case (Suc k)
  then have "erase_loop (Suc k) (meta h) h = erase_loop k (meta h) h"
    by (subst erase_loop.simps) (simp add: CasWeakAcqRel_def CasWeakRelaxed_def)
  with Suc show ?case by simp
qed

lemma erase_visible_cases:
  assumes "f_st (meta h) = 7" "f_ref (meta h) + 1 < 2 ^ 30"
  obtains (took) "f_ref (meta h) = 0"
      "erase_visible k h = Some (True, h\<lparr>meta := push_bit kStateShift kStateConstruction\<rparr>)"
    | (pinned) m where "0 < f_ref (meta h)" "erase_visible k h = Some (False, h\<lparr>meta := m\<rparr>)"
      "meta_fields m = (f_ref (meta h), f_hit (meta h), f_bit (meta h), 6)"
proof -
  define m where "m = (meta h + 1) AND NOT (push_bit kStateShift kStateVisibleBit)"
  have inc: "meta_fields (meta h + 1) = (f_ref (meta h) + 1, f_hit (meta h), f_bit (meta h), 7)"
    using fields_RefIncr[OF assms(2)] assms(1) by simp
  then have m: "meta_fields m = (f_ref (meta h) + 1, f_hit (meta h), f_bit (meta h), 6)"
    unfolding m_def using fields_and_not_visible[of "meta h + 1"] by simp
  have e: "erase_visible k h = erase_loop k (meta (h\<lparr>meta := m\<rparr>)) (h\<lparr>meta := m\<rparr>)"
    by (simp add: erase_visible_def erase_begin_def RefIncr_simp FetchAndAcqRel_def FetchAndRelaxed_def
        and_not_idem m_def Let_def)
  show thesis
  proof (cases "f_ref (meta h) = 0")
    case True
    then have "\<not> 1 < RefCount (meta (h\<lparr>meta := m\<rparr>))" using m by (simp add: RefCount_field)
    from erase_loop_last[OF this, of k] True show ?thesis by (intro took) (simp_all add: e)
  next
    case False
    then have "1 < RefCount m" using m by (simp add: RefCount_field)
    then have "erase_visible k h = Some (False, h\<lparr>meta := m - 1\<rparr>)"
      by (simp add: e erase_loop_shared RefDecr_simp)
    moreover have "meta_fields (m - 1) = (f_ref (meta h), f_hit (meta h), f_bit (meta h), 6)"
      using fields_RefDecr[of m] m by simp
    ultimately show ?thesis using False by (intro pinned) simp_all
  qed
qed

lemma not_shareable_iff: "state_of m AND kStateShareableBit = 0 \<longleftrightarrow> \<not> odd (f_st m div 2)"
proof -
  have "state_of m AND kStateShareableBit = state_of m AND push_bit 1 1"
    by (simp add: state_defs)
  moreover have "bit (state_of m) 1 = bit m (61 + 1)"
    by (simp add: state_of_def shift_defs bit_drop_bit_eq)
  ultimately show ?thesis using bit_st[of m 1] and_single_bit_eq_0[of 1 "state_of m"] by simp
qed

lemma ClockUpdate_cases:
  assumes "f_st (meta h) \<in> {0, 6, 7}" "0 \<le> delta"
  obtains (empty) "f_st (meta h) = 0" "ClockUpdate h data p delta = (False, h, data, Some p)"
    | (pinned) "f_st (meta h) \<noteq> 0" "0 < f_ref (meta h)"
      "ClockUpdate h data p delta = (False, h, data\<lparr>seen_pinned_count := seen_pinned_count data + 1\<rparr>, Some p)"
    | (aged) m p' where "f_st (meta h) = 7" "f_ref (meta h) = 0" "0 < f_hit (meta h)"
      "ClockUpdate h data p delta = (False, h\<lparr>meta := m\<rparr>, data, p')"
      "meta_fields m = (0, f_hit (meta h) - nat delta, f_bit (meta h), 7)" "p' = move_pointer p (int (f_hit (meta h) - nat delta))"
    | (took) m where "f_st (meta h) \<noteq> 0" "f_ref (meta h) = 0" "f_st (meta h) = 7 \<Longrightarrow> f_hit (meta h) = 0"
      "ClockUpdate h data p delta = (True, h\<lparr>meta := m\<rparr>,
         data\<lparr>freed_charge := freed_charge data + total_charge h, freed_count := freed_count data + 1\<rparr>, Some p)"
      "f_st m = 4"
proof (cases "f_st (meta h) = 0")
  case True
  then have "state_of (meta h) AND kStateShareableBit = 0" by (simp add: not_shareable_iff)
  with True show thesis by (intro empty) (simp_all add: ClockUpdate_def LoadRelaxed_def)
next
  case occ: False
  with assms have sh: "state_of (meta h) AND kStateShareableBit \<noteq> 0" by (auto simp: not_shareable_iff)
  show thesis
  proof (cases "f_ref (meta h) = 0")
    case False
    with occ sh show thesis
      by (intro pinned) (simp_all add: ClockUpdate_def LoadRelaxed_def RefCount_field Let_def)
  next
    case noref: True
    show thesis
    proof (cases "f_st (meta h) = 7 \<and> 0 < f_hit (meta h)")
      case True
      let ?n = "f_hit (meta h) - nat delta"
      have mx: "max (int (f_hit (meta h)) - delta) 0 = int ?n" using assms(2) by simp
      define m where "m = push_bit kStateShift kStateVisible OR (meta h AND kHitBitMask) OR
        push_bit kHitCounterShift (of_nat ?n)"
      have "m = push_bit 61 (of_nat 7) OR (meta h AND kHitBitMask) OR push_bit 30 (of_nat ?n)"
        by (simp add: m_def shift_defs state_defs)
      then have "meta_fields m = (0, ?n, f_bit (meta h), 7)"
        using fields_pack[of ?n 7 "meta h"] f_bounds(2)[of "meta h"] by simp
      moreover have "ClockUpdate h data p delta = (False, h\<lparr>meta := m\<rparr>, data, move_pointer p (int ?n))"
        using True sh noref
        by (simp add: ClockUpdate_def LoadRelaxed_def RefCount_field HitCount_field Let_def mx m_def
            CasStrongRelaxed_def state_of_consts del: of_nat_diff)
      ultimately show thesis using True noref by (intro aged) simp_all
    next
      case False
      define m where "m = push_bit kStateShift kStateConstruction OR (meta h AND kHitBitMask)"
      have "m = push_bit 61 (of_nat 4) OR (meta h AND kHitBitMask) OR push_bit 30 (of_nat 0)"
        by (simp add: m_def shift_defs state_defs)
      then have "f_st m = 4" using fields_pack[of 0 4 "meta h"] by simp
      moreover have "ClockUpdate h data p delta = (True, h\<lparr>meta := m\<rparr>,
         data\<lparr>freed_charge := freed_charge data + total_charge h, freed_count := freed_count data + 1\<rparr>, Some p)"
        using False sh noref
        by (simp add: ClockUpdate_def LoadRelaxed_def RefCount_field HitCount_field Let_def m_def
            CasStrongAcqRel_def CasStrongRelaxed_def state_of_consts GetTotalCharge_def)
      ultimately show thesis using False noref occ by (intro took) simp_all
    qed
  qed
qed

text \<open>Lowering a hit count to 2 or more moves the pointer out of the counter it points to.\<close>

lemma ClockUpdate_pointer_leaves:
  assumes "f_st (meta h) = 7" "f_ref (meta h) = 0" "0 \<le> delta" "nat delta + 2 \<le> f_hit (meta h)"
  shows "\<exists>h'. ClockUpdate h data p delta = (False, h', data, None)"
proof (rule ClockUpdate_cases[of h delta data p])
  fix m p' assume "ClockUpdate h data p delta = (False, h\<lparr>meta := m\<rparr>, data, p')" "p' = move_pointer p (int (f_hit (meta h) - nat delta))"
  then show ?thesis using assms(4) by (auto simp: move_pointer_def)
qed (use assms in auto)

end
