(* ===== verification/Clock_Concurrent.thy ===== *)
theory Clock_Concurrent
  imports Clock_Slots "HOL-Library.Multiset"
begin

text \<open>
  One slot of the clock cache under any interleaving of the threads that work on it. Every access to the
  meta word and every access to the data of the handle is one step of one thread, in the order of
  clock/clock_cache.cc: the match functions of Lookup and Erase, TryInsert, ClockUpdate and the release of the
  entry that follows it. A handle a client has got from Lookup is counted in held until it is released.

  The safety argument of the code is that a reference keeps every other thread from taking ownership, and
  that only the owner touches the data. It rests on the counters staying in their fields, for which
  the number of threads and of the handles that are held must be bounded, and on one race not happening: the
  else branch of Erase gives back the reference it took on a slot under construction (line 280), but
  when the slot was published in between, that reference is gone. The ghost field races counts these
  events; the last section shows what one of them does.
\<close>

unbundle bit_operations_syntax

section \<open>Threads and steps\<close>

datatype pc =
    Idle
  | LookKey key128           \<comment> \<open>Lookup saw a visible entry, next: compare the key\<close>
  | HitAdd key128            \<comment> \<open>it matches, next: HitIncr adds\<close>
  | HitSub key128 int        \<comment> \<open>HitIncr added too much, next: HitDecr\<close>
  | Drop                     \<comment> \<open>next: RefDecr\<close>
  | InsRef handle            \<comment> \<open>the slot is visible, next: RefIncr\<close>
  | InsKey handle            \<comment> \<open>next: compare the key\<close>
  | InsWrite handle          \<comment> \<open>the slot is ours, next: write the data\<close>
  | InsPublish               \<comment> \<open>next: make it visible\<close>
  | UpdHit u64 u64           \<comment> \<open>ClockUpdate loaded the word, next: lower the hit counter\<close>
  | UpdOwn u64               \<comment> \<open>ClockUpdate loaded the word, next: take ownership\<close>
  | Free                     \<comment> \<open>next: FreeData\<close>
  | Emptying                 \<comment> \<open>next: MarkEmpty\<close>
  | EraKey key128            \<comment> \<open>Erase saw a visible entry, next: compare the key\<close>
  | EraAnd key128            \<comment> \<open>it matches, next: make it invisible\<close>
  | EraLoop key128 u64       \<comment> \<open>the loop of Erase with old_meta\<close>
  | ElseDrop                 \<comment> \<open>Erase saw an empty slot or one under construction, next: RefDecr\<close>

record csys =
  hslot :: handle_impl
  held :: nat
  pcs :: "nat \<Rightarrow> pc"
  calls :: "(u64 \<times> u64) list"
  puts :: "handle list"
  strays :: nat
  races :: nat

abbreviation goto :: "csys \<Rightarrow> nat \<Rightarrow> pc \<Rightarrow> csys" where
  "goto s t c \<equiv> s\<lparr>pcs := (pcs s)(t := c)\<rparr>"

abbreviation act :: "csys \<Rightarrow> handle_impl \<Rightarrow> nat \<Rightarrow> pc \<Rightarrow> csys" where
  "act s h t c \<equiv> s\<lparr>hslot := h, pcs := (pcs s)(t := c)\<rparr>"

text \<open>Where a thread goes that has taken a reference on a slot whose word was old.\<close>

definition ref_outcome :: "u64 \<Rightarrow> pc \<Rightarrow> pc \<Rightarrow> pc" where
  "ref_outcome old visible otherwise =
     (if state_of old = kStateVisible then visible
      else if state_of old = kStateInvisible then Drop else otherwise)"

text \<open>What BeginSlotInsert does after its FetchOr, and ClockUpdate after its load.\<close>

definition insert_outcome :: "u64 \<Rightarrow> handle \<Rightarrow> pc" where
  "insert_outcome old handle =
     (if state_of old = kStateEmpty then InsWrite handle
      else if state_of old \<noteq> kStateVisible then Idle else InsRef handle)"

definition update_outcome :: "u64 \<Rightarrow> int \<Rightarrow> pc" where
  "update_outcome m hit_decr_delta =
     (if state_of m AND kStateShareableBit = 0 then Idle
      else if 0 < RefCount m then Idle
      else let hit_count = HitCount m
           in if state_of m = kStateVisible \<and> 0 < hit_count
              then let new_hit_count = max (hit_count - hit_decr_delta) 0
                   in UpdHit m (push_bit kStateShift kStateVisible OR (m AND kHitBitMask)
                                  OR push_bit kHitCounterShift (of_int new_hit_count))
              else UpdOwn m)"

text \<open>An Erase is about to give back a reference that an exchange of the whole word would delete.\<close>

definition racing :: "csys \<Rightarrow> nat" where
  "racing s = of_bool (\<exists>u. pcs s u = ElseDrop)"

text \<open>The threads are numbered below N.\<close>

inductive cstep :: "nat \<Rightarrow> csys \<Rightarrow> csys \<Rightarrow> bool" for N where
  look_call: "t < N \<Longrightarrow> pcs s t = Idle \<Longrightarrow> RefIncr (hslot s) = (old, h) \<Longrightarrow>
    c = ref_outcome old (LookKey key) Idle \<Longrightarrow>
    cstep N s ((act s h t c)\<lparr>strays := strays s + of_bool (c = Idle)\<rparr>)"
| look_key: "pcs s t = LookKey key \<Longrightarrow>
    cstep N s (goto s t (if hashed_key (hslot s) = key then HitAdd key else Drop))"
| hit_add: "pcs s t = HitAdd key \<Longrightarrow> FetchAddAcqRel (meta (hslot s)) (kHitIncrement * 1) = (old, m) \<Longrightarrow>
    overflow = HitCount old + 1 - kMaxHitCount \<Longrightarrow> h = (hslot s)\<lparr>meta := m\<rparr> \<Longrightarrow>
    cstep N s (if 0 < overflow then act s h t (HitSub key overflow)
               else (act s h t Idle)\<lparr>held := held s + 1\<rparr>)"
| hit_sub: "pcs s t = HitSub key overflow \<Longrightarrow>
    cstep N s ((act s (HitDecr (hslot s) overflow) t Idle)\<lparr>held := held s + 1\<rparr>)"
| drop_ref: "pcs s t = Drop \<Longrightarrow> cstep N s (act s (RefDecr (hslot s)) t Idle)"
| release: "t < N \<Longrightarrow> pcs s t = Idle \<Longrightarrow> 0 < held s \<Longrightarrow>
    cstep N s ((act s (RefDecr (hslot s)) t Idle)\<lparr>held := held s - 1\<rparr>)"
| ins_call: "t < N \<Longrightarrow> pcs s t = Idle \<Longrightarrow>
    FetchOrAcqRel (meta (hslot s)) (push_bit kStateShift kStateOccupiedBit) = (old, m) \<Longrightarrow>
    cstep N s (act s ((hslot s)\<lparr>meta := m\<rparr>) t (insert_outcome old handle))"
| ins_ref: "pcs s t = InsRef handle \<Longrightarrow> RefIncr (hslot s) = (old, h) \<Longrightarrow>
    c = ref_outcome old (InsKey handle) Idle \<Longrightarrow>
    cstep N s ((act s h t c)\<lparr>strays := strays s + of_bool (c = Idle)\<rparr>)"
| ins_key: "pcs s t = InsKey handle \<Longrightarrow> cstep N s (goto s t Drop)"
| ins_write: "pcs s t = InsWrite handle \<Longrightarrow>
    cstep N s ((act s ((hslot s)\<lparr>h_value := h_value handle, del_cb := del_cb handle,
                  hashed_key := hashed_key handle, total_charge := total_charge handle\<rparr>) t InsPublish)
               \<lparr>puts := puts s @ [handle]\<rparr>)"
| ins_publish: "pcs s t = InsPublish \<Longrightarrow>
    new_meta = push_bit kStateShift kStateVisible OR push_bit kHitCounterShift (of_int kInitHitCount) \<Longrightarrow>
    cstep N s ((act s ((hslot s)\<lparr>meta := snd (ExchangeAcqRel (meta (hslot s)) new_meta)\<rparr>) t Idle)
               \<lparr>races := races s + racing s\<rparr>)"
| upd_call: "t < N \<Longrightarrow> pcs s t = Idle \<Longrightarrow> 0 \<le> hit_decr_delta \<Longrightarrow>
    cstep N s (goto s t (update_outcome (LoadRelaxed (meta (hslot s))) hit_decr_delta))"
| upd_hit: "pcs s t = UpdHit m new_meta \<Longrightarrow> CasStrongRelaxed (meta (hslot s)) m new_meta = (ok, m', w) \<Longrightarrow>
    cstep N s (act s ((hslot s)\<lparr>meta := w\<rparr>) t Idle)"
| upd_own: "pcs s t = UpdOwn m \<Longrightarrow>
    CasStrongAcqRel (meta (hslot s)) m (push_bit kStateShift kStateConstruction OR (m AND kHitBitMask)) = (ok, m', w) \<Longrightarrow>
    cstep N s (act s ((hslot s)\<lparr>meta := w\<rparr>) t (if ok then Free else Idle))"
| free_data: "pcs s t = Free \<Longrightarrow> FreeData (hslot s) = (h, cs) \<Longrightarrow>
    cstep N s ((act s h t Emptying)\<lparr>calls := calls s @ cs\<rparr>)"
| mark_empty: "pcs s t = Emptying \<Longrightarrow>
    cstep N s ((act s (MarkEmpty (hslot s)) t Idle)\<lparr>races := races s + racing s\<rparr>)"
| era_call: "t < N \<Longrightarrow> pcs s t = Idle \<Longrightarrow> RefIncr (hslot s) = (old, h) \<Longrightarrow>
    cstep N s (act s h t (ref_outcome old (EraKey key) ElseDrop))"
| era_key: "pcs s t = EraKey key \<Longrightarrow>
    cstep N s (goto s t (if hashed_key (hslot s) = key then EraAnd key else Drop))"
| era_and: "pcs s t = EraAnd key \<Longrightarrow> visible = push_bit kStateShift kStateVisibleBit \<Longrightarrow>
    FetchAndAcqRel (meta (hslot s)) (NOT visible) = (old, m) \<Longrightarrow>
    cstep N s (act s ((hslot s)\<lparr>meta := m\<rparr>) t (EraLoop key (old AND NOT visible)))"
| era_shared: "pcs s t = EraLoop key old \<Longrightarrow> 1 < RefCount old \<Longrightarrow>
    cstep N s (act s (RefDecr (hslot s)) t Idle)"
| era_cas: "pcs s t = EraLoop key old \<Longrightarrow> \<not> 1 < RefCount old \<Longrightarrow>
    CasWeakAcqRel sp (meta (hslot s)) old (push_bit kStateShift kStateConstruction) = (ok, old', w) \<Longrightarrow>
    cstep N s (act s ((hslot s)\<lparr>meta := w\<rparr>) t (if ok then Free else EraLoop key old'))"
| else_drop: "pcs s t = ElseDrop \<Longrightarrow> cstep N s (act s (RefDecr (hslot s)) t Idle)"

text \<open>The initial state, and the runs whose states all satisfy P.\<close>

definition csys_new :: csys where
  "csys_new = \<lparr>hslot = HandleImpl_new, held = 0, pcs = (\<lambda>_. Idle), calls = [], puts = [], strays = 0, races = 0\<rparr>"

inductive creach :: "(csys \<Rightarrow> bool) \<Rightarrow> nat \<Rightarrow> csys \<Rightarrow> bool" for P N where
  start: "creach P N csys_new"
| step: "creach P N s \<Longrightarrow> cstep N s s' \<Longrightarrow> P s' \<Longrightarrow> creach P N s'"

text \<open>
  What the environment must respect: fewer than 2^29 handles are held, no more than 2^60 lookups ever
  hit the slot while it is empty or under construction (they do not take their increment back), and
  the race of the else branch does not happen.
\<close>

definition calm :: "csys \<Rightarrow> bool" where
  "calm s \<longleftrightarrow> held s < 2 ^ 29 \<and> strays s < 2 ^ 60 \<and> races s = 0"

section \<open>The counters\<close>

text \<open>Sums over the threads.\<close>

definition tally :: "nat \<Rightarrow> (nat \<Rightarrow> pc) \<Rightarrow> (pc \<Rightarrow> nat) \<Rightarrow> nat" where
  "tally N P f = (\<Sum>t < N. f (P t))"

lemma tally_update:
  assumes "t < N"
  shows "tally N (P(t := c)) f = tally N P f - f (P t) + f c" "f (P t) \<le> tally N P f"
proof -
  have fin: "finite {..<N}" "t \<in> {..<N}" using assms by simp_all
  have "tally N P f = f (P t) + (\<Sum>u \<in> {..<N} - {t}. f (P u))"
    unfolding tally_def by (rule sum.remove[OF fin])
  moreover have "tally N (P(t := c)) f = f c + (\<Sum>u \<in> {..<N} - {t}. f (P u))"
    unfolding tally_def sum.remove[OF fin] by simp
  ultimately show "tally N (P(t := c)) f = tally N P f - f (P t) + f c" "f (P t) \<le> tally N P f" by simp_all
qed

lemma tally_le: "(\<And>c. f c \<le> g c) \<Longrightarrow> tally N P f \<le> tally N P g"
  by (simp add: tally_def sum_mono)

lemma tally_zero: "tally N P f = 0 \<Longrightarrow> t < N \<Longrightarrow> f (P t) = 0"
  by (simp add: tally_def)

lemma tally_bound: "(\<And>c. f c \<le> 1) \<Longrightarrow> tally N P f \<le> N"
  using sum_bounded_above[of "{..<N}" "\<lambda>t. f (P t)" 1] by (simp add: tally_def)

text \<open>A thread that has a reference, that owns the slot, that is to lower the hit counter and by how much.\<close>

fun holds :: "pc \<Rightarrow> nat" where
  "holds (LookKey _) = 1" | "holds (HitAdd _) = 1" | "holds (HitSub _ _) = 1" | "holds Drop = 1"
| "holds (InsKey _) = 1" | "holds (EraKey _) = 1" | "holds (EraAnd _) = 1" | "holds (EraLoop _ _) = 1"
| "holds _ = 0"

fun owns :: "pc \<Rightarrow> nat" where
  "owns (InsWrite _) = 1" | "owns InsPublish = 1" | "owns Free = 1" | "owns Emptying = 1" | "owns _ = 0"

fun subs :: "pc \<Rightarrow> nat" where
  "subs (HitSub _ _) = 1" | "subs _ = 0"

fun excess :: "pc \<Rightarrow> nat" where
  "excess (HitSub _ n) = nat n" | "excess _ = 0"

fun elses :: "pc \<Rightarrow> nat" where
  "elses ElseDrop = 1" | "elses _ = 0"

lemma weights_le: "holds c \<le> 1" "owns c \<le> 1" "subs c \<le> 1" "elses c \<le> 1" "subs c \<le> holds c"
  by (cases c; simp)+

text \<open>The part of the word below the state marker.\<close>

definition f_low :: "u64 \<Rightarrow> nat" where
  "f_low m = unat m mod 2 ^ 61"

lemma low_decomp: "unat m = f_low m + f_st m * 2 ^ 61" "f_low m < 2 ^ 61"
  by (simp_all add: f_low_def f_st_def)

lemma lowI:
  assumes "unat m = a + s * 2 ^ 61" "a < 2 ^ 61"
  shows "f_low m = a" "f_st m = s"
  using assms by (simp_all add: f_low_def f_st_def)

lemma low_incr:
  assumes "f_low m + 1 < 2 ^ 61"
  shows "f_low (m + 1) = f_low m + 1" "f_st (m + 1) = f_st m"
proof -
  have "unat m + 1 < 2 ^ 64" using assms f_bounds(4)[of m] unfolding low_decomp(1)[of m] by simp
  then have "unat (m + 1) = f_low m + 1 + f_st m * 2 ^ 61"
    using low_decomp(1)[of m] by (simp add: unat_add_small)
  from lowI[OF this assms] show "f_low (m + 1) = f_low m + 1" "f_st (m + 1) = f_st m" .
qed

lemma low_decr:
  assumes "0 < f_low m"
  shows "f_low (m - 1) = f_low m - 1" "f_st (m - 1) = f_st m"
proof -
  have "unat (1 :: u64) \<le> unat m" using assms low_decomp(1)[of m] by simp
  then have "unat (m - 1) = unat m - 1" by (simp only: unat_sub_small unat_1)
  then have u: "unat (m - 1) = f_low m - 1 + f_st m * 2 ^ 61" using low_decomp(1)[of m] assms by simp
  have "f_low m - 1 < 2 ^ 61" using low_decomp(2)[of m] by linarith
  from lowI[OF u this] show "f_low (m - 1) = f_low m - 1" "f_st (m - 1) = f_st m" .
qed

text \<open>
  The word against the counts: e handles held, w strays, o owners, r references of threads, k threads that will
  lower the hit counter by v in all, x erasers in the else branch.
\<close>

definition word_ok :: "u64 \<Rightarrow> nat \<Rightarrow> nat \<Rightarrow> nat \<Rightarrow> nat \<Rightarrow> nat \<Rightarrow> nat \<Rightarrow> nat \<Rightarrow> bool" where
  "word_ok m e w own r k v x \<longleftrightarrow>
     (if f_st m \<in> {6, 7}
      then own = 0 \<and> x = 0 \<and> f_ref m = e + r \<and> f_bit m = 0 \<and> f_hit m \<le> 2000 + k \<and> v \<le> f_hit m
      else f_st m = 4 * own \<and> e = 0 \<and> r = 0 \<and> x \<le> f_low m \<and> f_low m \<le> w + x)"

lemma word_acquire:
  assumes "word_ok m e w own r k v x" "f_st m \<in> {6, 7}" "e + r + 1 < 2 ^ 30"
  shows "word_ok (m + 1) e w own (r + 1) k v x"
  using assms fields_RefIncr[of m] by (auto simp: word_ok_def)

lemma word_stray:
  assumes "word_ok m e w own r k v x" "f_st m \<notin> {6, 7}" "w + x + 1 < 2 ^ 61"
  shows "word_ok (m + 1) e (w + 1) own r k v x" "word_ok (m + 1) e w own r k v (x + 1)"
proof -
  have b: "f_low m + 1 < 2 ^ 61" using assms by (simp add: word_ok_def)
  show "word_ok (m + 1) e (w + 1) own r k v x" "word_ok (m + 1) e w own r k v (x + 1)"
    using assms low_incr[OF b] by (auto simp: word_ok_def)
qed

lemma word_release:
  assumes "word_ok m e w own r k v x"
  shows "0 < r \<Longrightarrow> word_ok (m - 1) e w own (r - 1) k v x" "0 < e \<Longrightarrow> word_ok (m - 1) (e - 1) w own r k v x"
  using assms fields_RefDecr[of m] by (auto simp: word_ok_def split: if_splits)

lemma word_else:
  assumes "word_ok m e w own r k v x" "0 < x"
  shows "word_ok (m - 1) e w own r k v (x - 1)"
proof -
  have n: "f_st m \<notin> {6, 7}" "0 < f_low m" using assms by (auto simp: word_ok_def split: if_splits)
  then show ?thesis using assms low_decr[OF n(2)] by (auto simp: word_ok_def)
qed

lemma word_shareable:
  assumes "word_ok m e w own r k v x" "0 < e \<or> 0 < r"
  shows "f_st m \<in> {6, 7}" "own = 0" "x = 0" "f_ref m = e + r"
  using assms by (auto simp: word_ok_def split: if_splits)

lemma word_owner:
  assumes "word_ok m e w own r k v x" "0 < own"
  shows "f_st m = 4" "own = 1" "e = 0" "r = 0"
  using assms f_bounds(4)[of m] by (auto simp: word_ok_def split: if_splits)

lemma word_hit_add:
  assumes "word_ok m e w own r k v x" "0 < r" "k + 1 \<le> N" "v \<le> N * k" "N * N \<le> 2000"
  shows "f_hit m < 2000 \<Longrightarrow> word_ok (m + kHitIncrement) (e + 1) w own (r - 1) k v x"
    "2000 \<le> f_hit m \<Longrightarrow> word_ok (m + kHitIncrement) e w own r (k + 1) (v + (f_hit m - 1999)) x"
    "2000 \<le> f_hit m \<Longrightarrow> f_hit m - 1999 \<le> N"
proof -
  note sh = word_shareable(1)[OF assms(1) disjI2[OF assms(2)]]
  then have h: "f_hit m \<le> 2000 + k" "v \<le> f_hit m" using assms(1) by (auto simp: word_ok_def)
  have N: "N \<le> 44"
  proof (rule ccontr)
    assume "\<not> N \<le> 44"
    then have "45 * 45 \<le> N * N" by (intro mult_le_mono) simp_all
    with assms(5) show False by simp
  qed
  then have "f_hit m + 1 < 2 ^ 30" using h assms(3) by simp
  from fields_HitIncr[OF this] have f: "meta_fields (m + kHitIncrement) = (f_ref m, f_hit m + 1, f_bit m, f_st m)" by simp
  show "f_hit m < 2000 \<Longrightarrow> word_ok (m + kHitIncrement) (e + 1) w own (r - 1) k v x"
    using assms(1,2) sh f by (auto simp: word_ok_def)
  show le: "2000 \<le> f_hit m \<Longrightarrow> f_hit m - 1999 \<le> N" using h assms(3) by simp
  assume hi: "2000 \<le> f_hit m"
  have "v + (f_hit m - 1999) \<le> N * k + N" using le[OF hi] assms(4) by simp
  also have "\<dots> = N * (k + 1)" by simp
  also have "\<dots> \<le> N * N" using assms(3) by (intro mult_le_mono2)
  finally have "v + (f_hit m - 1999) \<le> f_hit m + 1" using assms(5) hi by simp
  then show "word_ok (m + kHitIncrement) e w own r (k + 1) (v + (f_hit m - 1999)) x"
    using assms(1) sh f h by (auto simp: word_ok_def)
qed

lemma word_hit_sub:
  assumes "word_ok m e w own r k v x" "0 < r" "0 < k" "1 \<le> n" "n \<le> v"
  shows "word_ok (m - kHitIncrement * of_nat n) (e + 1) w own (r - 1) (k - 1) (v - n) x"
proof -
  note sh = word_shareable(1)[OF assms(1) disjI2[OF assms(2)]]
  then have h: "f_hit m \<le> 2000 + k" "v \<le> f_hit m" using assms(1) by (auto simp: word_ok_def)
  then have "n \<le> f_hit m" using assms(5) by simp
  from fields_HitDecr[OF this] show ?thesis using assms sh h by (auto simp: word_ok_def)
qed

text \<open>An owner is there when the state is Construction, and only then.\<close>

lemma fields_construction: "meta_fields (push_bit kStateShift kStateConstruction) = (0, 0, 0, 4)"
  "f_low (push_bit kStateShift kStateConstruction) = 0"
proof -
  have u: "unat (push_bit kStateShift kStateConstruction) = 0 + 4 * 2 ^ 61" by (simp add: shift_defs state_defs)
  show "meta_fields (push_bit kStateShift kStateConstruction) = (0, 0, 0, 4)" by (rule fieldsI) (use u in simp_all)
  show "f_low (push_bit kStateShift kStateConstruction) = 0" by (rule lowI(1)[OF u]) simp
qed

lemma word_own:
  assumes "word_ok m e w own r k v x" "f_st m \<in> {6, 7}" "e = 0"
  shows "r = 1 \<Longrightarrow> word_ok (push_bit kStateShift kStateConstruction) 0 w 1 0 k' v' 0"
    "f_ref m = 0 \<Longrightarrow> word_ok (push_bit kStateShift kStateConstruction OR (m AND kHitBitMask)) 0 w 1 r k' v' 0"
proof -
  have b: "f_bit m = 0" "r = f_ref m" using assms by (auto simp: word_ok_def)
  show "r = 1 \<Longrightarrow> word_ok (push_bit kStateShift kStateConstruction) 0 w 1 0 k' v' 0"
    using fields_construction by (simp add: word_ok_def)
  have "m AND kHitBitMask = 0" using hit_bit_word[of m] b by simp
  then show "f_ref m = 0 \<Longrightarrow> word_ok (push_bit kStateShift kStateConstruction OR (m AND kHitBitMask)) 0 w 1 r k' v' 0"
    using fields_construction b by (simp add: word_ok_def)
qed

lemma word_lower_hits:
  assumes "word_ok m e w own r k v x" "f_st m = 7" "f_ref m = 0" "v = 0"
    "meta_fields m' = (0, h, f_bit m, 7)" "h \<le> f_hit m"
  shows "word_ok m' e w own r k v x"
  using assms by (auto simp: word_ok_def)

lemma word_publish:
  assumes "word_ok m e w own r k v x" "own = 1" "x = 0"
  shows "word_ok (push_bit kStateShift kStateVisible OR push_bit kHitCounterShift (of_int kInitHitCount)) 0 w 0 0 k 0 0"
    "word_ok 0 0 w 0 0 k v' 0"
proof -
  have "push_bit kStateShift kStateVisible OR push_bit kHitCounterShift (of_int kInitHitCount) =
      push_bit 61 (of_nat 7) OR (0 AND kHitBitMask) OR push_bit 30 (of_nat 3)"
    by (simp add: shift_defs state_defs kInitHitCount_def)
  then have "meta_fields (push_bit kStateShift kStateVisible OR push_bit kHitCounterShift (of_int kInitHitCount)) =
      (0, 3, 0, 7)"
    using fields_pack[of 3 7 0] fields_0 by simp
  then show "word_ok (push_bit kStateShift kStateVisible OR push_bit kHitCounterShift (of_int kInitHitCount)) 0 w 0 0 k 0 0"
    by (simp add: word_ok_def)
  show "word_ok 0 0 w 0 0 k v' 0" using fields_0 by (simp add: word_ok_def f_low_def)
qed

lemma word_begin_insert:
  assumes "word_ok m e w own r k v x"
  shows "f_st m \<noteq> 0 \<Longrightarrow> m OR push_bit kStateShift kStateOccupiedBit = m"
    "f_st m = 0 \<Longrightarrow> word_ok (m OR push_bit kStateShift kStateOccupiedBit) e w 1 r k v x"
proof -
  have st: "f_st m \<in> {0, 4, 6, 7}" using assms f_bounds(4)[of m] by (cases own) (auto simp: word_ok_def split: if_splits)
  have p: "push_bit kStateShift kStateOccupiedBit = push_bit 63 1" by (simp add: shift_defs state_defs)
  have b: "bit m 63 \<longleftrightarrow> f_st m \<noteq> 0" using bit_st[of m 2] st by auto
  show "f_st m \<noteq> 0 \<Longrightarrow> m OR push_bit kStateShift kStateOccupiedBit = m"
    unfolding p by (intro bit_word_eqI) (use b in \<open>auto simp only: bit_or_iff bit_push_one\<close>)
  assume z: "f_st m = 0"
  have u: "unat m < 2 ^ 61" using low_decomp[of m] z by simp
  have "push_bit 61 4 OR m = push_bit 61 4 + m" by (rule or_eq_plus_high[OF u])
  moreover have "push_bit 61 4 = (push_bit 63 1 :: u64)" by simp
  ultimately have e: "m OR push_bit kStateShift kStateOccupiedBit = push_bit 61 4 + m" by (simp only: p or.commute)
  have "unat (push_bit 61 4 + m) = f_low m + 4 * 2 ^ 61"
    by (subst unat_add_small) (use u low_decomp[of m] z in simp_all)
  from lowI[OF this low_decomp(2)]
  show "word_ok (m OR push_bit kStateShift kStateOccupiedBit) e w 1 r k v x"
    using assms z unfolding e by (auto simp: word_ok_def)
qed

lemma word_invisible:
  assumes "word_ok m e w own r k v x" "f_st m \<in> {6, 7}" "v' = push_bit kStateShift kStateVisibleBit"
  shows "word_ok (m AND NOT v') e w own r k v x" "meta_fields (m AND NOT v') = (f_ref m, f_hit m, f_bit m, 6)"
proof -
  show f: "meta_fields (m AND NOT v') = (f_ref m, f_hit m, f_bit m, 6)"
  proof (cases "f_st m = 7")
    case True
    then show ?thesis unfolding assms(3) by (rule fields_and_not_visible)
  next
    case False
    then have s: "f_st m = 6" using assms(2) by simp
    then have b: "\<not> bit m 61" using bit_st[of m 0] by simp
    have "v' = push_bit 61 1" by (simp add: assms(3) shift_defs state_defs)
    then have "m AND NOT v' = m"
      by (intro bit_word_eqI) (use b in \<open>auto simp: bit_and_iff bit_not_iff bit_push_one simp del: push_bit_of_1\<close>)
    then show ?thesis using s by simp
  qed
  show "word_ok (m AND NOT v') e w own r k v x" using assms(1,2) f by (auto simp: word_ok_def)
qed

section \<open>The invariant\<close>

text \<open>What a thread knows: the key it has compared, and the word it has loaded.\<close>

fun pc_ok :: "nat \<Rightarrow> key128 \<Rightarrow> pc \<Rightarrow> bool" where
  "pc_ok N k (HitAdd key) \<longleftrightarrow> k = key"
| "pc_ok N k (HitSub key n) \<longleftrightarrow> k = key \<and> 1 \<le> n \<and> n \<le> int N"
| "pc_ok N k (EraAnd key) \<longleftrightarrow> k = key"
| "pc_ok N k (EraLoop key old) \<longleftrightarrow> k = key"
| "pc_ok N k (UpdHit m m') \<longleftrightarrow> f_st m = 7 \<and> f_ref m = 0 \<and> f_ref m' = 0 \<and> f_hit m' \<le> f_hit m \<and>
     f_bit m' = f_bit m \<and> f_st m' = 7"
| "pc_ok N k (UpdOwn m) \<longleftrightarrow> odd (f_st m div 2) \<and> f_ref m = 0"
| "pc_ok N k _ \<longleftrightarrow> True"

abbreviation word_fits :: "nat \<Rightarrow> u64 \<Rightarrow> nat \<Rightarrow> nat \<Rightarrow> (nat \<Rightarrow> pc) \<Rightarrow> bool" where
  "word_fits N m e w P \<equiv>
     word_ok m e w (tally N P owns) (tally N P holds) (tally N P subs) (tally N P excess) (tally N P elses)"

definition cinv :: "nat \<Rightarrow> csys \<Rightarrow> bool" where
  "cinv N s \<longleftrightarrow> word_fits N (meta (hslot s)) (held s) (strays s) (pcs s) \<and>
     (\<forall>t. pcs s t \<noteq> Idle \<longrightarrow> t < N) \<and> (\<forall>t. pc_ok N (hashed_key (hslot s)) (pcs s t))"

lemma cinvD:
  assumes "cinv N s"
  shows "word_fits N (meta (hslot s)) (held s) (strays s) (pcs s)" "pcs s t \<noteq> Idle \<Longrightarrow> t < N"
    "pc_ok N (hashed_key (hslot s)) (pcs s t)"
  using assms by (auto simp: cinv_def)

lemma pc_ok_free: "holds c = 0 \<Longrightarrow> pc_ok N k c \<Longrightarrow> pc_ok N k' c"
  by (cases c) auto

text \<open>One thread moves on: only the word and the new place of the thread are left to check.\<close>

lemma cinv_moves:
  assumes "cinv N s" "t < N" "pcs s' = (pcs s)(t := c)"
    "word_ok (meta (hslot s')) (held s') (strays s') (tally N (pcs s) owns - owns (pcs s t) + owns c)
       (tally N (pcs s) holds - holds (pcs s t) + holds c) (tally N (pcs s) subs - subs (pcs s t) + subs c)
       (tally N (pcs s) excess - excess (pcs s t) + excess c) (tally N (pcs s) elses - elses (pcs s t) + elses c)"
    "pc_ok N (hashed_key (hslot s')) c"
    "hashed_key (hslot s') = hashed_key (hslot s) \<or> tally N (pcs s) holds = 0"
  shows "cinv N s'"
proof -
  note D = cinvD[OF assms(1)]
  have "pc_ok N (hashed_key (hslot s')) (pcs s u)" for u
  proof (cases "hashed_key (hslot s') = hashed_key (hslot s)")
    case True
    then show ?thesis using D(3)[of u] by simp
  next
    case False
    then have z: "tally N (pcs s) holds = 0" using assms(6) by simp
    have "holds (pcs s u) = 0"
    proof (cases "pcs s u = Idle")
      case False
      then show ?thesis using tally_zero[where f = holds and P = "pcs s", OF z D(2)[OF False]] by simp
    qed simp
    then show ?thesis by (rule pc_ok_free[OF _ D(3)])
  qed
  then have "pc_ok N (hashed_key (hslot s')) (pcs s' u)" for u using assms(3,5) by simp
  moreover have "pcs s' u \<noteq> Idle \<Longrightarrow> u < N" for u using assms(2,3) D(2)[of u] by (auto split: if_splits)
  moreover have "word_fits N (meta (hslot s')) (held s') (strays s') (pcs s')"
    using assms(4) unfolding assms(3) by (simp only: tally_update(1)[OF assms(2)])
  ultimately show ?thesis by (simp add: cinv_def)
qed

lemma few_threads: "N * N \<le> 2000 \<Longrightarrow> N \<le> (44 :: nat)"
proof (rule ccontr)
  assume "N * N \<le> 2000" "\<not> N \<le> 44"
  moreover from this(2) have "45 * 45 \<le> N * N" by (intro mult_le_mono) simp_all
  ultimately show False by simp
qed

lemma excess_le:
  assumes "cinv N s"
  shows "tally N (pcs s) excess \<le> N * tally N (pcs s) subs"
proof -
  have "excess (pcs s t) \<le> N * subs (pcs s t)" for t
    using cinvD(3)[OF assms, of t] by (cases "pcs s t") auto
  then show ?thesis unfolding tally_def sum_distrib_left by (intro sum_mono)
qed

lemma excess_0: "cinv N s \<Longrightarrow> tally N (pcs s) holds = 0 \<Longrightarrow>
    tally N (pcs s) subs = 0 \<and> tally N (pcs s) excess = 0"
  using tally_le[of subs holds N "pcs s", OF weights_le(5)] excess_le[of N s] by simp

text \<open>The steps every operation shares: taking a reference, and giving it back.\<close>

abbreviation light :: "pc \<Rightarrow> bool" where
  "light c \<equiv> owns c = 0 \<and> subs c = 0 \<and> excess c = 0 \<and> elses c = 0"

lemma cinv_ref:
  assumes "cinv N s" "calm s" "N * N \<le> 2000" "t < N" "light (pcs s t)" "holds (pcs s t) = 0"
    "light v" "holds v = 1" "pc_ok N (hashed_key (hslot s)) v" "RefIncr (hslot s) = (old, h)"
  shows "cinv N ((act s h t (ref_outcome old v Idle))\<lparr>strays := strays s + of_bool (ref_outcome old v Idle = Idle)\<rparr>)"
    "cinv N (act s h t (ref_outcome old v ElseDrop))"
proof -
  note D = cinvD[OF assms(1)]
  let ?m = "meta (hslot s)" and ?T = "tally N (pcs s)"
  have old: "old = ?m" "h = (hslot s)\<lparr>meta := ?m + 1\<rparr>" using assms(10) by (auto simp: RefIncr_simp)
  have b: "?T holds \<le> N" "?T elses \<le> N" "N \<le> 44"
    using tally_bound[of holds] tally_bound[of elses] weights_le few_threads[OF assms(3)] by simp_all
  have "v \<noteq> Idle" using assms(8) by auto
  have "cinv N ((act s h t (ref_outcome old v Idle))\<lparr>strays := strays s + of_bool (ref_outcome old v Idle = Idle)\<rparr>) \<and>
      cinv N (act s h t (ref_outcome old v ElseDrop))"
  proof (cases "f_st ?m \<in> {6, 7}")
    case True
    define c where "c = ref_outcome old v Idle"
    have c: "ref_outcome old v ElseDrop = c" "c \<noteq> Idle" "light c" "holds c = 1" "pc_ok N (hashed_key (hslot s)) c"
      using True assms(7-9) \<open>v \<noteq> Idle\<close> by (auto simp: c_def ref_outcome_def old(1) state_of_consts)
    have "held s + ?T holds + 1 < 2 ^ 30" using b assms(2) by (simp add: calm_def)
    from word_acquire[OF D(1) True this]
    have w: "cinv N (act s h t c)"
      by (intro cinv_moves[OF assms(1,4), where c = c]) (use c assms(5,6) in \<open>simp_all add: old(2)\<close>)
    have "of_bool (c = Idle) = (0 :: nat)" using c(2) by simp
    then have "(act s h t c)\<lparr>strays := strays s + of_bool (c = Idle)\<rparr> = act s h t c"
      by (cases s) simp
    then show ?thesis using w by (simp only: c(1) c_def[symmetric])
  next
    case False
    then have c: "ref_outcome old v Idle = Idle" "ref_outcome old v ElseDrop = ElseDrop"
      by (auto simp: ref_outcome_def old(1) state_of_consts)
    have "strays s + ?T elses + 1 < 2 ^ 61" using b assms(2) by (simp add: calm_def)
    note w = word_stray[OF D(1) False this]
    have "cinv N ((act s h t (ref_outcome old v Idle))\<lparr>strays := strays s + of_bool (ref_outcome old v Idle = Idle)\<rparr>)"
      unfolding c by (rule cinv_moves[OF assms(1,4), where c = Idle]) (use w assms(5,6) in \<open>simp_all add: old(2)\<close>)
    moreover have "cinv N (act s h t (ref_outcome old v ElseDrop))"
      unfolding c by (rule cinv_moves[OF assms(1,4), where c = ElseDrop]) (use w assms(5,6) in \<open>simp_all add: old(2)\<close>)
    ultimately show ?thesis by blast
  qed
  then show "cinv N ((act s h t (ref_outcome old v Idle))\<lparr>strays := strays s + of_bool (ref_outcome old v Idle = Idle)\<rparr>)"
    "cinv N (act s h t (ref_outcome old v ElseDrop))" by simp_all
qed

lemma cinv_drop:
  assumes "cinv N s" "t < N" "light (pcs s t)" "holds (pcs s t) = 1"
  shows "cinv N (act s (RefDecr (hslot s)) t Idle)"
proof -
  have "0 < tally N (pcs s) holds" using tally_update(2)[OF assms(2), of holds "pcs s"] assms(4) by simp
  from word_release(1)[OF cinvD(1)[OF assms(1)] this] show ?thesis
    by (intro cinv_moves[OF assms(1,2), where c = Idle]) (use assms(3,4) in \<open>simp_all add: RefDecr_simp\<close>)
qed

lemma cinv_local:
  assumes "cinv N s" "t < N" "light (pcs s t)" "light c" "holds c = holds (pcs s t)" "pc_ok N (hashed_key (hslot s)) c"
  shows "cinv N (goto s t c)"
proof -
  have "holds (pcs s t) \<le> tally N (pcs s) holds" by (rule tally_update(2)[OF assms(2)])
  then have h: "tally N (pcs s) holds - holds (pcs s t) + holds c = tally N (pcs s) holds" by (simp add: assms(5))
  have l: "tally N (pcs s) f - f (pcs s t) + f c = tally N (pcs s) f" if "f (pcs s t) = 0" "f c = 0" for f
    using that by simp
  have w: "word_ok (meta (hslot (goto s t c))) (held (goto s t c)) (strays (goto s t c))
       (tally N (pcs s) owns - owns (pcs s t) + owns c)
       (tally N (pcs s) holds - holds (pcs s t) + holds c) (tally N (pcs s) subs - subs (pcs s t) + subs c)
       (tally N (pcs s) excess - excess (pcs s t) + excess c) (tally N (pcs s) elses - elses (pcs s t) + elses c)"
    using cinvD(1)[OF assms(1)] assms(3,4) by (simp add: h l)
  show ?thesis by (rule cinv_moves[OF assms(1,2) _ w _ disjI1]) (simp_all add: assms(6))
qed

lemma act_same: "act s (hslot s) t c = goto s t c"
  by simp

text \<open>The thread that has a reference, and the owner.\<close>

lemma cinv_holder:
  assumes "cinv N s" "t < N" "holds (pcs s t) = 1"
  shows "f_st (meta (hslot s)) \<in> {6, 7}" "0 < tally N (pcs s) holds"
proof -
  show "0 < tally N (pcs s) holds" using tally_update(2)[OF assms(2), of holds "pcs s"] assms(3) by simp
  then show "f_st (meta (hslot s)) \<in> {6, 7}" using word_shareable(1)[OF cinvD(1)[OF assms(1)]] by blast
qed

lemma cinv_owner:
  assumes "cinv N s" "t < N" "owns (pcs s t) = 1"
  shows "f_st (meta (hslot s)) = 4" "tally N (pcs s) owns = 1" "held s = 0" "tally N (pcs s) holds = 0"
    "tally N (pcs s) subs = 0" "tally N (pcs s) excess = 0"
proof -
  have "0 < tally N (pcs s) owns" using tally_update(2)[OF assms(2), of owns "pcs s"] assms(3) by simp
  from word_owner[OF cinvD(1)[OF assms(1)] this]
  show "f_st (meta (hslot s)) = 4" "tally N (pcs s) owns = 1" "held s = 0" and h: "tally N (pcs s) holds = 0" .
  from excess_0[OF assms(1) h] show "tally N (pcs s) subs = 0" "tally N (pcs s) excess = 0" by simp_all
qed

lemma elses_0: "c \<noteq> ElseDrop \<Longrightarrow> elses c = 0"
  by (cases c) simp_all

lemma no_elses:
  assumes "races s + racing s = 0"
  shows "tally N (pcs s) elses = 0"
proof -
  have "racing s = 0" using assms by (simp only: add_is_0)
  then have n: "\<not> (\<exists>u. pcs s u = ElseDrop)" unfolding racing_def by (simp only: of_bool_eq_0_iff simp_thms)
  have "elses (pcs s t) = 0" for t
  proof (rule elses_0)
    show "pcs s t \<noteq> ElseDrop" using n by blast
  qed
  then show ?thesis by (simp add: tally_def)
qed

text \<open>The steps that are one operation's own.\<close>

lemma cinv_hit_add:
  assumes "cinv N s" "N * N \<le> 2000" "t < N" "pcs s t = HitAdd key" "h = (hslot s)\<lparr>meta := meta (hslot s) + kHitIncrement\<rparr>"
  shows "f_hit (meta (hslot s)) < 2000 \<Longrightarrow> cinv N ((act s h t Idle)\<lparr>held := held s + 1\<rparr>)"
    "2000 \<le> f_hit (meta (hslot s)) \<Longrightarrow>
       cinv N (act s h t (HitSub key (int (f_hit (meta (hslot s)) - 1999))))"
proof -
  note D = cinvD[OF assms(1)] and X = excess_le[OF assms(1)]
  have r: "0 < tally N (pcs s) holds" using cinv_holder(2)[OF assms(1,3)] assms(4) by simp
  have "tally N ((pcs s)(t := HitSub key 1)) subs \<le> N" by (rule tally_bound[OF weights_le(3)])
  then have k: "tally N (pcs s) subs + 1 \<le> N" unfolding tally_update(1)[OF assms(3)] using assms(4) by simp
  note W = word_hit_add[OF D(1) r k X assms(2)]
  have key: "hashed_key (hslot s) = key" using D(3)[of t] assms(4) by simp
  show "f_hit (meta (hslot s)) < 2000 \<Longrightarrow> cinv N ((act s h t Idle)\<lparr>held := held s + 1\<rparr>)"
    using W(1) by (intro cinv_moves[OF assms(1,3), where c = Idle]) (simp_all add: assms(4,5))
  assume hi: "2000 \<le> f_hit (meta (hslot s))"
  have n: "nat (int (f_hit (meta (hslot s)) - 1999)) = f_hit (meta (hslot s)) - 1999" by simp
  have p: "pc_ok N (hashed_key (hslot s)) (HitSub key (int (f_hit (meta (hslot s)) - 1999)))"
    using W(3)[OF hi] hi key by simp
  show "cinv N (act s h t (HitSub key (int (f_hit (meta (hslot s)) - 1999))))"
    by (rule cinv_moves[OF assms(1,3), where c = "HitSub key (int (f_hit (meta (hslot s)) - 1999))"])
      (use W(2)[OF hi] p r in \<open>simp_all add: assms(4,5) n del: of_nat_diff pc_ok.simps\<close>)
qed

lemma cinv_hit_sub:
  assumes "cinv N s" "t < N" "pcs s t = HitSub key n"
  shows "cinv N ((act s (HitDecr (hslot s) n) t Idle)\<lparr>held := held s + 1\<rparr>)"
proof -
  note D = cinvD[OF assms(1)] and U = tally_update(2)[OF assms(2), of _ "pcs s"]
  have n: "1 \<le> nat n" "n = int (nat n)" using D(3)[of t] assms(3) by auto
  have r: "0 < tally N (pcs s) holds" using cinv_holder(2)[OF assms(1,2)] assms(3) by simp
  have k: "0 < tally N (pcs s) subs" "nat n \<le> tally N (pcs s) excess" using U[of subs] U[of excess] assms(3) by simp_all
  have "HitDecr (hslot s) n = (hslot s)\<lparr>meta := meta (hslot s) - kHitIncrement * of_nat (nat n)\<rparr>"
    using n(1) by (simp add: HitDecr_def atomic_defs)
  then show ?thesis using word_hit_sub[OF D(1) r k(1) n(1) k(2)]
    by (intro cinv_moves[OF assms(1,2), where c = Idle]) (simp_all add: assms(3))
qed

lemma cinv_release:
  assumes "cinv N s" "t < N" "pcs s t = Idle" "0 < held s"
  shows "cinv N ((act s (RefDecr (hslot s)) t Idle)\<lparr>held := held s - 1\<rparr>)"
  using word_release(2)[OF cinvD(1)[OF assms(1)] assms(4)]
  by (intro cinv_moves[OF assms(1,2), where c = Idle]) (simp_all add: assms(3) RefDecr_simp)

lemma cinv_ins_call:
  assumes "cinv N s" "t < N" "pcs s t = Idle"
  shows "cinv N (act s ((hslot s)\<lparr>meta := meta (hslot s) OR push_bit kStateShift kStateOccupiedBit\<rparr>) t
           (insert_outcome (meta (hslot s)) handle))"
proof (cases "f_st (meta (hslot s)) = 0")
  case True
  note D = cinvD[OF assms(1)]
  have o: "insert_outcome (meta (hslot s)) handle = InsWrite handle"
    using True by (simp add: insert_outcome_def state_of_consts)
  have "tally N (pcs s) owns = 0" using D(1) True by (simp add: word_ok_def)
  then show ?thesis unfolding o using word_begin_insert(2)[OF D(1) True]
    by (intro cinv_moves[OF assms(1,2), where c = "InsWrite handle"]) (simp_all add: assms(3))
next
  case False
  have o: "light (insert_outcome m handle)" "holds (insert_outcome m handle) = 0"
    "pc_ok N k (insert_outcome m handle)" if "f_st m \<noteq> 0" for m k
    using that by (simp_all add: insert_outcome_def state_of_consts)
  have "(hslot s)\<lparr>meta := meta (hslot s) OR push_bit kStateShift kStateOccupiedBit\<rparr> = hslot s"
    using word_begin_insert(1)[OF cinvD(1)[OF assms(1)] False] by simp
  then show ?thesis using cinv_local[OF assms(1,2), of "insert_outcome (meta (hslot s)) handle"] o[OF False] assms(3)
    by (simp add: act_same)
qed

lemma cinv_ins_write:
  assumes "cinv N s" "t < N" "pcs s t = InsWrite handle" "meta h = meta (hslot s)"
  shows "cinv N ((act s h t InsPublish)\<lparr>puts := vs\<rparr>)"
proof -
  note O = cinv_owner[OF assms(1,2)]
  have z: "tally N (pcs s) holds = 0" "tally N (pcs s) owns = 1" using O(4,2) assms(3) by simp_all
  show ?thesis
    by (rule cinv_moves[OF assms(1,2), where c = InsPublish]) (use z cinvD(1)[OF assms(1)] in \<open>simp_all add: assms(3,4)\<close>)
qed

lemma cinv_ins_publish:
  assumes "cinv N s" "t < N" "pcs s t = InsPublish" "races s + racing s = 0"
    "new_meta = push_bit kStateShift kStateVisible OR push_bit kHitCounterShift (of_int kInitHitCount)"
  shows "cinv N ((act s ((hslot s)\<lparr>meta := new_meta\<rparr>) t Idle)\<lparr>races := n\<rparr>)"
proof -
  note D = cinvD(1)[OF assms(1)] and O = cinv_owner[OF assms(1,2)] and E = no_elses[OF assms(4), of N]
  have own: "owns (pcs s t) = 1" by (simp add: assms(3))
  show ?thesis
    by (rule cinv_moves[OF assms(1,2), where c = Idle])
      (use O[OF own] word_publish(1)[OF D O(2)[OF own] E] E in \<open>simp_all add: assms(3,5)\<close>)
qed

lemma cinv_mark_empty:
  assumes "cinv N s" "t < N" "pcs s t = Emptying" "races s + racing s = 0"
  shows "cinv N ((act s (MarkEmpty (hslot s)) t Idle)\<lparr>races := n\<rparr>)"
proof -
  note D = cinvD(1)[OF assms(1)] and O = cinv_owner[OF assms(1,2)] and E = no_elses[OF assms(4), of N]
  have own: "owns (pcs s t) = 1" by (simp add: assms(3))
  show ?thesis
    by (rule cinv_moves[OF assms(1,2), where c = Idle])
      (use O[OF own] word_publish(2)[OF D O(2)[OF own] E] E in \<open>simp_all add: assms(3) MarkEmpty_def atomic_defs\<close>)
qed

lemma update_outcome_ok:
  assumes "0 \<le> delta"
  shows "light (update_outcome m delta)" "holds (update_outcome m delta) = 0" "pc_ok N k (update_outcome m delta)"
proof -
  show "light (update_outcome m delta)" "holds (update_outcome m delta) = 0"
    by (simp_all add: update_outcome_def Let_def)
  show "pc_ok N k (update_outcome m delta)"
  proof (cases "state_of m AND kStateShareableBit = 0 \<or> 0 < RefCount m")
    case True
    then show ?thesis by (auto simp: update_outcome_def)
  next
    case False
    then have r: "f_ref m = 0" by (simp add: RefCount_field)
    show ?thesis
    proof (cases "state_of m = kStateVisible \<and> 0 < HitCount m")
      case True
      let ?n = "f_hit m - nat delta"
      have mx: "max (HitCount m - delta) 0 = int ?n" using assms by (simp add: HitCount_field)
      have e: "push_bit kStateShift kStateVisible = push_bit 61 (of_nat 7)"
        "push_bit kHitCounterShift (of_int (int ?n)) = (push_bit 30 (of_nat ?n) :: u64)"
        by (simp_all add: shift_defs state_defs)
      have "?n < 2 ^ 30" using f_bounds(2)[of m] by simp
      note F = fields_pack[OF this, of 7 m]
      have "update_outcome m delta = UpdHit m (push_bit 61 (of_nat 7) OR (m AND kHitBitMask) OR push_bit 30 (of_nat ?n))"
        using True False unfolding update_outcome_def Let_def mx e by simp
      then show ?thesis using F True r by (simp add: state_of_consts)
    next
      case nv: False
      then have "update_outcome m delta = UpdOwn m" using False by (auto simp: update_outcome_def Let_def)
      then show ?thesis using False r by (simp add: not_shareable_iff)
    qed
  qed
qed

text \<open>The exchanges on a word that was loaded before.\<close>

lemma cinv_upd_hit:
  assumes "cinv N s" "t < N" "pcs s t = UpdHit m new_meta" "CasStrongRelaxed (meta (hslot s)) m new_meta = (ok, m', w)"
  shows "cinv N (act s ((hslot s)\<lparr>meta := w\<rparr>) t Idle)"
proof (cases "meta (hslot s) = m")
  case False
  then have "(hslot s)\<lparr>meta := w\<rparr> = hslot s" using assms(4) by (auto simp: CasStrongRelaxed_def)
  then show ?thesis using cinv_local[OF assms(1,2), of Idle] assms(3) by (simp add: act_same)
next
  case True
  note D = cinvD[OF assms(1)]
  have w: "w = new_meta" using True assms(4) by (auto simp: CasStrongRelaxed_def)
  have f: "f_st (meta (hslot s)) = 7" "f_ref (meta (hslot s)) = 0" "f_hit new_meta \<le> f_hit (meta (hslot s))"
    "meta_fields new_meta = (0, f_hit new_meta, f_bit (meta (hslot s)), 7)"
    using D(3)[of t] assms(3) True by simp_all
  have "tally N (pcs s) holds = 0" using D(1) f(1,2) by (simp add: word_ok_def)
  then have v: "tally N (pcs s) excess = 0" using excess_0[OF assms(1)] by simp
  from word_lower_hits[OF D(1) f(1,2) v f(4,3)] show ?thesis
    by (intro cinv_moves[OF assms(1,2), where c = Idle]) (simp_all add: assms(3) w)
qed

lemma cinv_upd_own:
  assumes "cinv N s" "t < N" "pcs s t = UpdOwn m"
    "CasStrongAcqRel (meta (hslot s)) m (push_bit kStateShift kStateConstruction OR (m AND kHitBitMask)) = (ok, m', w)"
  shows "cinv N (act s ((hslot s)\<lparr>meta := w\<rparr>) t (if ok then Free else Idle))"
  using assms(4)
proof (cases rule: CasStrong_cases)
  case failure
  then have "(hslot s)\<lparr>meta := w\<rparr> = hslot s" by simp
  then show ?thesis using cinv_local[OF assms(1,2), of Idle] assms(3) failure by (simp add: act_same)
next
  case success
  note D = cinvD[OF assms(1)]
  have st: "odd (f_st (meta (hslot s)) div 2)" "f_ref (meta (hslot s)) = 0"
    using D(3)[of t] assms(3) success(2) by simp_all
  have sh: "f_st (meta (hslot s)) \<in> {6, 7}"
  proof (rule ccontr)
    assume n: "f_st (meta (hslot s)) \<notin> {6, 7}"
    then have "f_st (meta (hslot s)) = 4 * tally N (pcs s) owns" using D(1) by (simp add: word_ok_def)
    then have "f_st (meta (hslot s)) div 2 = 2 * tally N (pcs s) owns" by simp
    then show False using st(1) by simp
  qed
  have z: "held s = 0" "tally N (pcs s) holds = 0" "tally N (pcs s) owns = 0" "tally N (pcs s) elses = 0"
    using D(1) sh st(2) by (auto simp: word_ok_def split: if_splits)
  from word_own(2)[OF D(1) sh z(1) st(2)] z show ?thesis
    by (intro cinv_moves[OF assms(1,2), where c = "if ok then Free else Idle"]) (simp_all add: assms(3) success)
qed

lemma cinv_era_and:
  assumes "cinv N s" "t < N" "pcs s t = EraAnd key" "visible = push_bit kStateShift kStateVisibleBit"
  shows "cinv N (act s ((hslot s)\<lparr>meta := meta (hslot s) AND NOT visible\<rparr>) t (EraLoop key old))"
proof -
  note D = cinvD[OF assms(1)] and H = cinv_holder[OF assms(1,2)]
  have h: "holds (pcs s t) = 1" by (simp add: assms(3))
  have k: "hashed_key (hslot s) = key" using D(3)[of t] assms(3) by simp
  from word_invisible(1)[OF D(1) H(1)[OF h] assms(4)] H(2)[OF h] k show ?thesis
    by (intro cinv_moves[OF assms(1,2), where c = "EraLoop key old"]) (simp_all add: assms(3))
qed

lemma cinv_era_cas:
  assumes "cinv N s" "t < N" "pcs s t = EraLoop key old" "\<not> 1 < RefCount old"
    "CasWeakAcqRel sp (meta (hslot s)) old (push_bit kStateShift kStateConstruction) = (ok, old', w)"
  shows "cinv N (act s ((hslot s)\<lparr>meta := w\<rparr>) t (if ok then Free else EraLoop key old'))"
  using assms(5)
proof (cases rule: CasWeak_cases)
  case failure
  then have "(hslot s)\<lparr>meta := w\<rparr> = hslot s" by simp
  then show ?thesis using cinv_local[OF assms(1,2), of "EraLoop key old'"] assms(3) failure cinvD(3)[OF assms(1), of t]
    by (simp add: act_same)
next
  case success
  note D = cinvD[OF assms(1)] and H = cinv_holder[OF assms(1,2)]
  have h: "holds (pcs s t) = 1" by (simp add: assms(3))
  note sh = word_shareable[OF D(1) disjI2[OF H(2)[OF h]]]
  have "f_ref (meta (hslot s)) \<le> 1" using assms(4) success(2) by (simp add: RefCount_field)
  then have z: "held s = 0" "tally N (pcs s) holds = 1" using sh(4) H(2)[OF h] by simp_all
  from word_own(1)[OF D(1) sh(1) z] sh(2,3) z show ?thesis
    by (intro cinv_moves[OF assms(1,2), where c = "if ok then Free else EraLoop key old'"]) (simp_all add: assms(3) success)
qed

lemma cinv_else_drop:
  assumes "cinv N s" "t < N" "pcs s t = ElseDrop"
  shows "cinv N (act s (RefDecr (hslot s)) t Idle)"
proof -
  have "0 < tally N (pcs s) elses" using tally_update(2)[OF assms(2), of elses "pcs s"] assms(3) by simp
  from word_else[OF cinvD(1)[OF assms(1)] this] show ?thesis
    by (intro cinv_moves[OF assms(1,2), where c = Idle]) (simp_all add: assms(3) RefDecr_simp)
qed

lemma FreeData_frame: "FreeData h = (h', cs) \<Longrightarrow> meta h' = meta h \<and> hashed_key h' = hashed_key h"
  by (auto simp: FreeData_def split: if_splits)

lemma cinv_free:
  assumes "cinv N s" "t < N" "pcs s t = Free" "FreeData (hslot s) = (h, cs)"
  shows "cinv N ((act s h t Emptying)\<lparr>calls := ds\<rparr>)"
proof -
  have own: "owns (pcs s t) = 1" by (simp add: assms(3))
  show ?thesis
    by (rule cinv_moves[OF assms(1,2), where c = Emptying])
      (use FreeData_frame[OF assms(4)] cinvD(1)[OF assms(1)] cinv_owner(2)[OF assms(1,2) own] in \<open>simp_all add: assms(3)\<close>)
qed

lemma cstep_cinv:
  assumes "cstep N s s'" "cinv N s" "calm s" "calm s'" "N * N \<le> 2000"
  shows "cinv N s'"
proof -
  have below: "t < N" if "pcs s t = c" "c \<noteq> Idle" for t c using cinvD(2)[OF assms(2)] that by blast
  have key: "hashed_key (hslot s) = key" if "pcs s t = EraLoop key old" for t key old
    using cinvD(3)[OF assms(2), of t] that by simp
  from assms(1) show ?thesis
  proof cases
    case (look_call t old h c key)
    show ?thesis unfolding look_call(1,5)
      by (rule cinv_ref(1)[OF assms(2,3,5) look_call(2)]) (use look_call in simp_all)
  next
    case (look_key t key)
    show ?thesis unfolding look_key(1)
      by (rule cinv_local[OF assms(2) below[OF look_key(2)]]) (use look_key in simp_all)
  next
    case (hit_add t key old m overflow h)
    have m: "old = meta (hslot s)" "h = (hslot s)\<lparr>meta := meta (hslot s) + kHitIncrement\<rparr>"
      using hit_add(3,5) by (auto simp: atomic_defs)
    have t: "t < N" using below[OF hit_add(2)] by simp
    note A = cinv_hit_add[OF assms(2,5) t hit_add(2) m(2)]
    have o: "overflow = int (f_hit (meta (hslot s))) - 1999"
      using hit_add(4) m(1) by (simp add: HitCount_field kMaxHitCount_def)
    show ?thesis
    proof (cases "f_hit (meta (hslot s)) < 2000")
      case True
      then have "\<not> 0 < overflow" using o by simp
      then show ?thesis unfolding hit_add(1) using A(1)[OF True] by (simp only: if_False)
    next
      case False
      then have "0 < overflow" "overflow = int (f_hit (meta (hslot s)) - 1999)" "2000 \<le> f_hit (meta (hslot s))"
        using o by simp_all
      then show ?thesis unfolding hit_add(1) using A(2) by (simp only: if_True)
    qed
  next
    case (hit_sub t key n)
    show ?thesis unfolding hit_sub(1) by (rule cinv_hit_sub[OF assms(2) below[OF hit_sub(2)] hit_sub(2)]) simp
  next
    case (drop_ref t)
    show ?thesis unfolding drop_ref(1)
      by (rule cinv_drop[OF assms(2) below[OF drop_ref(2)]]) (use drop_ref in simp_all)
  next
    case (release t)
    show ?thesis unfolding release(1) by (rule cinv_release[OF assms(2) release(2-4)])
  next
    case (ins_call t old m handle)
    then have m: "old = meta (hslot s)" "m = meta (hslot s) OR push_bit kStateShift kStateOccupiedBit"
      by (auto simp: atomic_defs)
    show ?thesis unfolding ins_call(1) m by (rule cinv_ins_call[OF assms(2) ins_call(2,3)])
  next
    case (ins_ref t handle old h c)
    show ?thesis unfolding ins_ref(1,4)
      by (rule cinv_ref(1)[OF assms(2,3,5) below[OF ins_ref(2)]]) (use ins_ref in simp_all)
  next
    case (ins_key t handle)
    show ?thesis unfolding ins_key(1)
      by (rule cinv_local[OF assms(2) below[OF ins_key(2)]]) (use ins_key in simp_all)
  next
    case (ins_write t handle)
    show ?thesis unfolding ins_write(1) by (rule cinv_ins_write[OF assms(2) below[OF ins_write(2)] ins_write(2)]) simp_all
  next
    case (ins_publish t new_meta)
    have "races s + racing s = 0" using assms(4) ins_publish(1) by (simp add: calm_def)
    then show ?thesis unfolding ins_publish(1) using cinv_ins_publish[OF assms(2) below[OF ins_publish(2)] ins_publish(2)] ins_publish(3)
      by (simp add: atomic_defs)
  next
    case (upd_call t delta)
    note U = update_outcome_ok[OF upd_call(4)]
    show ?thesis unfolding upd_call(1)
      by (rule cinv_local[OF assms(2) upd_call(2)]) (use U upd_call(3) in simp_all)
  next
    case (upd_hit t m new_meta ok m' w)
    show ?thesis unfolding upd_hit(1) by (rule cinv_upd_hit[OF assms(2) below[OF upd_hit(2)] upd_hit(2,3)]) simp
  next
    case (upd_own t m ok m' w)
    show ?thesis unfolding upd_own(1) by (rule cinv_upd_own[OF assms(2) below[OF upd_own(2)] upd_own(2,3)]) simp
  next
    case (free_data t h cs)
    show ?thesis unfolding free_data(1) by (rule cinv_free[OF assms(2) below[OF free_data(2)] free_data(2,3)]) simp
  next
    case (mark_empty t)
    have "races s + racing s = 0" using assms(4) mark_empty(1) by (simp add: calm_def)
    then show ?thesis unfolding mark_empty(1) by (intro cinv_mark_empty[OF assms(2) below[OF mark_empty(2)] mark_empty(2)]) simp_all
  next
    case (era_call t old h key)
    show ?thesis unfolding era_call(1)
      by (rule cinv_ref(2)[OF assms(2,3,5) era_call(2)]) (use era_call in simp_all)
  next
    case (era_key t key)
    show ?thesis unfolding era_key(1)
      by (rule cinv_local[OF assms(2) below[OF era_key(2)]]) (use era_key in simp_all)
  next
    case (era_and t key visible old m)
    then have m: "m = meta (hslot s) AND NOT visible" by (auto simp: FetchAndAcqRel_def FetchAndRelaxed_def)
    show ?thesis unfolding era_and(1) m by (rule cinv_era_and[OF assms(2) below[OF era_and(2)] era_and(2,3)]) simp
  next
    case (era_shared t key old)
    show ?thesis unfolding era_shared(1)
      by (rule cinv_drop[OF assms(2) below[OF era_shared(2)]]) (use era_shared in simp_all)
  next
    case (era_cas t key old sp ok old' w)
    show ?thesis unfolding era_cas(1) by (rule cinv_era_cas[OF assms(2) below[OF era_cas(2)] era_cas(2-4)]) simp
  next
    case (else_drop t)
    show ?thesis unfolding else_drop(1) by (rule cinv_else_drop[OF assms(2) below[OF else_drop(2)] else_drop(2)]) simp
  qed
qed

lemma creach_cinv:
  assumes "creach calm N s" "N * N \<le> 2000"
  shows "cinv N s \<and> calm s"
  using assms(1)
proof induction
  case start
  have "f_st 0 = 0" using fields_0 by simp
  then show ?case by (simp add: cinv_def csys_new_def HandleImpl_new_def tally_def word_ok_def f_low_def calm_def)
next
  case (step s s')
  then show ?case using cstep_cinv assms(2) by blast
qed

section \<open>References protect the entry\<close>

lemma tally_card:
  assumes "\<And>c. f c \<le> 1" "\<And>t. P t \<noteq> Idle \<Longrightarrow> t < N" "f Idle = 0"
  shows "tally N P f = card {t. f (P t) = 1}"
proof -
  have "{t. f (P t) = 1} = {t \<in> {..<N}. f (P t) = 1}"
    using assms(2,3) by (metis (no_types, lifting) lessThan_iff zero_neq_one)
  moreover have "f (P t) = of_bool (f (P t) = 1)" for t using assms(1)[of "P t"] by (cases "f (P t)") simp_all
  then have "tally N P f = (\<Sum>t < N. of_bool (f (P t) = 1))" unfolding tally_def by (rule sum.cong[OF refl])
  moreover have "{..<N} \<inter> {t. t < N \<and> f (P t) = 1} = {t. t < N \<and> f (P t) = 1}" by auto
  ultimately show ?thesis by simp
qed

lemma cinv_one_owner:
  assumes "cinv N s" "owns (pcs s t) = 1" "owns (pcs s u) = 1"
  shows "t = u"
proof (rule ccontr)
  assume "t \<noteq> u"
  have "pcs s t \<noteq> Idle" "pcs s u \<noteq> Idle" using assms(2,3) by auto
  then have b: "t < N" "u < N" using cinvD(2)[OF assms(1)] by blast+
  have "tally N ((pcs s)(t := Idle)) owns = 0"
    using tally_update(1)[OF b(1), of "pcs s" Idle owns] cinv_owner(2)[OF assms(1) b(1) assms(2)] assms(2) by simp
  then have "owns (((pcs s)(t := Idle)) u) = 0" using b(2) by (rule tally_zero)
  then show False using \<open>t \<noteq> u\<close> assms(3) by simp
qed

definition referenced :: "csys \<Rightarrow> bool" where
  "referenced s \<longleftrightarrow> 0 < held s \<or> (\<exists>t. holds (pcs s t) = 1)"

lemma cinv_referenced:
  assumes "cinv N s" "referenced s"
  shows "f_st (meta (hslot s)) \<in> {6, 7}" "owns (pcs s t) = 0"
    "f_ref (meta (hslot s)) = held s + card {t. holds (pcs s t) = 1}"
proof -
  note D = cinvD[OF assms(1)]
  have h: "tally N (pcs s) holds = card {t. holds (pcs s t) = 1}"
    by (rule tally_card) (use weights_le(1) D(2) in simp_all)
  have "0 < held s \<or> 0 < tally N (pcs s) holds"
  proof (cases "0 < held s")
    case False
    then obtain u where u: "holds (pcs s u) = 1" using assms(2) by (auto simp: referenced_def)
    then have "pcs s u \<noteq> Idle" by auto
    then show ?thesis using cinv_holder(2)[OF assms(1) D(2) u] by simp
  qed simp
  note W = word_shareable[OF D(1) this]
  show "f_st (meta (hslot s)) \<in> {6, 7}" by (rule W(1))
  show "f_ref (meta (hslot s)) = held s + card {t. holds (pcs s t) = 1}" using W(4) h by simp
  show "owns (pcs s t) = 0"
  proof (cases "pcs s t = Idle")
    case False
    show ?thesis by (rule tally_zero[where f = owns and P = "pcs s", OF W(2) D(2)[OF False]])
  qed simp
qed

text \<open>Only an owner changes the data, the list of deleter calls or that of the entries.\<close>

lemma payload_meta [simp]: "payload (h\<lparr>meta := m\<rparr>) = payload h"
  by (simp add: payload_def)

lemma meta_ops_payload: "payload (RefDecr h) = payload h" "payload (HitDecr h n) = payload h" "payload (MarkEmpty h) = payload h"
  by (simp_all add: RefDecr_def HitDecr_def MarkEmpty_def)

lemma RefIncr_payload: "RefIncr h = (old, h') \<Longrightarrow> payload h' = payload h"
  by (auto simp: RefIncr_simp)

definition same_data :: "csys \<Rightarrow> csys \<Rightarrow> bool" where
  "same_data s s' \<longleftrightarrow> payload (hslot s') = payload (hslot s) \<and> puts s' = puts s \<and> calls s' = calls s"

lemma cstep_data:
  assumes "cstep N s s'"
  obtains (same) "same_data s s'"
    | (writes) t handle where "pcs s t = InsWrite handle" "payload (hslot s') = handle" "puts s' = puts s @ [handle]"
        "calls s' = calls s" "meta (hslot s') = meta (hslot s)" "pcs s' = (pcs s)(t := InsPublish)"
    | (frees) t h cs where "pcs s t = Free" "FreeData (hslot s) = (h, cs)" "hslot s' = h" "puts s' = puts s"
        "calls s' = calls s @ cs" "pcs s' = (pcs s)(t := Emptying)"
  using assms
proof cases
  case (look_call t old h c key)
  then show thesis by (intro same) (simp add: same_data_def RefIncr_payload)
next
  case (ins_ref t handle old h c)
  then show thesis by (intro same) (simp add: same_data_def RefIncr_payload)
next
  case (era_call t old h key)
  then show thesis by (intro same) (simp add: same_data_def RefIncr_payload)
next
  case (ins_write t handle)
  then show thesis by (intro writes[of t handle]) (simp_all add: payload_def)
next
  case (free_data t h cs)
  then show thesis by (intro frees[of t h cs]) simp_all
next
  case (hit_add t key old m overflow h)
  then show thesis by (intro same) (simp add: same_data_def)
qed (rule same, simp add: same_data_def meta_ops_payload)+

lemma referenced_stable:
  assumes "cinv N s" "referenced s" "cstep N s s'"
  shows "payload (hslot s') = payload (hslot s)"
  using assms(3)
proof (cases rule: cstep_data)
  case (writes t handle)
  then show ?thesis using cinv_referenced(2)[OF assms(1,2), of t] by simp
next
  case (frees t h cs)
  then show ?thesis using cinv_referenced(2)[OF assms(1,2), of t] by simp
qed (simp add: same_data_def)

text \<open>The runs of a few steps, for the witnesses: a snapshot of a slot with an entry.\<close>

definition snap :: "handle \<Rightarrow> nat \<Rightarrow> u64 \<Rightarrow> nat \<Rightarrow> (nat \<Rightarrow> pc) \<Rightarrow> csys" where
  "snap h n m e P = \<lparr>hslot = \<lparr>h_value = h_value h, del_cb = del_cb h, hashed_key = hashed_key h,
       total_charge = total_charge h, meta = m, displacements = 0\<rparr>,
     held = e, pcs = P, calls = [], puts = [h], strays = 0, races = n\<rparr>"

abbreviation idle :: "nat \<Rightarrow> pc" where
  "idle \<equiv> (\<lambda>_. Idle)"

text \<open>The word of a visible entry with r references and h hits.\<close>

definition visible_word :: "nat \<Rightarrow> nat \<Rightarrow> u64" where
  "visible_word r h = of_nat (r + h * 2 ^ 30 + 7 * 2 ^ 61)"

lemma visible_word_fields:
  assumes "r < 2 ^ 30" "h < 2 ^ 30"
  shows "meta_fields (visible_word r h) = (r, h, 0, 7)"
proof (rule fieldsI)
  have "r + h * 2 ^ 30 + 7 * 2 ^ 61 < 2 ^ 64" using assms by simp
  then show "unat (visible_word r h) = r + h * 2 ^ 30 + 0 * 2 ^ 60 + 7 * 2 ^ 61"
    unfolding visible_word_def by (subst unat_of_nat_eq) simp_all
qed (use assms in simp_all)

lemma visible_word_add: "visible_word r h + 1 = visible_word (r + 1) h"
  "visible_word r h + kHitIncrement = visible_word r (h + 1)"
  by (simp_all add: visible_word_def kHitIncrement_def shift_defs algebra_simps)

lemma publish_word: "push_bit kStateShift kStateVisible OR push_bit kHitCounterShift (of_int kInitHitCount) = visible_word 0 3"
  by (simp add: visible_word_def shift_defs state_defs kInitHitCount_def)

lemma creach_to: "creach P N s \<Longrightarrow> cstep N s s' \<Longrightarrow> P s'' \<Longrightarrow> s' = s'' \<Longrightarrow> creach P N s''"
  by (auto intro: creach.step)

text \<open>An insertion by thread 0 and a lookup by thread 1.\<close>

lemma idle_again [simp]: "idle(t := Idle) = idle"
  by auto

text \<open>P allows what the run does.\<close>

abbreviation allows :: "(csys \<Rightarrow> bool) \<Rightarrow> nat \<Rightarrow> nat \<Rightarrow> bool" where
  "allows P n e \<equiv> \<forall>s. races s \<le> n \<and> held s \<le> e \<and> strays s = 0 \<longrightarrow> P s"

lemma run_insert:
  assumes "creach P N (csys_new\<lparr>hslot := HandleImpl_new\<lparr>meta := m\<rparr>, pcs := p\<rparr>)" "0 < N" "p 0 = Idle" "f_st m = 0"
    "n = of_bool (\<exists>u. u \<noteq> 0 \<and> p u = ElseDrop)" "allows P n 0"
  shows "creach P N (snap h n (visible_word 0 3) 0 p)"
proof -
  note E = csys_new_def HandleImpl_new_def snap_def
  let ?s = "csys_new\<lparr>hslot := HandleImpl_new\<lparr>meta := m\<rparr>, pcs := p\<rparr>"
  let ?c = "m OR push_bit kStateShift kStateOccupiedBit"
  have a: "creach P N (csys_new\<lparr>hslot := HandleImpl_new\<lparr>meta := ?c\<rparr>, pcs := p(0 := InsWrite h)\<rparr>)"
    by (rule creach_to[OF assms(1) cstep.ins_call[of 0 N ?s m ?c h]])
      (use assms in \<open>simp_all add: E atomic_defs insert_outcome_def state_of_consts\<close>)
  have b: "creach P N (snap h 0 ?c 0 (p(0 := InsPublish)))"
    by (rule creach_to[OF a cstep.ins_write[of _ 0 h]]) (use assms in \<open>simp_all add: E\<close>)
  have p: "p(0 := Idle) = p" using assms(3) by (simp add: fun_upd_idem)
  have "(\<exists>u. (p(0 := InsPublish)) u = ElseDrop) \<longleftrightarrow> (\<exists>u. u \<noteq> 0 \<and> p u = ElseDrop)"
    by (metis fun_upd_apply pc.distinct)
  then have r: "racing (snap h 0 ?c 0 (p(0 := InsPublish))) = n" unfolding racing_def assms(5) E by (simp del: fun_upd_apply)
  show ?thesis
    by (rule creach_to[OF b cstep.ins_publish[OF _ refl, of _ 0]])
      (use assms(6) p r in \<open>simp_all add: E atomic_defs publish_word\<close>)
qed

lemma run_insert_new:
  assumes "0 < N" "allows P 0 0"
  shows "creach P N (snap h 0 (visible_word 0 3) 0 idle)"
  by (rule run_insert[where m = 0 and p = idle and n = 0]) (use assms creach.start[of P N] fields_0 in \<open>simp_all add: csys_new_def HandleImpl_new_def\<close>)

lemma run_lookup:
  assumes "creach P N (snap h n m e p)" "t < N" "p t = Idle" "f_st m = 7" "f_hit (m + 1) < 2000" "allows P n (e + 1)"
  shows "creach P N (snap h n (m + 1 + kHitIncrement) (e + 1) p)"
proof -
  have L: "ref_outcome m v c = v" for v c using assms(4) by (simp add: ref_outcome_def state_of_consts)
  have a: "creach P N (snap h n (m + 1) e (p(t := LookKey (hashed_key h))))"
    by (rule creach_to[OF assms(1) cstep.look_call[OF assms(2) _ RefIncr_simp refl, where key = "hashed_key h"]])
      (use assms(3,6) in \<open>simp_all add: snap_def L\<close>)
  have b: "creach P N (snap h n (m + 1) e (p(t := HitAdd (hashed_key h))))"
    by (rule creach_to[OF a cstep.look_key[of _ t "hashed_key h"]]) (use assms(6) in \<open>simp_all add: snap_def\<close>)
  have FetchAdd: "FetchAddAcqRel m c = (m, m + c)" for m c :: u64 by (simp add: atomic_defs)
  have p: "p(t := Idle) = p" using assms(3) by (simp add: fun_upd_idem)
  show ?thesis
    by (rule creach_to[OF b cstep.hit_add[OF _ FetchAdd refl refl, of _ t "hashed_key h"]])
      (use assms(5,6) p in \<open>simp_all add: snap_def HitCount_field kMaxHitCount_def\<close>)
qed

text \<open>C15: One slot in every calm run of fewer than 45 threads, which may interleave lookups, releases, insertions, erasures
  and evictions access by access. A run is calm while clients hold fewer than 2^29 references, fewer than 2^60 stray
  increments are left behind, and the race of the else branch of Erase has not happened (the section on that branch shows what it does). At most one thread
  owns the slot; while a client holds the handle or a thread works with a reference, the entry is
  shareable, nobody owns it, the reference counter is exact, no step of any thread changes the data; the
  handle that a Lookup is about to return has the key that was looked up, and the assertion of Erase holds.\<close>

theorem clock_slot_safe:
  assumes "creach calm N s" "N * N \<le> 2000"
  shows "(\<forall>t u. owns (pcs s t) = 1 \<longrightarrow> owns (pcs s u) = 1 \<longrightarrow> t = u) \<and>
    (referenced s \<longrightarrow>
       f_st (meta (hslot s)) \<in> {6, 7} \<and> (\<forall>t. owns (pcs s t) = 0) \<and>
       RefCount (meta (hslot s)) = int (held s + card {t. holds (pcs s t) = 1}) \<and>
       (\<forall>s'. cstep N s s' \<longrightarrow> payload (hslot s') = payload (hslot s))) \<and>
    (\<forall>t key. pcs s t = HitAdd key \<or> (\<exists>n. pcs s t = HitSub key n) \<or> (\<exists>old. pcs s t = EraLoop key old) \<longrightarrow>
       hashed_key (hslot s) = key)"
proof -
  have inv: "cinv N s" using creach_cinv[OF assms] by blast
  have "hashed_key (hslot s) = key"
    if "pcs s t = HitAdd key \<or> (\<exists>n. pcs s t = HitSub key n) \<or> (\<exists>old. pcs s t = EraLoop key old)" for t key
    using cinvD(3)[OF inv, of t] that by auto
  then show ?thesis
    using cinv_one_owner[OF inv] cinv_referenced[OF inv] referenced_stable[OF inv] by (simp add: RefCount_field)
qed

lemma clock_slot_safe_witness:
  "\<exists>s. creach calm 2 s \<and> held s = 1 \<and> f_st (meta (hslot s)) \<in> {6, 7} \<and> (\<forall>t. owns (pcs s t) = 0)"
proof -
  let ?h = "\<lparr>h_value = 8, del_cb = 16, hashed_key = (1, 2), total_charge = 3\<rparr> :: handle"
  let ?s = "snap ?h 0 (visible_word 0 3 + 1 + kHitIncrement) 1 idle"
  have f: "f_hit (visible_word 0 3 + 1) < 2000"
    using visible_word_fields[of 1 3] visible_word_add(1)[of 0 3] by simp
  have "creach calm 2 (snap ?h 0 (visible_word 0 3) 0 idle)" by (rule run_insert_new) (simp_all add: calm_def)
  from run_lookup[OF this, of 1] have r: "creach calm 2 ?s" using f visible_word_fields[of 0 3] by (simp add: calm_def)
  have e: "held ?s = 1" by (simp add: snap_def)
  then have "referenced ?s" by (simp add: referenced_def)
  then have "f_st (meta (hslot ?s)) \<in> {6, 7} \<and> (\<forall>t. owns (pcs ?s t) = 0)"
    using clock_slot_safe[OF r] by simp
  then show ?thesis using r e by blast
qed

section \<open>Every entry is freed once\<close>

text \<open>The call of the deleter that an entry is due.\<close>

definition due :: "handle \<Rightarrow> (u64 \<times> u64) multiset" where
  "due h = (if del_cb h \<noteq> 0 \<and> h_value h \<noteq> 0 then {#(del_cb h, h_value h)#} else {#})"

fun vacates :: "pc \<Rightarrow> bool" where
  "vacates (InsWrite _) = True" | "vacates Emptying = True" | "vacates _ = False"

text \<open>The slot holds no entry that is due.\<close>

definition vacant :: "csys \<Rightarrow> bool" where
  "vacant s \<longleftrightarrow> f_st (meta (hslot s)) = 0 \<or> (\<exists>t. vacates (pcs s t))"

definition dinv :: "csys \<Rightarrow> bool" where
  "dinv s \<longleftrightarrow> (\<Sum>h \<in># mset (puts s). due h) = mset (calls s) + due (payload (hslot s)) \<and>
     (vacant s \<longrightarrow> due (payload (hslot s)) = {#})"

lemma FreeData_due: "FreeData h = (h', cs) \<Longrightarrow> mset cs = due (payload h) \<and> due (payload h') = {#}"
  by (auto simp: FreeData_def due_def payload_def split: if_splits)

lemma word_steps_st:
  assumes "word_ok m e w own r k v x"
  shows "e + r + 1 < 2 ^ 30 \<Longrightarrow> w + x + 1 < 2 ^ 61 \<Longrightarrow> f_st (m + 1) = f_st m"
    "0 < e \<or> 0 < r \<or> 0 < x \<Longrightarrow> f_st (m - 1) = f_st m"
proof -
  assume b: "e + r + 1 < 2 ^ 30" "w + x + 1 < 2 ^ 61"
  show "f_st (m + 1) = f_st m"
  proof (cases "f_st m \<in> {6, 7}")
    case True
    then have "f_ref m + 1 < 2 ^ 30" using assms b(1) by (simp add: word_ok_def)
    from fields_RefIncr[OF this] show ?thesis by simp
  next
    case False
    then have "f_low m + 1 < 2 ^ 61" using assms b(2) by (simp add: word_ok_def)
    then show ?thesis by (rule low_incr(2))
  qed
next
  assume b: "0 < e \<or> 0 < r \<or> 0 < x"
  show "f_st (m - 1) = f_st m"
  proof (cases "f_st m \<in> {6, 7}")
    case True
    then have "0 < f_ref m" using assms b by (auto simp: word_ok_def)
    from fields_RefDecr[OF this] show ?thesis by simp
  next
    case False
    then have "0 < f_low m" using assms b by (simp add: word_ok_def)
    then show ?thesis by (rule low_decr(2))
  qed
qed

lemma vacant_steps:
  assumes "cstep N s s'" "cinv N s" "calm s" "N * N \<le> 2000" "f_st (meta (hslot s')) = 0"
  shows "vacant s"
proof (rule ccontr)
  assume "\<not> vacant s"
  then have n: "f_st (meta (hslot s)) \<noteq> 0" "\<And>t. \<not> vacates (pcs s t)" by (auto simp: vacant_def)
  note D = cinvD[OF assms(2)] and z = assms(5)
  have t: "t < N" if "pcs s t = c" "c \<noteq> Idle" for t c using D(2) that by blast
  have b: "tally N (pcs s) holds \<le> N" "tally N (pcs s) elses \<le> N" "tally N (pcs s) subs \<le> N" "N \<le> 44"
    using tally_bound[of holds] tally_bound[of elses] tally_bound[of subs] weights_le few_threads[OF assms(4)]
    by simp_all
  then have subs_le: "tally N (pcs s) subs \<le> 44" by linarith
  from b have incr: "f_st (meta (hslot s) + 1) = f_st (meta (hslot s))"
    using word_steps_st(1)[OF D(1)] assms(3) by (simp add: calm_def)
  have decr: "f_st (meta (hslot s) - 1) = f_st (meta (hslot s))"
    if "0 < held s \<or> (t < N \<and> (0 < holds (pcs s t) \<or> 0 < elses (pcs s t)))" for t
    by (rule word_steps_st(2)[OF D(1)])
      (use that tally_update(2)[of t N holds "pcs s"] tally_update(2)[of t N elses "pcs s"] in auto)
  from assms(1) show False
  proof cases
    case (look_call t old h c key)
    then show False using z n(1) incr by (auto simp: RefIncr_simp)
  next
    case (ins_ref t handle old h c)
    then show False using z n(1) incr by (auto simp: RefIncr_simp)
  next
    case (era_call t old h key)
    then show False using z n(1) incr by (auto simp: RefIncr_simp)
  next
    case (drop_ref t)
    then show False using z n(1) decr[of t] t[of t Drop] by (simp add: RefDecr_simp)
  next
    case (release t)
    then show False using z n(1) decr[of t] by (simp add: RefDecr_simp)
  next
    case (era_shared t key old)
    then show False using z n(1) decr[of t] t[of t "EraLoop key old"] by (simp add: RefDecr_simp)
  next
    case (else_drop t)
    then show False using z n(1) decr[of t] t[of t ElseDrop] by (simp add: RefDecr_simp)
  next
    case (mark_empty t)
    then show False using n(2)[of t] by simp
  next
    case (ins_publish t new_meta)
    then show False using z visible_word_fields[of 0 3] by (simp add: publish_word atomic_defs)
  next
    case (upd_hit t m new_meta ok m' w)
    then show False using z n(1) D(3)[of t] by (auto simp: CasStrongRelaxed_def split: if_splits)
  next
    case (upd_own t m ok m' w)
    have "bit (push_bit kStateShift kStateConstruction OR (m AND kHitBitMask)) (61 + 2)"
      by (simp add: bit_or_iff shift_defs state_defs bit_simps)
    then have "f_st (push_bit kStateShift kStateConstruction OR (m AND kHitBitMask)) \<noteq> 0"
      unfolding bit_st by (rule contrapos_pn) simp
    then show False using upd_own z n(1) by (auto simp: CasStrongAcqRel_def CasStrongRelaxed_def split: if_splits)
  next
    case (era_cas t key old sp ok old' w)
    then show False using z n(1) fields_construction by (auto elim!: CasWeak_cases)
  next
    case (era_and t key visible old m)
    have "holds (pcs s t) = 1" using era_and(2) by simp
    from cinv_holder(1)[OF assms(2) t[OF era_and(2)] this] show False
      using z word_invisible(2)[OF D(1) _ era_and(3)] era_and by (auto simp: FetchAndAcqRel_def FetchAndRelaxed_def)
  next
    case (ins_call t old m handle)
    then show False using z n(1) word_begin_insert(1)[OF D(1) n(1)] by (auto simp: atomic_defs)
  next
    case (free_data t h cs)
    then show False using z n(1) FreeData_frame[of "hslot s"] by auto
  next
    case (hit_add t key old m overflow h)
    have "holds (pcs s t) = 1" using hit_add(2) by simp
    from cinv_holder(1)[OF assms(2) t[OF hit_add(2)] this]
    have sh: "f_st (meta (hslot s)) \<in> {6, 7}" by simp
    then have "f_hit (meta (hslot s)) \<le> 2000 + tally N (pcs s) subs" using D(1) by (simp add: word_ok_def)
    then have "f_hit (meta (hslot s)) + 1 < 2 ^ 30" using subs_le by simp
    from fields_HitIncr[OF this] have "f_st (meta (hslot s) + kHitIncrement) = f_st (meta (hslot s))" by simp
    then show False using hit_add z n(1) by (simp add: atomic_defs split: if_splits)
  next
    case (hit_sub t key k)
    have h: "holds (pcs s t) = 1" using hit_sub(2) by simp
    have tN: "t < N" using t[OF hit_sub(2)] by simp
    have sh: "f_st (meta (hslot s)) \<in> {6, 7}" by (rule cinv_holder(1)[OF assms(2) tN h])
    have "nat k \<le> tally N (pcs s) excess" using tally_update(2)[OF tN, of excess "pcs s"] hit_sub(2) by simp
    also have "\<dots> \<le> f_hit (meta (hslot s))" using D(1) sh by (simp add: word_ok_def)
    finally have "f_st (meta (hslot s) - kHitIncrement * of_nat (nat k)) = f_st (meta (hslot s))"
      using fields_HitDecr by blast
    moreover have "kHitIncrement * of_nat (nat k) = kHitIncrement * of_int k" using D(3)[of t] hit_sub(2) by simp
    ultimately show False using hit_sub(1) z n(1) by (simp add: HitDecr_def atomic_defs)
  qed (use z n(1) in simp_all)
qed

text \<open>The ledger is kept by every step.\<close>

lemma vacates_from:
  assumes "cstep N s s'" "vacates (pcs s' t)"
  shows "vacant s \<or> due (payload (hslot s')) = {#}"
  using assms(1)
proof cases
  case (ins_call u old m handle)
  then show ?thesis using assms(2)
    by (cases "t = u") (auto simp: insert_outcome_def state_of_consts atomic_defs vacant_def split: if_splits)
next
  case (upd_call u delta)
  then show ?thesis using assms(2)
    by (cases "t = u") (auto simp: update_outcome_def Let_def vacant_def split: if_splits)
next
  case (free_data u h cs)
  then show ?thesis using FreeData_due[OF free_data(3)] by simp
next
  case (hit_add u key old m overflow h)
  then show ?thesis using assms(2) by (cases "t = u") (auto simp: vacant_def split: if_splits)
qed (use assms(2) in \<open>cases "t = u"; auto simp: vacant_def ref_outcome_def split: if_splits\<close>)+

lemma vacates_owns: "vacates c \<Longrightarrow> owns c = 1"
  by (cases c) simp_all

lemma cstep_dinv:
  assumes "cstep N s s'" "cinv N s" "calm s" "N * N \<le> 2000" "dinv s"
  shows "dinv s'"
proof -
  have empty: "vacant s \<or> due (payload (hslot s')) = {#}" if "vacant s'"
    using that vacant_steps[OF assms(1-4)] vacates_from[OF assms(1)] by (auto simp: vacant_def)
  show ?thesis
    using assms(1)
  proof (cases rule: cstep_data)
    case same
    then show ?thesis using assms(5) empty by (auto simp: dinv_def same_data_def)
  next
    case (writes t handle)
    have own: "owns (pcs s t) = 1" "pcs s t \<noteq> Idle" using writes(1) by simp_all
    have "vacates (pcs s t)" using writes(1) by simp
    then have "vacant s" unfolding vacant_def by blast
    then have d: "due (payload (hslot s)) = {#}" using assms(5) by (simp add: dinv_def)
    have "\<not> vacates (pcs s' u)" for u
      using cinv_one_owner[OF assms(2) own(1), of u] vacates_owns[of "pcs s u"] writes(6) by (cases "u = t") auto
    moreover have "f_st (meta (hslot s')) = 4"
      using cinv_owner(1)[OF assms(2) cinvD(2)[OF assms(2) own(2)] own(1)] writes(5) by simp
    ultimately have "\<not> vacant s'" by (simp add: vacant_def)
    then show ?thesis using assms(5) d writes(2-4) by (simp add: dinv_def)
  next
    case (frees t h cs)
    then show ?thesis using assms(5) FreeData_due[OF frees(2)] by (simp add: dinv_def)
  qed
qed

lemma creach_dinv:
  assumes "creach calm N s" "N * N \<le> 2000"
  shows "dinv s"
  using assms(1)
proof induction
  case start
  show ?case by (simp add: dinv_def csys_new_def HandleImpl_new_def due_def payload_def)
next
  case (step s s')
  then show ?case using cstep_dinv creach_cinv[OF step(1) assms(2)] assms(2) by blast
qed

text \<open>C16: In every calm run of fewer than 45 threads at a slot, without the race of the else branch of Erase, no entry
  is freed twice and none is lost: the deleter calls made so far are those due
  for the entries written so far, except for the one in the slot, and while a thread frees or empties the slot
  no client and no other thread has a reference to the entry.\<close>

theorem clock_slot_frees_once:
  assumes "creach calm N s" "N * N \<le> 2000"
  shows "(\<Sum>h \<in># mset (puts s). due h) =
      mset (calls s) + (if vacant s then {#} else due (payload (hslot s))) \<and>
    (\<forall>t. pcs s t = Free \<or> pcs s t = Emptying \<longrightarrow> \<not> referenced s)"
proof -
  have inv: "cinv N s" using creach_cinv[OF assms] by blast
  have "\<not> referenced s" if "pcs s t = Free \<or> pcs s t = Emptying" for t
    using cinv_referenced(2)[OF inv, of t] that by auto
  then show ?thesis using creach_dinv[OF assms] by (simp add: dinv_def)
qed

text \<open>An Erase by thread t of the entry, up to the call of the deleter.\<close>

lemma run_erase:
  assumes "creach P N (snap h n m e p)" "t < N" "p t = Idle" "f_st m = 7" "f_ref m = 0"
    "del_cb h \<noteq> 0" "h_value h \<noteq> 0" "allows P n e"
  obtains s where "creach P N s" "held s = e" "puts s = [h]" "calls s = [(del_cb h, h_value h)]" "pcs s t = Emptying"
proof -
  let ?v = "push_bit kStateShift kStateVisibleBit :: u64" and ?k = "hashed_key h"
  let ?m = "(m + 1) AND NOT ?v" and ?c = "push_bit kStateShift kStateConstruction :: u64"
  have L: "ref_outcome m v c = v" for v c using assms(4) by (simp add: ref_outcome_def state_of_consts)
  have a: "creach P N (snap h n (m + 1) e (p(t := EraKey ?k)))"
    by (rule creach_to[OF assms(1) cstep.era_call[OF assms(2) _ RefIncr_simp, where key = ?k]])
      (use assms(3,8) in \<open>simp_all add: snap_def L\<close>)
  have b: "creach P N (snap h n (m + 1) e (p(t := EraAnd ?k)))"
    by (rule creach_to[OF a cstep.era_key[of _ t ?k]]) (use assms(8) in \<open>simp_all add: snap_def\<close>)
  have FetchAnd: "FetchAndAcqRel w c = (w, w AND c)" for w c :: u64 by (simp add: FetchAndAcqRel_def FetchAndRelaxed_def)
  have c: "creach P N (snap h n ?m e (p(t := EraLoop ?k ?m)))"
    by (rule creach_to[OF b cstep.era_and[OF _ refl FetchAnd, of _ t ?k]]) (use assms(8) in \<open>simp_all add: snap_def\<close>)
  have "meta_fields (m + 1) = (1, f_hit m, f_bit m, 7)" using fields_RefIncr[of m] assms(4,5) by simp
  then have "f_ref ?m = 1" using fields_and_not_visible[of "m + 1"] by simp
  then have r: "\<not> 1 < RefCount ?m" by (simp add: RefCount_field)
  have Cas: "CasWeakAcqRel False w w d = (True, w, d)" for w d :: u64 by (simp add: atomic_defs)
  have d: "creach P N (snap h n ?c e (p(t := Free)))"
    by (rule creach_to[OF c cstep.era_cas[OF _ r, of _ t ?k False True ?m ?c]])
      (use assms(8) Cas in \<open>simp_all add: snap_def\<close>)
  let ?s = "snap h n ?c e (p(t := Free))"
  let ?h = "(hslot ?s)\<lparr>h_value := 0\<rparr>" and ?cs = "[(del_cb h, h_value h)]"
  let ?e = "(act ?s ?h t Emptying)\<lparr>calls := calls ?s @ ?cs\<rparr>"
  have "creach P N ?e"
    by (rule creach_to[OF d cstep.free_data[of ?s t ?h ?cs]])
      (use assms(6-8) in \<open>simp_all add: snap_def FreeData_def\<close>)
  then show thesis by (rule that) (simp_all add: snap_def)
qed

lemma clock_slot_frees_once_witness:
  "\<exists>s. creach calm 1 s \<and> calls s = [(16, 8)] \<and> pcs s 0 = Emptying \<and> \<not> referenced s"
proof -
  let ?h = "\<lparr>h_value = 8, del_cb = 16, hashed_key = (1, 2), total_charge = 3\<rparr> :: handle"
  have "creach calm 1 (snap ?h 0 (visible_word 0 3) 0 idle)" by (rule run_insert_new) (simp_all add: calm_def)
  from run_erase[OF this, of 0] obtain s where
    s: "creach calm 1 s" "calls s = [(16, 8)]" "pcs s 0 = Emptying"
    using visible_word_fields[of 0 3] by (auto simp: calm_def)
  show ?thesis using clock_slot_frees_once[OF s(1)] s by auto
qed

section \<open>The else branch of Erase\<close>

text \<open>C39: The else branch of Erase breaks the reference counter: thread 1 erases and sees an empty slot, thread 0 inserts an
  entry there, thread 1 takes back a reference that the publication has overwritten. The counter
  then is one too low: a client looks the entry up, and an Erase frees it while the client still holds it.\<close>

theorem erase_underflow:
  assumes "del_cb h \<noteq> 0" "h_value h \<noteq> 0"
  shows "\<exists>s. creach (\<lambda>_. True) 2 s \<and> puts s = [h] \<and> held s = 1 \<and> calls s = [(del_cb h, h_value h)]"
proof -
  let ?P = "\<lambda>_ :: csys. True" and ?p = "idle(1 := ElseDrop)" and ?w = "visible_word 0 3"
  have out: "ref_outcome 0 v c = c" for v c
    using fields_0 by (simp add: ref_outcome_def state_of_consts)
  have a: "creach ?P 2 (csys_new\<lparr>hslot := HandleImpl_new\<lparr>meta := 1\<rparr>, pcs := ?p\<rparr>)"
    by (rule creach_to[OF creach.start cstep.era_call[of 1 2 csys_new, OF _ _ RefIncr_simp, where key = "(0, 0)"]])
      (simp_all add: csys_new_def HandleImpl_new_def out)
  have st1: "f_st 1 = 0" by (simp add: f_st_def)
  have b: "creach ?P 2 (snap h 1 ?w 0 ?p)"
    by (rule run_insert[OF a]) (use st1 in \<open>simp_all add: exI[of _ 1]\<close>)
  have c: "creach ?P 2 (snap h 1 (?w - 1) 0 idle)"
    by (rule creach_to[OF b cstep.else_drop[of _ 1]]) (simp_all add: snap_def RefDecr_simp)
  have "visible_word (2 ^ 30 - 1) 2 + 1 = ?w" by (simp add: visible_word_def)
  then have "?w - 1 = visible_word (2 ^ 30 - 1) 2" by (simp add: diff_eq_eq)
  then have f: "f_st (?w - 1) = 7" using visible_word_fields[of "2 ^ 30 - 1" 2] by simp
  have g: "f_hit (?w - 1 + 1) < 2000" using visible_word_fields[of 0 3] by simp
  from run_lookup[OF c, of 0, OF _ _ f g] have d: "creach ?P 2 (snap h 1 (visible_word 0 4) 1 idle)"
    by (simp add: visible_word_add)
  from run_erase[OF d, of 1] visible_word_fields[of 0 4] assms show ?thesis by fastforce
qed

lemma erase_underflow_witness:
  "\<exists>s. creach (\<lambda>_. True) 2 s \<and> puts s = [\<lparr>h_value = 8, del_cb = 16, hashed_key = (1, 2), total_charge = 3\<rparr>] \<and>
     held s = 1 \<and> calls s = [(16, 8)]"
  using erase_underflow[of "\<lparr>h_value = 8, del_cb = 16, hashed_key = (1, 2), total_charge = 3\<rparr>"] by simp

section \<open>The bound on the number of threads\<close>

text \<open>Lookups that are released again bring the hit counter to its limit.\<close>

lemma run_warm:
  assumes "k \<le> 1997" "0 < N"
  shows "creach calm N (snap h 0 (visible_word 0 (3 + k)) 0 idle)"
  using assms(1)
proof (induction k)
  case 0
  have "creach calm N (snap h 0 (visible_word 0 3) 0 idle)"
    by (rule run_insert_new) (use assms(2) in \<open>simp_all add: calm_def\<close>)
  then show ?case by simp
next
  case (Suc k)
  then have a: "creach calm N (snap h 0 (visible_word 0 (3 + k)) 0 idle)" by simp
  have "f_st (visible_word 0 (3 + k)) = 7" "f_hit (visible_word 0 (3 + k) + 1) < 2000"
    using visible_word_fields[of 0 "3 + k"] visible_word_fields[of 1 "3 + k"] visible_word_add(1)[of 0 "3 + k"] Suc(2)
    by simp_all
  from run_lookup[OF a assms(2) _ this]
  have b: "creach calm N (snap h 0 (visible_word 0 (3 + k) + 1 + kHitIncrement) 1 idle)" by (simp add: calm_def)
  have w: "visible_word 0 (3 + k) + 1 + kHitIncrement - 1 = visible_word 0 (3 + Suc k)"
    using visible_word_add(2)[of 0 "3 + k"] by (simp add: algebra_simps)
  show ?case
    by (rule creach_to[OF b cstep.release[of 0]])
      (use assms(2) w in \<open>simp_all add: snap_def RefDecr_simp calm_def\<close>)
qed

text \<open>n threads have added their hit at the limit and none has taken its excess back.\<close>

abbreviation adders :: "key128 \<Rightarrow> nat \<Rightarrow> nat \<Rightarrow> nat \<Rightarrow> pc" where
  "adders key i n \<equiv> (\<lambda>t. if i \<le> t \<and> t < n then HitSub key (int (t + 1)) else Idle)"

lemma run_add:
  assumes "creach calm N (snap h 0 (visible_word n (2000 + n)) 0 (adders (hashed_key h) 0 n))" "n < N" "n < 2 ^ 20"
  shows "creach calm N (snap h 0 (visible_word (n + 1) (2000 + (n + 1))) 0 (adders (hashed_key h) 0 (n + 1)))"
proof -
  let ?k = "hashed_key h" and ?p = "adders (hashed_key h) 0 n" and ?w = "visible_word (n + 1) (2000 + n)"
  have f: "f_st (visible_word n (2000 + n)) = 7" "f_hit ?w = 2000 + n"
    using visible_word_fields[of n "2000 + n"] visible_word_fields[of "n + 1" "2000 + n"] assms(3) by simp_all
  then have L: "ref_outcome (visible_word n (2000 + n)) v c = v" for v c
    by (simp add: ref_outcome_def state_of_consts)
  have a: "creach calm N (snap h 0 ?w 0 (?p(n := LookKey ?k)))"
    by (rule creach_to[OF assms(1) cstep.look_call[OF assms(2) _ RefIncr_simp refl, where key = ?k]])
      (simp_all add: snap_def L visible_word_add calm_def)
  have b: "creach calm N (snap h 0 ?w 0 (?p(n := HitAdd ?k)))"
    by (rule creach_to[OF a cstep.look_key[of _ n ?k]]) (simp_all add: snap_def calm_def)
  have FetchAdd: "FetchAddAcqRel m c = (m, m + c)" for m c :: u64 by (simp add: atomic_defs)
  have p: "?p(n := HitSub ?k (1 + int n)) = adders ?k 0 (n + 1)" by (auto simp: fun_eq_iff less_Suc_eq)
  show ?thesis
    by (rule creach_to[OF b cstep.hit_add[OF _ FetchAdd refl refl, of _ n ?k]])
      (use f(2) p in \<open>simp_all add: snap_def HitCount_field kMaxHitCount_def visible_word_add calm_def\<close>)
qed

lemma run_adds:
  "n \<le> N \<Longrightarrow> n \<le> 2 ^ 20 \<Longrightarrow> 0 < N \<Longrightarrow>
   creach calm N (snap h 0 (visible_word n (2000 + n)) 0 (adders (hashed_key h) 0 n))"
proof (induction n)
  case 0
  then show ?case using run_warm[of 1997 N h] by simp
next
  case (Suc n)
  then show ?case using run_add[of N h n] by simp
qed

text \<open>The threads take their excess back one after the other.\<close>

fun taken :: "nat \<Rightarrow> nat" where
  "taken 0 = 0" | "taken (Suc i) = taken i + Suc i"

definition hit_word :: "nat \<Rightarrow> nat \<Rightarrow> u64" where
  "hit_word n i = of_nat (n + 7 * 2 ^ 61 + (2000 + n) * 2 ^ 30 - taken i * 2 ^ 30)"

lemma hit_word_next:
  assumes "taken (Suc i) < 2 ^ 31"
  shows "hit_word n i - kHitIncrement * of_nat (Suc i) = hit_word n (Suc i)"
proof -
  define a where "a = n + 7 * 2 ^ 61 + (2000 + n) * 2 ^ 30"
  have "taken (Suc i) * 2 ^ 30 \<le> 2 ^ 31 * 2 ^ 30" using assms by (intro mult_le_mono1) simp
  then have le: "taken (Suc i) * 2 ^ 30 \<le> a" by (simp add: a_def)
  have "taken i * 2 ^ 30 + Suc i * 2 ^ 30 = taken (Suc i) * 2 ^ 30" by (simp only: taken.simps(2) distrib_right)
  then have "a - taken i * 2 ^ 30 = (a - taken (Suc i) * 2 ^ 30) + Suc i * 2 ^ 30" using le by linarith
  then have "hit_word n i = hit_word n (Suc i) + of_nat (Suc i * 2 ^ 30)"
    unfolding hit_word_def a_def[symmetric] by (simp only: of_nat_add)
  moreover have "kHitIncrement * of_nat (Suc i) = (of_nat (Suc i * 2 ^ 30) :: u64)"
    by (simp add: kHitIncrement_def shift_defs algebra_simps)
  ultimately show ?thesis by (simp only: add_diff_cancel)
qed

lemma run_subs:
  "i \<le> 64 \<Longrightarrow> creach calm 64 (snap h 0 (hit_word 64 i) i (adders (hashed_key h) i 64))"
proof (induction i)
  case 0
  have "hit_word 64 0 = visible_word 64 (2000 + 64)" by (simp add: hit_word_def visible_word_def)
  then show ?case using run_adds[of 64 64 h] by simp
next
  case (Suc i)
  let ?k = "hashed_key h"
  have "taken i \<le> i * 64" if "i \<le> 64" for i using that by (induction i) simp_all
  from this[OF Suc(2)] have "taken (Suc i) < 2 ^ 31" using Suc(2) by (simp del: taken.simps)
  note w = hit_word_next[OF this, of 64]
  have p: "(adders ?k i 64)(i := Idle) = adders ?k (Suc i) 64" by (auto simp: fun_eq_iff)
  have a: "creach calm 64 (snap h 0 (hit_word 64 i) i (adders ?k i 64))" using Suc by simp
  show ?case
    by (rule creach_to[OF a cstep.hit_sub[of _ i ?k "int (Suc i)"]])
      (use Suc(2) w p in \<open>simp_all add: snap_def HitDecr_def atomic_defs calm_def\<close>)
qed

text \<open>The number of threads must be bounded: 64 Lookups that add their hit at the limit of 2000 before any of them takes
  its excess back subtract 2080 from a counter at 2064; the borrow reaches the state marker, and the entry
  is invisible to later lookups although nobody has erased it.\<close>

theorem hit_underflow:
  "\<exists>s. creach calm 64 s \<and> puts s = [h] \<and> calls s = [] \<and> held s = 64 \<and> (\<forall>t. pcs s t = Idle) \<and>
     f_st (meta (hslot s)) = 6"
proof -
  let ?s = "snap h 0 (hit_word 64 64) 64 (adders (hashed_key h) 64 64)"
  have t: "taken 64 = 2080" by (simp add: numeral_eq_Suc)
  have "unat (hit_word 64 64) = 64 + (2 ^ 30 - 16) * 2 ^ 30 + 1 * 2 ^ 60 + 6 * 2 ^ 61"
    unfolding hit_word_def t by (subst unat_of_nat_eq) simp_all
  then have "meta_fields (hit_word 64 64) = (64, 2 ^ 30 - 16, 1, 6)" by (rule fieldsI) simp_all
  moreover have "creach calm 64 ?s" by (rule run_subs) simp
  ultimately show ?thesis by (intro exI[of _ ?s]) (simp add: snap_def)
qed


section \<open>Progress\<close>

text \<open>How many steps a thread still needs at most when its exchanges succeed.\<close>

fun rank :: "pc \<Rightarrow> nat" where
  "rank Idle = 0"
| "rank Drop = 1" | "rank ElseDrop = 1" | "rank (HitSub _ _) = 1" | "rank InsPublish = 1" | "rank (UpdHit _ _) = 1"
| "rank Emptying = 1" | "rank (HitAdd _) = 2" | "rank (InsKey _) = 2" | "rank (InsWrite _) = 2" | "rank Free = 2"
| "rank (LookKey _) = 3" | "rank (InsRef _) = 3" | "rank (UpdOwn _) = 3" | "rank (EraLoop _ _) = 3"
| "rank (EraAnd _) = 4" | "rank (EraKey _) = 5"

text \<open>The loop of Erase has a word that is no longer the one of the slot.\<close>

fun stale :: "u64 \<Rightarrow> pc \<Rightarrow> bool" where
  "stale m (EraLoop key old) \<longleftrightarrow> old \<noteq> m" | "stale m _ \<longleftrightarrow> False"

definition remaining :: "csys \<Rightarrow> nat \<Rightarrow> nat" where
  "remaining s t = rank (pcs s t) + of_bool (stale (meta (hslot s)) (pcs s t))"

lemma remaining_le: "remaining s t \<le> 5" "remaining s t = 0 \<longleftrightarrow> pcs s t = Idle"
  by (cases "pcs s t"; simp add: remaining_def)+

text \<open>n steps of thread t while all others stand still.\<close>

inductive alone :: "nat \<Rightarrow> nat \<Rightarrow> nat \<Rightarrow> csys \<Rightarrow> csys \<Rightarrow> bool" for N t where
  none: "alone N t 0 s s"
| one: "cstep N s s' \<Longrightarrow> \<forall>u. u \<noteq> t \<longrightarrow> pcs s' u = pcs s u \<Longrightarrow> alone N t n s' s'' \<Longrightarrow> alone N t (Suc n) s s''"

lemma can_move:
  assumes "pcs s t \<noteq> Idle"
  obtains s' where "cstep N s s'" "\<And>u. u \<noteq> t \<Longrightarrow> pcs s' u = pcs s u" "remaining s' t < remaining s t"
proof -
  note R = remaining_def and move = that
  have fin: thesis if "cstep N s s'" "\<forall>u. u \<noteq> t \<longrightarrow> pcs s' u = pcs s u" "rank (pcs s' t) < rank (pcs s t)"
    "\<not> stale (meta (hslot s')) (pcs s' t)" for s'
    by (rule move[of s']) (use that in \<open>auto simp: R\<close>)
  have nostale: "\<not> stale m c" if "rank c < 3" for m c using that by (cases c) simp_all
  show thesis
  proof (cases "pcs s t")
    case (LookKey key)
    show thesis by (rule fin[OF cstep.look_key[OF LookKey]]) (use LookKey in \<open>auto split: if_splits\<close>)
  next
    case (HitAdd key)
    obtain old m where e: "FetchAddAcqRel (meta (hslot s)) (kHitIncrement * 1) = (old, m)" by (meson surj_pair)
    show thesis by (rule fin[OF cstep.hit_add[OF HitAdd e refl refl]]) (use HitAdd in \<open>auto split: if_splits\<close>)
  next
    case (HitSub key n)
    show thesis by (rule fin[OF cstep.hit_sub[OF HitSub]]) (use HitSub in \<open>auto split: if_splits\<close>)
  next
    case Drop
    show thesis by (rule fin[OF cstep.drop_ref[OF Drop]]) (use Drop in \<open>auto split: if_splits\<close>)
  next
    case (InsRef handle)
    obtain old h where e: "RefIncr (hslot s) = (old, h)" by (meson surj_pair)
    note c = cstep.ins_ref[OF InsRef e refl]
    have r: "rank (ref_outcome old (InsKey handle) Idle) < 3" by (simp add: ref_outcome_def)
    show thesis using r nostale[OF r] InsRef by (intro fin[OF c]) simp_all
  next
    case (InsKey handle)
    show thesis by (rule fin[OF cstep.ins_key[OF InsKey]]) (use InsKey in \<open>auto split: if_splits\<close>)
  next
    case (InsWrite handle)
    show thesis by (rule fin[OF cstep.ins_write[OF InsWrite]]) (use InsWrite in \<open>auto split: if_splits\<close>)
  next
    case InsPublish
    show thesis by (rule fin[OF cstep.ins_publish[OF InsPublish refl]]) (use InsPublish in \<open>auto split: if_splits\<close>)
  next
    case (UpdHit m m')
    obtain ok e w where e: "CasStrongRelaxed (meta (hslot s)) m m' = (ok, e, w)" by (metis prod_cases3)
    show thesis by (rule fin[OF cstep.upd_hit[OF UpdHit e]]) (use UpdHit in \<open>auto split: if_splits\<close>)
  next
    case (UpdOwn m)
    obtain ok e w where e:
      "CasStrongAcqRel (meta (hslot s)) m (push_bit kStateShift kStateConstruction OR (m AND kHitBitMask)) = (ok, e, w)"
      by (metis prod_cases3)
    show thesis by (rule fin[OF cstep.upd_own[OF UpdOwn e]]) (use UpdOwn in \<open>auto split: if_splits\<close>)
  next
    case Free
    obtain h cs where e: "FreeData (hslot s) = (h, cs)" by (meson surj_pair)
    show thesis by (rule fin[OF cstep.free_data[OF Free e]]) (use Free in \<open>auto split: if_splits\<close>)
  next
    case Emptying
    show thesis by (rule fin[OF cstep.mark_empty[OF Emptying]]) (use Emptying in \<open>auto split: if_splits\<close>)
  next
    case (EraKey key)
    show thesis by (rule fin[OF cstep.era_key[OF EraKey]]) (use EraKey in \<open>auto split: if_splits\<close>)
  next
    case (EraAnd key)
    let ?v = "push_bit kStateShift kStateVisibleBit :: u64"
    have e: "FetchAndAcqRel (meta (hslot s)) (NOT ?v) = (meta (hslot s), meta (hslot s) AND NOT ?v)"
      by (simp add: FetchAndAcqRel_def FetchAndRelaxed_def)
    show thesis by (rule fin[OF cstep.era_and[OF EraAnd refl e]]) (use EraAnd in \<open>auto split: if_splits\<close>)
  next
    case (EraLoop key old)
    show thesis
    proof (cases "1 < RefCount old")
      case True
      show thesis by (rule fin[OF cstep.era_shared[OF EraLoop True]]) (use EraLoop in \<open>auto split: if_splits\<close>)
    next
      case False
      show thesis
      proof (cases "old = meta (hslot s)")
        case True
        then have e: "CasWeakAcqRel False (meta (hslot s)) old (push_bit kStateShift kStateConstruction) =
            (True, old, push_bit kStateShift kStateConstruction)" by (simp add: atomic_defs)
        show thesis by (rule fin[OF cstep.era_cas[OF EraLoop False e]]) (use EraLoop in \<open>auto split: if_splits\<close>)
      next
        case neq: False
        then have e: "CasWeakAcqRel False (meta (hslot s)) old (push_bit kStateShift kStateConstruction) =
            (False, meta (hslot s), meta (hslot s))" by (simp add: atomic_defs)
        note c = cstep.era_cas[OF EraLoop False e]
        show thesis by (rule move[OF c]) (use EraLoop neq in \<open>simp_all add: R\<close>)
      qed
    qed
  next
    case ElseDrop
    show thesis by (rule fin[OF cstep.else_drop[OF ElseDrop]]) (use ElseDrop in \<open>auto split: if_splits\<close>)
  qed (use assms in simp)
qed

lemma runs_out:
  "remaining s t \<le> k \<Longrightarrow> \<exists>n s'. n \<le> k \<and> alone N t n s s' \<and> pcs s' t = Idle"
proof (induction k arbitrary: s)
  case 0
  then show ?case using alone.none remaining_le(2)[of s t] by auto
next
  case (Suc k)
  show ?case
  proof (cases "pcs s t = Idle")
    case True
    then show ?thesis using alone.none by blast
  next
    case False
    obtain s1 where s1: "cstep N s s1" "\<And>u. u \<noteq> t \<Longrightarrow> pcs s1 u = pcs s u" "remaining s1 t < remaining s t"
      using can_move[OF False, of N] by blast
    then have "remaining s1 t \<le> k" using Suc(2) by simp
    from Suc(1)[OF this] obtain n s' where n: "n \<le> k" "alone N t n s1 s'" "pcs s' t = Idle" by blast
    have "alone N t (Suc n) s s'" by (rule alone.one[OF s1(1) _ n(2)]) (use s1(2) in blast)
    then show ?thesis using n(1,3) by (intro exI[of _ "Suc n"] exI[of _ s']) simp
  qed
qed

text \<open>A step of a thread brings it closer to its end, except for a compare-and-swap of Erase that fails.\<close>

lemma cstep_rank:
  assumes "cstep N s s'" "pcs s t \<noteq> Idle" "pcs s' t \<noteq> pcs s t"
  shows "rank (pcs s' t) < rank (pcs s t) \<or>
    (\<exists>key old. pcs s t = EraLoop key old \<and> pcs s' t = EraLoop key (meta (hslot s)) \<and> hslot s' = hslot s)"
  using assms(1)
proof cases
  case (era_cas u key old sp ok old' w)
  then have "t = u" using assms(3) by (cases "t = u") simp_all
  then show ?thesis using era_cas by (auto elim!: CasWeak_cases)
next
  case (hit_add u key old m overflow h)
  then have "t = u" using assms(3) by (cases "t = u") (auto split: if_splits)
  then show ?thesis using hit_add by auto
qed (use assms(2,3) in \<open>cases "t = u"; auto simp: ref_outcome_def\<close>, (use assms(2,3) in \<open>auto simp: ref_outcome_def split: if_splits\<close>)+)

text \<open>C33: No thread waits for another: from any state, whatever the other threads have left undone, the operation a thread
  is in ends within five steps of its own when it runs alone; and when the others run too, each of
  its steps still brings it closer to its end, except for a compare-and-swap of Erase that fails and then knows the
  current word.\<close>

theorem clock_slot_progress:
  "(\<exists>n s'. n \<le> 5 \<and> alone N t n s s' \<and> pcs s' t = Idle) \<and>
   (\<forall>s'. cstep N s s' \<longrightarrow> pcs s t = Idle \<or> pcs s' t = pcs s t \<or> rank (pcs s' t) < rank (pcs s t) \<or>
      (\<exists>key old. pcs s t = EraLoop key old \<and> pcs s' t = EraLoop key (meta (hslot s)) \<and> hslot s' = hslot s))"
  using runs_out[OF remaining_le(1)] cstep_rank by blast

lemma clock_slot_progress_witness:
  "\<exists>n s'. n \<le> 5 \<and> alone 1 0 n (goto csys_new 0 (EraLoop (1, 2) 3)) s' \<and> pcs s' 0 = Idle"
  using clock_slot_progress[of 1 0 "goto csys_new 0 (EraLoop (1, 2) 3)"] by blast
end
