(* ===== verification/Clock_Accounting.thy ===== *)
theory Clock_Accounting
  imports Clock_Slots "HOL-Library.Multiset"
begin

text \<open>
  The counters usage_ and occupancy_ of one shard of the clock cache under any interleaving of threads that run
  ClockCache::Insert and ClockCache::Erase. Every access to a counter is one step of one thread, and so is the
  moment a thread takes an entry out of the table (it has become the owner of its slot) or puts one in. Of the table
  only the charges of its entries are kept; which entries an eviction, an erasure or a search meets, and how
  TryInsert ends, is left open. Words keep their width; an insertion is called only with a charge that does not
  overflow together with the capacity.
\<close>

section \<open>Threads and steps\<close>

datatype apc =
    AIdle
  | ALoad u64 bool                        \<comment> \<open>total_charge, need_evict_for_occupancy; next: load usage_\<close>
  | ACas u64 bool u64                     \<comment> \<open>old_usage; next: the exchange of usage_\<close>
  | AEvict u64 bool u64 u64 u64 u64       \<comment> \<open>old_usage, new_usage, freed_charge, freed_count; inside Evict\<close>
  | AGiveUsage u64 u64                    \<comment> \<open>enough was freed, next: give back what is too much\<close>
  | AFailUsage bool u64                   \<comment> \<open>not enough was freed, next: give it all back\<close>
  | AFailOcc bool                         \<comment> \<open>EvictForCharge returned false, next: occupancy_\<close>
  | ATry u64 bool                         \<comment> \<open>DoInsert; the second attempt?\<close>
  | AScan "u64 option"                    \<comment> \<open>Erase; Some inside an insertion\<close>
  | AReclaimOcc u64 "u64 option"          \<comment> \<open>Erase took an entry, next: occupancy_\<close>
  | AReclaimUsage u64 "u64 option"        \<comment> \<open>next: usage_\<close>
  | ARollOcc u64                          \<comment> \<open>the insertion failed, next: occupancy_\<close>
  | ARollUsage u64                        \<comment> \<open>next: usage_\<close>
  | AAbort                                \<comment> \<open>a failed assertion\<close>

record asys =
  a_usage :: u64
  a_occupancy :: u64
  a_table :: "u64 multiset"
  a_pcs :: "nat \<Rightarrow> apc"

abbreviation agoto :: "asys \<Rightarrow> nat \<Rightarrow> apc \<Rightarrow> asys" where
  "agoto s t c \<equiv> s\<lparr>a_pcs := (a_pcs s)(t := c)\<rparr>"

text \<open>EvictForCharge once new_usage is reserved, and after Evict and the subtraction of freed_count.\<close>

definition after_reserve :: "u64 \<Rightarrow> bool \<Rightarrow> u64 \<Rightarrow> u64 \<Rightarrow> apc" where
  "after_reserve charge need_evict_for_occupancy old_usage new_usage =
     (let need_evict_charge = old_usage + charge - new_usage;
          request_evict_charge = (if need_evict_for_occupancy \<and> need_evict_charge = 0 then 1 else need_evict_charge)
      in if 0 < request_evict_charge
         then AEvict charge need_evict_for_occupancy old_usage new_usage 0 0
         else ATry charge False)"

definition after_evict :: "u64 \<Rightarrow> bool \<Rightarrow> u64 \<Rightarrow> u64 \<Rightarrow> u64 \<Rightarrow> u64 \<Rightarrow> apc" where
  "after_evict charge need_evict_for_occupancy old_usage new_usage fc fn =
     (let need_evict_charge = old_usage + charge - new_usage
      in if fc > need_evict_charge
         then (if fn = 0 then AAbort else AGiveUsage charge (fc - need_evict_charge))
         else if fc < need_evict_charge \<or> (need_evict_for_occupancy \<and> fn = 0)
         then AFailUsage need_evict_for_occupancy (fc + (new_usage - old_usage))
         else if fn = 0 then AAbort else ATry charge False)"

text \<open>The threads are numbered below N; cap is capacity_, lim is occupancy_limit_.\<close>

inductive astep :: "u64 \<Rightarrow> u64 \<Rightarrow> nat \<Rightarrow> asys \<Rightarrow> asys \<Rightarrow> bool" for cap lim N where
  ins_call: "t < N \<Longrightarrow> a_pcs s t = AIdle \<Longrightarrow> unat charge + unat cap < 2 ^ 64 \<Longrightarrow>
    FetchAddAcqRel (a_occupancy s) 1 = (old_occupancy, occ) \<Longrightarrow>
    astep cap lim N s ((agoto s t (ALoad charge (lim < old_occupancy + 1)))\<lparr>a_occupancy := occ\<rparr>)"
| load_usage: "a_pcs s t = ALoad charge need \<Longrightarrow>
    astep cap lim N s (agoto s t (ACas charge need (LoadRelaxed (a_usage s))))"
| no_reserve: "a_pcs s t = ACas charge need old \<Longrightarrow> min cap (old + charge) = old \<Longrightarrow>
    astep cap lim N s (agoto s t (after_reserve charge need old old))"
| reserve: "a_pcs s t = ACas charge need old \<Longrightarrow> new = min cap (old + charge) \<Longrightarrow> new \<noteq> old \<Longrightarrow>
    CasWeakRelaxed spurious (a_usage s) old new = (ok, expected, u) \<Longrightarrow>
    astep cap lim N s ((agoto s t (if ok then after_reserve charge need old new else ACas charge need expected))
                       \<lparr>a_usage := u\<rparr>)"
| evict_take: "a_pcs s t = AEvict charge need old new fc fn \<Longrightarrow> e \<in># a_table s \<Longrightarrow>
    astep cap lim N s ((agoto s t (AEvict charge need old new (fc + e) (fn + 1)))\<lparr>a_table := a_table s - {#e#}\<rparr>)"
| evict_end: "a_pcs s t = AEvict charge need old new fc fn \<Longrightarrow>
    astep cap lim N s ((agoto s t (after_evict charge need old new fc fn))
                       \<lparr>a_occupancy := snd (FetchSubAcqRel (a_occupancy s) fn)\<rparr>)"
| give_usage: "a_pcs s t = AGiveUsage charge amount \<Longrightarrow>
    astep cap lim N s ((agoto s t (ATry charge False))\<lparr>a_usage := snd (FetchSubRelaxed (a_usage s) amount)\<rparr>)"
| fail_usage: "a_pcs s t = AFailUsage need amount \<Longrightarrow>
    astep cap lim N s ((agoto s t (AFailOcc need))\<lparr>a_usage := snd (FetchSubRelaxed (a_usage s) amount)\<rparr>)"
| fail_occ: "a_pcs s t = AFailOcc need \<Longrightarrow>
    astep cap lim N s ((agoto s t AIdle)\<lparr>a_occupancy := snd (FetchSubRelaxed (a_occupancy s) 1)\<rparr>)"
| try_put: "a_pcs s t = ATry charge again \<Longrightarrow>
    astep cap lim N s ((agoto s t AIdle)\<lparr>a_table := a_table s + {#charge#}\<rparr>)"
| try_match: "a_pcs s t = ATry charge False \<Longrightarrow> astep cap lim N s (agoto s t (AScan (Some charge)))"
| try_fail: "a_pcs s t = ATry charge again \<Longrightarrow> astep cap lim N s (agoto s t (ARollOcc charge))"
| era_call: "t < N \<Longrightarrow> a_pcs s t = AIdle \<Longrightarrow> astep cap lim N s (agoto s t (AScan None))"
| era_take: "a_pcs s t = AScan ins \<Longrightarrow> e \<in># a_table s \<Longrightarrow>
    astep cap lim N s ((agoto s t (AReclaimOcc e ins))\<lparr>a_table := a_table s - {#e#}\<rparr>)"
| reclaim_occ: "a_pcs s t = AReclaimOcc e ins \<Longrightarrow>
    astep cap lim N s ((agoto s t (AReclaimUsage e ins))\<lparr>a_occupancy := snd (FetchSubAcqRel (a_occupancy s) 1)\<rparr>)"
| reclaim_usage: "a_pcs s t = AReclaimUsage e ins \<Longrightarrow>
    astep cap lim N s ((agoto s t (AScan ins))\<lparr>a_usage := snd (FetchSubRelaxed (a_usage s) e)\<rparr>)"
| era_end: "a_pcs s t = AScan ins \<Longrightarrow>
    c \<in> (case ins of None \<Rightarrow> {AIdle} | Some charge \<Rightarrow> {ATry charge True, ARollOcc charge}) \<Longrightarrow>
    astep cap lim N s (agoto s t c)"
| roll_occ: "a_pcs s t = ARollOcc charge \<Longrightarrow>
    astep cap lim N s ((agoto s t (ARollUsage charge))\<lparr>a_occupancy := snd (FetchSubRelaxed (a_occupancy s) 1)\<rparr>)"
| roll_usage: "a_pcs s t = ARollUsage charge \<Longrightarrow>
    astep cap lim N s ((agoto s t AIdle)\<lparr>a_usage := snd (FetchSubRelaxed (a_usage s) charge)\<rparr>)"

definition asys_new :: asys where
  "asys_new = \<lparr>a_usage = 0, a_occupancy = 0, a_table = {#}, a_pcs = (\<lambda>_. AIdle)\<rparr>"

inductive areach :: "u64 \<Rightarrow> u64 \<Rightarrow> nat \<Rightarrow> asys \<Rightarrow> bool" for cap lim N where
  start: "areach cap lim N asys_new"
| step: "areach cap lim N s \<Longrightarrow> astep cap lim N s s' \<Longrightarrow> areach cap lim N s'"

section \<open>What the threads hold\<close>

text \<open>The share of usage_ and of occupancy_ that belongs to no entry but to a running operation, and whether
  the operation still owes the table a free place.\<close>

fun held_usage :: "apc \<Rightarrow> nat" where
  "held_usage (AEvict charge need old new fc fn) = unat new - unat old + unat fc"
| "held_usage (AGiveUsage charge amount) = unat charge + unat amount"
| "held_usage (AFailUsage need amount) = unat amount"
| "held_usage (ATry charge again) = unat charge"
| "held_usage (AScan ins) = (case ins of None \<Rightarrow> 0 | Some charge \<Rightarrow> unat charge)"
| "held_usage (AReclaimOcc e ins) = unat e + (case ins of None \<Rightarrow> 0 | Some charge \<Rightarrow> unat charge)"
| "held_usage (AReclaimUsage e ins) = unat e + (case ins of None \<Rightarrow> 0 | Some charge \<Rightarrow> unat charge)"
| "held_usage (ARollOcc charge) = unat charge"
| "held_usage (ARollUsage charge) = unat charge"
| "held_usage _ = 0"

fun held_occ :: "apc \<Rightarrow> nat" where
  "held_occ (AEvict charge need old new fc fn) = 1 + unat fn"
| "held_occ (AScan ins) = of_bool (ins \<noteq> None)"
| "held_occ (AReclaimOcc e ins) = 1 + of_bool (ins \<noteq> None)"
| "held_occ (AReclaimUsage e ins) = of_bool (ins \<noteq> None)"
| "held_occ AIdle = 0"
| "held_occ (ARollUsage charge) = 0"
| "held_occ AAbort = 0"
| "held_occ _ = 1"

fun owing :: "apc \<Rightarrow> nat" where
  "owing (ALoad charge need) = of_bool need"
| "owing (ACas charge need old) = of_bool need"
| "owing (AEvict charge need old new fc fn) = of_bool need"
| "owing (AFailUsage need amount) = of_bool need"
| "owing (AFailOcc need) = of_bool need"
| "owing _ = 0"

fun apc_ok :: "u64 \<Rightarrow> apc \<Rightarrow> bool" where
  "apc_ok cap (ALoad charge need) \<longleftrightarrow> unat charge + unat cap < 2 ^ 64"
| "apc_ok cap (ACas charge need old) \<longleftrightarrow> unat charge + unat cap < 2 ^ 64 \<and> unat old \<le> unat cap"
| "apc_ok cap (AEvict charge need old new fc fn) \<longleftrightarrow> unat charge + unat cap < 2 ^ 64 \<and>
     unat new = min (unat cap) (unat old + unat charge) \<and> unat old \<le> unat new \<and> (fn = 0 \<longrightarrow> fc = 0) \<and>
     (need \<or> 0 < unat old + unat charge - unat new)"
| "apc_ok cap AAbort \<longleftrightarrow> False"
| "apc_ok cap _ \<longleftrightarrow> True"

definition table_charge :: "u64 multiset \<Rightarrow> nat" where
  "table_charge T = sum_mset (image_mset unat T)"

definition ainv :: "u64 \<Rightarrow> u64 \<Rightarrow> nat \<Rightarrow> asys \<Rightarrow> bool" where
  "ainv cap lim N s \<longleftrightarrow>
     unat (a_usage s) = table_charge (a_table s) + (\<Sum>t < N. held_usage (a_pcs s t)) \<and>
     unat (a_occupancy s) = size (a_table s) + (\<Sum>t < N. held_occ (a_pcs s t)) \<and>
     unat (a_usage s) \<le> unat cap \<and>
     unat (a_occupancy s) \<le> unat lim + (\<Sum>t < N. owing (a_pcs s t)) \<and>
     (\<forall>t. apc_ok cap (a_pcs s t)) \<and> (\<forall>t \<ge> N. a_pcs s t = AIdle)"

lemma table_charge_simps [simp]:
  "table_charge {#} = 0" "table_charge (add_mset e T) = unat e + table_charge T"
  by (simp_all add: table_charge_def)

lemma table_take: "e \<in># T \<Longrightarrow> table_charge T = table_charge (T - {#e#}) + unat e"
  using table_charge_simps(2)[of e "T - {#e#}"] by simp

lemma u64_less: "unat x < 2 ^ 64" for x :: u64
  using unsigned_less[of x] by simp

lemma size_take: "e \<in># T \<Longrightarrow> size T = size (T - {#e#}) + 1"
  by (metis Suc_eq_plus1 insert_DiffM size_add_mset)

lemma sum_put: "t < N \<Longrightarrow> (\<Sum>u < N. f ((p(t := c)) u)) + f (p t) = (\<Sum>u < N. f (p u)) + f c" for f :: "'a \<Rightarrow> nat" and p :: "nat \<Rightarrow> 'a"
  by (subst (1 2) sum.remove[of "{..<N}" t]) (auto intro!: sum.cong)

lemma sum_one: "t < N \<Longrightarrow> f (p t) \<le> (\<Sum>u < N. f (p u))" for f :: "'a \<Rightarrow> nat" and p :: "nat \<Rightarrow> 'a"
  by (rule member_le_sum[of t "{..<N}" "\<lambda>u. f (p u)"]) simp_all

text \<open>One thread moves; the balance of each counter has to be kept.\<close>

lemma ainv_move:
  assumes "ainv cap lim N s" "t < N" "apc_ok cap c"
    "unat u + table_charge (a_table s) + held_usage (a_pcs s t) = unat (a_usage s) + table_charge T + held_usage c"
    "unat oc + size (a_table s) + held_occ (a_pcs s t) = unat (a_occupancy s) + size T + held_occ c"
    "unat u \<le> unat cap"
    "unat oc + owing (a_pcs s t) \<le> unat (a_occupancy s) + owing c \<or> unat oc \<le> unat lim"
  shows "ainv cap lim N \<lparr>a_usage = u, a_occupancy = oc, a_table = T, a_pcs = (a_pcs s)(t := c)\<rparr>"
proof -
  note S = sum_put[OF assms(2), of held_usage "a_pcs s" c] sum_put[OF assms(2), of held_occ "a_pcs s" c]
    sum_put[OF assms(2), of owing "a_pcs s" c]
  have I: "unat (a_usage s) = table_charge (a_table s) + (\<Sum>t < N. held_usage (a_pcs s t))"
    "unat (a_occupancy s) = size (a_table s) + (\<Sum>t < N. held_occ (a_pcs s t))"
    "unat (a_occupancy s) \<le> unat lim + (\<Sum>t < N. owing (a_pcs s t))"
    using assms(1) by (simp_all add: ainv_def)
  have 1: "unat u = table_charge T + (\<Sum>u < N. held_usage (((a_pcs s)(t := c)) u))" using S(1) I(1) assms(4) by linarith
  have 2: "unat oc = size T + (\<Sum>u < N. held_occ (((a_pcs s)(t := c)) u))" using S(2) I(2) assms(5) by linarith
  have 3: "unat oc \<le> unat lim + (\<Sum>u < N. owing (((a_pcs s)(t := c)) u))" using S(3) I(3) assms(7) by linarith
  have 4: "\<forall>u. apc_ok cap (((a_pcs s)(t := c)) u)" "\<forall>u \<ge> N. ((a_pcs s)(t := c)) u = AIdle"
    using assms(1-3) by (auto simp: ainv_def)
  show ?thesis unfolding ainv_def using 1 2 3 4 assms(6) by simp
qed

lemma held_bounds:
  assumes "ainv cap lim N s" "t < N"
  shows "table_charge (a_table s) + held_usage (a_pcs s t) \<le> unat (a_usage s)" "unat (a_usage s) \<le> unat cap"
    "size (a_table s) + held_occ (a_pcs s t) \<le> unat (a_occupancy s)" "apc_ok cap (a_pcs s t)"
  using assms sum_one[OF assms(2), of held_usage "a_pcs s"] sum_one[OF assms(2), of held_occ "a_pcs s"]
  by (simp_all add: ainv_def)

lemma owing_le: "owing c \<le> 1" "owing c \<le> held_occ c"
  by (cases c; simp)+

lemma asys_eta: "agoto s t c = \<lparr>a_usage = a_usage s, a_occupancy = a_occupancy s, a_table = a_table s, a_pcs = (a_pcs s)(t := c)\<rparr>"
  by (cases s) simp

lemma running: "ainv cap lim N s \<Longrightarrow> a_pcs s t \<noteq> AIdle \<Longrightarrow> t < N"
  by (meson ainv_def not_le)

lemma after_reserve_ok:
  assumes "unat charge + unat cap < 2 ^ 64" "unat old \<le> unat cap" "new = min cap (old + charge)"
  shows "apc_ok cap (after_reserve charge need old new)" "unat old \<le> unat new"
    "held_usage (after_reserve charge need old new) = unat new - unat old"
    "held_occ (after_reserve charge need old new) = 1" "owing (after_reserve charge need old new) = of_bool need"
proof -
  have a: "unat (old + charge) = unat old + unat charge" using assms(1,2) by (intro unat_add_small) simp
  have n: "unat new = min (unat cap) (unat old + unat charge)"
    using a unfolding assms(3) by (simp add: min_def word_le_nat_alt)
  show le: "unat old \<le> unat new" using n assms(2) by simp
  have d: "unat (old + charge - new) = unat old + unat charge - unat new" using a n by (simp add: unat_sub_small)
  have z: "old + charge - new = 0 \<longleftrightarrow> unat old + unat charge - unat new = 0" unfolding d[symmetric] by (simp add: unat_eq_zero)
  have zn: "unat charge = unat new - unat old" if "old + charge - new = 0" using that z n le by linarith
  have "apc_ok cap (after_reserve charge need old new) \<and> held_usage (after_reserve charge need old new) = unat new - unat old \<and>
      held_occ (after_reserve charge need old new) = 1 \<and> owing (after_reserve charge need old new) = of_bool need"
  proof (cases "old + charge - new = 0 \<and> \<not> need")
    case True
    then have "after_reserve charge need old new = ATry charge False" by (simp add: after_reserve_def)
    then show ?thesis using zn True by simp
  next
    case False
    then have e: "after_reserve charge need old new = AEvict charge need old new 0 0"
      by (cases "old + charge - new = 0") (simp_all add: after_reserve_def Let_def word_gt_0)
    have "need \<or> 0 < unat old + unat charge - unat new" using False z by auto
    then show ?thesis unfolding e using assms(1) n le by simp
  qed
  then show "apc_ok cap (after_reserve charge need old new)" "held_usage (after_reserve charge need old new) = unat new - unat old"
    "held_occ (after_reserve charge need old new) = 1" "owing (after_reserve charge need old new) = of_bool need" by simp_all
qed

lemma after_evict_ok:
  assumes "apc_ok cap (AEvict charge need old new fc fn)" "held_usage (AEvict charge need old new fc fn) < 2 ^ 64"
  defines "c \<equiv> after_evict charge need old new fc fn"
  shows "apc_ok cap c" "held_usage c = held_usage (AEvict charge need old new fc fn)" "held_occ c = 1"
    "of_bool need \<le> unat fn + owing c"
proof -
  note B = assms(1)[unfolded apc_ok.simps]
  note B3 = B[THEN conjunct2, THEN conjunct2]
  note A = B[THEN conjunct1] B[THEN conjunct2, THEN conjunct1] B3[THEN conjunct1]
    B3[THEN conjunct2, THEN conjunct1, rule_format] B3[THEN conjunct2, THEN conjunct2]
  have a: "unat (old + charge) = unat old + unat charge"
    using A(1,2,3) by (intro unat_add_small) simp
  have d: "unat (old + charge - new) = unat old + unat charge - unat new" using a A(2) by (simp add: unat_sub_small)
  have dn: "unat (new - old) = unat new - unat old" using A(3) by (simp add: unat_sub_small)
  have f: "unat (fc + (new - old)) = unat fc + (unat new - unat old)" using assms(2) dn by (simp add: unat_add_small)
  have le: "unat new \<le> unat old + unat charge" using A(2) by simp
  have g: "unat (fc - (old + charge - new)) = unat fc - (unat old + unat charge - unat new)" if "old + charge - new < fc"
    using that d by (simp add: unat_sub_small word_less_nat_alt)
  have fz: "fn \<noteq> 0" if "old + charge - new < fc" using A(4) that by auto
  have lt: "old + charge - new < fc \<longleftrightarrow> unat old + unat charge - unat new < unat fc"
    "fc < old + charge - new \<longleftrightarrow> unat fc < unat old + unat charge - unat new" using d by (simp_all add: word_less_nat_alt)
  consider (more) "old + charge - new < fc" | (less) "\<not> old + charge - new < fc" "fc < old + charge - new \<or> (need \<and> fn = 0)"
    | (even) "\<not> old + charge - new < fc" "\<not> (fc < old + charge - new \<or> (need \<and> fn = 0))" by blast
  then have "apc_ok cap c \<and> held_usage c = held_usage (AEvict charge need old new fc fn) \<and> held_occ c = 1 \<and>
      of_bool need \<le> unat fn + owing c"
  proof cases
    case more
    have "c = AGiveUsage charge (fc - (old + charge - new))" using more fz[OF more] by (simp add: c_def after_evict_def Let_def)
    moreover have "0 < unat fn" using fz[OF more] by (simp add: unat_gt_0)
    ultimately show ?thesis using g[OF more] more lt A(3) le by simp
  next
    case less
    have "c = AFailUsage need (fc + (new - old))" using less by (simp add: c_def after_evict_def Let_def)
    then show ?thesis using f by simp
  next
    case even
    have e: "unat fc = unat old + unat charge - unat new" using even lt by linarith
    have fn: "fn \<noteq> 0"
    proof
      assume "fn = 0"
      then show False using A(4,5) even e by simp
    qed
    have "c = ATry charge False" using even fn by (simp add: c_def after_evict_def Let_def)
    moreover have "0 < unat fn" using fn by (simp add: unat_gt_0)
    ultimately show ?thesis using e A(3) le by simp
  qed
  then show "apc_ok cap c" "held_usage c = held_usage (AEvict charge need old new fc fn)" "held_occ c = 1"
    "of_bool need \<le> unat fn + owing c" by simp_all
qed

lemma ainv_new: "ainv cap lim N asys_new"
  by (simp add: ainv_def asys_new_def)

lemmas acc_defs = FetchAddAcqRel_def FetchSubAcqRel_def FetchAddRelaxed_def FetchSubRelaxed_def LoadRelaxed_def


text \<open>Every step keeps the invariant.\<close>

lemma astep_inv:
  assumes "astep cap lim N s s'" "ainv cap lim N s" "unat lim + N < 2 ^ 64"
  shows "ainv cap lim N s'"
  using assms(1)
proof cases
  case (ins_call t charge old occ)
  note H = held_bounds[OF assms(2) ins_call(2)]
  have "(\<Sum>u < N. owing (a_pcs s u)) \<le> (\<Sum>u \<in> {..<N} - {t}. 1)"
  proof -
    have "(\<Sum>u < N. owing (a_pcs s u)) = (\<Sum>u \<in> {..<N} - {t}. owing (a_pcs s u))"
      using ins_call(2,3) by (subst sum.remove[of _ t]) auto
    also have "\<dots> \<le> (\<Sum>u \<in> {..<N} - {t}. 1)" by (rule sum_mono) (rule owing_le)
    finally show ?thesis .
  qed
  also have "\<dots> < N" using ins_call(2) by (simp add: card_Diff_singleton)
  finally have "unat (a_occupancy s) + 1 < 2 ^ 64" using assms(2,3) by (simp add: ainv_def)
  then have o: "unat occ = unat (a_occupancy s) + 1" "old = a_occupancy s"
    using ins_call(5) by (auto simp: acc_defs unat_add_small)
  have l: "lim < old + 1 \<longleftrightarrow> unat lim < unat occ" using ins_call(5) by (auto simp: acc_defs word_less_nat_alt)
  show ?thesis unfolding ins_call(1) asys_eta using o l H ins_call(3,4)
    by simp (rule ainv_move[OF assms(2) ins_call(2)]; auto)
next
  case (load_usage t charge need)
  note H = held_bounds[OF assms(2) running[OF assms(2), of t]]
  show ?thesis unfolding load_usage(1) asys_eta using load_usage(2) H
    by (intro ainv_move[OF assms(2) running[OF assms(2)]]) (simp_all add: acc_defs)
next
  case (no_reserve t charge need old)
  have t: "t < N" by (rule running[OF assms(2)]) (use no_reserve in simp)
  note H = held_bounds[OF assms(2) t]
  have R: "unat charge + unat cap < 2 ^ 64" "unat old \<le> unat cap" "old = min cap (old + charge)" using H(4) no_reserve(2,3) by simp_all
  show ?thesis unfolding no_reserve(1) asys_eta using no_reserve(2) H after_reserve_ok[OF R]
    by (intro ainv_move[OF assms(2) t]) simp_all
next
  case (reserve t charge need old new spurious ok expected u)
  have t: "t < N" by (rule running[OF assms(2)]) (use reserve in simp)
  note H = held_bounds[OF assms(2) t]
  have R: "unat charge + unat cap < 2 ^ 64" "unat old \<le> unat cap" "new = min cap (old + charge)" using H(4) reserve(2,3) by simp_all
  note A = after_reserve_ok[OF R]
  have nc: "unat new \<le> unat cap" unfolding R(3) by (simp add: min_def word_le_nat_alt)
  show ?thesis
  proof (cases ok)
    case True
    then have "a_usage s = old" "u = new" using reserve(5) by (auto simp: CasWeakRelaxed_def CasStrongRelaxed_def split: if_splits)
    then show ?thesis unfolding reserve(1) asys_eta using True reserve(2) H A nc
      by simp (rule ainv_move[OF assms(2) t]; simp)
  next
    case False
    then have "expected = a_usage s" "u = a_usage s" using reserve(5) by (auto simp: CasWeakRelaxed_def CasStrongRelaxed_def split: if_splits)
    then show ?thesis unfolding reserve(1) asys_eta using False reserve(2) H
      by simp (rule ainv_move[OF assms(2) t]; simp)
  qed
next
  case (evict_take t charge need old new fc fn e)
  have t: "t < N" by (rule running[OF assms(2)]) (use evict_take in simp)
  note H = held_bounds[OF assms(2) t] and E = table_take[OF evict_take(3)]
  have sz: "size (a_table s) = size (a_table s - {#e#}) + 1" by (rule size_take[OF evict_take(3)])
  have "unat fc + unat e < 2 ^ 64" "unat fn + 1 < 2 ^ 64"
    using H(1,2,3) E evict_take(2) u64_less[of "a_usage s"] u64_less[of "a_occupancy s"] sz by simp_all
  then have w: "unat (fc + e) = unat fc + unat e" "unat (fn + 1) = unat fn + 1" by (simp_all add: unat_add_small)
  then have "fn + 1 \<noteq> 0" by auto
  then have ok: "apc_ok cap (AEvict charge need old new (fc + e) (fn + 1))"
    using H(4)[unfolded evict_take(2) apc_ok.simps] unfolding apc_ok.simps
    by - (elim conjE, intro conjI, assumption, assumption, assumption, metis, assumption)
  show ?thesis unfolding evict_take(1) asys_eta using H(1-3) evict_take(2) w E sz ok
    by (simp del: apc_ok.simps) (rule ainv_move[OF assms(2) t]; simp del: apc_ok.simps)
next
  case (evict_end t charge need old new fc fn)
  have t: "t < N" by (rule running[OF assms(2)]) (use evict_end in simp)
  note H = held_bounds[OF assms(2) t]
  have "held_usage (AEvict charge need old new fc fn) < 2 ^ 64" using H(1) evict_end(2) u64_less[of "a_usage s"] by simp
  note V = after_evict_ok[OF H(4)[unfolded evict_end(2)] this]
  have "unat fn \<le> unat (a_occupancy s)" using H(3) evict_end(2) by simp
  then have o: "unat (a_occupancy s - fn) = unat (a_occupancy s) - unat fn" "unat fn \<le> unat (a_occupancy s)" by (simp_all add: unat_sub_small)
  then have q: "unat (a_occupancy s - fn) + owing (a_pcs s t) \<le> unat (a_occupancy s) + owing (after_evict charge need old new fc fn)"
    using V(4) evict_end(2) by simp
  let ?c = "after_evict charge need old new fc fn"
  have "ainv cap lim N \<lparr>a_usage = a_usage s, a_occupancy = a_occupancy s - fn, a_table = a_table s, a_pcs = (a_pcs s)(t := ?c)\<rparr>"
  proof (rule ainv_move[OF assms(2) t V(1)])
    show "unat (a_usage s) + table_charge (a_table s) + held_usage (a_pcs s t) = unat (a_usage s) + table_charge (a_table s) + held_usage ?c"
      unfolding V(2) evict_end(2) ..
    show "unat (a_occupancy s - fn) + size (a_table s) + held_occ (a_pcs s t) = unat (a_occupancy s) + size (a_table s) + held_occ ?c"
      using o evict_end(2) V(3) by simp
  qed (use H(2) q in simp_all)
  then show ?thesis unfolding evict_end(1) asys_eta by (simp add: acc_defs)
next
  case (give_usage t charge amount)
  have t: "t < N" by (rule running[OF assms(2)]) (use give_usage in simp)
  note H = held_bounds[OF assms(2) t]
  have o: "unat (a_usage s - amount) = unat (a_usage s) - unat amount" "unat amount \<le> unat (a_usage s)"
    using H(1) give_usage(2) by (simp_all add: unat_sub_small)
  show ?thesis unfolding give_usage(1) asys_eta using H give_usage(2) o
    by (simp add: acc_defs) (rule ainv_move[OF assms(2) t]; simp)
next
  case (fail_usage t need amount)
  have t: "t < N" by (rule running[OF assms(2)]) (use fail_usage in simp)
  note H = held_bounds[OF assms(2) t]
  have o: "unat (a_usage s - amount) = unat (a_usage s) - unat amount" "unat amount \<le> unat (a_usage s)"
    using H(1) fail_usage(2) by (simp_all add: unat_sub_small)
  show ?thesis unfolding fail_usage(1) asys_eta using H fail_usage(2) o
    by (simp add: acc_defs) (rule ainv_move[OF assms(2) t]; simp)
next
  case (fail_occ t need)
  have t: "t < N" by (rule running[OF assms(2)]) (use fail_occ in simp)
  note H = held_bounds[OF assms(2) t]
  have o: "unat (a_occupancy s - 1) = unat (a_occupancy s) - 1" "1 \<le> unat (a_occupancy s)"
    using H(3) fail_occ(2) by (simp_all add: unat_sub_small)
  show ?thesis unfolding fail_occ(1) asys_eta using H fail_occ(2) o
    by (simp add: acc_defs) (rule ainv_move[OF assms(2) t]; simp)
next
  case (try_put t charge again)
  have t: "t < N" by (rule running[OF assms(2)]) (use try_put in simp)
  note H = held_bounds[OF assms(2) t]
  show ?thesis unfolding try_put(1) asys_eta using H try_put(2)
    by (simp add: acc_defs) (rule ainv_move[OF assms(2) t]; simp)
next
  case (try_match t charge)
  have t: "t < N" by (rule running[OF assms(2)]) (use try_match in simp)
  note H = held_bounds[OF assms(2) t]
  show ?thesis unfolding try_match(1) asys_eta using H try_match(2)
    by (simp add: acc_defs) (rule ainv_move[OF assms(2) t]; simp)
next
  case (try_fail t charge again)
  have t: "t < N" by (rule running[OF assms(2)]) (use try_fail in simp)
  note H = held_bounds[OF assms(2) t]
  show ?thesis unfolding try_fail(1) asys_eta using H try_fail(2)
    by (simp add: acc_defs) (rule ainv_move[OF assms(2) t]; simp)
next
  case (era_call t)
  note H = held_bounds[OF assms(2) era_call(2)]
  show ?thesis unfolding era_call(1) asys_eta using H era_call(3)
    by (intro ainv_move[OF assms(2) era_call(2)]) simp_all
next
  case (era_take t ins e)
  have t: "t < N" by (rule running[OF assms(2)]) (use era_take in simp)
  note H = held_bounds[OF assms(2) t]
  note E = table_take[OF era_take(3)] size_take[OF era_take(3)]
  show ?thesis unfolding era_take(1) asys_eta using H era_take(2) E
    by (simp add: acc_defs) (rule ainv_move[OF assms(2) t]; simp)
next
  case (reclaim_occ t e ins)
  have t: "t < N" by (rule running[OF assms(2)]) (use reclaim_occ in simp)
  note H = held_bounds[OF assms(2) t]
  have o: "unat (a_occupancy s - 1) = unat (a_occupancy s) - 1" "1 \<le> unat (a_occupancy s)"
    using H(3) reclaim_occ(2) by (simp_all add: unat_sub_small)
  show ?thesis unfolding reclaim_occ(1) asys_eta using H reclaim_occ(2) o
    by (simp add: acc_defs) (rule ainv_move[OF assms(2) t]; simp)
next
  case (reclaim_usage t e ins)
  have t: "t < N" by (rule running[OF assms(2)]) (use reclaim_usage in simp)
  note H = held_bounds[OF assms(2) t]
  have o: "unat (a_usage s - e) = unat (a_usage s) - unat e" "unat e \<le> unat (a_usage s)"
    using H(1) reclaim_usage(2) by (simp_all add: unat_sub_small)
  show ?thesis unfolding reclaim_usage(1) asys_eta using H reclaim_usage(2) o
    by (simp add: acc_defs) (rule ainv_move[OF assms(2) t]; simp)
next
  case (era_end t ins c)
  have t: "t < N" by (rule running[OF assms(2)]) (use era_end in simp)
  note H = held_bounds[OF assms(2) t]
  show ?thesis unfolding era_end(1) asys_eta using H era_end(2,3)
    by (intro ainv_move[OF assms(2) t]) (auto split: option.splits)
next
  case (roll_occ t charge)
  have t: "t < N" by (rule running[OF assms(2)]) (use roll_occ in simp)
  note H = held_bounds[OF assms(2) t]
  have o: "unat (a_occupancy s - 1) = unat (a_occupancy s) - 1" "1 \<le> unat (a_occupancy s)"
    using H(3) roll_occ(2) by (simp_all add: unat_sub_small)
  show ?thesis unfolding roll_occ(1) asys_eta using H roll_occ(2) o
    by (simp add: acc_defs) (rule ainv_move[OF assms(2) t]; simp)
next
  case (roll_usage t charge)
  have t: "t < N" by (rule running[OF assms(2)]) (use roll_usage in simp)
  note H = held_bounds[OF assms(2) t]
  have o: "unat (a_usage s - charge) = unat (a_usage s) - unat charge" "unat charge \<le> unat (a_usage s)"
    using H(1) roll_usage(2) by (simp_all add: unat_sub_small)
  show ?thesis unfolding roll_usage(1) asys_eta using H roll_usage(2) o
    by (simp add: acc_defs) (rule ainv_move[OF assms(2) t]; simp)
qed

lemma areach_inv: "areach cap lim N s \<Longrightarrow> unat lim + N < 2 ^ 64 \<Longrightarrow> ainv cap lim N s"
  by (induction rule: areach.induct) (auto intro: ainv_new astep_inv)

section \<open>The property\<close>

text \<open>C17: Under any interleaving of insertions and erasures the entries of a shard stay within both of its limits: their number never
  exceeds the occupancy limit and usage_, which never falls below the sum of their charges, never exceeds
  the capacity. No assertion of EvictForCharge fails, no counter wraps around, occupancy_ exceeds its limit by at
  most the number of threads, and whenever no operation is running both counters are exact.\<close>

theorem clock_accounting_safe:
  assumes "areach cap lim N s" "unat lim + N < 2 ^ 64"
  shows "size (a_table s) \<le> unat lim \<and> table_charge (a_table s) \<le> unat (a_usage s) \<and> a_usage s \<le> cap \<and>
    size (a_table s) \<le> unat (a_occupancy s) \<and> unat (a_occupancy s) \<le> unat lim + N \<and> (\<forall>t. a_pcs s t \<noteq> AAbort) \<and>
    ((\<forall>t. a_pcs s t = AIdle) \<longrightarrow>
       unat (a_usage s) = table_charge (a_table s) \<and> unat (a_occupancy s) = size (a_table s))"
proof -
  have I: "unat (a_usage s) = table_charge (a_table s) + (\<Sum>t < N. held_usage (a_pcs s t))"
    "unat (a_occupancy s) = size (a_table s) + (\<Sum>t < N. held_occ (a_pcs s t))"
    "unat (a_usage s) \<le> unat cap" "unat (a_occupancy s) \<le> unat lim + (\<Sum>t < N. owing (a_pcs s t))"
    "\<forall>t. apc_ok cap (a_pcs s t)" using areach_inv[OF assms] by (simp_all add: ainv_def)
  have "(\<Sum>t < N. owing (a_pcs s t)) \<le> (\<Sum>t < N. held_occ (a_pcs s t))" by (rule sum_mono) (rule owing_le)
  moreover have "(\<Sum>t < N. owing (a_pcs s t)) \<le> (\<Sum>t < N. 1)" by (rule sum_mono) (rule owing_le)
  moreover have "a_pcs s t \<noteq> AAbort" for t using I(5) apc_ok.simps(4)[of cap] by metis
  ultimately show ?thesis using I(1-4) by (auto simp: word_le_nat_alt)
qed

text \<open>One insertion of charge 5, run by one of two threads, and then another of charge 9 that has reserved what is left.\<close>

theorem clock_accounting_safe_witness:
  "\<exists>s. areach 10 1 2 s \<and> a_table s = {#5#} \<and> a_usage s = 10 \<and> size (a_table s) \<le> unat (1 :: u64)"
proof -
  let ?s1 = "\<lparr>a_usage = 0, a_occupancy = 1, a_table = {#}, a_pcs = (\<lambda>_. AIdle)(0 := ALoad 5 False)\<rparr>"
  let ?s2 = "\<lparr>a_usage = 0, a_occupancy = 1, a_table = {#}, a_pcs = (\<lambda>_. AIdle)(0 := ACas 5 False 0)\<rparr>"
  let ?s3 = "\<lparr>a_usage = 5, a_occupancy = 1, a_table = {#}, a_pcs = (\<lambda>_. AIdle)(0 := ATry 5 False)\<rparr>"
  let ?s4 = "\<lparr>a_usage = 5, a_occupancy = 1, a_table = {#5#}, a_pcs = (\<lambda>_. AIdle)\<rparr>"
  let ?s5 = "\<lparr>a_usage = 5, a_occupancy = 2, a_table = {#5#}, a_pcs = (\<lambda>_. AIdle)(1 := ALoad 9 True)\<rparr>"
  let ?s6 = "\<lparr>a_usage = 5, a_occupancy = 2, a_table = {#5#}, a_pcs = (\<lambda>_. AIdle)(1 := ACas 9 True 5)\<rparr>"
  let ?s7 = "\<lparr>a_usage = 10, a_occupancy = 2, a_table = {#5#}, a_pcs = (\<lambda>_. AIdle)(1 := AEvict 9 True 5 10 0 0)\<rparr>"
  have "astep 10 1 2 asys_new ?s1"
    using astep.ins_call[of 0 2 asys_new 5 10 0 1 1] by (simp add: asys_new_def acc_defs)
  moreover have "astep 10 1 2 ?s1 ?s2" using astep.load_usage[of ?s1 0 5 False 10 1 2] by (simp add: acc_defs)
  moreover have "astep 10 1 2 ?s2 ?s3"
    using astep.reserve[of ?s2 0 5 False 0 5 10 False True 0 5 1 2]
    by (simp add: CasWeakRelaxed_def CasStrongRelaxed_def after_reserve_def)
  moreover have "astep 10 1 2 ?s3 ?s4" using astep.try_put[of ?s3 0 5 False 10 1 2] by (simp add: fun_upd_idem)
  moreover have "astep 10 1 2 ?s4 ?s5" using astep.ins_call[of 1 2 ?s4 9 10 1 2 1] by (simp add: acc_defs)
  moreover have "astep 10 1 2 ?s5 ?s6" using astep.load_usage[of ?s5 1 9 True 10 1 2] by (simp add: acc_defs)
  moreover have "astep 10 1 2 ?s6 ?s7"
    using astep.reserve[of ?s6 1 9 True 5 10 10 False True 5 10 1 2]
    by (simp add: CasWeakRelaxed_def CasStrongRelaxed_def after_reserve_def)
  ultimately have "areach 10 1 2 ?s7" by (meson areach.intros)
  from clock_accounting_safe[OF this] this show ?thesis by (intro exI[of _ ?s7]) simp
qed

end
