(* ===== verification/Clock_Displacement.thy ===== *)
theory Clock_Displacement
  imports Clock_Accounting
begin

text \<open>
  The displacement counters of one shard of the clock cache under any interleaving of threads that insert, look up,
  erase and evict. Every access to a slot's state and to a displacement counter is one step of one
  thread. A slot is empty, owned by a thread (the state Construction), or holds an entry that is visible or not; reference
  and hit counts are those of Clock_Concurrent and left out here. Which entries an erasure or an eviction comes
  to own is left open. A position in a walk is the number of slots passed; the slot is probe b key of it.
\<close>

section \<open>Threads and steps\<close>

datatype dslot =
    SEmpty
  | SOwned
  | SEntry key128 bool                \<comment> \<open>hashed_key, visible?\<close>

datatype dpc =
    DIdle
  | DProbe key128 nat                 \<comment> \<open>DoInsert, next: BeginSlotInsert\<close>
  | DFill key128 nat                  \<comment> \<open>the slot is taken, next: FinishSlotInsert\<close>
  | DNext key128 nat                  \<comment> \<open>TryInsert was false, next: update_fn\<close>
  | DBack key128 nat nat              \<comment> \<open>Rollback, at the first position up to the second\<close>
  | DFree key128 nat                  \<comment> \<open>Erase has taken ownership, next: FreeDataMarkEmpty\<close>
  | DEvict key128 nat nat             \<comment> \<open>Evict has taken ownership, inside Rollback\<close>
  | DLook key128 nat                  \<comment> \<open>Lookup, next: match_fn\<close>
  | DAbort key128 nat                 \<comment> \<open>no match, next: abort_fn\<close>
  | DFound key128
  | DMissing key128

record dsys =
  d_disp :: "nat \<Rightarrow> 32 word"
  d_slots :: "nat \<Rightarrow> dslot"
  d_pcs :: "nat \<Rightarrow> dpc"

definition dset :: "dsys \<Rightarrow> nat \<Rightarrow> dpc \<Rightarrow> nat \<Rightarrow> dslot \<Rightarrow> dsys" where
  "dset s t c h x = s\<lparr>d_pcs := (d_pcs s)(t := c), d_slots := (d_slots s)(h := x)\<rparr>"

definition dgoto :: "dsys \<Rightarrow> nat \<Rightarrow> dpc \<Rightarrow> dsys" where
  "dgoto s t c = s\<lparr>d_pcs := (d_pcs s)(t := c)\<rparr>"

definition dcount :: "dsys \<Rightarrow> nat \<Rightarrow> dpc \<Rightarrow> nat \<Rightarrow> 32 word \<Rightarrow> dsys" where
  "dcount s t c p x = s\<lparr>d_pcs := (d_pcs s)(t := c), d_disp := (d_disp s)(p := x)\<rparr>"

text \<open>The table has 2^b slots, the threads are numbered below N.\<close>

inductive dstep :: "nat \<Rightarrow> nat \<Rightarrow> dsys \<Rightarrow> dsys \<Rightarrow> bool" for b N where
  insert_call: "t < N \<Longrightarrow> d_pcs s t = DIdle \<Longrightarrow> dstep b N s (dgoto s t (DProbe k 0))"
| try_take: "d_pcs s t = DProbe k j \<Longrightarrow> d_slots s (probe b k j) = SEmpty \<Longrightarrow>
    dstep b N s (dset s t (DFill k j) (probe b k j) SOwned)"
| try_false: "d_pcs s t = DProbe k j \<Longrightarrow> d_slots s (probe b k j) \<noteq> SEmpty \<Longrightarrow> dstep b N s (dgoto s t (DNext k j))"
| try_match: "d_pcs s t = DProbe k j \<Longrightarrow> d_slots s (probe b k j) = SEntry k True \<Longrightarrow> dstep b N s (dgoto s t (DBack k 0 j))"
| fill: "d_pcs s t = DFill k j \<Longrightarrow> dstep b N s (dset s t DIdle (probe b k j) (SEntry k True))"
| next_slot: "d_pcs s t = DNext k j \<Longrightarrow> probe b k (j + 1) \<noteq> probe b k 0 \<Longrightarrow>
    dstep b N s (dcount s t (DProbe k (j + 1)) (probe b k j) (snd (FetchAddRelaxed (d_disp s (probe b k j)) 1)))"
| next_last: "d_pcs s t = DNext k j \<Longrightarrow> probe b k (j + 1) = probe b k 0 \<Longrightarrow> dstep b N s (dgoto s t (DBack k 0 j))"
| roll: "d_pcs s t = DBack k i j \<Longrightarrow> probe b k i \<noteq> probe b k j \<Longrightarrow>
    dstep b N s (dcount s t (DBack k (i + 1) j) (probe b k i) (snd (FetchSubRelaxed (d_disp s (probe b k i)) 1)))"
| roll_end: "d_pcs s t = DBack k i j \<Longrightarrow> probe b k i = probe b k j \<Longrightarrow> dstep b N s (dgoto s t DIdle)"
| hide: "t < N \<Longrightarrow> d_pcs s t = DIdle \<Longrightarrow> h < 2 ^ b \<Longrightarrow> d_slots s h = SEntry k v \<Longrightarrow>
    dstep b N s (dset s t DIdle h (SEntry k False))"
| erase_own: "t < N \<Longrightarrow> d_pcs s t = DIdle \<Longrightarrow> j < 2 ^ b \<Longrightarrow> d_slots s (probe b k j) = SEntry k v \<Longrightarrow>
    dstep b N s (dset s t (DFree k j) (probe b k j) SOwned)"
| erase_free: "d_pcs s t = DFree k j \<Longrightarrow> dstep b N s (dset s t (DBack k 0 j) (probe b k j) SEmpty)"
| evict_own: "t < N \<Longrightarrow> d_pcs s t = DIdle \<Longrightarrow> j < 2 ^ b \<Longrightarrow> d_slots s (probe b k j) = SEntry k v \<Longrightarrow>
    dstep b N s (dset s t (DEvict k 0 j) (probe b k j) SOwned)"
| evict_roll: "d_pcs s t = DEvict k i j \<Longrightarrow> probe b k i \<noteq> probe b k j \<Longrightarrow>
    dstep b N s (dcount s t (DEvict k (i + 1) j) (probe b k i) (snd (FetchSubRelaxed (d_disp s (probe b k i)) 1)))"
| evict_free: "d_pcs s t = DEvict k i j \<Longrightarrow> probe b k i = probe b k j \<Longrightarrow>
    dstep b N s (dset s t DIdle (probe b k j) SEmpty)"
| look_call: "t < N \<Longrightarrow> d_pcs s t = DIdle \<Longrightarrow> dstep b N s (dgoto s t (DLook k 0))"
| look_match: "d_pcs s t = DLook k j \<Longrightarrow>
    dstep b N s (dgoto s t (if d_slots s (probe b k j) = SEntry k True then DFound k else DAbort k j))"
| look_abort: "d_pcs s t = DAbort k j \<Longrightarrow> LoadRelaxed (d_disp s (probe b k j)) = 0 \<Longrightarrow> dstep b N s (dgoto s t (DMissing k))"
| look_next: "d_pcs s t = DAbort k j \<Longrightarrow> LoadRelaxed (d_disp s (probe b k j)) \<noteq> 0 \<Longrightarrow>
    dstep b N s (dgoto s t (if probe b k (j + 1) = probe b k 0 then DMissing k else DLook k (j + 1)))"
| look_return: "d_pcs s t = DFound k \<or> d_pcs s t = DMissing k \<Longrightarrow> dstep b N s (dgoto s t DIdle)"

definition dsys_new :: dsys where
  "dsys_new = \<lparr>d_disp = (\<lambda>_. 0), d_slots = (\<lambda>_. SEmpty), d_pcs = (\<lambda>_. DIdle)\<rparr>"

inductive dreach :: "nat \<Rightarrow> nat \<Rightarrow> dsys \<Rightarrow> bool" for b N where
  start: "dreach b N dsys_new"
| step: "dreach b N s \<Longrightarrow> dstep b N s s' \<Longrightarrow> dreach b N s'"

section \<open>What a counter counts\<close>

definition crosses :: "nat \<Rightarrow> key128 \<Rightarrow> nat \<Rightarrow> nat \<Rightarrow> nat \<Rightarrow> nat" where
  "crosses b k i j p = of_bool (\<exists>m. i \<le> m \<and> m < j \<and> probe b k m = p)"

fun pc_cross :: "nat \<Rightarrow> nat \<Rightarrow> dpc \<Rightarrow> nat" where
  "pc_cross b p (DProbe k j) = crosses b k 0 j p"
| "pc_cross b p (DFill k j) = crosses b k 0 j p"
| "pc_cross b p (DNext k j) = crosses b k 0 j p"
| "pc_cross b p (DBack k i j) = crosses b k i j p"
| "pc_cross b p (DFree k j) = crosses b k 0 j p"
| "pc_cross b p (DEvict k i j) = crosses b k i j p"
| "pc_cross b p _ = 0"

fun slot_cross :: "nat \<Rightarrow> nat \<Rightarrow> nat \<Rightarrow> dslot \<Rightarrow> nat" where
  "slot_cross b p h (SEntry k v) = of_bool (\<exists>j < 2 ^ b. probe b k j = h \<and> crosses b k 0 j p = 1)"
| "slot_cross b p h _ = 0"

fun owner :: "nat \<Rightarrow> dpc \<Rightarrow> nat option" where
  "owner b (DFill k j) = Some (probe b k j)"
| "owner b (DFree k j) = Some (probe b k j)"
| "owner b (DEvict k i j) = Some (probe b k j)"
| "owner b _ = None"

fun dpc_ok :: "nat \<Rightarrow> dpc \<Rightarrow> bool" where
  "dpc_ok b (DProbe k j) \<longleftrightarrow> j < 2 ^ b"
| "dpc_ok b (DFill k j) \<longleftrightarrow> j < 2 ^ b"
| "dpc_ok b (DNext k j) \<longleftrightarrow> j < 2 ^ b"
| "dpc_ok b (DBack k i j) \<longleftrightarrow> i \<le> j \<and> j < 2 ^ b"
| "dpc_ok b (DFree k j) \<longleftrightarrow> j < 2 ^ b"
| "dpc_ok b (DEvict k i j) \<longleftrightarrow> i \<le> j \<and> j < 2 ^ b"
| "dpc_ok b (DLook k j) \<longleftrightarrow> j < 2 ^ b"
| "dpc_ok b (DAbort k j) \<longleftrightarrow> j < 2 ^ b"
| "dpc_ok b _ \<longleftrightarrow> True"

definition total_cross :: "nat \<Rightarrow> nat \<Rightarrow> dsys \<Rightarrow> nat \<Rightarrow> nat" where
  "total_cross b N s p = (\<Sum>h < 2 ^ b. slot_cross b p h (d_slots s h)) + (\<Sum>t < N. pc_cross b p (d_pcs s t))"

definition dinv :: "nat \<Rightarrow> nat \<Rightarrow> dsys \<Rightarrow> bool" where
  "dinv b N s \<longleftrightarrow>
     (\<forall>p < 2 ^ b. unat (d_disp s p) = total_cross b N s p) \<and>
     (\<forall>t \<ge> N. d_pcs s t = DIdle) \<and> (\<forall>t. dpc_ok b (d_pcs s t)) \<and>
     (\<forall>t h. owner b (d_pcs s t) = Some h \<longrightarrow> d_slots s h = SOwned) \<and>
     (\<forall>t t' h. owner b (d_pcs s t) = Some h \<longrightarrow> owner b (d_pcs s t') = Some h \<longrightarrow> t = t')"

lemma dinvD:
  assumes "dinv b N s"
  shows "p < 2 ^ b \<Longrightarrow> unat (d_disp s p) = total_cross b N s p" "d_pcs s t \<noteq> DIdle \<Longrightarrow> t < N" "dpc_ok b (d_pcs s t)"
    "owner b (d_pcs s t) = Some h \<Longrightarrow> d_slots s h = SOwned"
    "owner b (d_pcs s t) = Some h \<Longrightarrow> owner b (d_pcs s t') = Some h \<Longrightarrow> t = t'"
  using assms unfolding dinv_def by (blast, metis not_le, blast, blast, blast)

lemma probe_less: "probe b k m < 2 ^ b"
  by (simp add: probe_def)

lemma probe_wraps: "probe b k (2 ^ b) = probe b k 0"
  by (simp add: probe_def)

lemma probe_eq: "i < 2 ^ b \<Longrightarrow> j < 2 ^ b \<Longrightarrow> probe b k i = probe b k j \<longleftrightarrow> i = j"
  using probe_inj by blast

lemma probe_last: "j < 2 ^ b \<Longrightarrow> probe b k (j + 1) = probe b k 0 \<longleftrightarrow> j + 1 = 2 ^ b"
  using probe_eq[of "j + 1" b 0 k] probe_wraps[of b k] by (cases "j + 1 = 2 ^ b") auto

lemma crosses_le: "crosses b k i j p \<le> 1"
  by (simp add: crosses_def)

lemma crosses_none [simp]: "crosses b k j j p = 0"
  by (simp add: crosses_def)

lemma crosses_image: "crosses b k i j p = of_bool (p \<in> probe b k ` {i..<j})"
  by (auto simp: crosses_def image_iff intro!: arg_cong[where f = of_bool])

lemma probe_fresh: "m < 2 ^ b \<Longrightarrow> A \<subseteq> {..<2 ^ b} \<Longrightarrow> m \<notin> A \<Longrightarrow> probe b k m \<notin> probe b k ` A"
  by (auto simp: probe_eq subset_iff)

lemma crosses_snoc:
  assumes "j < 2 ^ b"
  shows "crosses b k 0 (j + 1) p = crosses b k 0 j p + of_bool (probe b k j = p)"
proof -
  have "{0..<j + 1} = insert j {0..<j}" by auto
  moreover have "probe b k j \<notin> probe b k ` {0..<j}" by (rule probe_fresh[OF assms]) (use assms in auto)
  ultimately show ?thesis by (auto simp: crosses_image)
qed

lemma crosses_step:
  assumes "i < j" "j < 2 ^ b"
  shows "crosses b k i j p = of_bool (probe b k i = p) + crosses b k (i + 1) j p"
proof -
  have "{i..<j} = insert i {i + 1..<j}" using assms(1) by auto
  moreover have "probe b k i \<notin> probe b k ` {i + 1..<j}" by (rule probe_fresh) (use assms in auto)
  ultimately show ?thesis by (auto simp: crosses_image)
qed

lemma slot_cross_at: "j < 2 ^ b \<Longrightarrow> slot_cross b p (probe b k j) (SEntry k v) = crosses b k 0 j p"
  using probe_eq[of _ b j k] by (auto simp: crosses_def)

lemma slot_cross_le: "slot_cross b p h x \<le> 1"
  by (cases x) auto

lemma pc_cross_le: "pc_cross b p c \<le> 1"
  by (cases c) (auto simp: crosses_def)

lemma total_bound: "total_cross b N s p \<le> 2 ^ b + N"
proof -
  have "(\<Sum>h < 2 ^ b. slot_cross b p h (d_slots s h)) \<le> (\<Sum>h < (2 :: nat) ^ b. 1)" by (intro sum_mono slot_cross_le)
  moreover have "(\<Sum>t < N. pc_cross b p (d_pcs s t)) \<le> (\<Sum>t < N. 1)" by (intro sum_mono pc_cross_le)
  ultimately show ?thesis by (simp add: total_cross_def)
qed

section \<open>Every step keeps the counters exact\<close>

lemma sum_put_at:
  "i < n \<Longrightarrow> (\<Sum>h < n. f h ((g(i := x)) h)) + f i (g i) = (\<Sum>h < n. f h (g h)) + f i x" for f :: "nat \<Rightarrow> 'a \<Rightarrow> nat" and g :: "nat \<Rightarrow> 'a"
  by (subst (1 2) sum.remove[of "{..<n}" i]) (auto intro!: sum.cong)

lemma dinv_move:
  assumes "dinv b N s" "t < N" "h < 2 ^ b" "dpc_ok b c"
    "\<And>p. p < 2 ^ b \<Longrightarrow> unat (D p) + slot_cross b p h (d_slots s h) + pc_cross b p (d_pcs s t) =
       unat (d_disp s p) + slot_cross b p h x + pc_cross b p c"
    "(\<forall>t'. t' \<noteq> t \<longrightarrow> owner b (d_pcs s t') \<noteq> Some h) \<and> (owner b c = None \<or> owner b c = Some h \<and> x = SOwned) \<or>
     x = d_slots s h \<and> (owner b c = None \<or> owner b c = owner b (d_pcs s t))"
  shows "dinv b N \<lparr>d_disp = D, d_slots = (d_slots s)(h := x), d_pcs = (d_pcs s)(t := c)\<rparr>" (is "dinv b N ?s")
proof -
  note I = dinvD[OF assms(1)]
  have A1: "unat (D p) = total_cross b N ?s p" if "p < 2 ^ b" for p
    using sum_put_at[OF assms(3), of "slot_cross b p" "d_slots s" x] sum_put[OF assms(2), of "pc_cross b p" "d_pcs s" c]
      assms(5)[OF that] I(1)[OF that] unfolding total_cross_def by simp
  have A2: "\<forall>u \<ge> N. ((d_pcs s)(t := c)) u = DIdle" using I(2) assms(2) by (metis fun_upd_other not_le)
  have A3: "\<forall>u. dpc_ok b (((d_pcs s)(t := c)) u)" using I(3) assms(4) by simp
  have A4: "\<forall>u h'. owner b (((d_pcs s)(t := c)) u) = Some h' \<longrightarrow> ((d_slots s)(h := x)) h' = SOwned"
  proof (intro allI impI)
    fix u h' assume o: "owner b (((d_pcs s)(t := c)) u) = Some h'"
    show "((d_slots s)(h := x)) h' = SOwned"
    proof (cases "u = t")
      case True
      then show ?thesis using o assms(6) I(4)[of t h'] by auto
    next
      case False
      then have "d_slots s h' = SOwned" using o I(4)[of u h'] by simp
      then show ?thesis using False o assms(6) by auto
    qed
  qed
  have A5: "\<forall>u u' h'. owner b (((d_pcs s)(t := c)) u) = Some h' \<longrightarrow> owner b (((d_pcs s)(t := c)) u') = Some h' \<longrightarrow> u = u'"
  proof (intro allI impI)
    fix u u' h' assume o: "owner b (((d_pcs s)(t := c)) u) = Some h'" "owner b (((d_pcs s)(t := c)) u') = Some h'"
    have t: "owner b (d_pcs s t) = Some h' \<or> h' = h \<and> (\<forall>t'. t' \<noteq> t \<longrightarrow> owner b (d_pcs s t') \<noteq> Some h)" if "owner b c = Some h'"
      using assms(6) that by auto
    have other: False if "v \<noteq> t" "owner b c = Some h'" "owner b (d_pcs s v) = Some h'" for v
      using t[OF that(2)] that I(5)[of t h' v] by blast
    show "u = u'"
    proof (cases "u = t \<or> u' = t")
      case True
      then show ?thesis using o other[of u] other[of u'] by (cases "u = t"; cases "u' = t") simp_all
    next
      case False
      then show ?thesis using o I(5)[of u h' u'] by simp
    qed
  qed
  show ?thesis unfolding dinv_def dsys.simps using A1 A2 A3 A4 A5 by blast
qed

text \<open>The three kinds of step: of the thread alone, of a slot, of a counter.\<close>

lemma dinv_goto:
  assumes "dinv b N s" "t < N" "dpc_ok b c" "\<And>p. pc_cross b p c = pc_cross b p (d_pcs s t)" "owner b c = None"
  shows "dinv b N (dgoto s t c)"
proof -
  have "dinv b N \<lparr>d_disp = d_disp s, d_slots = (d_slots s)(0 := d_slots s 0), d_pcs = (d_pcs s)(t := c)\<rparr>"
    by (rule dinv_move[OF assms(1,2) _ assms(3)]) (use assms(4,5) in simp_all)
  then show ?thesis by (cases s) (simp add: dgoto_def fun_upd_idem)
qed

lemma dinv_slot:
  assumes "dinv b N s" "t < N" "h < 2 ^ b" "dpc_ok b c"
    "\<And>p. slot_cross b p h (d_slots s h) + pc_cross b p (d_pcs s t) = slot_cross b p h x + pc_cross b p c"
    "owner b (d_pcs s t) = Some h \<or> d_slots s h \<noteq> SOwned" "owner b c = None \<or> owner b c = Some h \<and> x = SOwned"
  shows "dinv b N (dset s t c h x)"
proof -
  have "owner b (d_pcs s t') \<noteq> Some h" if "t' \<noteq> t" for t'
    using dinvD(4)[OF assms(1), of t' h] dinvD(5)[OF assms(1), of t h t'] assms(6) that by auto
  then have "dinv b N \<lparr>d_disp = d_disp s, d_slots = (d_slots s)(h := x), d_pcs = (d_pcs s)(t := c)\<rparr>"
    by (intro dinv_move[OF assms(1-4)]) (use assms(5,7) in \<open>simp_all add: add.assoc\<close>)
  then show ?thesis by (cases s) (simp add: dset_def)
qed

lemma dinv_count:
  assumes "dinv b N s" "t < N" "dpc_ok b c" "owner b c = None \<or> owner b c = owner b (d_pcs s t)" "q < 2 ^ b"
    "\<And>p. unat (((d_disp s)(q := w)) p) + pc_cross b p (d_pcs s t) = unat (d_disp s p) + pc_cross b p c"
  shows "dinv b N (dcount s t c q w)"
proof -
  have "dinv b N \<lparr>d_disp = (d_disp s)(q := w), d_slots = (d_slots s)(0 := d_slots s 0), d_pcs = (d_pcs s)(t := c)\<rparr>"
    by (rule dinv_move[OF assms(1,2) _ assms(3)]) (use assms(4,6) in simp_all)
  then show ?thesis by (cases s) (simp add: dcount_def fun_upd_idem)
qed

text \<open>A thread that is about to lower a counter still has a share in it.\<close>

lemma share_le:
  assumes "dinv b N s" "t < N" "p < 2 ^ b"
  shows "pc_cross b p (d_pcs s t) \<le> unat (d_disp s p)"
  using sum_one[OF assms(2), of "pc_cross b p" "d_pcs s"] dinvD(1)[OF assms(1,3)] by (simp add: total_cross_def)

lemma lowered:
  assumes "dinv b N s" "t < N" "pc_cross b (probe b k i) (d_pcs s t) = 1"
  shows "unat (snd (FetchSubRelaxed (d_disp s (probe b k i)) 1)) + 1 = unat (d_disp s (probe b k i))"
proof -
  have "1 \<le> unat (d_disp s (probe b k i))" using share_le[OF assms(1,2) probe_less, of k i] assms(3) by simp
  then show ?thesis by (simp add: atomic_defs unat_sub_small)
qed

lemma raised:
  assumes "dinv b N s" "2 ^ b + N < 2 ^ 32 - 1"
  shows "unat (snd (FetchAddRelaxed (d_disp s (probe b k i)) 1)) = unat (d_disp s (probe b k i)) + 1"
proof -
  have "unat (d_disp s (probe b k i)) \<le> 2 ^ b + N" using dinvD(1)[OF assms(1) probe_less, of k i] total_bound[of b N s] by simp
  then show ?thesis using assms(2) by (simp add: atomic_defs unat_add_small)
qed

lemma dstep_inv:
  assumes "dstep b N s s'" "dinv b N s" "2 ^ b + N < 2 ^ 32 - 1"
  shows "dinv b N s'"
  using assms(1)
proof cases
  case (insert_call t k)
  then show ?thesis by (auto intro!: dinv_goto[OF assms(2)])
next
  case (try_take t k j)
  have t: "t < N" "j < 2 ^ b" using dinvD(2,3)[OF assms(2), of t] try_take(2) by simp_all
  show ?thesis unfolding try_take(1) by (rule dinv_slot[OF assms(2) t(1) probe_less]) (use try_take t in simp_all)
next
  case (try_false t k j)
  then show ?thesis using dinvD(2,3)[OF assms(2), of t] by (auto intro!: dinv_goto[OF assms(2)])
next
  case (try_match t k j)
  then show ?thesis using dinvD(2,3)[OF assms(2), of t] by (auto intro!: dinv_goto[OF assms(2)])
next
  case (fill t k j)
  have t: "t < N" "j < 2 ^ b" using dinvD(2,3)[OF assms(2), of t] fill(2) by simp_all
  have o: "d_slots s (probe b k j) = SOwned" using dinvD(4)[OF assms(2), of t] fill(2) by simp
  show ?thesis unfolding fill(1)
    by (rule dinv_slot[OF assms(2) t(1) probe_less]) (use fill t o slot_cross_at[of j b _ k True] in simp_all)
next
  case (next_slot t k j)
  have t: "t < N" "j < 2 ^ b" using dinvD(2,3)[OF assms(2), of t] next_slot(2) by simp_all
  have j: "j + 1 < 2 ^ b" using probe_last[OF t(2)] next_slot(3) t(2) by (metis Suc_eq_plus1 Suc_lessI)
  show ?thesis unfolding next_slot(1)
    by (rule dinv_count[OF assms(2) t(1) _ _ probe_less])
      (use next_slot(2) j crosses_snoc[OF t(2), of k] raised[OF assms(2,3)] in simp_all)
next
  case (next_last t k j)
  then show ?thesis using dinvD(2,3)[OF assms(2), of t] by (auto intro!: dinv_goto[OF assms(2)])
next
  case (roll t k i j)
  have t: "t < N" "j < 2 ^ b" "i \<le> j" using dinvD(2,3)[OF assms(2), of t] roll(2) by simp_all
  have ij: "i < j" using roll(3) t(3) by (cases "i = j") auto
  have c: "pc_cross b (probe b k i) (d_pcs s t) = 1" using roll(2) ij by (auto simp: crosses_def)
  show ?thesis unfolding roll(1)
    by (rule dinv_count[OF assms(2) t(1) _ _ probe_less])
      (use roll(2) t ij crosses_step[OF ij t(2), of k] lowered[OF assms(2) t(1) c] in auto)
next
  case (roll_end t k i j)
  have t: "t < N" "j < 2 ^ b" "i \<le> j" using dinvD(2,3)[OF assms(2), of t] roll_end(2) by simp_all
  have "i = j" using roll_end(3) t probe_eq[of i b j k] by simp
  then show ?thesis unfolding roll_end(1) by (intro dinv_goto[OF assms(2) t(1)]) (use roll_end(2) in simp_all)
next
  case (hide t h k v)
  show ?thesis unfolding hide(1) by (rule dinv_slot[OF assms(2) hide(2,4)]) (use hide in simp_all)
next
  case (erase_own t j k v)
  show ?thesis unfolding erase_own(1)
    by (rule dinv_slot[OF assms(2) erase_own(2) probe_less]) (use erase_own slot_cross_at[of j b _ k v] in simp_all)
next
  case (erase_free t k j)
  have t: "t < N" "j < 2 ^ b" using dinvD(2,3)[OF assms(2), of t] erase_free(2) by simp_all
  have o: "d_slots s (probe b k j) = SOwned" using dinvD(4)[OF assms(2), of t] erase_free(2) by simp
  show ?thesis unfolding erase_free(1) by (rule dinv_slot[OF assms(2) t(1) probe_less]) (use erase_free t o in simp_all)
next
  case (evict_own t j k v)
  show ?thesis unfolding evict_own(1)
    by (rule dinv_slot[OF assms(2) evict_own(2) probe_less]) (use evict_own slot_cross_at[of j b _ k v] in simp_all)
next
  case (evict_roll t k i j)
  have t: "t < N" "j < 2 ^ b" "i \<le> j" using dinvD(2,3)[OF assms(2), of t] evict_roll(2) by simp_all
  have ij: "i < j" using evict_roll(3) t(3) by (cases "i = j") auto
  have c: "pc_cross b (probe b k i) (d_pcs s t) = 1" using evict_roll(2) ij by (auto simp: crosses_def)
  show ?thesis unfolding evict_roll(1)
    by (rule dinv_count[OF assms(2) t(1) _ _ probe_less])
      (use evict_roll(2) t ij crosses_step[OF ij t(2), of k] lowered[OF assms(2) t(1) c] in auto)
next
  case (evict_free t k i j)
  have t: "t < N" "j < 2 ^ b" "i \<le> j" using dinvD(2,3)[OF assms(2), of t] evict_free(2) by simp_all
  have ij: "i = j" using evict_free(3) t probe_eq[of i b j k] by simp
  have o: "d_slots s (probe b k j) = SOwned" using dinvD(4)[OF assms(2), of t] evict_free(2) by simp
  show ?thesis unfolding evict_free(1) by (rule dinv_slot[OF assms(2) t(1) probe_less]) (use evict_free(2) t o ij in simp_all)
next
  case (look_call t k)
  then show ?thesis by (auto intro!: dinv_goto[OF assms(2)])
next
  case (look_match t k j)
  then show ?thesis using dinvD(2,3)[OF assms(2), of t] by (auto intro!: dinv_goto[OF assms(2)])
next
  case (look_abort t k j)
  then show ?thesis using dinvD(2,3)[OF assms(2), of t] by (auto intro!: dinv_goto[OF assms(2)])
next
  case (look_next t k j)
  have t: "t < N" "j < 2 ^ b" using dinvD(2,3)[OF assms(2), of t] look_next(2) by simp_all
  have "probe b k (j + 1) \<noteq> probe b k 0 \<Longrightarrow> j + 1 < 2 ^ b" using probe_last[OF t(2)] t(2) by (metis Suc_eq_plus1 Suc_lessI)
  then show ?thesis using look_next t by (auto intro!: dinv_goto[OF assms(2)])
next
  case (look_return t k)
  then show ?thesis using dinvD(2)[OF assms(2), of t] by (auto intro!: dinv_goto[OF assms(2)])
qed

lemma dsys_new_inv: "dinv b N dsys_new"
  by (simp add: dinv_def dsys_new_def total_cross_def)

lemma dreach_inv: "dreach b N s \<Longrightarrow> 2 ^ b + N < 2 ^ 32 - 1 \<Longrightarrow> dinv b N s"
  by (induction rule: dreach.induct) (auto intro: dsys_new_inv dstep_inv)

section \<open>Properties\<close>

lemma probe_onto:
  assumes "h < 2 ^ b"
  obtains j where "j < 2 ^ b" "probe b k j = h"
proof -
  have "h \<in> set (path b k)" using path_set[of b k] assms by simp
  then show thesis using that by (auto simp: path_def)
qed

lemma before_probe:
  assumes "j < 2 ^ b"
  shows "set (before b k (probe b k j)) = probe b k ` {0..<j}"
proof -
  have "[0..<2 ^ b] = [0..<j] @ j # [Suc j..<2 ^ b]"
    using upt_add_eq_append[of 0 j "2 ^ b - j"] upt_conv_Cons[OF assms] assms by simp
  then have "path b k = map (probe b k) [0..<j] @ probe b k j # map (probe b k) [Suc j..<2 ^ b]" by (simp add: path_def)
  moreover have "\<forall>q \<in> set (map (probe b k) [0..<j]). q \<noteq> probe b k j" using assms by (auto simp: probe_eq)
  ultimately have "before b k (probe b k j) = map (probe b k) [0..<j]" by (simp add: before_def takeWhile_append)
  then show ?thesis by simp
qed

lemma slot_cross_before:
  assumes "h < 2 ^ b"
  shows "slot_cross b p h (SEntry k v) = of_bool (p \<in> set (before b k h))"
proof -
  obtain j where j: "j < 2 ^ b" "probe b k j = h" by (rule probe_onto[OF assms])
  show ?thesis using slot_cross_at[OF j(1), of p k v] before_probe[OF j(1), of k] by (simp add: j(2) crosses_image)
qed

lemma entry_counted:
  assumes "dinv b N s" "h < 2 ^ b" "d_slots s h = SEntry k v" "p \<in> set (before b k h)"
  shows "d_disp s p \<noteq> 0"
proof -
  have p: "p < 2 ^ b" using set_takeWhileD[OF assms(4)[unfolded before_def]] path_set[of b k] by auto
  have "slot_cross b p h (d_slots s h) \<le> (\<Sum>h < 2 ^ b. slot_cross b p h (d_slots s h))"
    by (rule member_le_sum[of h "{..<2 ^ b}" "\<lambda>h. slot_cross b p h (d_slots s h)"]) (use assms(2) in simp_all)
  then have "1 \<le> unat (d_disp s p)"
    using dinvD(1)[OF assms(1) p] slot_cross_before[OF assms(2), of p k v] assms(3,4) by (simp add: total_cross_def)
  then show ?thesis by auto
qed

text \<open>C6: Under any interleaving of insertions, erasures and evictions the displacement counters are exact. Every slot a walk passes on its way to an
  entry has a counter that is not 0, a Rollback never lowers a counter that is 0, and when no operation runs,
  each counter is the number of entries whose walk passes its slot, so all are 0 in an empty table.\<close>

theorem clock_displacements_exact:
  assumes "dreach b N s" "2 ^ b + N < 2 ^ 32 - 1"
  shows "(\<forall>h < 2 ^ b. \<forall>k v. d_slots s h = SEntry k v \<longrightarrow> (\<forall>p \<in> set (before b k h). d_disp s p \<noteq> 0)) \<and>
    (\<forall>t k i j. d_pcs s t = DBack k i j \<or> d_pcs s t = DEvict k i j \<longrightarrow> probe b k i \<noteq> probe b k j \<longrightarrow> d_disp s (probe b k i) \<noteq> 0) \<and>
    ((\<forall>t. d_pcs s t = DIdle) \<longrightarrow>
       (\<forall>p < 2 ^ b. unat (d_disp s p) = card {h. h < 2 ^ b \<and> (\<exists>k v. d_slots s h = SEntry k v \<and> p \<in> set (before b k h))}))"
proof (intro conjI allI impI ballI)
  have inv: "dinv b N s" by (rule dreach_inv[OF assms])
  show "d_disp s p \<noteq> 0" if "h < 2 ^ b" "d_slots s h = SEntry k v" "p \<in> set (before b k h)" for h k v p
    by (rule entry_counted[OF inv that])
  show "d_disp s (probe b k i) \<noteq> 0"
    if c: "d_pcs s t = DBack k i j \<or> d_pcs s t = DEvict k i j" "probe b k i \<noteq> probe b k j" for t k i j
  proof -
    have t: "t < N" using dinvD(2)[OF inv, of t] c(1) by auto
    have "i \<le> j" using dinvD(3)[OF inv, of t] c(1) by auto
    then have "i < j" using c(2) by (cases "i = j") auto
    then have "pc_cross b (probe b k i) (d_pcs s t) = 1" using c(1) by (auto simp: crosses_def)
    then show ?thesis using share_le[OF inv t probe_less[of b k i]] by auto
  qed
  show "unat (d_disp s p) = card {h. h < 2 ^ b \<and> (\<exists>k v. d_slots s h = SEntry k v \<and> p \<in> set (before b k h))}"
    if idle: "\<forall>t. d_pcs s t = DIdle" and p: "p < 2 ^ b" for p
  proof -
    have e: "slot_cross b p h (d_slots s h) = of_bool (\<exists>k v. d_slots s h = SEntry k v \<and> p \<in> set (before b k h))" if "h < 2 ^ b" for h
      using slot_cross_before[OF that] by (cases "d_slots s h") simp_all
    have "(\<Sum>h < 2 ^ b. slot_cross b p h (d_slots s h)) =
        (\<Sum>h < 2 ^ b. of_bool (\<exists>k v. d_slots s h = SEntry k v \<and> p \<in> set (before b k h)))" by (rule sum.cong) (use e in simp_all)
    also have "\<dots> = card {h. h < 2 ^ b \<and> (\<exists>k v. d_slots s h = SEntry k v \<and> p \<in> set (before b k h))}"
      by (simp add: of_bool_def sum.If_cases Int_def)
    finally show ?thesis using dinvD(1)[OF inv p] idle by (simp add: total_cross_def)
  qed
qed

text \<open>A run in which P holds in every state.\<close>

inductive dwhile :: "nat \<Rightarrow> nat \<Rightarrow> (dsys \<Rightarrow> bool) \<Rightarrow> dsys \<Rightarrow> dsys \<Rightarrow> bool" for b N P s0 where
  here: "P s0 \<Longrightarrow> dwhile b N P s0 s0"
| there: "dwhile b N P s0 s \<Longrightarrow> dstep b N s s' \<Longrightarrow> P s' \<Longrightarrow> dwhile b N P s0 s'"

text \<open>A lookup of k that has not passed the slot of the entry at position m.\<close>

fun ahead :: "key128 \<Rightarrow> nat \<Rightarrow> dpc \<Rightarrow> bool" where
  "ahead k m (DLook k' j) \<longleftrightarrow> k' = k \<longrightarrow> j \<le> m"
| "ahead k m (DAbort k' j) \<longleftrightarrow> k' = k \<longrightarrow> j < m"
| "ahead k m (DMissing k') \<longleftrightarrow> k' \<noteq> k"
| "ahead k m _ \<longleftrightarrow> True"

lemma ahead_step:
  assumes "dstep b N s s'" "dinv b N s" "m < 2 ^ b" "d_slots s (probe b k m) = SEntry k True" "ahead k m (d_pcs s t)"
  shows "ahead k m (d_pcs s' t)"
  using assms(1)
proof cases
  case (look_match t' k' j)
  have "j < m" if "j \<le> m" "d_slots s (probe b k j) \<noteq> SEntry k True" using that assms(4) by (cases "j = m") auto
  then show ?thesis using look_match assms(5) by (auto simp: dgoto_def)
next
  case (look_abort t' k' j)
  have "j < m \<Longrightarrow> d_disp s (probe b k j) \<noteq> 0"
    by (rule entry_counted[OF assms(2) probe_less assms(4)]) (simp add: before_probe[OF assms(3)])
  then show ?thesis using look_abort assms(5) by (auto simp: dgoto_def atomic_defs)
next
  case (look_next t' k' j)
  have "probe b k (j + 1) \<noteq> probe b k 0" if "j < m" using probe_last[of j b k] that assms(3) by simp
  then show ?thesis using look_next assms(5) by (auto simp: dgoto_def)
qed (use assms(5) in \<open>auto simp: dgoto_def dset_def dcount_def\<close>)

text \<open>C5: A lookup never misses an entry that stays visible while it runs, whatever other threads insert, erase and evict in the
  meantime: it neither stops early at a displacement counter of 0 nor leaves the entry's slot behind.\<close>

theorem clock_lookup_finds:
  assumes "dreach b N s0" "2 ^ b + N < 2 ^ 32 - 1" "h < 2 ^ b" "d_pcs s0 t = DLook k 0"
    "dwhile b N (\<lambda>s. d_slots s h = SEntry k True) s0 s"
  shows "d_pcs s t \<noteq> DMissing k"
proof -
  obtain m where m: "m < 2 ^ b" "probe b k m = h" by (rule probe_onto[OF assms(3)])
  have "dreach b N s \<and> d_slots s h = SEntry k True \<and> ahead k m (d_pcs s t)"
    using assms(5)
  proof induction
    case here
    then show ?case using assms(1,4) by simp
  next
    case (there s s')
    then have r: "dreach b N s" "d_slots s (probe b k m) = SEntry k True" "ahead k m (d_pcs s t)" using m(2) by simp_all
    show ?case using ahead_step[OF there(2) dreach_inv[OF r(1) assms(2)] m(1) r(2,3)] dreach.step[OF r(1) there(2)] there(3) by simp
  qed
  then show ?thesis by auto
qed

section \<open>Instances\<close>

lemma demo_reach:
  "dreach 1 2 \<lparr>d_disp = (\<lambda>_. 0), d_slots = (\<lambda>_. SEmpty)(probe 1 k 0 := SEntry k True), d_pcs = (\<lambda>_. DIdle)\<rparr>"
proof -
  let ?s1 = "dgoto dsys_new 0 (DProbe k 0)"
  let ?s2 = "dset ?s1 0 (DFill k 0) (probe 1 k 0) SOwned"
  let ?s3 = "dset ?s2 0 DIdle (probe 1 k 0) (SEntry k True)"
  have "dreach 1 2 ?s1" by (rule dreach.step[OF dreach.start dstep.insert_call]) (simp_all add: dsys_new_def)
  then have "dreach 1 2 ?s2" by (rule dreach.step[OF _ dstep.try_take]) (simp_all add: dsys_new_def dgoto_def)
  then have "dreach 1 2 ?s3" by (rule dreach.step[OF _ dstep.fill]) (simp add: dset_def)
  then show ?thesis by (simp add: dset_def dgoto_def dsys_new_def fun_upd_idem)
qed

theorem clock_displacements_exact_witness:
  "\<exists>s. dreach 1 2 s \<and> d_slots s 1 = SEntry (0, 1) True \<and> unat (d_disp s 0) = card {h. h < 2 ^ 1 \<and>
     (\<exists>k v. d_slots s h = SEntry k v \<and> 0 \<in> set (before 1 k h))}"
proof -
  have "probe 1 (0, 1) 0 = 1" by (simp add: probe_def)
  then show ?thesis
    using demo_reach[of "(0, 1)"] clock_displacements_exact[OF demo_reach[of "(0, 1)"]] by (intro exI conjI) (assumption, simp_all)
qed

theorem clock_lookup_finds_witness:
  "\<exists>s. dreach 1 2 s \<and> d_slots s 0 = SEntry (0, 0) True \<and> d_pcs s 1 = DFound (0, 0) \<and> d_pcs s 1 \<noteq> DMissing (0, 0)"
proof -
  let ?k = "(0, 0) :: key128"
  let ?s = "\<lparr>d_disp = (\<lambda>_. 0), d_slots = (\<lambda>_. SEmpty)(0 := SEntry ?k True), d_pcs = (\<lambda>_. DIdle)\<rparr>"
  let ?s1 = "dgoto ?s 1 (DLook ?k 0)"
  let ?s2 = "dgoto ?s1 1 (if d_slots ?s1 (probe 1 ?k 0) = SEntry ?k True then DFound ?k else DAbort ?k 0)"
  have p: "probe 1 ?k 0 = 0" by (simp add: probe_def)
  have r: "dreach 1 2 ?s" using demo_reach[of ?k] p by simp
  have r1: "dreach 1 2 ?s1" by (rule dreach.step[OF r dstep.look_call]) simp_all
  have s2: "dstep 1 2 ?s1 ?s2" by (rule dstep.look_match) (simp add: dgoto_def)
  have w: "dwhile 1 2 (\<lambda>s. d_slots s 0 = SEntry ?k True) ?s1 ?s2"
    by (rule dwhile.there[OF dwhile.here s2]) (simp_all add: dgoto_def)
  have "d_pcs ?s2 1 \<noteq> DMissing ?k" by (rule clock_lookup_finds[OF r1 _ _ _ w]) (simp_all add: dgoto_def)
  moreover have "d_pcs ?s2 1 = DFound ?k" using p by (simp add: dgoto_def)
  ultimately show ?thesis using dreach.step[OF r1 s2] by (intro exI[of _ ?s2]) (simp add: dgoto_def)
qed

text \<open>Two threads that insert one key at once can both succeed: the second does not see the entry the first is filling, and puts its own behind it.\<close>

lemma clock_duplicate_entries:
  "\<exists>s. dreach 1 2 s \<and> d_slots s (probe 1 k 0) = SEntry k True \<and> d_slots s (probe 1 k 1) = SEntry k True \<and> (\<forall>t. d_pcs s t = DIdle)"
proof -
  have p: "probe 1 k (0 + 1) \<noteq> probe 1 k 0" using probe_last[of 0 1 k] by simp
  let ?s1 = "dgoto dsys_new 0 (DProbe k 0)"
  let ?s2 = "dset ?s1 0 (DFill k 0) (probe 1 k 0) SOwned"
  let ?s3 = "dgoto ?s2 1 (DProbe k 0)"
  let ?s4 = "dgoto ?s3 1 (DNext k 0)"
  let ?s5 = "dcount ?s4 1 (DProbe k (0 + 1)) (probe 1 k 0) (snd (FetchAddRelaxed (d_disp ?s4 (probe 1 k 0)) 1))"
  let ?s6 = "dset ?s5 1 (DFill k (0 + 1)) (probe 1 k (0 + 1)) SOwned"
  let ?s7 = "dset ?s6 1 DIdle (probe 1 k (0 + 1)) (SEntry k True)"
  let ?s8 = "dset ?s7 0 DIdle (probe 1 k 0) (SEntry k True)"
  note simps = dgoto_def dset_def dcount_def dsys_new_def
  have "dreach 1 2 ?s1" by (rule dreach.step[OF dreach.start dstep.insert_call]) (simp_all add: simps)
  then have "dreach 1 2 ?s2" by (rule dreach.step[OF _ dstep.try_take]) (simp_all add: simps)
  then have "dreach 1 2 ?s3" by (rule dreach.step[OF _ dstep.insert_call]) (simp_all add: simps)
  then have "dreach 1 2 ?s4" by (rule dreach.step[OF _ dstep.try_false]) (simp_all add: simps)
  then have "dreach 1 2 ?s5" by (rule dreach.step[OF _ dstep.next_slot[OF _ p]]) (simp add: simps)
  then have "dreach 1 2 ?s6" by (rule dreach.step[OF _ dstep.try_take]) (use p in \<open>simp_all add: simps\<close>)
  then have "dreach 1 2 ?s7" by (rule dreach.step[OF _ dstep.fill]) (simp add: simps)
  then have "dreach 1 2 ?s8" by (rule dreach.step[OF _ dstep.fill]) (simp add: simps)
  then show ?thesis using p by (intro exI[of _ ?s8] conjI) (simp_all add: simps)
qed

end
