(* ===== verification/Doubles.thy ===== *)
theory Doubles
  imports Prelude
begin

text \<open>
  The one computation with double in the clock cache: a size_t is converted to double, multiplied
  by the load factor and truncated back. A double d \<ge> 0 is a mantissa below 2^53 and the number of
  binary digits after the point; round53 rounds a natural number to 53 significant bits, to
  nearest and ties to even, as the conversion and the product do.
\<close>

fun bit_length :: "nat \<Rightarrow> nat" where
  "bit_length n = (if n = 0 then 0 else Suc (bit_length (n div 2)))"

declare bit_length.simps [simp del]

definition round53 :: "nat \<Rightarrow> nat" where
  "round53 p =
     (let k = bit_length p - 53; q = p div 2 ^ k; r = p mod 2 ^ k
      in if 2 ^ k < 2 * r \<or> 2 * r = 2 ^ k \<and> odd q then (q + 1) * 2 ^ k else q * 2 ^ k)"

record dbl =
  mantissa :: nat
  point :: nat

definition dbl_wf :: "dbl \<Rightarrow> bool" where
  "dbl_wf d \<longleftrightarrow> mantissa d < 2 ^ 53"

text \<open>The literal 0.65, which is 5854679515581645 / 2^53.\<close>

definition dbl_065 :: dbl where
  "dbl_065 = \<lparr>mantissa = 5854679515581645, point = 53\<rparr>"

definition trunc_product :: "nat \<Rightarrow> dbl \<Rightarrow> nat" where
  "trunc_product n d = round53 (round53 n * mantissa d) div 2 ^ point d"

lemma bit_length_bound: "p < 2 ^ j \<Longrightarrow> bit_length p \<le> j"
proof (induction p arbitrary: j rule: bit_length.induct)
  case (1 n)
  show ?case
  proof (cases "n = 0")
    case True
    then show ?thesis by (simp add: bit_length.simps)
  next
    case False
    then obtain i where j: "j = Suc i" using 1(2) by (cases j) auto
    then have "n div 2 < 2 ^ i" using 1(2) by simp
    then have "bit_length (n div 2) \<le> i" by (rule 1(1)[OF False])
    then show ?thesis using False j by (subst bit_length.simps) simp
  qed
qed

text \<open>A number with at most 53 significant bits is not rounded.\<close>

lemma round53_exact:
  assumes "m < 2 ^ 53"
  shows "round53 (2 ^ b * m) = 2 ^ b * m"
proof -
  have "2 ^ b * m < 2 ^ (b + 53)" using assms by (simp add: power_add)
  then have "bit_length (2 ^ b * m) \<le> b + 53" by (rule bit_length_bound)
  then have "(2 :: nat) ^ (bit_length (2 ^ b * m) - 53) dvd 2 ^ b" by (intro le_imp_power_dvd) simp
  then have "(2 :: nat) ^ (bit_length (2 ^ b * m) - 53) dvd 2 ^ b * m" by (rule dvd_mult2)
  then show ?thesis by (auto simp: round53_def Let_def)
qed

lemma trunc_product_power:
  assumes "dbl_wf d"
  shows "trunc_product (2 ^ b) d = 2 ^ b * mantissa d div 2 ^ point d"
  using round53_exact[of 1 b] round53_exact[of "mantissa d" b] assms
  by (simp add: trunc_product_def dbl_wf_def)

text \<open>With a load factor of at most one the limit is at most the length.\<close>

lemma trunc_product_le:
  assumes "dbl_wf d" "mantissa d \<le> 2 ^ point d"
  shows "trunc_product (2 ^ b) d \<le> 2 ^ b"
proof -
  have "2 ^ b * mantissa d div 2 ^ point d \<le> 2 ^ b * 2 ^ point d div 2 ^ point d"
    using assms(2) by (intro div_le_mono) simp
  then show ?thesis by (simp add: trunc_product_power[OF assms(1)])
qed

lemma trunc_product_065: "trunc_product (2 ^ b) dbl_065 = 0 \<longleftrightarrow> b = 0"
proof -
  have "(2 :: nat) ^ b * 5854679515581645 < 9007199254740992 \<longleftrightarrow> b = 0"
  proof (cases b)
    case (Suc a)
    have "(1 :: nat) \<le> 2 ^ a" by simp
    then have "\<not> 2 * 2 ^ a * 5854679515581645 < (9007199254740992 :: nat)" by linarith
    then show ?thesis unfolding Suc power_Suc by simp
  qed simp
  then show ?thesis
    by (subst trunc_product_power) (simp_all add: dbl_wf_def dbl_065_def div_eq_0_iff)
qed

end
