(* ===== verification/Fast_Random.thy ===== *)
theory Fast_Random
  imports Doubles
begin

text \<open>
  FastRandomDouble of util/util.cc: the xorshift128+ generator. The thread-local state is a pair of words; the
  seed, an address plus the time, is an argument. The result 1.0 + k * 2^-52 - 1.0 with k below 2^52 is
  computed without rounding: it is the double k / 2^52.
\<close>

unbundle bit_operations_syntax

record xorshift_state =
  xs_s0 :: u64
  xs_s1 :: u64

definition XorShiftState :: "u64 \<Rightarrow> xorshift_state" where
  "XorShiftState seed = \<lparr>xs_s0 = seed, xs_s1 = seed * 0x5deece66d + 0xb\<rparr>"

definition FastRandomDouble :: "xorshift_state \<Rightarrow> dbl \<times> xorshift_state" where
  "FastRandomDouble state =
     (let x = xs_s0 state;
          y = xs_s1 state;
          x = x XOR push_bit 23 x;
          s1 = x XOR y XOR drop_bit 17 x XOR drop_bit 26 y;
          rand_int = s1 + y;
          mask = push_bit 52 1 - 1
      in (\<lparr>mantissa = unat (rand_int AND mask), point = 52\<rparr>, \<lparr>xs_s0 = y, xs_s1 = s1\<rparr>))"

lemma shift_left_fixpoint:
  fixes d :: u64
  assumes "d = push_bit 23 d"
  shows "d = 0"
proof -
  have "d = push_bit 23 (push_bit 23 (push_bit 23 d))" using assms by simp
  then have "d = push_bit 69 d" by simp
  moreover have "push_bit 69 d = 0" by (rule bit_word_eqI) (simp add: bit_push_bit_iff)
  ultimately show ?thesis by simp
qed

lemma shift_right_fixpoint:
  fixes d :: u64
  assumes "d = drop_bit 17 d"
  shows "d = 0"
proof -
  have "d = drop_bit 17 (drop_bit 17 (drop_bit 17 (drop_bit 17 d)))" using assms by simp
  then have "d = drop_bit 68 d" by simp
  moreover have "drop_bit 68 d = 0" by (rule bit_word_eqI) (auto simp: bit_drop_bit_eq dest: bit_imp_le_length)
  ultimately show ?thesis by simp
qed

text \<open>The all-zero state, from which the generator would never leave, has no other predecessor.\<close>

lemma FastRandomDouble_nonzero:
  assumes "state \<noteq> \<lparr>xs_s0 = 0, xs_s1 = 0\<rparr>"
  shows "snd (FastRandomDouble state) \<noteq> \<lparr>xs_s0 = 0, xs_s1 = 0\<rparr>"
proof
  assume z: "snd (FastRandomDouble state) = \<lparr>xs_s0 = 0, xs_s1 = 0\<rparr>"
  then have y: "xs_s1 state = 0" by (simp add: FastRandomDouble_def Let_def)
  let ?x = "xs_s0 state XOR push_bit 23 (xs_s0 state)"
  have "?x XOR drop_bit 17 ?x = 0" using z y by (simp add: FastRandomDouble_def Let_def)
  then have "?x = 0" using shift_right_fixpoint[of ?x] by (metis xor_self_eq xor_cancel_left)
  then have "xs_s0 state = 0" using shift_left_fixpoint[of "xs_s0 state"] by (metis xor_self_eq xor_cancel_left)
  then show False using assms y by (cases state) simp
qed

definition random_state :: "u64 \<Rightarrow> nat \<Rightarrow> xorshift_state" where
  "random_state seed n = ((\<lambda>s. snd (FastRandomDouble s)) ^^ n) (XorShiftState seed)"

text \<open>Whatever the seed, the state of the generator never becomes zero, where it would stay, and every
  number it returns is a double in [0, 1), represented exactly.\<close>

theorem FastRandomDouble_range:
  "random_state seed n \<noteq> \<lparr>xs_s0 = 0, xs_s1 = 0\<rparr> \<and>
     dbl_wf (fst (FastRandomDouble (random_state seed n))) \<and>
     mantissa (fst (FastRandomDouble (random_state seed n))) < 2 ^ point (fst (FastRandomDouble (random_state seed n)))"
proof (intro conjI)
  show "random_state seed n \<noteq> \<lparr>xs_s0 = 0, xs_s1 = 0\<rparr>"
  proof (induction n)
    case 0
    show ?case by (cases "seed = 0") (auto simp: random_state_def XorShiftState_def)
  next
    case (Suc n)
    then show ?case using FastRandomDouble_nonzero by (simp add: random_state_def)
  qed
  have "unat (w AND (push_bit 52 1 - 1)) < 2 ^ 52" for w :: u64
  proof -
    have "(push_bit 52 1 - 1 :: u64) = mask 52" by (simp add: mask_eq_exp_minus_1 push_bit_eq_mult)
    then have "w AND (push_bit 52 1 - 1) = take_bit 52 w" by (simp only: take_bit_eq_mask)
    then show ?thesis by (simp only: unsigned_take_bit_eq take_bit_nat_less_exp)
  qed
  then have m: "mantissa (fst (FastRandomDouble s)) < 2 ^ 52" for s by (simp only: FastRandomDouble_def Let_def fst_conv dbl.simps)
  then show "mantissa (fst (FastRandomDouble (random_state seed n))) < 2 ^ point (fst (FastRandomDouble (random_state seed n)))"
    by (simp add: FastRandomDouble_def Let_def)
  show "dbl_wf (fst (FastRandomDouble (random_state seed n)))"
    using m[of "random_state seed n"] by (simp add: dbl_wf_def)
qed

end
