(* ===== verification/Marked_Ptr.thy ===== *)
theory Marked_Ptr
  imports Prelude
begin

text \<open>
  MarkVersionedPtr of hash_skip/ptr_util.h: a pointer, a 14-bit version and a deletion mark
  in one 64-bit word. Bits 0..46 hold the raw pointer, bits 48..61 the version, bit 62 the
  mark; bits 47 and 63 are never written by the packing operations. An int64_t version is
  the 64-bit pattern of its two's complement.
\<close>

unbundle bit_operations_syntax

type_synonym mvptr = u64

definition VERSION_MASK :: u64 where
  "VERSION_MASK = 0x3FFF"

definition GetRawPtr :: "mvptr \<Rightarrow> u64" where
  "GetRawPtr p = p AND 0x00007FFFFFFFFFFF"

definition IsMarked :: "mvptr \<Rightarrow> bool" where
  "IsMarked p = (p AND push_bit 62 1 \<noteq> 0)"

definition Mark :: "mvptr \<Rightarrow> mvptr" where
  "Mark p = p OR push_bit 62 1"

definition UnMark :: "mvptr \<Rightarrow> mvptr" where
  "UnMark p = p AND NOT (push_bit 62 1)"

definition GetVersion :: "mvptr \<Rightarrow> 32 word" where
  "GetVersion p = ucast (drop_bit 48 p AND VERSION_MASK)"

definition ClearVersion :: "mvptr \<Rightarrow> mvptr" where
  "ClearVersion p = p AND NOT (push_bit 48 0x3FFF)"

definition SetVersion :: "mvptr \<Rightarrow> 64 word \<Rightarrow> mvptr" where
  "SetVersion p version = ClearVersion p OR push_bit 48 (version AND VERSION_MASK)"

definition IncrVersion :: "mvptr \<Rightarrow> mvptr" where
  "IncrVersion p = SetVersion p (scast (GetVersion p + 1))"

definition DecrVersion :: "mvptr \<Rightarrow> mvptr" where
  "DecrVersion p = SetVersion p (scast (GetVersion p - 1))"

definition PackPtr :: "u64 \<Rightarrow> 64 word \<Rightarrow> bool \<Rightarrow> mvptr" where
  "PackPtr p version mark = SetVersion (if mark then Mark p else UnMark p) version"

section \<open>Bits of the packed word\<close>

lemma mask_consts:
  "(0x3FFF :: 'a::len word) = mask 14" "(0x00007FFFFFFFFFFF :: 'a::len word) = mask 47"
  by (simp_all add: mask_eq_exp_minus_1)

lemma bit_version_field: "bit (push_bit 48 (0x3FFF :: u64)) n \<longleftrightarrow> 48 \<le> n \<and> n < 62"
  unfolding mask_consts by (auto simp only: bit_simps) auto

lemma IsMarked_bit: "IsMarked p \<longleftrightarrow> bit p 62"
  unfolding IsMarked_def by (subst and_single_bit_eq_0) simp_all

lemma bit_GetRawPtr: "bit (GetRawPtr p) n \<longleftrightarrow> n < 47 \<and> bit p n"
  by (auto simp: GetRawPtr_def mask_consts bit_simps)

lemma bit_Mark: "bit (Mark p) n \<longleftrightarrow> n = 62 \<or> bit p n"
  unfolding Mark_def by (auto simp only: bit_or_iff bit_push_one) simp

lemma bit_UnMark: "bit (UnMark p) n \<longleftrightarrow> n \<noteq> 62 \<and> bit p n"
  unfolding UnMark_def by (auto simp only: bit_and_iff bit_not_iff bit_push_one possible_bit_word) (auto dest: bit_imp_le_length)

lemma bit_ClearVersion: "bit (ClearVersion p) n \<longleftrightarrow> bit p n \<and> \<not> (48 \<le> n \<and> n < 62)"
  unfolding ClearVersion_def
  by (auto simp only: bit_and_iff bit_not_iff bit_version_field possible_bit_word dest: bit_imp_le_length)

lemma bit_SetVersion:
  "bit (SetVersion p v) n \<longleftrightarrow> (if 48 \<le> n \<and> n < 62 then bit v (n - 48) else bit p n)"
  unfolding SetVersion_def VERSION_MASK_def mask_consts
  by (auto simp only: bit_or_iff bit_ClearVersion bit_push_bit_iff bit_and_iff bit_mask_iff possible_bit_word)
     (auto split: if_splits)

lemma bit_GetVersion: "bit (GetVersion p) n \<longleftrightarrow> n < 14 \<and> bit p (n + 48)"
  unfolding GetVersion_def VERSION_MASK_def mask_consts by (auto simp: bit_simps ac_simps)

lemmas mvptr_bits =
  IsMarked_bit bit_GetRawPtr bit_Mark bit_UnMark bit_ClearVersion bit_SetVersion bit_GetVersion

lemma bit_PackPtr:
  "bit (PackPtr p v m) n \<longleftrightarrow>
     (if n = 62 then m else if 48 \<le> n \<and> n < 62 then bit v (n - 48) else bit p n)"
  by (auto simp: PackPtr_def mvptr_bits)

lemma GetVersion_bound: "unat (GetVersion p) < 2 ^ 14"
proof -
  have "GetVersion p = take_bit 14 (GetVersion p)"
    by (rule bit_word_eqI) (auto simp: bit_GetVersion bit_take_bit_iff)
  then have "unat (GetVersion p) = unat (take_bit 14 (GetVersion p))" by simp
  also have "\<dots> = unat (GetVersion p) mod 2 ^ 14" by (simp add: take_bit_eq_mod unat_mod)
  finally show ?thesis by (metis mod_less_divisor zero_less_numeral zero_less_power)
qed

section \<open>Packing and unpacking\<close>

lemma bit_below_length_word: "unat p < 2 ^ k \<Longrightarrow> bit p n \<Longrightarrow> n < k" for p :: "'a::len word"
proof -
  assume "unat p < 2 ^ k" "bit p n"
  then have "take_bit k (unat p) = unat p" "bit (unat p) n"
    by (simp_all add: take_bit_nat_eq_self bit_unsigned_iff bit_imp_le_length)
  then show "n < k" by (metis bit_take_bit_iff)
qed

lemma GetVersion_SetVersion: "unat (GetVersion (SetVersion p v)) = unat v mod 2 ^ 14"
proof -
  have "GetVersion (SetVersion p v) = ucast (take_bit 14 v)"
    by (rule bit_word_eqI) (auto simp: mvptr_bits bit_simps)
  moreover have "unat (ucast (take_bit 14 v) :: 32 word) = take_bit 32 (unat (take_bit 14 v))"
    by (simp add: unsigned_ucast_eq)
  moreover have "unat (take_bit 14 v) = unat v mod 2 ^ 14" by (simp add: take_bit_eq_mod unat_mod)
  ultimately show ?thesis by (simp add: take_bit_eq_mod)
qed

lemma SetVersion_frame:
  "GetRawPtr (SetVersion p v) = GetRawPtr p" "IsMarked (SetVersion p v) = IsMarked p"
  "ClearVersion (SetVersion p v) = ClearVersion p"
  by (auto intro!: bit_word_eqI simp: mvptr_bits split: if_splits)

lemma SetVersion_SetVersion: "SetVersion (SetVersion p v) w = SetVersion p w"
  by (rule bit_word_eqI) (auto simp: mvptr_bits)

lemma SetVersion_self:
  assumes "take_bit 14 v = ucast (GetVersion p)"
  shows "SetVersion p v = p"
proof (rule bit_word_eqI)
  fix n assume "n < LENGTH(64)"
  show "bit (SetVersion p v) n = bit p n"
  proof (cases "48 \<le> n \<and> n < 62")
    case True
    have "n - 48 < 14" using True by arith
    then have "bit v (n - 48) \<longleftrightarrow> bit (take_bit 14 v) (n - 48)" by (simp add: bit_take_bit_iff)
    also have "\<dots> \<longleftrightarrow> bit p n"
      unfolding assms using True \<open>n - 48 < 14\<close> by (simp add: bit_simps bit_GetVersion)
    finally show ?thesis using True by (simp add: mvptr_bits)
  next
    case False
    then show ?thesis by (auto simp: bit_SetVersion)
  qed
qed

lemma scast_version:
  assumes "unat (v :: 32 word) < 2 ^ 15"
  shows "scast v = (ucast v :: 64 word)"
proof -
  have "\<not> bit v 31" using bit_below_length_word[OF assms, of 31] by auto
  moreover have "n = 31" if "bit v n" "31 \<le> n" for n using bit_imp_le_length[OF that(1)] that(2) by simp
  ultimately show ?thesis
    by (intro bit_word_eqI) (auto simp: bit_simps min_def)
qed

text \<open>packing a canonical user-space pointer (below 2^47) with a version and a mark and
  reading the fields back gives the pointer, the version modulo 2^14 and the mark.\<close>

theorem PackPtr_roundtrip:
  assumes "unat p < 2 ^ 47"
  shows "GetRawPtr (PackPtr p v m) = p \<and> unat (GetVersion (PackPtr p v m)) = unat v mod 2 ^ 14 \<and>
    IsMarked (PackPtr p v m) = m"
proof -
  have "GetRawPtr (PackPtr p v m) = p"
    by (intro bit_word_eqI) (auto simp: bit_GetRawPtr bit_PackPtr dest: bit_below_length_word[OF assms])
  moreover have "IsMarked (PackPtr p v m) = m" by (simp add: IsMarked_bit bit_PackPtr)
  ultimately show ?thesis by (simp add: PackPtr_def GetVersion_SetVersion)
qed

theorem PackPtr_roundtrip_witness:
  "GetRawPtr (PackPtr 0x7F00DEADBEEF 16385 True) = 0x7F00DEADBEEF \<and>
   unat (GetVersion (PackPtr 0x7F00DEADBEEF 16385 True)) = 1 \<and>
   IsMarked (PackPtr 0x7F00DEADBEEF 16385 True)"
  using PackPtr_roundtrip[of "0x7F00DEADBEEF" 16385 True] by simp

text \<open>two tagged words that the packing can produce (bits 47 and 63 clear) are the same
  64-bit word exactly when pointer, version and mark agree: a compare-and-swap on the word
  succeeds only if nothing of the three has changed.\<close>

theorem mvptr_eq_iff_fields:
  assumes "\<not> bit p 47" "\<not> bit p 63" "\<not> bit q 47" "\<not> bit q 63"
  shows "p = q \<longleftrightarrow> GetRawPtr p = GetRawPtr q \<and> GetVersion p = GetVersion q \<and> IsMarked p = IsMarked q"
proof
  assume f: "GetRawPtr p = GetRawPtr q \<and> GetVersion p = GetVersion q \<and> IsMarked p = IsMarked q"
  show "p = q"
  proof (rule bit_word_eqI)
    fix n :: nat assume "n < LENGTH(64)"
    then consider "n < 47" | "n = 47" | "48 \<le> n" "n - 48 < 14" | "n = 62" | "n = 63" by fastforce
    then show "bit p n = bit q n"
    proof cases
      case 1 then show ?thesis
        using f bit_GetRawPtr[of p n] bit_GetRawPtr[of q n] by simp
    next
      case 3 then show ?thesis
        using f bit_GetVersion[of p "n - 48"] bit_GetVersion[of q "n - 48"] by simp
    qed (use assms f in \<open>simp_all add: IsMarked_bit\<close>)
  qed
qed simp

theorem mvptr_eq_iff_fields_witness:
  "(PackPtr 64 3 False = PackPtr 64 3 True) = (GetRawPtr (PackPtr 64 3 False) = GetRawPtr (PackPtr 64 3 True) \<and>
     GetVersion (PackPtr 64 3 False) = GetVersion (PackPtr 64 3 True) \<and>
     IsMarked (PackPtr 64 3 False) = IsMarked (PackPtr 64 3 True))"
  by (rule mvptr_eq_iff_fields) (simp_all add: bit_PackPtr)

section \<open>Counting in the version field\<close>

lemma next_version: "unat (scast (GetVersion p + 1) :: 64 word) = unat (GetVersion p) + 1"
proof -
  have u: "unat (GetVersion p + 1) = unat (GetVersion p) + 1"
    using GetVersion_bound[of p] by (intro trans[OF unat_add_small]) simp_all
  then show ?thesis
    using GetVersion_bound[of p] by (simp add: scast_version unsigned_ucast_eq take_bit_nat_eq_self)
qed

lemma GetVersion_IncrVersion: "unat (GetVersion (IncrVersion p)) = (unat (GetVersion p) + 1) mod 2 ^ 14"
  by (simp add: IncrVersion_def GetVersion_SetVersion next_version)

lemma IncrVersion_PackPtr:
  assumes "n < 2 ^ 14"
  shows "IncrVersion (PackPtr p (of_nat n) m) = PackPtr p (of_nat (n + 1)) m"
proof -
  let ?p = "PackPtr p (of_nat n) m"
  have "unat (of_nat n :: 64 word) = n" using assms by (intro unat_of_nat_eq) simp
  then have "unat (GetVersion ?p) = n" using assms by (simp add: PackPtr_def GetVersion_SetVersion)
  moreover have "unat (of_nat (n + 1) :: 64 word) = n + 1" using assms by (intro unat_of_nat_eq) simp
  ultimately have "(scast (GetVersion ?p + 1) :: 64 word) = of_nat (n + 1)"
    using next_version[of ?p] by (simp only: word_unat_eq_iff)
  then show ?thesis by (simp add: IncrVersion_def) (simp add: PackPtr_def SetVersion_SetVersion)
qed

text \<open>The version wraps around after 2^14 increments.\<close>

lemma PackPtr_wraps: "PackPtr p (of_nat (2 ^ 14)) m = PackPtr p 0 m"
proof (rule bit_word_eqI)
  fix n :: nat
  have "\<not> bit (2 ^ 14 :: 64 word) k" if "k < 14" for k using that by (simp only: bit_exp_iff) simp
  then show "bit (PackPtr p (of_nat (2 ^ 14)) m) n = bit (PackPtr p 0 m) n" by (auto simp only: bit_PackPtr of_nat_power of_nat_numeral) auto
qed

lemma IncrVersion_frame:
  "GetRawPtr (IncrVersion p) = GetRawPtr p" "IsMarked (IncrVersion p) = IsMarked p"
  "GetRawPtr (DecrVersion p) = GetRawPtr p" "IsMarked (DecrVersion p) = IsMarked p"
  by (simp_all add: IncrVersion_def DecrVersion_def SetVersion_frame)

lemma GetVersion_DecrVersion:
  assumes "0 < unat (GetVersion p)"
  shows "unat (GetVersion (DecrVersion p)) = unat (GetVersion p) - 1"
proof -
  have "unat (GetVersion p - 1) = unat (GetVersion p) - 1"
    using assms by (subst unat_sub_small) (auto simp: word_le_nat_alt)
  then have "unat (scast (GetVersion p - 1) :: 64 word) = unat (GetVersion p) - 1"
    using GetVersion_bound[of p] by (simp add: scast_version unsigned_ucast_eq take_bit_nat_eq_self)
  then show ?thesis using GetVersion_bound[of p] by (simp add: DecrVersion_def GetVersion_SetVersion)
qed

lemma mark_frame:
  "GetRawPtr (Mark p) = GetRawPtr p" "GetRawPtr (UnMark p) = GetRawPtr p" "GetVersion (Mark p) = GetVersion p"
  "GetVersion (UnMark p) = GetVersion p" "IsMarked (Mark p)" "\<not> IsMarked (UnMark p)"
  by (auto intro!: bit_word_eqI simp: mvptr_bits)

lemma PackPtr_fields:
  "GetRawPtr (PackPtr p v m) = GetRawPtr p" "unat (GetVersion (PackPtr p v m)) = unat v mod 2 ^ 14"
  "IsMarked (PackPtr p v m) = m"
  by (auto simp: PackPtr_def GetVersion_SetVersion SetVersion_frame mark_frame)

lemma GetRawPtr_self:
  assumes "unat p < 2 ^ 47"
  shows "GetRawPtr p = p"
  by (intro bit_word_eqI) (auto simp: bit_GetRawPtr dest: bit_below_length_word[OF assms])

lemma GetRawPtr_GetRawPtr [simp]: "GetRawPtr (GetRawPtr p) = GetRawPtr p"
  by (rule bit_word_eqI) (simp add: bit_GetRawPtr)

end
