(* ===== verification/Shared_Ptr.thy ===== *)
theory Shared_Ptr
  imports Marked_Ptr Atomics
begin

text \<open>
  AtomicSharedPtr of hash_skip/atomic_shared_ptr.h under any interleaving of threads that load and store it.
  The word ptr_ packs the address of a heap-allocated std::shared_ptr, a version that counts the
  loaders that are copying it, and a mark that a storer sets. Each access to the word or to the heap is one
  step; weak compare-and-swaps may fail spuriously. A std::shared_ptr object is its value, the heap a map from
  addresses to values; reading or deleting an address that is not in the heap is the state Fault.
\<close>

section \<open>Threads and steps\<close>

datatype 'v pc =
    Idle
  | LoadTry u64              \<comment> \<open>curr_ptr is loaded, next: test it and acquire\<close>
  | LoadRead u64             \<comment> \<open>version raised, next: copy the object\<close>
  | LoadRel u64 'v           \<comment> \<open>copied, next: lower the version\<close>
  | LoadDone "'v option"
  | StoreLoad u64            \<comment> \<open>new_raw_ptr is allocated, next: load the word\<close>
  | StoreTry u64 u64         \<comment> \<open>old_ptr is loaded, next: set the mark\<close>
  | StorePut u64 u64         \<comment> \<open>marked, next: store the new word\<close>
  | StoreFree u64            \<comment> \<open>stored, next: copy the old object\<close>
  | StoreDelete u64 'v       \<comment> \<open>copied, next: delete it\<close>
  | StoreDone "'v option"
  | Fault

record 'v spsys =
  cell :: u64
  objects :: "u64 \<Rightarrow> 'v option"
  pcs :: "nat \<Rightarrow> 'v pc"

abbreviation goto :: "'v spsys \<Rightarrow> nat \<Rightarrow> 'v pc \<Rightarrow> 'v spsys" where
  "goto s t c \<equiv> s\<lparr>pcs := (pcs s)(t := c)\<rparr>"

text \<open>The pointer new std::shared_ptr returns for a non-null value, and nullptr for null.\<close>

definition allocates :: "(u64 \<Rightarrow> 'v option) \<Rightarrow> 'v option \<Rightarrow> u64 \<Rightarrow> bool" where
  "allocates h v a \<longleftrightarrow> (case v of None \<Rightarrow> a = 0 | Some _ \<Rightarrow> a \<noteq> 0 \<and> unat a < 2 ^ 47 \<and> h a = None)"

definition AtomicSharedPtr_new :: "'v option \<Rightarrow> u64 \<Rightarrow> 'v spsys" where
  "AtomicSharedPtr_new v a =
     \<lparr>cell = StoreRelaxed 0 (PackPtr a 0 False), objects = Map.empty(a := v), pcs = (\<lambda>_. Idle)\<rparr>"

text \<open>The threads are numbered below N.\<close>

inductive sstep :: "nat \<Rightarrow> 'v spsys \<Rightarrow> 'v spsys \<Rightarrow> bool" for N where
  load_call: "t < N \<Longrightarrow> pcs s t = Idle \<Longrightarrow> sstep N s (goto s t (LoadTry (LoadAcquire (cell s))))"
| load_null: "pcs s t = LoadTry c \<Longrightarrow> GetRawPtr c = 0 \<Longrightarrow> sstep N s (goto s t (LoadDone None))"
| load_cas: "pcs s t = LoadTry c \<Longrightarrow> GetRawPtr c \<noteq> 0 \<Longrightarrow>
    CasWeakAcqRel sp (cell s) (UnMark c) (IncrVersion (UnMark c)) = (ok, c', w) \<Longrightarrow>
    sstep N s (if ok then (goto s t (LoadRead (UnMark c)))\<lparr>cell := w\<rparr> else goto s t (LoadTry c'))"
| load_read: "pcs s t = LoadRead c \<Longrightarrow>
    sstep N s (goto s t (case objects s (GetRawPtr c) of None \<Rightarrow> Fault | Some v \<Rightarrow> LoadRel c v))"
| load_rel: "pcs s t = LoadRel c v \<Longrightarrow>
    CasWeakAcqRel sp (cell s) (UnMark c) (DecrVersion (UnMark c)) = (ok, c', w) \<Longrightarrow>
    sstep N s (if ok then (goto s t (LoadDone (Some v)))\<lparr>cell := w\<rparr> else goto s t (LoadRel c' v))"
| load_return: "pcs s t = LoadDone r \<Longrightarrow> sstep N s (goto s t Idle)"
| store_call: "t < N \<Longrightarrow> pcs s t = Idle \<Longrightarrow> allocates (objects s) v a \<Longrightarrow>
    sstep N s ((goto s t (StoreLoad a))\<lparr>objects := (if v = None then objects s else (objects s)(a := v))\<rparr>)"
| store_load: "pcs s t = StoreLoad a \<Longrightarrow> sstep N s (goto s t (StoreTry a (LoadAcquire (cell s))))"
| store_cas: "pcs s t = StoreTry a c \<Longrightarrow> old = PackPtr (GetRawPtr c) 0 False \<Longrightarrow>
    CasWeakAcqRel sp (cell s) old (Mark old) = (ok, c', w) \<Longrightarrow>
    sstep N s (if ok then (goto s t (StorePut a old))\<lparr>cell := w\<rparr> else goto s t (StoreTry a c'))"
| store_put: "pcs s t = StorePut a old \<Longrightarrow>
    sstep N s ((goto s t (StoreFree old))\<lparr>cell := StoreRelease (cell s) (PackPtr a 0 False)\<rparr>)"
| store_free: "pcs s t = StoreFree old \<Longrightarrow>
    sstep N s (goto s t (if GetRawPtr old = 0 then StoreDone None
       else case objects s (GetRawPtr old) of None \<Rightarrow> Fault | Some v \<Rightarrow> StoreDelete old v))"
| store_delete: "pcs s t = StoreDelete old v \<Longrightarrow>
    sstep N s (if objects s (GetRawPtr old) = None then goto s t Fault
       else (goto s t (StoreDone (Some v)))\<lparr>objects := (objects s)(GetRawPtr old := None)\<rparr>)"
| store_return: "pcs s t = StoreDone r \<Longrightarrow> sstep N s (goto s t Idle)"

inductive sreach :: "nat \<Rightarrow> 'v spsys \<Rightarrow> 'v spsys \<Rightarrow> bool" for N s0 where
  start: "sreach N s0 s0"
| step: "sreach N s0 s \<Longrightarrow> sstep N s s' \<Longrightarrow> sreach N s0 s'"

text \<open>The destructor, which no thread may overlap.\<close>

definition AtomicSharedPtr_destroy :: "'v spsys \<Rightarrow> 'v spsys option" where
  "AtomicSharedPtr_destroy s =
     (let raw_ptr = GetRawPtr (LoadAcquire (cell s))
      in if raw_ptr = 0 then Some s
         else if objects s raw_ptr = None then None
         else Some (s\<lparr>objects := (objects s)(raw_ptr := None), cell := StoreRelaxed (cell s) 0\<rparr>))"

section \<open>The invariant\<close>

fun held :: "'v pc \<Rightarrow> u64 option" where
  "held (LoadRead c) = Some (GetRawPtr c)"
| "held (LoadRel c v) = Some (GetRawPtr c)"
| "held _ = None"

text \<open>The object only this thread can reach, 0 if none.\<close>

fun owned :: "'v pc \<Rightarrow> u64" where
  "owned (StoreLoad a) = a"
| "owned (StoreTry a c) = a"
| "owned (StorePut a c) = a"
| "owned (StoreFree c) = GetRawPtr c"
| "owned (StoreDelete c v) = GetRawPtr c"
| "owned _ = 0"

fun marking :: "'v pc \<Rightarrow> u64 option" where
  "marking (StorePut a c) = Some (GetRawPtr c)"
| "marking _ = None"

text \<open>What a thread remembers of an object is its value.\<close>

fun copy_ok :: "(u64 \<Rightarrow> 'v option) \<Rightarrow> 'v pc \<Rightarrow> bool" where
  "copy_ok h (LoadRel c v) \<longleftrightarrow> h (GetRawPtr c) = Some v"
| "copy_ok h (StoreDelete c v) \<longleftrightarrow> GetRawPtr c \<noteq> 0 \<and> h (GetRawPtr c) = Some v"
| "copy_ok h Fault \<longleftrightarrow> False"
| "copy_ok h _ \<longleftrightarrow> True"

definition sp_inv :: "nat \<Rightarrow> 'v spsys \<Rightarrow> bool" where
  "sp_inv N s \<longleftrightarrow> (let R = GetRawPtr (cell s); P = pcs s; H = objects s in
     N < 2 ^ 14 \<and>
     unat (GetVersion (cell s)) = card {t. held (P t) \<noteq> None} \<and>
     (\<forall>t. P t \<noteq> Idle \<longrightarrow> t < N) \<and>
     (\<forall>t r. held (P t) = Some r \<longrightarrow> r = R \<and> R \<noteq> 0) \<and>
     (R \<noteq> 0 \<longrightarrow> H R \<noteq> None) \<and>
     (\<forall>t. owned (P t) \<noteq> 0 \<longrightarrow> H (owned (P t)) \<noteq> None \<and> owned (P t) \<noteq> R \<and> unat (owned (P t)) < 2 ^ 47) \<and>
     (\<forall>t t'. owned (P t) \<noteq> 0 \<longrightarrow> owned (P t) = owned (P t') \<longrightarrow> t = t') \<and>
     (IsMarked (cell s) \<longleftrightarrow> (\<exists>t. marking (P t) \<noteq> None)) \<and>
     (\<forall>t r. marking (P t) = Some r \<longrightarrow> r = R \<and> GetVersion (cell s) = 0) \<and>
     (\<forall>t t'. marking (P t) \<noteq> None \<longrightarrow> marking (P t') \<noteq> None \<longrightarrow> t = t') \<and>
     (\<forall>t. copy_ok H (P t)))"

lemma sp_invD:
  assumes "sp_inv N s"
  shows "N < 2 ^ 14" "unat (GetVersion (cell s)) = card {t. held (pcs s t) \<noteq> None}"
    "pcs s t \<noteq> Idle \<Longrightarrow> t < N" "held (pcs s t) = Some r \<Longrightarrow> r = GetRawPtr (cell s) \<and> GetRawPtr (cell s) \<noteq> 0"
    "GetRawPtr (cell s) \<noteq> 0 \<Longrightarrow> objects s (GetRawPtr (cell s)) \<noteq> None"
    "owned (pcs s t) \<noteq> 0 \<Longrightarrow> objects s (owned (pcs s t)) \<noteq> None \<and> owned (pcs s t) \<noteq> GetRawPtr (cell s) \<and>
       unat (owned (pcs s t)) < 2 ^ 47"
    "owned (pcs s t) \<noteq> 0 \<Longrightarrow> owned (pcs s t) = owned (pcs s t') \<Longrightarrow> t = t'"
    "IsMarked (cell s) \<longleftrightarrow> (\<exists>t. marking (pcs s t) \<noteq> None)"
    "marking (pcs s t) = Some r \<Longrightarrow> r = GetRawPtr (cell s) \<and> GetVersion (cell s) = 0"
    "marking (pcs s t) \<noteq> None \<Longrightarrow> marking (pcs s t') \<noteq> None \<Longrightarrow> t = t'"
    "copy_ok (objects s) (pcs s t)"
  using assms unfolding sp_inv_def Let_def by blast+

lemma sp_invI:
  assumes "N < 2 ^ 14" "unat (GetVersion (cell s)) = card {t. held (pcs s t) \<noteq> None}"
    "\<And>t. pcs s t \<noteq> Idle \<Longrightarrow> t < N" "\<And>t r. held (pcs s t) = Some r \<Longrightarrow> r = GetRawPtr (cell s) \<and> GetRawPtr (cell s) \<noteq> 0"
    "GetRawPtr (cell s) \<noteq> 0 \<Longrightarrow> objects s (GetRawPtr (cell s)) \<noteq> None"
    "\<And>t. owned (pcs s t) \<noteq> 0 \<Longrightarrow> objects s (owned (pcs s t)) \<noteq> None \<and> owned (pcs s t) \<noteq> GetRawPtr (cell s) \<and>
       unat (owned (pcs s t)) < 2 ^ 47"
    "\<And>t t'. owned (pcs s t) \<noteq> 0 \<Longrightarrow> owned (pcs s t) = owned (pcs s t') \<Longrightarrow> t = t'"
    "IsMarked (cell s) \<longleftrightarrow> (\<exists>t. marking (pcs s t) \<noteq> None)"
    "\<And>t r. marking (pcs s t) = Some r \<Longrightarrow> r = GetRawPtr (cell s) \<and> GetVersion (cell s) = 0"
    "\<And>t t'. marking (pcs s t) \<noteq> None \<Longrightarrow> marking (pcs s t') \<noteq> None \<Longrightarrow> t = t'"
    "\<And>t. copy_ok (objects s) (pcs s t)"
  shows "sp_inv N s"
  unfolding sp_inv_def Let_def using assms by blast

lemma held_below:
  assumes "sp_inv N s" "held (pcs s t) \<noteq> None"
  shows "t < N"
proof -
  have "pcs s t \<noteq> Idle" using assms(2) by auto
  then show ?thesis by (rule sp_invD(3)[OF assms(1)])
qed

lemma finite_holders: "sp_inv N s \<Longrightarrow> finite {t. held (pcs s t) \<noteq> None}"
  by (rule finite_subset[of _ "{..<N}"]) (use held_below in blast, simp)

text \<open>A step of one thread that touches neither the word nor the heap.\<close>

lemma inv_local:
  assumes "sp_inv N s" "held c = held (pcs s t)" "owned c = owned (pcs s t)" "marking c = marking (pcs s t)"
    "copy_ok (objects s) c" "t < N"
  shows "sp_inv N (goto s t c)"
proof -
  note D = sp_invD[OF assms(1)]
  have f: "held (pcs (goto s t c) u) = held (pcs s u)" "owned (pcs (goto s t c) u) = owned (pcs s u)"
    "marking (pcs (goto s t c) u) = marking (pcs s u)" "cell (goto s t c) = cell s" "objects (goto s t c) = objects s" for u
    using assms(2-4) by simp_all
  show ?thesis
  proof (rule sp_invI, unfold f)
    show "pcs (goto s t c) u \<noteq> Idle \<Longrightarrow> u < N" for u using D(3) assms(6) by (cases "u = t") simp_all
    show "copy_ok (objects s) (pcs (goto s t c) u)" for u using D(11)[of u] assms(5) by simp
    show "held (pcs s u) = Some r \<Longrightarrow> r = GetRawPtr (cell s) \<and> GetRawPtr (cell s) \<noteq> 0" for u r by (rule D(4))
    show "owned (pcs s u) \<noteq> 0 \<Longrightarrow> objects s (owned (pcs s u)) \<noteq> None \<and> owned (pcs s u) \<noteq> GetRawPtr (cell s) \<and>
       unat (owned (pcs s u)) < 2 ^ 47" for u by (rule D(6))
    show "owned (pcs s u) \<noteq> 0 \<Longrightarrow> owned (pcs s u) = owned (pcs s u') \<Longrightarrow> u = u'" for u u' by (rule D(7))
    show "marking (pcs s u) = Some r \<Longrightarrow> r = GetRawPtr (cell s) \<and> GetVersion (cell s) = 0" for u r by (rule D(9))
    show "marking (pcs s u) \<noteq> None \<Longrightarrow> marking (pcs s u') \<noteq> None \<Longrightarrow> u = u'" for u u' by (rule D(10))
  qed (rule D(1), rule D(2), rule D(5), assumption, rule D(8))
qed

text \<open>The version counts the holders, of which there are fewer than 2^14.\<close>

lemma holders_insert:
  assumes "sp_inv N s" "held (pcs s t) = None" "held c \<noteq> None"
  shows "card {u. held (((pcs s)(t := c)) u) \<noteq> None} = card {u. held (pcs s u) \<noteq> None} + 1"
proof -
  have "{u. held (((pcs s)(t := c)) u) \<noteq> None} = insert t {u. held (pcs s u) \<noteq> None}" using assms(3) by auto
  then show ?thesis using finite_holders[OF assms(1)] assms(2) by simp
qed

lemma holders_remove:
  assumes "sp_inv N s" "held (pcs s t) \<noteq> None" "held c = None"
  shows "card {u. held (((pcs s)(t := c)) u) \<noteq> None} = card {u. held (pcs s u) \<noteq> None} - 1"
    "0 < card {u. held (pcs s u) \<noteq> None}"
proof -
  have "{u. held (((pcs s)(t := c)) u) \<noteq> None} = {u. held (pcs s u) \<noteq> None} - {t}" using assms(3) by auto
  then show "card {u. held (((pcs s)(t := c)) u) \<noteq> None} = card {u. held (pcs s u) \<noteq> None} - 1"
    using finite_holders[OF assms(1)] assms(2) by simp
  show "0 < card {u. held (pcs s u) \<noteq> None}"
    using finite_holders[OF assms(1)] assms(2) by (auto simp: card_gt_0_iff)
qed

lemma holders_bound:
  assumes "sp_inv N s" "held (pcs s t) = None" "t < N"
  shows "card {u. held (pcs s u) \<noteq> None} + 1 < 2 ^ 14"
proof -
  have "{u. held (pcs s u) \<noteq> None} \<subseteq> {..<N} - {t}" using held_below[OF assms(1)] assms(2) by blast
  then have "card {u. held (pcs s u) \<noteq> None} \<le> card ({..<N} - {t})" by (intro card_mono) simp_all
  then show ?thesis using assms(3) sp_invD(1)[OF assms(1)] by simp
qed

lemma inv_acquire:
  assumes "sp_inv N s" "pcs s t = LoadTry c" "GetRawPtr c \<noteq> 0" "cell s = UnMark c"
  shows "sp_inv N ((goto s t (LoadRead (UnMark c)))\<lparr>cell := IncrVersion (UnMark c)\<rparr>)"
proof -
  note D = sp_invD[OF assms(1)]
  have t: "t < N" "held (pcs s t) = None" using D(3)[of t] assms(2) by simp_all
  have un: "\<not> IsMarked (cell s)" by (simp add: assms(4) mark_frame)
  have nm: "marking (pcs s u) = None" for u using D(8) un by blast
  have w: "GetRawPtr (IncrVersion (UnMark c)) = GetRawPtr (cell s)" "\<not> IsMarked (IncrVersion (UnMark c))"
    "unat (GetVersion (IncrVersion (UnMark c))) = (unat (GetVersion (cell s)) + 1) mod 2 ^ 14"
    using un by (simp_all add: IncrVersion_frame GetVersion_IncrVersion assms(4))
  have nm2: "marking (((pcs s)(t := LoadRead (UnMark c))) u) = None" for u using nm by simp
  let ?s = "(goto s t (LoadRead (UnMark c)))\<lparr>cell := IncrVersion (UnMark c)\<rparr>"
  have R: "GetRawPtr (cell s) = GetRawPtr c" by (simp add: assms(4) mark_frame)
  show ?thesis
  proof (rule sp_invI)
    show "unat (GetVersion (cell ?s)) = card {u. held (pcs ?s u) \<noteq> None}"
      using holders_insert[OF assms(1) t(2), of "LoadRead (UnMark c)"] holders_bound[OF assms(1) t(2,1)] w(3) D(2) by simp
    show "held (pcs ?s u) = Some r \<Longrightarrow> r = GetRawPtr (cell ?s) \<and> GetRawPtr (cell ?s) \<noteq> 0" for u r
      using D(4)[of u r] w(1) R assms(3) by (auto simp: mark_frame split: if_splits)
    show "owned (pcs ?s u) \<noteq> 0 \<Longrightarrow> objects ?s (owned (pcs ?s u)) \<noteq> None \<and> owned (pcs ?s u) \<noteq> GetRawPtr (cell ?s) \<and>
       unat (owned (pcs ?s u)) < 2 ^ 47" for u
      using D(6)[of u] w(1) by (auto split: if_splits)
    show "owned (pcs ?s u) \<noteq> 0 \<Longrightarrow> owned (pcs ?s u) = owned (pcs ?s u') \<Longrightarrow> u = u'" for u u'
      using D(7)[of u u'] by (auto split: if_splits)
    show "IsMarked (cell ?s) \<longleftrightarrow> (\<exists>u. marking (pcs ?s u) \<noteq> None)" using w(2) nm by simp
    show "copy_ok (objects ?s) (pcs ?s u)" for u using D(11)[of u] by simp
    show "pcs ?s u \<noteq> Idle \<Longrightarrow> u < N" for u using D(3)[of u] t(1) by (cases "u = t") simp_all
    show "GetRawPtr (cell ?s) \<noteq> 0 \<Longrightarrow> objects ?s (GetRawPtr (cell ?s)) \<noteq> None" using D(5) w(1) by simp
    show "N < 2 ^ 14" by (rule D(1))
  qed (use nm2 in simp_all)
qed

lemma inv_release:
  assumes "sp_inv N s" "pcs s t = LoadRel c v" "cell s = UnMark c"
  shows "sp_inv N ((goto s t (LoadDone (Some v)))\<lparr>cell := DecrVersion (UnMark c)\<rparr>)"
proof -
  note D = sp_invD[OF assms(1)]
  have t: "t < N" "held (pcs s t) \<noteq> None" using D(3)[of t] assms(2) by simp_all
  have un: "\<not> IsMarked (cell s)" by (simp add: assms(3) mark_frame)
  have nm: "marking (pcs s u) = None" for u using D(8) un by blast
  have nm2: "marking (((pcs s)(t := LoadDone (Some v))) u) = None" for u using nm by simp
  let ?s = "(goto s t (LoadDone (Some v)))\<lparr>cell := DecrVersion (UnMark c)\<rparr>"
  note H = holders_remove[OF assms(1) t(2), of "LoadDone (Some v)"]
  have w: "GetRawPtr (DecrVersion (UnMark c)) = GetRawPtr (cell s)" "\<not> IsMarked (DecrVersion (UnMark c))"
    "unat (GetVersion (DecrVersion (UnMark c))) = unat (GetVersion (cell s)) - 1"
    using un H(2) D(2) by (simp_all add: IncrVersion_frame GetVersion_DecrVersion assms(3))
  show ?thesis
  proof (rule sp_invI)
    show "unat (GetVersion (cell ?s)) = card {u. held (pcs ?s u) \<noteq> None}" using H(1) w(3) D(2) by simp
    show "held (pcs ?s u) = Some r \<Longrightarrow> r = GetRawPtr (cell ?s) \<and> GetRawPtr (cell ?s) \<noteq> 0" for u r
      using D(4)[of u r] w(1) by (auto split: if_splits)
    show "owned (pcs ?s u) \<noteq> 0 \<Longrightarrow> objects ?s (owned (pcs ?s u)) \<noteq> None \<and> owned (pcs ?s u) \<noteq> GetRawPtr (cell ?s) \<and>
       unat (owned (pcs ?s u)) < 2 ^ 47" for u
      using D(6)[of u] w(1) by (auto split: if_splits)
    show "owned (pcs ?s u) \<noteq> 0 \<Longrightarrow> owned (pcs ?s u) = owned (pcs ?s u') \<Longrightarrow> u = u'" for u u'
      using D(7)[of u u'] by (auto split: if_splits)
    show "IsMarked (cell ?s) \<longleftrightarrow> (\<exists>u. marking (pcs ?s u) \<noteq> None)" using w(2) nm by simp
    show "copy_ok (objects ?s) (pcs ?s u)" for u using D(11)[of u] by simp
    show "pcs ?s u \<noteq> Idle \<Longrightarrow> u < N" for u using D(3)[of u] t(1) by (cases "u = t") simp_all
    show "GetRawPtr (cell ?s) \<noteq> 0 \<Longrightarrow> objects ?s (GetRawPtr (cell ?s)) \<noteq> None" using D(5) w(1) by simp
    show "N < 2 ^ 14" by (rule D(1))
  qed (use nm2 in simp_all)
qed

text \<open>new and the storers.\<close>

lemma fresh_not_used:
  assumes "sp_inv N s" "objects s a = None" "a \<noteq> 0"
  shows "a \<noteq> GetRawPtr (cell s)" "owned (pcs s t) \<noteq> a"
  using sp_invD(5)[OF assms(1)] sp_invD(6)[OF assms(1), of t] assms(2,3) by auto

lemma copy_ok_mono:
  assumes "copy_ok h p" "\<And>a. h a \<noteq> None \<Longrightarrow> h' a = h a"
  shows "copy_ok h' p"
  using assms by (cases p) auto

lemma inv_allocate:
  assumes "sp_inv N s" "pcs s t = Idle" "t < N" "objects s a = None" "a \<noteq> 0" "unat a < 2 ^ 47"
  shows "sp_inv N ((goto s t (StoreLoad a))\<lparr>objects := (objects s)(a := Some v)\<rparr>)" (is "sp_inv N ?s")
proof -
  note D = sp_invD[OF assms(1)] and F = fresh_not_used[OF assms(1,4,5)]
  have f: "held (pcs ?s u) = held (pcs s u)" "marking (pcs ?s u) = marking (pcs s u)" "cell ?s = cell s"
    "owned (pcs ?s u) = (if u = t then a else owned (pcs s u))" for u
    using assms(2) by simp_all
  have o: "objects s b \<noteq> None \<Longrightarrow> objects ?s b = objects s b" for b using assms(4) by auto
  show ?thesis
  proof (rule sp_invI, unfold f)
    show "pcs ?s u \<noteq> Idle \<Longrightarrow> u < N" for u using D(3)[of u] assms(3) by (cases "u = t") simp_all
    show "copy_ok (objects ?s) (pcs ?s u)" for u
    proof (cases "u = t")
      case False
      have "copy_ok ((objects s)(a := Some v)) (pcs s u)" by (rule copy_ok_mono[OF D(11)]) (use o in simp)
      then show ?thesis using False by simp
    qed simp
    show "held (pcs s u) = Some r \<Longrightarrow> r = GetRawPtr (cell s) \<and> GetRawPtr (cell s) \<noteq> 0" for u r by (rule D(4))
    show "(if u = t then a else owned (pcs s u)) \<noteq> 0 \<Longrightarrow>
        objects ?s (if u = t then a else owned (pcs s u)) \<noteq> None \<and>
        (if u = t then a else owned (pcs s u)) \<noteq> GetRawPtr (cell s) \<and>
        unat (if u = t then a else owned (pcs s u)) < 2 ^ 47" for u
      using D(6)[of u] F(1) assms(6) by (cases "u = t") simp_all
    show "(if u = t then a else owned (pcs s u)) \<noteq> 0 \<Longrightarrow>
        (if u = t then a else owned (pcs s u)) = (if u' = t then a else owned (pcs s u')) \<Longrightarrow> u = u'" for u u'
      using D(7)[of u u'] F(2) by (auto split: if_splits)
    show "marking (pcs s u) = Some r \<Longrightarrow> r = GetRawPtr (cell s) \<and> GetVersion (cell s) = 0" for u r by (rule D(9))
    show "marking (pcs s u) \<noteq> None \<Longrightarrow> marking (pcs s u') \<noteq> None \<Longrightarrow> u = u'" for u u' by (rule D(10))
    show "GetRawPtr (cell s) \<noteq> 0 \<Longrightarrow> objects ?s (GetRawPtr (cell s)) \<noteq> None" using D(5) by simp
  qed (rule D(1), rule D(2), rule D(8))
qed

lemma inv_mark:
  assumes "sp_inv N s" "pcs s t = StoreTry a c" "cell s = PackPtr (GetRawPtr c) 0 False"
  shows "sp_inv N ((goto s t (StorePut a (cell s)))\<lparr>cell := Mark (cell s)\<rparr>)" (is "sp_inv N ?s")
proof -
  note D = sp_invD[OF assms(1)]
  have t: "t < N" using D(3)[of t] assms(2) by simp
  have un: "\<not> IsMarked (cell s)" "unat (GetVersion (cell s)) = 0" by (simp_all add: assms(3) PackPtr_fields)
  then have v: "GetVersion (cell s) = 0" by (simp only: unat_eq_zero)
  have nm: "marking (pcs s u) = None" for u using D(8) un(1) by blast
  have w: "GetRawPtr (cell ?s) = GetRawPtr (cell s)" "GetVersion (cell ?s) = GetVersion (cell s)" "IsMarked (cell ?s)"
    by (simp_all add: mark_frame)
  have f: "held (pcs ?s u) = held (pcs s u)" "owned (pcs ?s u) = owned (pcs s u)"
    "marking (pcs ?s u) = (if u = t then Some (GetRawPtr (cell s)) else None)" "objects ?s = objects s" for u
    using assms(2) nm by simp_all
  show ?thesis
  proof (rule sp_invI, unfold f w)
    show "pcs ?s u \<noteq> Idle \<Longrightarrow> u < N" for u using D(3)[of u] t by (cases "u = t") simp_all
    show "copy_ok (objects s) (pcs ?s u)" for u using D(11)[of u] by simp
    show "held (pcs s u) = Some r \<Longrightarrow> r = GetRawPtr (cell s) \<and> GetRawPtr (cell s) \<noteq> 0" for u r by (rule D(4))
    show "owned (pcs s u) \<noteq> 0 \<Longrightarrow> objects s (owned (pcs s u)) \<noteq> None \<and> owned (pcs s u) \<noteq> GetRawPtr (cell s) \<and>
       unat (owned (pcs s u)) < 2 ^ 47" for u by (rule D(6))
    show "owned (pcs s u) \<noteq> 0 \<Longrightarrow> owned (pcs s u) = owned (pcs s u') \<Longrightarrow> u = u'" for u u' by (rule D(7))
    show "IsMarked (cell ?s) = (\<exists>u. (if u = t then Some (GetRawPtr (cell s)) else None) \<noteq> None)" using w(3) by auto
    show "GetRawPtr (cell s) \<noteq> 0 \<Longrightarrow> objects s (GetRawPtr (cell s)) \<noteq> None" by (rule D(5))
  qed (rule D(1), rule D(2), use v in \<open>auto split: if_splits\<close>)
qed

lemma inv_publish:
  assumes "sp_inv N s" "pcs s t = StorePut a old"
  shows "sp_inv N ((goto s t (StoreFree old))\<lparr>cell := PackPtr a 0 False\<rparr>)" (is "sp_inv N ?s")
proof -
  note D = sp_invD[OF assms(1)]
  have t: "t < N" using D(3)[of t] assms(2) by simp
  have m: "GetRawPtr old = GetRawPtr (cell s)" "GetVersion (cell s) = 0" using D(9)[of t] assms(2) by simp_all
  then have "card {u. held (pcs s u) \<noteq> None} = 0" using D(2) by simp
  then have nh: "held (pcs s u) = None" for u using finite_holders[OF assms(1)] by auto
  have nm: "marking (pcs s u) = None" if "u \<noteq> t" for u
  proof (rule ccontr)
    assume "marking (pcs s u) \<noteq> None"
    from D(10)[OF this, of t] assms(2) that show False by simp
  qed
  have a: "a \<noteq> 0 \<Longrightarrow> objects s a \<noteq> None \<and> a \<noteq> GetRawPtr (cell s) \<and> unat a < 2 ^ 47" using D(6)[of t] assms(2) by simp
  then have ra: "GetRawPtr a = a" by (cases "a = 0") (simp_all add: GetRawPtr_self)
  have w: "GetRawPtr (cell ?s) = a" "\<not> IsMarked (cell ?s)" "unat (GetVersion (cell ?s)) = 0"
    by (simp_all add: PackPtr_fields ra)
  have f: "held (pcs ?s u) = None" "owned (pcs ?s u) = (if u = t then GetRawPtr (cell s) else owned (pcs s u))"
    "marking (pcs ?s u) = None" "objects ?s = objects s" for u
    using nh nm m by simp_all
  have other: "owned (pcs s u) \<noteq> a" if "u \<noteq> t" "owned (pcs s u) \<noteq> 0" for u
    using D(7)[of u t] assms(2) that by auto
  have small: "unat (GetRawPtr (cell s)) < 2 ^ 47"
  proof -
    have "GetRawPtr (cell s) = take_bit 47 (cell s)" by (rule bit_word_eqI) (simp add: bit_GetRawPtr bit_take_bit_iff)
    then show ?thesis by (simp only: unsigned_take_bit_eq take_bit_nat_less_exp)
  qed
  show ?thesis
  proof (rule sp_invI, unfold f)
    show "N < 2 ^ 14" by (rule D(1))
    show "unat (GetVersion (cell ?s)) = card {u. (None :: u64 option) \<noteq> None}" using w(3) by simp
    show "pcs ?s u \<noteq> Idle \<Longrightarrow> u < N" for u using D(3)[of u] t by (cases "u = t") simp_all
    show "GetRawPtr (cell ?s) \<noteq> 0 \<Longrightarrow> objects s (GetRawPtr (cell ?s)) \<noteq> None" unfolding w using a by blast
    show "(if u = t then GetRawPtr (cell s) else owned (pcs s u)) \<noteq> 0 \<Longrightarrow>
        objects s (if u = t then GetRawPtr (cell s) else owned (pcs s u)) \<noteq> None \<and>
        (if u = t then GetRawPtr (cell s) else owned (pcs s u)) \<noteq> GetRawPtr (cell ?s) \<and>
        unat (if u = t then GetRawPtr (cell s) else owned (pcs s u)) < 2 ^ 47" for u
      unfolding w using D(5) D(6)[of u] a other[of u] small by (cases "u = t") auto
    show "(if u = t then GetRawPtr (cell s) else owned (pcs s u)) \<noteq> 0 \<Longrightarrow>
        (if u = t then GetRawPtr (cell s) else owned (pcs s u)) = (if u' = t then GetRawPtr (cell s) else owned (pcs s u')) \<Longrightarrow>
        u = u'" for u u'
      using D(6)[of u] D(6)[of u'] D(7)[of u u'] by (auto split: if_splits)
    show "IsMarked (cell ?s) = (\<exists>u. (None :: u64 option) \<noteq> None)" using w(2) by simp
    show "copy_ok (objects s) (pcs ?s u)" for u using D(11)[of u] by simp
  qed simp_all
qed

lemma inv_delete:
  assumes "sp_inv N s" "pcs s t = StoreDelete old v"
  shows "objects s (GetRawPtr old) \<noteq> None"
    "sp_inv N ((goto s t (StoreDone (Some v)))\<lparr>objects := (objects s)(GetRawPtr old := None)\<rparr>)" (is "sp_inv N ?s")
proof -
  note D = sp_invD[OF assms(1)]
  have t: "t < N" using D(3)[of t] assms(2) by simp
  have c: "GetRawPtr old \<noteq> 0" "objects s (GetRawPtr old) = Some v" using D(11)[of t] assms(2) by simp_all
  then show "objects s (GetRawPtr old) \<noteq> None" by simp
  have ow: "owned (pcs s t) = GetRawPtr old" using assms(2) by simp
  have r: "GetRawPtr old \<noteq> GetRawPtr (cell s)" using D(6)[of t] ow c by simp
  have other: "owned (pcs s u) \<noteq> GetRawPtr old" if "u \<noteq> t" for u using D(7)[of t u] ow c(1) that by metis
  have f: "held (pcs ?s u) = held (pcs s u)" "marking (pcs ?s u) = marking (pcs s u)" "cell ?s = cell s"
    "owned (pcs ?s u) = (if u = t then 0 else owned (pcs s u))" for u
    using assms(2) by simp_all
  show "sp_inv N ?s"
  proof (rule sp_invI, unfold f)
    show "pcs ?s u \<noteq> Idle \<Longrightarrow> u < N" for u using D(3)[of u] t by (cases "u = t") simp_all
    show "held (pcs s u) = Some r \<Longrightarrow> r = GetRawPtr (cell s) \<and> GetRawPtr (cell s) \<noteq> 0" for u r by (rule D(4))
    show "GetRawPtr (cell s) \<noteq> 0 \<Longrightarrow> objects ?s (GetRawPtr (cell s)) \<noteq> None" using D(5) r by simp
    show "(if u = t then 0 else owned (pcs s u)) \<noteq> 0 \<Longrightarrow>
        objects ?s (if u = t then 0 else owned (pcs s u)) \<noteq> None \<and>
        (if u = t then 0 else owned (pcs s u)) \<noteq> GetRawPtr (cell s) \<and>
        unat (if u = t then 0 else owned (pcs s u)) < 2 ^ 47" for u
      using D(6)[of u] other[of u] by (cases "u = t") simp_all
    show "(if u = t then 0 else owned (pcs s u)) \<noteq> 0 \<Longrightarrow>
        (if u = t then 0 else owned (pcs s u)) = (if u' = t then 0 else owned (pcs s u')) \<Longrightarrow> u = u'" for u u'
      using D(7)[of u u'] by (auto split: if_splits)
    show "marking (pcs s u) = Some r \<Longrightarrow> r = GetRawPtr (cell s) \<and> GetVersion (cell s) = 0" for u r by (rule D(9))
    show "marking (pcs s u) \<noteq> None \<Longrightarrow> marking (pcs s u') \<noteq> None \<Longrightarrow> u = u'" for u u' by (rule D(10))
    show "copy_ok (objects ?s) (pcs ?s u)" for u
    proof (cases "u = t")
      case False
      have "copy_ok ((objects s)(GetRawPtr old := None)) (pcs s u)"
        using D(11)[of u] D(4)[of u] other[OF False] r by (cases "pcs s u") auto
      then show ?thesis using False by simp
    qed simp
  qed (rule D(1), rule D(2), rule D(8))
qed

section \<open>Steps keep the invariant\<close>

lemma sstep_inv:
  assumes "sstep N s s'" "sp_inv N s"
  shows "sp_inv N s'"
  using assms(1)
proof cases
  case (load_call t)
  then show ?thesis using assms(2) by (auto intro: inv_local)
next
  case (load_null t c)
  then show ?thesis using assms(2) sp_invD(3)[OF assms(2), of t] by (auto intro!: inv_local)
next
  case (load_cas t c sp ok c' w)
  have t: "t < N" using sp_invD(3)[OF assms(2), of t] load_cas(2) by simp
  show ?thesis
  proof (rule CasWeak_cases[OF load_cas(4)])
    assume "ok" "cell s = UnMark c" "w = IncrVersion (UnMark c)"
    then show ?thesis using inv_acquire[OF assms(2) load_cas(2,3)] load_cas(1) by simp
  next
    assume "\<not> ok"
    then show ?thesis using assms(2) t load_cas(1,2) by (auto intro!: inv_local)
  qed
next
  case (load_read t c)
  have t: "t < N" using sp_invD(3)[OF assms(2), of t] load_read(2) by simp
  have "held (pcs s t) = Some (GetRawPtr c)" using load_read(2) by simp
  from sp_invD(4)[OF assms(2) this] sp_invD(5)[OF assms(2)] obtain v where v: "objects s (GetRawPtr c) = Some v" by auto
  then show ?thesis using assms(2) t load_read by (auto intro!: inv_local)
next
  case (load_rel t c v sp ok c' w)
  have t: "t < N" using sp_invD(3)[OF assms(2), of t] load_rel(2) by simp
  have h: "held (pcs s t) = Some (GetRawPtr c)" using load_rel(2) by simp
  show ?thesis
  proof (rule CasWeak_cases[OF load_rel(3)])
    assume "ok" "cell s = UnMark c" "w = DecrVersion (UnMark c)"
    then show ?thesis using inv_release[OF assms(2) load_rel(2)] load_rel(1) by simp
  next
    assume f: "\<not> ok" "c' = cell s"
    have "GetRawPtr c = GetRawPtr (cell s)" using sp_invD(4)[OF assms(2) h] by simp
    then show ?thesis using assms(2) t f load_rel(1,2) h sp_invD(11)[OF assms(2), of t] by (auto intro!: inv_local)
  qed
next
  case (load_return t r)
  then show ?thesis using assms(2) sp_invD(3)[OF assms(2), of t] by (auto intro!: inv_local)
next
  case (store_call t v a)
  show ?thesis
  proof (cases v)
    case None
    then show ?thesis using store_call assms(2) by (auto simp: allocates_def intro!: inv_local)
  next
    case (Some x)
    then show ?thesis using store_call assms(2) inv_allocate[OF assms(2) store_call(3,2), of a x] by (simp add: allocates_def)
  qed
next
  case (store_load t a)
  then show ?thesis using assms(2) sp_invD(3)[OF assms(2), of t] by (auto intro!: inv_local)
next
  case (store_cas t a c old sp ok c' w)
  have t: "t < N" using sp_invD(3)[OF assms(2), of t] store_cas(2) by simp
  show ?thesis
  proof (rule CasWeak_cases[OF store_cas(4)])
    assume "ok" "cell s = old" "w = Mark old"
    then show ?thesis using inv_mark[OF assms(2) store_cas(2)] store_cas(1,3) by simp
  next
    assume "\<not> ok"
    then show ?thesis using assms(2) t store_cas(1,2) by (auto intro!: inv_local)
  qed
next
  case (store_put t a old)
  then show ?thesis using inv_publish[OF assms(2)] by (simp add: atomic_defs)
next
  case (store_free t old)
  have t: "t < N" using sp_invD(3)[OF assms(2), of t] store_free(2) by simp
  show ?thesis
  proof (cases "GetRawPtr old = 0")
    case True
    then show ?thesis using assms(2) t store_free by (auto intro!: inv_local)
  next
    case False
    then obtain v where "objects s (GetRawPtr old) = Some v" using sp_invD(6)[OF assms(2), of t] store_free(2) by auto
    then show ?thesis using False assms(2) t store_free by (auto intro!: inv_local)
  qed
next
  case (store_delete t old v)
  then show ?thesis using inv_delete[OF assms(2)] by simp
next
  case (store_return t r)
  then show ?thesis using assms(2) sp_invD(3)[OF assms(2), of t] by (auto intro!: inv_local)
qed

lemma new_inv:
  assumes "N < 2 ^ 14" "allocates Map.empty v a"
  shows "sp_inv N (AtomicSharedPtr_new v a)"
proof -
  have a: "GetRawPtr (PackPtr a 0 False) = a" "a \<noteq> 0 \<longrightarrow> v \<noteq> None"
    using assms(2) GetRawPtr_self[of a] GetRawPtr_self[of 0] by (auto simp: allocates_def PackPtr_fields split: option.splits)
  have u: "unat (GetVersion (PackPtr a 0 False)) = 0" by (simp add: PackPtr_fields)
  show ?thesis
    by (rule sp_invI) (use assms(1) a u in \<open>auto simp: AtomicSharedPtr_new_def atomic_defs PackPtr_fields\<close>)
qed

lemma sreach_inv:
  assumes "sreach N s0 s" "sp_inv N s0"
  shows "sp_inv N s"
  using assms by induction (auto intro: sstep_inv)

section \<open>Properties\<close>

text \<open>C22: With fewer than 2^14 threads, no interleaving of loads and stores reads or deletes an object that has
  been deleted. An object a loader is copying is the one the word points to, it is
  live, no storer is about to delete it, and the value a loader has copied is the current value until it
  releases the object.\<close>

theorem shared_ptr_safe:
  assumes "sreach N (AtomicSharedPtr_new v a) s" "N < 2 ^ 14" "allocates Map.empty v a"
  shows "pcs s t \<noteq> Fault \<and>
    (\<forall>c. pcs s t = LoadRead c \<longrightarrow> GetRawPtr c = GetRawPtr (cell s) \<and> objects s (GetRawPtr c) \<noteq> None) \<and>
    (\<forall>c x. pcs s t = LoadRel c x \<longrightarrow> objects s (GetRawPtr (cell s)) = Some x) \<and>
    (\<forall>t' old. pcs s t' = StoreFree old \<longrightarrow> GetRawPtr old \<noteq> 0 \<longrightarrow>
       GetRawPtr old \<noteq> GetRawPtr (cell s) \<and> objects s (GetRawPtr old) \<noteq> None)"
proof -
  have inv: "sp_inv N s" by (rule sreach_inv[OF assms(1) new_inv[OF assms(2,3)]])
  note D = sp_invD[OF inv]
  show ?thesis
  proof (intro conjI allI impI)
    show "pcs s t \<noteq> Fault" using D(11)[of t] by auto
    show "GetRawPtr c = GetRawPtr (cell s)" "objects s (GetRawPtr c) \<noteq> None" if "pcs s t = LoadRead c" for c
      using D(4)[of t "GetRawPtr c"] D(5) that by auto
    show "objects s (GetRawPtr (cell s)) = Some x" if "pcs s t = LoadRel c x" for c x
      using D(4)[of t "GetRawPtr c"] D(11)[of t] that by auto
    show "GetRawPtr old \<noteq> GetRawPtr (cell s)" "objects s (GetRawPtr old) \<noteq> None"
      if "pcs s t' = StoreFree old" "GetRawPtr old \<noteq> 0" for t' old
      using D(6)[of t'] that by auto
  qed
qed

lemma shared_ptr_safe_witness:
  "\<exists>s c. sreach 1 (AtomicSharedPtr_new (Some (7 :: nat)) 64) s \<and> pcs s 0 = LoadRead c \<and> objects s (GetRawPtr c) \<noteq> None"
proof -
  let ?s0 = "AtomicSharedPtr_new (Some (7 :: nat)) 64" and ?c = "PackPtr 64 0 False"
  let ?s1 = "goto ?s0 0 (LoadTry ?c)"
  let ?s2 = "(goto ?s1 0 (LoadRead (UnMark ?c)))\<lparr>cell := IncrVersion (UnMark ?c)\<rparr>"
  have c: "cell ?s0 = ?c" "pcs ?s0 = (\<lambda>_. Idle)" by (simp_all add: AtomicSharedPtr_new_def atomic_defs)
  have u: "UnMark ?c = ?c" by (rule bit_word_eqI) (simp add: bit_UnMark bit_PackPtr)
  have r: "GetRawPtr ?c \<noteq> 0" by (simp add: PackPtr_fields GetRawPtr_self)
  have "sreach 1 ?s0 ?s1"
    using sreach.step[OF sreach.start sstep.load_call[of 0 1 ?s0]] c by (simp add: atomic_defs)
  moreover have "sstep 1 ?s1 (if True then ?s2 else goto ?s1 0 (LoadTry ?c))"
    by (rule sstep.load_cas[where sp = False]) (use r c u in \<open>simp_all add: atomic_defs\<close>)
  ultimately have reach: "sreach 1 ?s0 ?s2" by (simp add: sreach.step)
  have "pcs ?s2 0 = LoadRead (UnMark ?c)" by simp
  moreover have "allocates Map.empty (Some (7 :: nat)) 64" by (simp add: allocates_def)
  ultimately show ?thesis using shared_ptr_safe[OF reach, of 0] reach by auto
qed

text \<open>Every object is the current one or in the hands of one storer.\<close>

definition leak_free :: "'v spsys \<Rightarrow> bool" where
  "leak_free s \<longleftrightarrow> (\<forall>b. objects s b \<noteq> None \<longrightarrow> b \<noteq> 0 \<and> (b = GetRawPtr (cell s) \<or> (\<exists>t. owned (pcs s t) = b)))"

lemma leak_local:
  assumes "leak_free s" "owned c = owned (pcs s t)" "GetRawPtr w = GetRawPtr (cell s)"
  shows "leak_free ((goto s t c)\<lparr>cell := w\<rparr>)" "leak_free (goto s t c)"
proof -
  have o: "owned (((pcs s)(t := c)) u) = owned (pcs s u)" for u using assms(2) by simp
  show "leak_free ((goto s t c)\<lparr>cell := w\<rparr>)" "leak_free (goto s t c)"
    using assms(1,3) o by (simp_all add: leak_free_def)
qed

lemma sstep_leak_free:
  assumes "sstep N s s'" "sp_inv N s" "leak_free s"
  shows "leak_free s'"
  using assms(1)
proof cases
  case (load_cas t c sp ok c' w)
  show ?thesis
  proof (rule CasWeak_cases[OF load_cas(4)])
    assume a: "ok" "cell s = UnMark c" "w = IncrVersion (UnMark c)"
    then have "GetRawPtr w = GetRawPtr (cell s)" by (simp add: IncrVersion_frame)
    then show ?thesis using load_cas(1,2) a(1) assms(3) leak_local(1)[of s "LoadRead (UnMark c)" t w] by simp
  qed (use load_cas(1,2) assms(3) in \<open>simp add: leak_local(2)\<close>)
next
  case (load_rel t c v sp ok c' w)
  show ?thesis
  proof (rule CasWeak_cases[OF load_rel(3)])
    assume a: "ok" "cell s = UnMark c" "w = DecrVersion (UnMark c)"
    then have "GetRawPtr w = GetRawPtr (cell s)" by (simp add: IncrVersion_frame)
    then show ?thesis using load_rel(1,2) a(1) assms(3) leak_local(1)[of s "LoadDone (Some v)" t w] by simp
  qed (use load_rel(1,2) assms(3) in \<open>simp add: leak_local(2)\<close>)
next
  case (store_cas t a c old sp ok c' w)
  show ?thesis
  proof (rule CasWeak_cases[OF store_cas(4)])
    assume a: "ok" "cell s = old" "w = Mark old"
    then have "GetRawPtr w = GetRawPtr (cell s)" by (simp add: mark_frame)
    then show ?thesis using store_cas(1,2) a(1) assms(3) leak_local(1)[of s "StorePut a old" t w] by simp
  qed (use store_cas(1,2) assms(3) in \<open>simp add: leak_local(2)\<close>)
next
  case (store_call t v a)
  have own: "owned (((pcs s)(t := StoreLoad a)) u) = (if u = t then a else owned (pcs s u))" for u by simp
  show ?thesis
    unfolding leak_free_def
  proof (intro allI impI)
    fix b assume b: "objects s' b \<noteq> None"
    show "b \<noteq> 0 \<and> (b = GetRawPtr (cell s') \<or> (\<exists>u. owned (pcs s' u) = b))"
    proof (cases "v \<noteq> None \<and> b = a")
      case True
      then show ?thesis using store_call by (auto simp: allocates_def)
    next
      case False
      then have "objects s b \<noteq> None" using b store_call(1) by (auto split: if_splits)
      then have "b \<noteq> 0 \<and> (b = GetRawPtr (cell s) \<or> (\<exists>u. owned (pcs s u) = b))" using assms(3) by (simp add: leak_free_def)
      moreover have "owned (pcs s t) = 0" using store_call(3) by simp
      ultimately have "b \<noteq> 0 \<and> (b = GetRawPtr (cell s) \<or> (\<exists>u. u \<noteq> t \<and> owned (pcs s u) = b))" by metis
      then show ?thesis using store_call(1) own by auto
    qed
  qed
next
  case (store_put t a old)
  have "GetRawPtr old = GetRawPtr (cell s)" using sp_invD(9)[OF assms(2), of t] store_put(2) by simp
  moreover have "GetRawPtr (PackPtr a 0 False) = a"
    using sp_invD(6)[OF assms(2), of t] store_put(2) GetRawPtr_self[of a] GetRawPtr_self[of 0]
    by (cases "a = 0") (simp_all add: PackPtr_fields)
  moreover have "owned (pcs s t) = a" using store_put(2) by simp
  moreover have "objects s' = objects s" "cell s' = PackPtr a 0 False" "\<And>u. pcs s' u = (if u = t then StoreFree old else pcs s u)"
    using store_put(1) by (simp_all add: atomic_defs)
  ultimately show ?thesis using assms(3) unfolding leak_free_def by (metis owned.simps(4))
next
  case (store_delete t old v)
  obtain y where "objects s (GetRawPtr old) = Some y" using inv_delete(1)[OF assms(2) store_delete(2)] by blast
  then have s': "objects s' = (objects s)(GetRawPtr old := None)" "cell s' = cell s"
    "\<And>u. pcs s' u = (if u = t then StoreDone (Some v) else pcs s u)" using store_delete(1) by simp_all
  have own: "owned (pcs s t) = GetRawPtr old" using store_delete(2) by simp
  show ?thesis
    unfolding leak_free_def
  proof (intro allI impI)
    fix b assume b: "objects s' b \<noteq> None"
    then have "b \<noteq> GetRawPtr old" "objects s b \<noteq> None" using s'(1) by (auto split: if_splits)
    then have "b \<noteq> 0 \<and> (b = GetRawPtr (cell s) \<or> (\<exists>u. u \<noteq> t \<and> owned (pcs s u) = b))"
      using assms(3) own unfolding leak_free_def by metis
    then show "b \<noteq> 0 \<and> (b = GetRawPtr (cell s') \<or> (\<exists>u. owned (pcs s' u) = b))" using s'(2,3) by auto
  qed
next
  case (store_free t old)
  have "owned (if GetRawPtr old = 0 then StoreDone None
       else case objects s (GetRawPtr old) of None \<Rightarrow> Fault | Some v \<Rightarrow> StoreDelete old v) = owned (pcs s t)"
    using store_free(2) sp_invD(6)[OF assms(2), of t] by (cases "GetRawPtr old = 0") (auto split: option.splits)
  then show ?thesis using store_free(1) leak_local(2)[OF assms(3)] by simp
next
  case (load_read t c)
  have "owned (case objects s (GetRawPtr c) of None \<Rightarrow> Fault | Some v \<Rightarrow> LoadRel c v) = owned (pcs s t)"
    using load_read(2) by (auto split: option.splits)
  then show ?thesis using load_read(1) leak_local(2)[OF assms(3)] by simp
qed (use assms(3) in \<open>simp_all add: leak_local(2)\<close>)

lemma sreach_leak_free:
  assumes "sreach N s0 s" "sp_inv N s0" "leak_free s0"
  shows "leak_free s"
  using assms
proof induction
  case (step s s')
  then show ?case using sstep_leak_free sreach_inv by blast
qed

text \<open>C32: Nothing leaks: when all threads are idle the word is unmarked, its version is back to 0, the only object
  left is the one it points to, and the destructor deletes that one, exactly once.\<close>

theorem shared_ptr_no_leak:
  assumes "sreach N (AtomicSharedPtr_new v a) s" "N < 2 ^ 14" "allocates Map.empty v a" "\<forall>t. pcs s t = Idle"
  shows "\<not> IsMarked (cell s) \<and> GetVersion (cell s) = 0 \<and>
    (\<exists>s'. AtomicSharedPtr_destroy s = Some s' \<and> objects s' = Map.empty)"
proof -
  have inv0: "sp_inv N (AtomicSharedPtr_new v a)" by (rule new_inv[OF assms(2,3)])
  have inv: "sp_inv N s" by (rule sreach_inv[OF assms(1) inv0])
  note D = sp_invD[OF inv]
  have a: "GetRawPtr (PackPtr a 0 False) = a"
    using assms(3) GetRawPtr_self[of a] GetRawPtr_self[of 0] by (auto simp: allocates_def PackPtr_fields split: option.splits)
  have "leak_free (AtomicSharedPtr_new v a)"
    using assms(3) a by (auto simp: leak_free_def AtomicSharedPtr_new_def atomic_defs allocates_def split: if_splits option.splits)
  then have lf: "leak_free s" using sreach_leak_free[OF assms(1) inv0] by blast
  have m: "\<not> IsMarked (cell s)" using D(8) assms(4) by simp
  have "unat (GetVersion (cell s)) = 0" using D(2) assms(4) by simp
  then have v: "GetVersion (cell s) = 0" by (simp only: unat_eq_zero)
  have ob: "b \<noteq> 0 \<and> b = GetRawPtr (cell s)" if "objects s b \<noteq> None" for b
    using lf that assms(4) by (auto simp: leak_free_def)
  show ?thesis
  proof (cases "GetRawPtr (cell s) = 0")
    case True
    then have "objects s = Map.empty" using ob by (intro ext) fastforce
    then show ?thesis using m v True by (simp add: AtomicSharedPtr_destroy_def atomic_defs)
  next
    case False
    then have "(objects s)(GetRawPtr (cell s) := None) = Map.empty" using ob by (intro ext) fastforce
    then show ?thesis using m v False D(5) by (simp add: AtomicSharedPtr_destroy_def atomic_defs Let_def)
  qed
qed

lemma shared_ptr_no_leak_witness:
  "\<exists>s'. AtomicSharedPtr_destroy (AtomicSharedPtr_new (Some (7 :: nat)) 64) = Some s' \<and> objects s' = Map.empty"
  using shared_ptr_no_leak[OF sreach.start, of 1 "Some (7 :: nat)" 64]
  by (simp add: allocates_def) (simp add: AtomicSharedPtr_new_def)

section \<open>The bound on the number of threads\<close>

text \<open>n loaders have raised the version and none has copied the object yet.\<close>

definition crowd :: "'v \<Rightarrow> nat \<Rightarrow> 'v spsys" where
  "crowd x n = \<lparr>cell = PackPtr 64 (of_nat n) False, objects = Map.empty(64 := Some x),
     pcs = (\<lambda>t. if t < n then LoadRead (PackPtr 64 (of_nat t) False) else Idle)\<rparr>"

lemma UnMark_PackPtr: "UnMark (PackPtr p v False) = PackPtr p v False"
  by (rule bit_word_eqI) (simp add: bit_UnMark bit_PackPtr)

lemma raw_64: "GetRawPtr (PackPtr 64 v m) = 64"
  by (simp add: PackPtr_fields GetRawPtr_self)

lemma crowd_grows:
  assumes "sreach N s0 (crowd x n)" "n < 2 ^ 14" "n < N"
  shows "sreach N s0 (crowd x (n + 1))"
proof -
  let ?c = "PackPtr 64 (of_nat n) False"
  let ?s = "goto (crowd x n) n (LoadTry ?c)"
  have "sstep N (crowd x n) (goto (crowd x n) n (LoadTry (LoadAcquire (cell (crowd x n)))))"
    by (rule sstep.load_call) (use assms(3) in \<open>simp_all add: crowd_def\<close>)
  then have "sreach N s0 ?s" using sreach.step[OF assms(1)] by (simp add: crowd_def atomic_defs)
  moreover have "sstep N ?s (if True then (goto ?s n (LoadRead (UnMark ?c)))\<lparr>cell := IncrVersion (UnMark ?c)\<rparr> else goto ?s n (LoadTry ?c))"
    by (rule sstep.load_cas[where sp = False]) (simp_all add: raw_64 atomic_defs crowd_def UnMark_PackPtr)
  ultimately have "sreach N s0 ((goto ?s n (LoadRead (UnMark ?c)))\<lparr>cell := IncrVersion (UnMark ?c)\<rparr>)"
    by (simp add: sreach.step)
  moreover have "(goto ?s n (LoadRead (UnMark ?c)))\<lparr>cell := IncrVersion (UnMark ?c)\<rparr> = crowd x (n + 1)"
    using IncrVersion_PackPtr[OF assms(2), of 64 False] by (auto simp: crowd_def UnMark_PackPtr fun_eq_iff less_Suc_eq)
  ultimately show ?thesis by simp
qed

lemma crowd_reached: "n \<le> 2 ^ 14 \<Longrightarrow> n \<le> N \<Longrightarrow> sreach N (AtomicSharedPtr_new (Some x) 64) (crowd x n)"
proof (induction n)
  case 0
  have "AtomicSharedPtr_new (Some x) 64 = crowd x 0" by (simp add: AtomicSharedPtr_new_def crowd_def atomic_defs)
  then show ?case by (simp add: sreach.start)
next
  case (Suc n)
  then show ?case using crowd_grows[of N "AtomicSharedPtr_new (Some x) 64" x n] by simp
qed

text \<open>C35: The bound on the number of threads is needed: the 14-bit version wraps around when 2^14 loaders
  are copying the object at once, and one more thread that stores then deletes it under them, so that a loader
  reads a deleted object.\<close>

theorem shared_ptr_overflow:
  "\<exists>s. sreach (2 ^ 14 + 1) (AtomicSharedPtr_new (Some x) 64) s \<and> pcs s 0 = Fault"
proof -
  let ?s0 = "AtomicSharedPtr_new (Some x) 64" and ?c = "PackPtr 64 0 False"
  define M N :: nat where "M = 2 ^ 14" and "N = 2 ^ 14 + 1"
  define A where "A = crowd x M"
  have "cell A = PackPtr 64 (of_nat (2 ^ 14)) False" by (simp only: A_def M_def crowd_def spsys.simps)
  then have w: "cell A = ?c" by (simp only: PackPtr_wraps)
  have idle: "pcs A M = Idle" and obj: "objects A = Map.empty(64 := Some x)" and p0: "pcs A 0 = LoadRead ?c"
    and M: "M < N" "M \<noteq> 0" "0 \<noteq> M"
    by (simp_all add: A_def crowd_def M_def N_def)
  have next_s: "sreach N ?s0 s'" if "sreach N ?s0 s" "sstep N s s'" for s s' using that by (rule sreach.step)
  have a: "sreach N ?s0 A" unfolding A_def by (rule crowd_reached) (simp_all add: M_def N_def)
  let ?b = "goto A M (StoreLoad 0)"
  have b: "sreach N ?s0 ?b" using next_s[OF a sstep.store_call[of M N A None 0]] idle M by (simp add: allocates_def)
  let ?d = "goto ?b M (StoreTry 0 ?c)"
  have d: "sreach N ?s0 ?d" using next_s[OF b sstep.store_load[of ?b M 0]] w by (simp add: atomic_defs)
  let ?e = "(goto ?d M (StorePut 0 ?c))\<lparr>cell := Mark ?c\<rparr>"
  have "sstep N ?d (if True then ?e else goto ?d M (StoreTry 0 ?c))"
    by (rule sstep.store_cas[where sp = False and c = ?c]) (simp_all add: raw_64 w atomic_defs)
  then have e: "sreach N ?s0 ?e" using next_s[OF d] by simp
  let ?f = "(goto ?e M (StoreFree ?c))\<lparr>cell := PackPtr 0 0 False\<rparr>"
  have f: "sreach N ?s0 ?f" using next_s[OF e sstep.store_put[of ?e M 0 ?c]] by (simp add: atomic_defs)
  let ?g = "goto ?f M (StoreDelete ?c x)"
  have g: "sreach N ?s0 ?g" using next_s[OF f sstep.store_free[of ?f M ?c]] obj by (simp add: raw_64)
  let ?h = "(goto ?g M (StoreDone (Some x)))\<lparr>objects := (objects ?g)(64 := None)\<rparr>"
  have h: "sreach N ?s0 ?h" using next_s[OF g sstep.store_delete[of ?g M ?c x]] obj by (simp add: raw_64)
  have "sreach N ?s0 (goto ?h 0 Fault)"
    using next_s[OF h sstep.load_read[of ?h 0 ?c]] obj p0 M by (simp add: raw_64)
  then show ?thesis unfolding N_def by (intro exI[of _ "goto ?h 0 Fault"]) simp
qed

end
