(* ===== verification/SP_Linear.thy ===== *)
theory SP_Linear
  imports Shared_Ptr
begin

text \<open>
  AtomicSharedPtr against the class behind the #else of hash_skip/atomic_shared_ptr.h, which is one
  std::atomic<std::shared_ptr>: its Load is one atomic load, its Store one atomic exchange. The versioned
  implementation with fewer than 2^14 threads does nothing the atomic one cannot do: a load takes effect when it raises the
  version or sees null, a store when it publishes its pointer.
\<close>

section \<open>One atomic register\<close>

datatype 'v call =
    NoCall
  | LoadCall
  | StoreCall "'v option"
  | Ret "'v option"

record 'v register =
  ptr :: "'v option"
  calls :: "nat \<Rightarrow> 'v call"

abbreviation call_to :: "'v register \<Rightarrow> nat \<Rightarrow> 'v call \<Rightarrow> 'v register" where
  "call_to r t c \<equiv> r\<lparr>calls := (calls r)(t := c)\<rparr>"

definition register_new :: "'v option \<Rightarrow> 'v register" where
  "register_new v = \<lparr>ptr = v, calls = (\<lambda>_. NoCall)\<rparr>"

inductive reg_step :: "nat \<Rightarrow> 'v register \<Rightarrow> 'v register \<Rightarrow> bool" for N where
  load_called: "t < N \<Longrightarrow> calls r t = NoCall \<Longrightarrow> reg_step N r (call_to r t LoadCall)"
| store_called: "t < N \<Longrightarrow> calls r t = NoCall \<Longrightarrow> reg_step N r (call_to r t (StoreCall v))"
| atomic_load: "calls r t = LoadCall \<Longrightarrow> reg_step N r (call_to r t (Ret (LoadAcquire (ptr r))))"
| atomic_exchange: "calls r t = StoreCall v \<Longrightarrow> ExchangeAcqRel (ptr r) v = (old, w) \<Longrightarrow>
    reg_step N r ((call_to r t (Ret old))\<lparr>ptr := w\<rparr>)"
| returned: "calls r t = Ret v \<Longrightarrow> reg_step N r (call_to r t NoCall)"

section \<open>The refinement mapping\<close>

definition value_at :: "(u64 \<Rightarrow> 'v option) \<Rightarrow> u64 \<Rightarrow> 'v option" where
  "value_at h a = (if a = 0 then None else h a)"

fun call_of :: "(u64 \<Rightarrow> 'v option) \<Rightarrow> 'v pc \<Rightarrow> 'v call" where
  "call_of h Idle = NoCall"
| "call_of h (LoadTry c) = (if GetRawPtr c = 0 then Ret None else LoadCall)"
| "call_of h (LoadRead c) = Ret (value_at h (GetRawPtr c))"
| "call_of h (LoadRel c v) = Ret (Some v)"
| "call_of h (LoadDone r) = Ret r"
| "call_of h (StoreLoad a) = StoreCall (value_at h a)"
| "call_of h (StoreTry a c) = StoreCall (value_at h a)"
| "call_of h (StorePut a c) = StoreCall (value_at h a)"
| "call_of h (StoreFree c) = Ret (value_at h (GetRawPtr c))"
| "call_of h (StoreDelete c v) = Ret (Some v)"
| "call_of h (StoreDone r) = Ret r"
| "call_of h Fault = NoCall"

definition register_of :: "'v spsys \<Rightarrow> 'v register" where
  "register_of s = \<lparr>ptr = value_at (objects s) (GetRawPtr (cell s)), calls = (\<lambda>t. call_of (objects s) (pcs s t))\<rparr>"

lemma call_of_cong:
  "(\<And>b. b \<noteq> 0 \<Longrightarrow> held p = Some b \<or> owned p = b \<Longrightarrow> h' b = h b) \<Longrightarrow> call_of h' p = call_of h p"
  by (cases p) (auto simp: value_at_def)

lemma register_goto:
  assumes "\<And>t'. t' \<noteq> t \<Longrightarrow> call_of h (pcs s t') = call_of (objects s) (pcs s t')" "value_at h (GetRawPtr w) = v"
  shows "register_of ((goto s t p)\<lparr>cell := w, objects := h\<rparr>) = (call_to (register_of s) t (call_of h p))\<lparr>ptr := v\<rparr>"
  using assms by (auto simp: register_of_def)

text \<open>A step of one thread that leaves the heap as it is.\<close>

lemma register_local: "register_of (goto s t p) = call_to (register_of s) t (call_of (objects s) p)"
  by (auto simp: register_of_def)

lemma register_word:
  "GetRawPtr w = GetRawPtr (cell s) \<Longrightarrow> register_of ((goto s t p)\<lparr>cell := w\<rparr>) = call_to (register_of s) t (call_of (objects s) p)"
  by (auto simp: register_of_def)

lemma call_to_same: "calls r t = c \<Longrightarrow> call_to r t c = r"
  by auto

lemma register_stutter:
  "call_of (objects s) p = call_of (objects s) (pcs s t) \<Longrightarrow> register_of (goto s t p) = register_of s"
  unfolding register_local by (rule call_to_same) (simp add: register_of_def)

lemma calls_register: "calls (register_of s) t = call_of (objects s) (pcs s t)" "ptr (register_of s) = value_at (objects s) (GetRawPtr (cell s))"
  by (simp_all add: register_of_def)

text \<open>Loading the word takes effect at once when it is null.\<close>

lemma register_load:
  assumes "calls (register_of s) t = LoadCall"
  shows "(reg_step N)\<^sup>*\<^sup>* (register_of s) (register_of (goto s t (LoadTry (cell s))))"
proof (cases "GetRawPtr (cell s) = 0")
  case True
  have "reg_step N (register_of s) (call_to (register_of s) t (Ret (LoadAcquire (ptr (register_of s)))))"
    by (rule reg_step.atomic_load[OF assms])
  then show ?thesis using True by (simp add: register_local calls_register value_at_def atomic_defs r_into_rtranclp)
next
  case False
  then have "register_of (goto s t (LoadTry (cell s))) = register_of s"
    unfolding register_local by (intro call_to_same) (simp add: assms)
  then show ?thesis by simp
qed

section \<open>Every step is one of the register\<close>

lemma steps1: "reg_step N r r' \<Longrightarrow> (reg_step N)\<^sup>*\<^sup>* r r'"
  by (rule r_into_rtranclp)

lemma register_stay: "register_of s' = register_of s \<Longrightarrow> (reg_step N)\<^sup>*\<^sup>* (register_of s) (register_of s')"
  by simp

text \<open>The heap of a step that allocates or frees an object no other thread knows.\<close>

lemma register_heap:
  assumes "\<And>t' b. t' \<noteq> t \<Longrightarrow> b \<noteq> 0 \<Longrightarrow> held (pcs s t') = Some b \<or> owned (pcs s t') = b \<Longrightarrow> h b = objects s b"
    "GetRawPtr (cell s) \<noteq> 0 \<Longrightarrow> h (GetRawPtr (cell s)) = objects s (GetRawPtr (cell s))"
  shows "register_of ((goto s t p)\<lparr>objects := h\<rparr>) = call_to (register_of s) t (call_of h p)"
proof -
  have "call_of h (pcs s t') = call_of (objects s) (pcs s t')" if "t' \<noteq> t" for t'
    by (rule call_of_cong) (use assms(1) that in blast)
  then show ?thesis using assms(2) by (auto simp: register_of_def value_at_def)
qed

lemma sstep_register:
  assumes "sstep N s s'" "sp_inv N s"
  shows "(reg_step N)\<^sup>*\<^sup>* (register_of s) (register_of s')"
  using assms(1)
proof cases
  case (load_call t)
  let ?s = "goto s t (LoadTry (cell s))" and ?r = "call_to (register_of s) t LoadCall"
  have "reg_step N (register_of s) ?r" by (rule reg_step.load_called) (use load_call in \<open>simp_all add: calls_register\<close>)
  moreover have "(reg_step N)\<^sup>*\<^sup>* ?r (register_of ?s)"
  proof (cases "GetRawPtr (cell s) = 0")
    case True
    have "reg_step N ?r (call_to ?r t (Ret (LoadAcquire (ptr ?r))))" by (rule reg_step.atomic_load) simp
    then show ?thesis using True by (simp add: register_local calls_register value_at_def atomic_defs steps1)
  qed (simp add: register_local)
  ultimately show ?thesis using load_call(1) by (simp add: atomic_defs converse_rtranclp_into_rtranclp)
next
  case (load_null t c)
  then show ?thesis by (simp add: register_stutter)
next
  case (load_cas t c sp ok c' w)
  have l: "calls (register_of s) t = LoadCall" using load_cas(2,3) by (simp add: calls_register)
  show ?thesis
  proof (rule CasWeak_cases[OF load_cas(4)])
    assume k: "ok" "cell s = UnMark c" "w = IncrVersion (UnMark c)"
    have "reg_step N (register_of s) (call_to (register_of s) t (Ret (LoadAcquire (ptr (register_of s)))))"
      by (rule reg_step.atomic_load[OF l])
    then show ?thesis using load_cas(1) k
      by (simp add: register_word IncrVersion_frame mark_frame calls_register atomic_defs steps1)
  next
    assume "\<not> ok" "c' = cell s"
    then show ?thesis using load_cas(1) register_load[OF l] by simp
  qed
next
  case (load_read t c)
  have "GetRawPtr c \<noteq> 0 \<and> objects s (GetRawPtr c) \<noteq> None"
    using sp_invD(4)[OF assms(2), of t "GetRawPtr c"] sp_invD(5)[OF assms(2)] load_read(2) by simp
  then show ?thesis using load_read by (auto simp: register_stutter value_at_def)
next
  case (load_rel t c v sp ok c' w)
  show ?thesis
  proof (rule CasWeak_cases[OF load_rel(3)])
    assume k: "ok" "cell s = UnMark c" "w = DecrVersion (UnMark c)"
    have "register_of s' = register_of s" using load_rel(1) k load_rel(2)
      by (simp add: register_word IncrVersion_frame mark_frame, intro call_to_same) (simp add: calls_register)
    then show ?thesis by simp
  next
    assume "\<not> ok"
    then show ?thesis using load_rel(1,2) by (simp add: register_stutter)
  qed
next
  case (load_return t r)
  have "reg_step N (register_of s) (call_to (register_of s) t NoCall)"
    by (rule reg_step.returned) (use load_return in \<open>simp add: calls_register\<close>)
  then show ?thesis using load_return by (simp add: register_local steps1)
next
  case (store_call t v a)
  let ?h = "if v = None then objects s else (objects s)(a := v)"
  have "value_at ?h a = v" using store_call(4) by (cases v) (auto simp: value_at_def allocates_def)
  moreover have "?h b = objects s b" if "objects s b \<noteq> None" for b
    using store_call(4) that by (cases v) (auto simp: allocates_def)
  then have "register_of s' = call_to (register_of s) t (call_of ?h (StoreLoad a))"
    unfolding store_call(1) using sp_invD(4-6)[OF assms(2)] by (intro register_heap) metis+
  moreover have "reg_step N (register_of s) (call_to (register_of s) t (StoreCall v))"
    by (rule reg_step.store_called) (use store_call in \<open>simp_all add: calls_register\<close>)
  ultimately show ?thesis by (simp add: steps1)
next
  case (store_load t a)
  then show ?thesis by (simp add: register_stutter)
next
  case (store_cas t a c old sp ok c' w)
  show ?thesis
  proof (rule CasWeak_cases[OF store_cas(4)])
    assume k: "ok" "cell s = old" "w = Mark old"
    have "register_of s' = register_of s" using store_cas(1,2) k
      by (simp add: register_word mark_frame, intro call_to_same) (simp add: calls_register)
    then show ?thesis by simp
  next
    assume "\<not> ok"
    then show ?thesis using store_cas(1,2) by (simp add: register_stutter)
  qed
next
  case (store_put t a old)
  have a: "GetRawPtr (PackPtr a 0 False) = a"
    using sp_invD(6)[OF assms(2), of t] store_put(2) by (cases "a = 0") (simp_all add: PackPtr_fields GetRawPtr_self)
  have m: "GetRawPtr old = GetRawPtr (cell s)" using sp_invD(9)[OF assms(2), of t "GetRawPtr old"] store_put(2) by simp
  let ?v = "value_at (objects s) a" and ?r = "register_of s"
  have "reg_step N ?r ((call_to ?r t (Ret (ptr ?r)))\<lparr>ptr := ?v\<rparr>)"
    by (rule reg_step.atomic_exchange) (use store_put(2) in \<open>simp_all add: calls_register atomic_defs\<close>)
  moreover have "register_of s' = (call_to ?r t (Ret (ptr ?r)))\<lparr>ptr := ?v\<rparr>"
    using store_put(1) a m by (auto simp: register_of_def atomic_defs)
  ultimately show ?thesis by (simp add: steps1)
next
  case (store_free t old)
  have "objects s (GetRawPtr old) \<noteq> None" if "GetRawPtr old \<noteq> 0"
    using sp_invD(6)[OF assms(2), of t] store_free(2) that by simp
  then show ?thesis using store_free by (auto simp: register_stutter value_at_def)
next
  case (store_delete t old v)
  let ?h = "(objects s)(GetRawPtr old := None)"
  have o: "GetRawPtr old \<noteq> 0" "objects s (GetRawPtr old) = Some v" using sp_invD(11)[OF assms(2), of t] store_delete(2) by simp_all
  have nc: "GetRawPtr old \<noteq> GetRawPtr (cell s)" using sp_invD(6)[OF assms(2), of t] store_delete(2) o(1) by simp
  have "?h b = objects s b" if "t' \<noteq> t" "b \<noteq> 0" "held (pcs s t') = Some b \<or> owned (pcs s t') = b" for t' b
    using that sp_invD(4)[OF assms(2), of t' b] sp_invD(7)[OF assms(2), of t' t] nc store_delete(2) by auto
  then have "register_of ((goto s t (StoreDone (Some v)))\<lparr>objects := ?h\<rparr>) = call_to (register_of s) t (call_of ?h (StoreDone (Some v)))"
    by (rule register_heap) (use nc in simp_all)
  moreover have "call_to (register_of s) t (Ret (Some v)) = register_of s" by (rule call_to_same) (simp add: calls_register store_delete(2))
  ultimately show ?thesis using store_delete(1) o(2) by simp
next
  case (store_return t r)
  have "reg_step N (register_of s) (call_to (register_of s) t NoCall)"
    by (rule reg_step.returned) (use store_return in \<open>simp add: calls_register\<close>)
  then show ?thesis using store_return by (simp add: register_local steps1)
qed

lemma register_of_new: "allocates Map.empty v a \<Longrightarrow> register_of (AtomicSharedPtr_new v a) = register_new v"
  by (cases v) (auto simp: register_of_def register_new_def AtomicSharedPtr_new_def allocates_def value_at_def atomic_defs PackPtr_fields GetRawPtr_self)

text \<open>C23: AtomicSharedPtr is linearizable: with fewer than 2^14 threads, every interleaving of its loads and stores is one of a single atomic
  register, of which each Load is one atomic load and each Store one atomic exchange between its call and
  its return. A call that is about to return a value in one is about to return it in the other.\<close>

theorem shared_ptr_linearizable:
  assumes "sreach N (AtomicSharedPtr_new v a) s" "N < 2 ^ 14" "allocates Map.empty v a"
  shows "(reg_step N)\<^sup>*\<^sup>* (register_new v) (register_of s) \<and>
    (\<forall>t r. pcs s t = LoadDone r \<or> pcs s t = StoreDone r \<longrightarrow> calls (register_of s) t = Ret r) \<and>
    (\<forall>t. pcs s t = Idle \<longleftrightarrow> calls (register_of s) t = NoCall)"
proof (intro conjI allI impI)
  have i0: "sp_inv N (AtomicSharedPtr_new v a)" by (rule new_inv[OF assms(2,3)])
  show "(reg_step N)\<^sup>*\<^sup>* (register_new v) (register_of s)"
    using assms(1)
  proof induction
    case start
    then show ?case by (simp add: register_of_new[OF assms(3)])
  next
    case (step s s')
    then show ?case using sstep_register[OF step(2) sreach_inv[OF step(1) i0]] by simp
  qed
  show "calls (register_of s) t = Ret r" if "pcs s t = LoadDone r \<or> pcs s t = StoreDone r" for t r
    using that by (auto simp: calls_register)
  have "pcs s t \<noteq> Fault" for t using sp_invD(11)[OF sreach_inv[OF assms(1) i0], of t] by auto
  then show "pcs s t = Idle \<longleftrightarrow> calls (register_of s) t = NoCall" for t
    by (cases "pcs s t") (auto simp: calls_register)
qed

theorem shared_ptr_linearizable_witness:
  "\<exists>s. sreach 1 (AtomicSharedPtr_new (Some (7 :: nat)) 64) s \<and> pcs s 0 = LoadTry (PackPtr 64 0 False) \<and>
     (reg_step 1)\<^sup>*\<^sup>* (register_new (Some 7)) (register_of s) \<and> calls (register_of s) 0 = LoadCall"
proof -
  let ?s0 = "AtomicSharedPtr_new (Some (7 :: nat)) 64" and ?c = "PackPtr 64 0 False"
  let ?s1 = "goto ?s0 0 (LoadTry ?c)"
  have c: "cell ?s0 = ?c" "pcs ?s0 = (\<lambda>_. Idle)" by (simp_all add: AtomicSharedPtr_new_def atomic_defs)
  have r: "sreach 1 ?s0 ?s1"
    using sreach.step[OF sreach.start sstep.load_call[of 0 1 ?s0]] c by (simp add: atomic_defs)
  have p: "GetRawPtr ?c \<noteq> 0" by (simp add: PackPtr_fields GetRawPtr_self)
  show ?thesis
    using shared_ptr_linearizable[OF r] r p by (intro exI[of _ ?s1]) (simp add: allocates_def calls_register)
qed

end
