(* ===== verification/Lru_Shard.thy ===== *)
theory Lru_Shard
  imports Prelude
begin

text \<open>
  LRUCacheShard of lru/cache_shard.h. The shard is used under its mutex, so one operation at a
  time. A node of the std::list is named by its iterator (a number never used twice); map_ maps a
  key to the iterator of its node, as in the code. What the code leaves undefined is a fault
  value: back of an empty list, an iterator or a reference to a node that is gone. The calls of
  the deleter are logged in the field freed.

  Both eviction loops use the popped node through the reference last after pop_back has destroyed
  it. What such a read gives is the argument popped of the operations: None is the undefined
  behaviour of the language, a fault; Some is an allocator that leaves the memory of the node alone.
\<close>

section \<open>Data\<close>

record 'v lhandle =
  l_value :: "'v option"
  l_del_cb :: "nat option"
  l_charge :: u64

type_synonym ('k, 'v) lentry = "nat \<times> 'k \<times> 'v lhandle"

record ('k, 'v) lru_shard =
  capacity :: u64
  max_entry_num :: int
  usage :: u64
  entries :: "('k, 'v) lentry list"
  lmap :: "'k \<rightharpoonup> nat"
  fresh :: nat
  freed :: "(nat \<times> 'v) list"

record shared_options =
  so_capacity :: u64
  so_entry_num :: int
  so_value_size :: u64

datatype lru_fault = BackOfEmptyList | DanglingIterator | StaleReference | UseAfterPop

section \<open>Operations\<close>

definition GetTotalCharge :: "'v lhandle \<Rightarrow> u64" where
  "GetTotalCharge h = l_charge h"

text \<open>FreeData returns the handle and the call of the deleter it makes, if any.\<close>

definition FreeData :: "'v lhandle \<Rightarrow> 'v lhandle \<times> (nat \<times> 'v) list" where
  "FreeData h =
     (case (l_del_cb h, l_value h) of
        (Some cb, Some v) \<Rightarrow> (h\<lparr>l_value := None, l_charge := 0\<rparr>, [(cb, v)])
      | _ \<Rightarrow> (h, []))"

definition LRUCacheShard_new :: "shared_options \<Rightarrow> ('k, 'v) lru_shard" where
  "LRUCacheShard_new options =
     \<lparr>capacity = so_capacity options,
      max_entry_num = (if 0 < so_entry_num options then so_entry_num options
        else if 0 < so_value_size options then sint (so_capacity options div so_value_size options)
        else 0),
      usage = 0, entries = [], lmap = Map.empty, fresh = 0, freed = []\<rparr>"

definition LRUCacheShard_destroy :: "('k, 'v) lru_shard \<Rightarrow> (nat \<times> 'v) list" where
  "LRUCacheShard_destroy s = freed s @ concat (map (\<lambda>(it, k, h). snd (FreeData h)) (entries s))"

definition GetEntryNum :: "('k, 'v) lru_shard \<Rightarrow> u64" where
  "GetEntryNum s = of_nat (length (entries s))"

definition find_node :: "nat \<Rightarrow> ('k, 'v) lentry list \<Rightarrow> ('k, 'v) lentry option" where
  "find_node it es = find (\<lambda>e. fst e = it) es"

definition splice_front :: "nat \<Rightarrow> ('k, 'v) lentry list \<Rightarrow> ('k, 'v) lentry list" where
  "splice_front it es = filter (\<lambda>e. fst e = it) es @ filter (\<lambda>e. fst e \<noteq> it) es"

definition Get :: "('k, 'v) lru_shard \<Rightarrow> 'k \<Rightarrow> lru_fault + ('v lhandle option \<times> ('k, 'v) lru_shard)" where
  "Get s key =
     (case lmap s key of
        None \<Rightarrow> Inr (None, s)
      | Some it \<Rightarrow>
          (case find_node it (entries s) of
             None \<Rightarrow> Inl DanglingIterator
           | Some (_, _, h) \<Rightarrow> Inr (Some h, s\<lparr>entries := splice_front it (entries s)\<rparr>)))"

text \<open>What a read through a reference to a node that has just been destroyed gives.\<close>

type_synonym ('k, 'v) popped_read = "('k, 'v) lentry \<Rightarrow> ('k, 'v) lentry option"

text \<open>The body both eviction loops share: take the last node out, then free it through the reference.\<close>

definition evict_last :: "('k, 'v) popped_read \<Rightarrow> ('k, 'v) lru_shard \<Rightarrow> lru_fault + ('k, 'v) lru_shard" where
  "evict_last popped s =
     (let (it, key, h) = last (entries s);
          s' = s\<lparr>lmap := (lmap s)(key := None), entries := butlast (entries s)\<rparr>
      in case popped (it, key, h) of
           None \<Rightarrow> Inl UseAfterPop
         | Some (_, _, h) \<Rightarrow>
             let (h, calls) = FreeData h
             in Inr (s'\<lparr>freed := freed s' @ calls, usage := usage s' - GetTotalCharge h\<rparr>))"

lemma evict_last_shorter: "evict_last popped s = Inr s' \<Longrightarrow> entries s' = butlast (entries s)"
  by (auto simp: evict_last_def Let_def split: prod.splits option.splits)

function EvictForCharge :: "('k, 'v) popped_read \<Rightarrow> ('k, 'v) lru_shard \<Rightarrow> u64 \<Rightarrow> lru_fault + ('k, 'v) lru_shard" where
  "EvictForCharge popped s need_charge =
     (if capacity s = 0 then Inr s
      else if usage s + need_charge > capacity s then
        (if entries s = [] then Inl BackOfEmptyList
         else case evict_last popped s of
                Inl e \<Rightarrow> Inl e
              | Inr s \<Rightarrow> EvictForCharge popped s need_charge)
      else Inr s)"
  by pat_completeness auto
termination
  by (relation "measure (\<lambda>(popped, s, _). length (entries s))") (auto dest: evict_last_shorter)

function EvictForOccupancy :: "('k, 'v) popped_read \<Rightarrow> ('k, 'v) lru_shard \<Rightarrow> lru_fault + ('k, 'v) lru_shard" where
  "EvictForOccupancy popped s =
     (if max_entry_num s = 0 then Inr s
      else if GetEntryNum s \<ge> of_int (max_entry_num s) then
        (if entries s = [] then Inl BackOfEmptyList
         else case evict_last popped s of
                Inl e \<Rightarrow> Inl e
              | Inr s \<Rightarrow> EvictForOccupancy popped s)
      else Inr s)"
  by pat_completeness auto
termination
  by (relation "measure (\<lambda>(popped, s). length (entries s))") (auto dest: evict_last_shorter)

declare EvictForCharge.simps [simp del] EvictForOccupancy.simps [simp del]

definition Insert_update :: "('k, 'v) popped_read \<Rightarrow> ('k, 'v) lru_shard \<Rightarrow> nat \<Rightarrow> 'v lhandle \<Rightarrow> lru_fault + ('k, 'v) lru_shard" where
  "Insert_update popped s it handle =
     (case find_node it (entries s) of
        None \<Rightarrow> Inl DanglingIterator
      | Some (_, _, h) \<Rightarrow>
          let need_charge = GetTotalCharge handle - GetTotalCharge h
          in case (if need_charge > 0 then EvictForCharge popped s need_charge else Inr s) of
               Inl e \<Rightarrow> Inl e
             | Inr s \<Rightarrow>
                 if find_node it (entries s) = None then Inl StaleReference
                 else let calls = snd (FreeData h);
                          es = map (\<lambda>(it', k, h'). (it', k, if it' = it then handle else h')) (entries s)
                      in Inr (s\<lparr>entries := splice_front it es, freed := freed s @ calls\<rparr>))"

definition Insert_new :: "('k, 'v) popped_read \<Rightarrow> ('k, 'v) lru_shard \<Rightarrow> 'k \<Rightarrow> 'v lhandle \<Rightarrow> lru_fault + ('k, 'v) lru_shard" where
  "Insert_new popped s key handle =
     (case EvictForCharge popped s (GetTotalCharge handle) of
        Inl e \<Rightarrow> Inl e
      | Inr s \<Rightarrow>
          (case EvictForOccupancy popped s of
             Inl e \<Rightarrow> Inl e
           | Inr s \<Rightarrow>
               Inr (s\<lparr>entries := (fresh s, key, handle) # entries s, lmap := (lmap s)(key \<mapsto> fresh s),
                      fresh := Suc (fresh s), usage := usage s + GetTotalCharge handle\<rparr>)))"

definition Insert :: "('k, 'v) popped_read \<Rightarrow> ('k, 'v) lru_shard \<Rightarrow> 'k \<Rightarrow> 'v lhandle \<Rightarrow> lru_fault + ('k, 'v) lru_shard" where
  "Insert popped s key handle =
     (case lmap s key of
        Some it \<Rightarrow> Insert_update popped s it handle
      | None \<Rightarrow> Insert_new popped s key handle)"

section \<open>The invariant\<close>

definition lru_wf :: "('k, 'v) lru_shard \<Rightarrow> bool" where
  "lru_wf s \<longleftrightarrow>
     distinct (map fst (entries s)) \<and> distinct (map (\<lambda>(it, k, h). k) (entries s)) \<and>
     (\<forall>it \<in> set (map fst (entries s)). it < fresh s) \<and>
     lmap s = map_of (map (\<lambda>(it, k, h). (k, it)) (entries s))"

definition lru_list :: "('k, 'v) lru_shard \<Rightarrow> ('k \<times> 'v lhandle) list" where
  "lru_list s = map snd (entries s)"

definition charges :: "('k \<times> 'v lhandle) list \<Rightarrow> nat" where
  "charges es = sum_list (map (\<lambda>(k, h). unat (l_charge h)) es)"

text \<open>The usage counter is the sum of the charges of the entries.\<close>

definition lru_acc :: "('k, 'v) lru_shard \<Rightarrow> bool" where
  "lru_acc s \<longleftrightarrow> unat (usage s) = charges (lru_list s)"

text \<open>Freeing the handle makes no deleter call and leaves its charge alone.\<close>

definition plain :: "'v lhandle \<Rightarrow> bool" where
  "plain h \<longleftrightarrow> l_del_cb h = None \<or> l_value h = None"

definition all_plain :: "('k, 'v) lru_shard \<Rightarrow> bool" where
  "all_plain s \<longleftrightarrow> (\<forall>(k, h) \<in> set (lru_list s). plain h)"

section \<open>The specification: a list of entries, most recently used first\<close>

text \<open>The longest prefix whose charges fit into b.\<close>

fun fit :: "nat \<Rightarrow> ('k \<times> 'v lhandle) list \<Rightarrow> ('k \<times> 'v lhandle) list" where
  "fit b [] = []"
| "fit b ((k, h) # es) =
     (if unat (l_charge h) \<le> b then (k, h) # fit (b - unat (l_charge h)) es else [])"

definition remove_key :: "'k \<Rightarrow> ('k \<times> 'v) list \<Rightarrow> ('k \<times> 'v) list" where
  "remove_key k es = filter (\<lambda>e. fst e \<noteq> k) es"

definition spec_get :: "'k \<Rightarrow> ('k \<times> 'v) list \<Rightarrow> 'v option \<times> ('k \<times> 'v) list" where
  "spec_get k es =
     (case map_of es k of None \<Rightarrow> (None, es) | Some h \<Rightarrow> (Some h, (k, h) # remove_key k es))"

definition spec_insert ::
  "nat \<Rightarrow> nat \<Rightarrow> 'k \<Rightarrow> 'v lhandle \<Rightarrow> ('k \<times> 'v lhandle) list \<Rightarrow> ('k \<times> 'v lhandle) list" where
  "spec_insert cap max_num k h es =
     (k, h) # (if map_of es k \<noteq> None then remove_key k es
       else let es = (if cap = 0 then es else fit (cap - unat (l_charge h)) es)
            in if max_num = 0 then es else take (max_num - 1) es)"

lemma charges_simps [simp]:
  "charges [] = 0" "charges ((k, h) # es) = unat (l_charge h) + charges es"
  "charges (es @ fs) = charges es + charges fs"
  by (simp_all add: charges_def)

lemma fit_all: "charges es \<le> b \<Longrightarrow> fit b es = es"
  by (induction b es rule: fit.induct) auto

lemma fit_snoc: "b < charges (es @ [e]) \<Longrightarrow> fit b (es @ [e]) = fit b es"
proof (induction b es rule: fit.induct)
  case (1 b) then show ?case by (cases e) auto
qed auto

lemma fit_charges: "charges (fit b es) \<le> b"
  by (induction b es rule: fit.induct) auto

lemma fit_is_take: "\<exists>n. fit b es = take n es"
proof (induction b es rule: fit.induct)
  case (2 b k h es)
  show ?case
  proof (cases "unat (l_charge h) \<le> b")
    case True
    then obtain n where "fit (b - unat (l_charge h)) es = take n es" using "2.IH" by blast
    then have "fit b ((k, h) # es) = take (Suc n) ((k, h) # es)" using True by simp
    then show ?thesis by blast
  qed (auto intro: exI[of _ 0])
qed simp

lemma charges_take: "charges (take n es) \<le> charges es"
  by (metis append_take_drop_id charges_simps(3) le_add1)

section \<open>Eviction\<close>

definition lru_ok :: "('k, 'v) lru_shard \<Rightarrow> bool" where
  "lru_ok s \<longleftrightarrow> lru_wf s \<and> lru_acc s \<and> all_plain s"

definition same_config :: "('k, 'v) lru_shard \<Rightarrow> ('k, 'v) lru_shard \<Rightarrow> bool" where
  "same_config s s' \<longleftrightarrow>
     capacity s' = capacity s \<and> max_entry_num s' = max_entry_num s \<and> freed s' = freed s"

lemma same_config_refl [simp]: "same_config s s"
  by (simp add: same_config_def)

lemma same_config_trans: "same_config s s' \<Longrightarrow> same_config s' s'' \<Longrightarrow> same_config s s''"
  by (simp add: same_config_def)

lemma FreeData_plain: "plain h \<Longrightarrow> FreeData h = (h, [])"
  by (auto simp: FreeData_def plain_def split: option.splits)

lemma lru_list_snoc:
  "entries s = es @ [(it, k, h)] \<Longrightarrow> lru_list s = map snd es @ [(k, h)]"
  by (simp add: lru_list_def)

lemma map_of_fst_snoc:
  "k \<notin> set (map (\<lambda>(it, k, h). k) es) \<Longrightarrow>
   (map_of (map (\<lambda>(it, k, h). (k, it)) es @ [(k, it)]))(k := None) = map_of (map (\<lambda>(it, k, h). (k, it)) es)"
proof -
  assume "k \<notin> set (map (\<lambda>(it, k, h). k) es)"
  then have "map_of (map (\<lambda>(it, k, h). (k, it)) es) k = None" by (force simp: map_of_eq_None_iff)
  then show ?thesis by (auto simp: fun_eq_iff map_add_def split: option.splits)
qed

text \<open>An eviction that can still read the popped node.\<close>

definition evicted :: "('k, 'v) lru_shard \<Rightarrow> ('k, 'v) lru_shard" where
  "evicted s =
     (let (it, key, h) = last (entries s);
          (h, calls) = FreeData h
      in s\<lparr>lmap := (lmap s)(key := None), entries := butlast (entries s),
           freed := freed s @ calls, usage := usage s - GetTotalCharge h\<rparr>)"

lemma evict_last_kept [simp]: "evict_last Some s = Inr (evicted s)"
  by (simp add: evict_last_def evicted_def Let_def split: prod.splits)

lemma evicted_induct [case_names step]:
  assumes "\<And>s. (entries s \<noteq> [] \<Longrightarrow> P (evicted s)) \<Longrightarrow> P s"
  shows "P s"
proof (induction "length (entries s)" arbitrary: s rule: less_induct)
  case less
  show ?case
  proof (rule assms)
    assume "entries s \<noteq> []"
    then show "P (evicted s)"
      by (intro less) (auto simp: evicted_def Let_def split: prod.splits)
  qed
qed

lemma evicted_ok:
  assumes ok: "lru_ok s" and ne: "entries s \<noteq> []"
  shows "lru_ok (evicted s)" "lru_list (evicted s) = butlast (lru_list s)"
    "same_config s (evicted s)" "fresh (evicted s) = fresh s"
proof -
  obtain es it k h where e: "entries s = es @ [(it, k, h)]"
    using ne by (metis prod_cases3 rev_exhaust)
  have l: "lru_list s = map snd es @ [(k, h)]" by (rule lru_list_snoc[OF e])
  have p: "plain h" using ok l by (simp add: lru_ok_def all_plain_def)
  have ev: "evicted s = s\<lparr>lmap := (lmap s)(k := None), entries := es, usage := usage s - l_charge h\<rparr>"
    by (simp add: evicted_def e FreeData_plain[OF p] GetTotalCharge_def)
  have wf: "lru_wf s" and acc: "unat (usage s) = charges (map snd es) + unat (l_charge h)"
    using ok l by (simp_all add: lru_ok_def lru_acc_def)
  have "lru_wf (evicted s)"
    using wf map_of_fst_snoc[of k es it] by (auto simp: lru_wf_def ev e)
  moreover have "lru_acc (evicted s)"
    using acc by (simp add: lru_acc_def ev lru_list_def unat_sub_small)
  moreover have l': "lru_list (evicted s) = map snd es" by (simp add: ev lru_list_def)
  then have "all_plain (evicted s)" using ok l by (simp add: lru_ok_def all_plain_def)
  ultimately show "lru_ok (evicted s)" by (simp add: lru_ok_def)
  show "lru_list (evicted s) = butlast (lru_list s)" by (simp add: l l')
  show "same_config s (evicted s)" "fresh (evicted s) = fresh s" by (simp_all add: ev same_config_def)
qed

lemma EvictForCharge_subset: "EvictForCharge Some s n = Inr s' \<Longrightarrow> set (entries s') \<subseteq> set (entries s)"
proof (induction s arbitrary: s' rule: evicted_induct)
  case (step s)
  have "set (entries (evicted s)) \<subseteq> set (entries s)"
    by (auto simp: evicted_def Let_def dest: in_set_butlastD split: prod.splits)
  then show ?case
    using step.IH[of s'] step.prems by (auto simp: EvictForCharge.simps[of Some s] split: if_splits)
qed

lemma EvictForCharge_unlimited: "capacity s = 0 \<Longrightarrow> EvictForCharge Some s n = Inr s"
  by (simp add: EvictForCharge.simps)

lemma EvictForCharge_fit:
  assumes "lru_ok s" "capacity s \<noteq> 0" "unat n \<le> unat (capacity s)" "unat (usage s) + unat n < 2 ^ 64"
  shows "\<exists>s'. EvictForCharge Some s n = Inr s' \<and> lru_ok s' \<and> same_config s s' \<and> fresh s' = fresh s \<and>
    lru_list s' = fit (unat (capacity s) - unat n) (lru_list s) \<and>
    unat (usage s') + unat n \<le> unat (capacity s)"
  using assms
proof (induction s rule: evicted_induct)
  case (step s)
  have add: "unat (usage s + n) = unat (usage s) + unat n"
    using step.prems(4) by (simp add: unat_add_small)
  have u: "unat (usage s) = charges (lru_list s)" using step.prems(1) by (simp add: lru_ok_def lru_acc_def)
  show ?case
  proof (cases "usage s + n > capacity s")
    case False
    then have le: "unat (usage s) + unat n \<le> unat (capacity s)" using add by (simp add: word_le_nat_alt not_less)
    then have "fit (unat (capacity s) - unat n) (lru_list s) = lru_list s" using u by (intro fit_all) simp
    then show ?thesis
      using False le step.prems by (simp add: EvictForCharge.simps[of Some s])
  next
    case True
    then have gt: "unat (capacity s) < unat (usage s) + unat n" using add by (simp add: word_less_nat_alt)
    have ne: "entries s \<noteq> []" using gt u step.prems(3) by (auto simp: lru_list_def)
    note ev = evicted_ok[OF step.prems(1) ne]
    have ule: "unat (usage (evicted s)) \<le> unat (usage s)"
      using ev(1,2) u charges_take[of "length (lru_list s) - 1" "lru_list s"]
      by (simp add: lru_ok_def lru_acc_def butlast_conv_take)
    obtain s' where s': "EvictForCharge Some (evicted s) n = Inr s'" "lru_ok s'" "same_config (evicted s) s'"
      "fresh s' = fresh s" "lru_list s' = fit (unat (capacity s) - unat n) (butlast (lru_list s))"
      "unat (usage s') + unat n \<le> unat (capacity s)"
      using step.IH[OF ne] step.prems ev ule by (auto simp: same_config_def)
    have "lru_list s \<noteq> []" using ne by (simp add: lru_list_def)
    then have sn: "lru_list s = butlast (lru_list s) @ [last (lru_list s)]" by simp
    have "fit (unat (capacity s) - unat n) (lru_list s) = fit (unat (capacity s) - unat n) (butlast (lru_list s))"
      using gt u step.prems(3) by (subst sn, intro fit_snoc) (simp flip: sn)
    then show ?thesis
      using s' ne True step.prems(2) ev(3) same_config_trans by (auto simp: EvictForCharge.simps[of Some s])
  qed
qed

lemma GetEntryNum_ge:
  assumes "0 \<le> m" "m < 2 ^ 63" "length (entries s) < 2 ^ 63"
  shows "GetEntryNum s \<ge> of_int m \<longleftrightarrow> m \<le> int (length (entries s))"
proof -
  obtain n where n: "m = int n" using assms(1) nonneg_int_cases by blast
  have "unat (of_int m :: u64) = n" using assms(2) n by (simp add: unat_of_nat_eq)
  moreover have "unat (GetEntryNum s) = length (entries s)"
    using assms(3) by (simp add: GetEntryNum_def unat_of_nat_eq)
  ultimately show ?thesis using n by (simp add: word_le_nat_alt)
qed

lemma EvictForOccupancy_take:
  assumes "lru_ok s" "0 \<le> max_entry_num s" "max_entry_num s < 2 ^ 63" "length (entries s) < 2 ^ 63"
  shows "\<exists>s'. EvictForOccupancy Some s = Inr s' \<and> lru_ok s' \<and> same_config s s' \<and> fresh s' = fresh s \<and>
    unat (usage s') \<le> unat (usage s) \<and>
    lru_list s' = (if max_entry_num s = 0 then lru_list s else take (nat (max_entry_num s) - 1) (lru_list s))"
  using assms
proof (induction s rule: evicted_induct)
  case (step s)
  have ge: "GetEntryNum s \<ge> of_int (max_entry_num s) \<longleftrightarrow> int (length (entries s)) \<ge> max_entry_num s"
    using step.prems by (intro GetEntryNum_ge)
  show ?case
  proof (cases "max_entry_num s = 0 \<or> int (length (entries s)) < max_entry_num s")
    case True
    then show ?thesis
      using ge step.prems by (auto simp: EvictForOccupancy.simps[of Some s] lru_list_def)
  next
    case False
    then have ne: "entries s \<noteq> []" using step.prems by auto
    note ev = evicted_ok[OF step.prems(1) ne]
    have ule: "unat (usage (evicted s)) \<le> unat (usage s)"
      using ev(1,2) step.prems(1) charges_take[of "length (lru_list s) - 1" "lru_list s"]
      by (simp add: lru_ok_def lru_acc_def butlast_conv_take)
    have len: "length (entries (evicted s)) < length (entries s)"
      using ne by (auto simp: evicted_def Let_def split: prod.splits)
    obtain s' where s': "EvictForOccupancy Some (evicted s) = Inr s'" "lru_ok s'" "same_config (evicted s) s'"
      "fresh s' = fresh s" "unat (usage s') \<le> unat (usage (evicted s))"
      "lru_list s' = take (nat (max_entry_num s) - 1) (butlast (lru_list s))"
      using step.IH[OF ne] step.prems ev ge False len by (auto simp: same_config_def not_less)
    have "take (nat (max_entry_num s) - 1) (butlast (lru_list s)) = take (nat (max_entry_num s) - 1) (lru_list s)"
    proof -
      have "nat (max_entry_num s) - 1 \<le> length (entries s) - 1" using False step.prems(2) by linarith
      then show ?thesis by (simp add: butlast_conv_take lru_list_def min_def)
    qed
    then show ?thesis
      using s' ne False ge ev(3) ule same_config_trans by (auto simp: EvictForOccupancy.simps[of Some s] not_less)
  qed
qed

section \<open>Looking a key up\<close>

abbreviation keys_of :: "('k, 'v) lentry list \<Rightarrow> 'k set" where
  "keys_of es \<equiv> (\<lambda>(it, k, h). k) ` set es"

lemma map_of_keys_None: "k \<notin> keys_of es \<longleftrightarrow> map_of (map (\<lambda>(it, k, h). (k, it)) es) k = None"
  by (force simp: map_of_eq_None_iff)

lemma lmap_None_iff:
  assumes "lru_wf s"
  shows "lmap s k = None \<longleftrightarrow> map_of (lru_list s) k = None"
  using assms map_of_keys_None[of k "entries s"]
  by (force simp: lru_wf_def lru_list_def map_of_eq_None_iff)

lemma lru_split:
  assumes "lru_wf s" "lmap s k = Some it"
  obtains xs h ys where "entries s = xs @ (it, k, h) # ys"
    "it \<notin> fst ` set xs" "it \<notin> fst ` set ys" "k \<notin> keys_of xs" "k \<notin> keys_of ys"
proof -
  have "(k, it) \<in> set (map (\<lambda>(it, k, h). (k, it)) (entries s))"
    using assms by (intro map_of_SomeD) (simp add: lru_wf_def)
  then obtain h where "(it, k, h) \<in> set (entries s)" by auto
  then obtain xs ys where e: "entries s = xs @ (it, k, h) # ys" by (meson split_list)
  show ?thesis
  proof (rule that[OF e])
    show "it \<notin> fst ` set xs" "it \<notin> fst ` set ys"
      using assms(1) by (auto simp: lru_wf_def e)
    show "k \<notin> keys_of xs" "k \<notin> keys_of ys"
      using assms(1) by (auto simp: lru_wf_def e)
  qed
qed

lemma find_node_split:
  assumes "es = xs @ (it, k, h) # ys" "it \<notin> fst ` set xs"
  shows "find_node it es = Some (it, k, h)"
  unfolding find_node_def assms(1) using assms(2) by (induction xs) auto

lemma splice_front_split:
  assumes "it \<notin> fst ` set xs" "it \<notin> fst ` set ys"
  shows "splice_front it (xs @ (it, k, h) # ys) = (it, k, h) # xs @ ys"
proof -
  have "filter (\<lambda>e. fst e = it) zs = []" "filter (\<lambda>e. fst e \<noteq> it) zs = zs" if "it \<notin> fst ` set zs"
    for zs :: "('a, 'b) lentry list"
    using that by (induction zs) auto
  then show ?thesis using assms by (simp add: splice_front_def)
qed

lemma remove_key_split:
  assumes "k \<notin> keys_of xs" "k \<notin> keys_of ys"
  shows "remove_key k (map snd (xs @ (it, k, h) # ys)) = map snd (xs @ ys)"
    "map_of (map snd (xs @ (it, k, h) # ys)) k = Some h"
proof -
  have "filter (\<lambda>e. fst e \<noteq> k) (map snd zs) = map snd zs" "map_of (map snd zs) k = None" if "k \<notin> keys_of zs"
    for zs :: "('a, 'b) lentry list"
    using that by (induction zs) auto
  then show "remove_key k (map snd (xs @ (it, k, h) # ys)) = map snd (xs @ ys)"
    "map_of (map snd (xs @ (it, k, h) # ys)) k = Some h"
    using assms by (simp_all add: remove_key_def map_add_def)
qed

lemma lru_wf_front:
  assumes "lru_wf s" "entries s = xs @ (it, k, h) # ys"
  shows "lru_wf (s\<lparr>entries := (it, k, h') # xs @ ys, freed := f\<rparr>)"
proof -
  have k: "k \<notin> keys_of xs" using assms by (auto simp: lru_wf_def)
  have "map_of (map (\<lambda>(it, k, h). (k, it)) ((it, k, h') # xs @ ys)) =
    map_of (map (\<lambda>(it, k, h). (k, it)) (xs @ (it, k, h) # ys))"
    using map_of_keys_None[of k xs] k
    by (auto simp: fun_eq_iff map_add_def split: option.splits)
  then show ?thesis using assms by (auto simp: lru_wf_def)
qed

lemma charges_split: "charges (map snd (xs @ (it, k, h) # ys)) = unat (l_charge h) + charges (map snd (xs @ ys))"
  by simp

lemma Get_ok:
  assumes "lru_ok s"
  shows "\<exists>s'. Get s key = Inr (fst (spec_get key (lru_list s)), s') \<and> lru_ok s' \<and> same_config s s' \<and>
    usage s' = usage s \<and> fresh s' = fresh s \<and> lru_list s' = snd (spec_get key (lru_list s))"
proof (cases "lmap s key")
  case None
  then show ?thesis using assms lmap_None_iff[of s key]
    by (auto simp: Get_def spec_get_def lru_ok_def same_config_def)
next
  case (Some it)
  have wf: "lru_wf s" using assms by (simp add: lru_ok_def)
  from lru_split[OF wf Some] obtain xs h ys where e: "entries s = xs @ (it, key, h) # ys"
    and d: "it \<notin> fst ` set xs" "it \<notin> fst ` set ys" "key \<notin> keys_of xs" "key \<notin> keys_of ys" by blast
  let ?s = "s\<lparr>entries := (it, key, h) # xs @ ys, freed := freed s\<rparr>"
  have g: "Get s key = Inr (Some h, ?s)"
    using Some find_node_split[OF e d(1)] splice_front_split[OF d(1,2)] by (simp add: Get_def e)
  have l: "lru_list s = map snd (xs @ (it, key, h) # ys)" by (simp add: lru_list_def e)
  have "lru_list ?s = (key, h) # map snd (xs @ ys)" by (simp add: lru_list_def)
  moreover have "lru_wf ?s" by (rule lru_wf_front[OF wf e])
  ultimately have "lru_ok ?s"
    using assms l by (auto simp: lru_ok_def lru_acc_def all_plain_def)
  moreover have "spec_get key (lru_list s) = (Some h, (key, h) # map snd (xs @ ys))"
    unfolding spec_get_def l using remove_key_split[OF d(3,4)] by simp
  ultimately show ?thesis using g by (simp add: lru_list_def same_config_def)
qed

section \<open>Inserting\<close>

lemma Insert_new_ok:
  assumes ok: "lru_ok s" and new: "lmap s key = None" and pl: "plain h"
    and cap: "capacity s \<noteq> 0 \<Longrightarrow> unat (l_charge h) \<le> unat (capacity s)"
    and room: "unat (usage s) + unat (l_charge h) < 2 ^ 64"
    and num: "0 \<le> max_entry_num s" "max_entry_num s < 2 ^ 63" "length (entries s) < 2 ^ 63"
  shows "\<exists>s'. Insert_new Some s key h = Inr s' \<and> lru_ok s' \<and> same_config s s' \<and>
    lru_list s' = spec_insert (unat (capacity s)) (nat (max_entry_num s)) key h (lru_list s) \<and>
    (capacity s \<noteq> 0 \<longrightarrow> unat (usage s') \<le> unat (capacity s))"
proof -
  let ?L = "if capacity s = 0 then lru_list s else fit (unat (capacity s) - unat (l_charge h)) (lru_list s)"
  have wf: "lru_wf s" using ok by (simp add: lru_ok_def)
  obtain s1 where s1: "EvictForCharge Some s (l_charge h) = Inr s1" "lru_ok s1" "same_config s s1"
    "lru_list s1 = ?L" "unat (usage s1) + unat (l_charge h) < 2 ^ 64"
    "capacity s \<noteq> 0 \<Longrightarrow> unat (usage s1) + unat (l_charge h) \<le> unat (capacity s)"
  proof (cases "capacity s = 0")
    case True
    then show ?thesis using that[of s] ok room by (simp add: EvictForCharge_unlimited)
  next
    case False
    obtain s1 where "EvictForCharge Some s (l_charge h) = Inr s1" "lru_ok s1" "same_config s s1"
      "lru_list s1 = fit (unat (capacity s) - unat (l_charge h)) (lru_list s)"
      "unat (usage s1) + unat (l_charge h) \<le> unat (capacity s)"
      using EvictForCharge_fit[OF ok False cap[OF False] room] by blast
    moreover have "unat (capacity s) < 2 ^ 64" using unsigned_less[of "capacity s"] by simp
    ultimately show ?thesis using that[of s1] False by simp
  qed
  obtain n where n: "?L = take n (lru_list s)"
  proof (cases "capacity s = 0")
    case True
    then show ?thesis using that[of "length (lru_list s)"] by simp
  next
    case False
    then show ?thesis using that fit_is_take[of "unat (capacity s) - unat (l_charge h)" "lru_list s"] by auto
  qed
  then have "length (lru_list s1) \<le> length (lru_list s)" by (simp add: s1(4))
  then have len: "length (entries s1) < 2 ^ 63" using num(3) by (simp add: lru_list_def)
  obtain s2 where s2: "EvictForOccupancy Some s1 = Inr s2" "lru_ok s2" "same_config s1 s2"
    "unat (usage s2) \<le> unat (usage s1)"
    "lru_list s2 = (if max_entry_num s = 0 then ?L else take (nat (max_entry_num s) - 1) ?L)"
    using EvictForOccupancy_take[OF s1(2)] len num s1(3,4) by (auto simp: same_config_def)
  have m: "lru_list s2 = take (if max_entry_num s = 0 then n else min (nat (max_entry_num s) - 1) n) (lru_list s)"
    unfolding s2(5) n by simp
  have "set (lru_list s2) \<subseteq> set (lru_list s)" unfolding m by (rule set_take_subset)
  then have nk: "key \<notin> fst ` set (lru_list s2)"
    using new lmap_None_iff[OF wf, of key] by (auto simp: map_of_eq_None_iff)
  let ?s = "s2\<lparr>entries := (fresh s2, key, h) # entries s2, lmap := (lmap s2)(key \<mapsto> fresh s2),
      fresh := Suc (fresh s2), usage := usage s2 + l_charge h\<rparr>"
  have ins: "Insert_new Some s key h = Inr ?s" using s1(1) s2(1) by (simp add: Insert_new_def GetTotalCharge_def)
  have l: "lru_list ?s = (key, h) # lru_list s2" by (simp add: lru_list_def)
  have u: "unat (usage ?s) = unat (usage s2) + unat (l_charge h)"
    using s1(5) s2(4) by (simp add: unat_add_small)
  have "lru_wf ?s"
    using s2(2) nk by (force simp: lru_ok_def lru_wf_def lru_list_def)
  moreover have "lru_acc ?s" using s2(2) u l by (simp add: lru_ok_def lru_acc_def)
  moreover have "all_plain ?s" using s2(2) l pl by (simp add: lru_ok_def all_plain_def)
  moreover have "lru_list ?s = spec_insert (unat (capacity s)) (nat (max_entry_num s)) key h (lru_list s)"
    using new lmap_None_iff[OF wf, of key] num(1) s2(5) unfolding l
    by (auto simp: spec_insert_def Let_def unsigned_eq_0_iff)
  moreover have "same_config s ?s" using s1(3) s2(3) by (simp add: same_config_def)
  moreover have "capacity s \<noteq> 0 \<longrightarrow> unat (usage ?s) \<le> unat (capacity s)" using s1(6) s2(4) u by auto
  ultimately show ?thesis using ins by (simp add: lru_ok_def)
qed

lemma Insert_update_ok:
  assumes ok: "lru_ok s" and old: "lmap s key = Some it" and pl: "plain h"
    and same: "\<And>h'. (key, h') \<in> set (lru_list s) \<Longrightarrow> l_charge h' = l_charge h"
  shows "\<exists>s'. Insert_update Some s it h = Inr s' \<and> lru_ok s' \<and> same_config s s' \<and>
    lru_list s' = spec_insert c m key h (lru_list s) \<and> usage s' = usage s"
proof -
  have wf: "lru_wf s" using ok by (simp add: lru_ok_def)
  from lru_split[OF wf old] obtain xs h0 ys where e: "entries s = xs @ (it, key, h0) # ys"
    and d: "it \<notin> fst ` set xs" "it \<notin> fst ` set ys" "key \<notin> keys_of xs" "key \<notin> keys_of ys" by blast
  have l: "lru_list s = map snd (xs @ (it, key, h0) # ys)" by (simp add: lru_list_def e)
  have c: "l_charge h0 = l_charge h" using same[of h0] by (simp add: l)
  have p0: "plain h0" using ok by (simp add: lru_ok_def all_plain_def l)
  let ?f = "\<lambda>(it', k, h'). (it', k, if it' = it then h else h')"
  have "map ?f zs = zs" if "it \<notin> fst ` set zs" for zs :: "('a, 'b) lentry list"
    using that by (induction zs) auto
  then have m: "map ?f (entries s) = xs @ (it, key, h) # ys" using d by (simp add: e)
  let ?s = "s\<lparr>entries := (it, key, h) # xs @ ys, freed := freed s\<rparr>"
  have i: "Insert_update Some s it h = Inr ?s"
    using find_node_split[OF e d(1)] splice_front_split[OF d(1,2)] m c FreeData_plain[OF p0]
    by (simp add: Insert_update_def GetTotalCharge_def Let_def)
  have ls: "lru_list ?s = (key, h) # map snd (xs @ ys)" by (simp add: lru_list_def)
  have "lru_wf ?s" by (rule lru_wf_front[OF wf e])
  then have "lru_ok ?s" using ok pl ls c by (auto simp: lru_ok_def lru_acc_def all_plain_def l)
  moreover have "lru_list ?s = spec_insert c m key h (lru_list s)"
    unfolding ls spec_insert_def l using remove_key_split[OF d(3,4)] by simp
  ultimately show ?thesis using i by (auto simp: same_config_def)
qed

text \<open>The conditions under which an insertion is specified: the handle has no deleter and fits,
  nothing overflows, and an entry it replaces has the same charge.\<close>

definition insertable :: "('k, 'v) lru_shard \<Rightarrow> 'k \<Rightarrow> 'v lhandle \<Rightarrow> bool" where
  "insertable s key h \<longleftrightarrow>
     plain h \<and> (capacity s \<noteq> 0 \<longrightarrow> unat (l_charge h) \<le> unat (capacity s)) \<and>
     unat (usage s) + unat (l_charge h) < 2 ^ 64 \<and>
     0 \<le> max_entry_num s \<and> max_entry_num s < 2 ^ 63 \<and> length (entries s) < 2 ^ 63 \<and>
     (\<forall>h'. (key, h') \<in> set (lru_list s) \<longrightarrow> l_charge h' = l_charge h)"

lemma Insert_ok:
  assumes "lru_ok s" "insertable s key h"
  shows "\<exists>s'. Insert Some s key h = Inr s' \<and> lru_ok s' \<and> same_config s s' \<and>
    lru_list s' = spec_insert (unat (capacity s)) (nat (max_entry_num s)) key h (lru_list s) \<and>
    (capacity s \<noteq> 0 \<longrightarrow> lmap s key = None \<longrightarrow> unat (usage s') \<le> unat (capacity s)) \<and>
    (lmap s key \<noteq> None \<longrightarrow> usage s' = usage s)"
proof (cases "lmap s key")
  case None
  have "\<exists>s'. Insert_new Some s key h = Inr s' \<and> lru_ok s' \<and> same_config s s' \<and>
    lru_list s' = spec_insert (unat (capacity s)) (nat (max_entry_num s)) key h (lru_list s) \<and>
    (capacity s \<noteq> 0 \<longrightarrow> unat (usage s') \<le> unat (capacity s))"
    using assms(2) by (intro Insert_new_ok[OF assms(1) None]) (auto simp: insertable_def)
  then show ?thesis using None by (auto simp: Insert_def)
next
  case (Some it)
  have "\<exists>s'. Insert_update Some s it h = Inr s' \<and> lru_ok s' \<and> same_config s s' \<and>
    lru_list s' = spec_insert (unat (capacity s)) (nat (max_entry_num s)) key h (lru_list s) \<and>
    usage s' = usage s"
    using assms(2) by (intro Insert_update_ok[OF assms(1) Some]) (auto simp: insertable_def)
  then show ?thesis using Some by (auto simp: Insert_def)
qed

section \<open>Insertions that evict\<close>

definition must_evict :: "('k, 'v) lru_shard \<Rightarrow> 'k \<Rightarrow> 'v lhandle \<Rightarrow> bool" where
  "must_evict s key h \<longleftrightarrow> lmap s key = None \<and> entries s \<noteq> [] \<and>
     (capacity s \<noteq> 0 \<and> unat (capacity s) < unat (usage s) + unat (l_charge h) \<or>
      max_entry_num s \<noteq> 0 \<and> max_entry_num s \<le> int (length (entries s)))"

lemma evict_last_strict: "entries s \<noteq> [] \<Longrightarrow> evict_last (\<lambda>_. None) s = Inl UseAfterPop"
  by (simp add: evict_last_def Let_def split: prod.splits)

lemma EvictForCharge_strict:
  "EvictForCharge (\<lambda>_. None) s n =
     (if capacity s \<noteq> 0 \<and> capacity s < usage s + n \<and> entries s \<noteq> [] then Inl UseAfterPop else EvictForCharge Some s n)"
  by (simp add: EvictForCharge.simps[of _ s] evict_last_strict)

lemma EvictForOccupancy_strict:
  "EvictForOccupancy (\<lambda>_. None) s =
     (if max_entry_num s \<noteq> 0 \<and> of_int (max_entry_num s) \<le> GetEntryNum s \<and> entries s \<noteq> [] then Inl UseAfterPop
      else EvictForOccupancy Some s)"
  by (simp add: EvictForOccupancy.simps[of _ s] evict_last_strict)

lemma no_eviction: "capacity s = 0 \<or> usage s + n \<le> capacity s \<Longrightarrow> EvictForCharge popped s n = Inr s"
  by (subst EvictForCharge.simps) (auto simp: not_less)

lemma Insert_new_strict:
  assumes "insertable s key h" "lmap s key = None"
  shows "Insert_new (\<lambda>_. None) s key h = (if must_evict s key h then Inl UseAfterPop else Insert_new Some s key h)"
proof -
  have room: "unat (usage s + l_charge h) = unat (usage s) + unat (l_charge h)"
    and num: "0 \<le> max_entry_num s" "max_entry_num s < 2 ^ 63" "length (entries s) < 2 ^ 63"
    using assms(1) by (simp_all add: insertable_def unat_add_small)
  note ge = GetEntryNum_ge[OF num]
  show ?thesis
  proof (cases "capacity s \<noteq> 0 \<and> capacity s < usage s + l_charge h")
    case True
    then have c: "unat (capacity s) < unat (usage s) + unat (l_charge h)" using room by (simp add: word_less_nat_alt)
    show ?thesis
    proof (cases "entries s = []")
      case True
      then have "\<not> must_evict s key h" by (simp add: must_evict_def)
      then show ?thesis using True \<open>capacity s \<noteq> 0 \<and> capacity s < usage s + l_charge h\<close>
        by (simp add: Insert_new_def GetTotalCharge_def EvictForCharge.simps[of _ s])
    next
      case False
      then have "must_evict s key h" using True c assms(2) by (simp add: must_evict_def)
      then show ?thesis using True False by (simp add: Insert_new_def GetTotalCharge_def EvictForCharge_strict)
    qed
  next
    case False
    then have c: "capacity s = 0 \<or> \<not> unat (capacity s) < unat (usage s) + unat (l_charge h)"
      and ev: "EvictForCharge popped s (l_charge h) = Inr s" for popped
      using room by (auto simp: word_less_nat_alt not_less word_le_nat_alt intro!: no_eviction)
    have "must_evict s key h \<longleftrightarrow> max_entry_num s \<noteq> 0 \<and> of_int (max_entry_num s) \<le> GetEntryNum s \<and> entries s \<noteq> []"
      using c ge assms(2) by (auto simp: must_evict_def)
    then show ?thesis by (simp add: Insert_new_def GetTotalCharge_def ev EvictForOccupancy_strict)
  qed
qed

lemma Insert_strict:
  assumes "lru_ok s" "insertable s key h"
  shows "Insert (\<lambda>_. None) s key h = (if must_evict s key h then Inl UseAfterPop else Insert Some s key h)"
proof (cases "lmap s key")
  case None
  then show ?thesis using Insert_new_strict[OF assms(2) None] by (simp add: Insert_def)
next
  case (Some it)
  have wf: "lru_wf s" using assms(1) by (simp add: lru_ok_def)
  obtain xs h0 ys where e: "entries s = xs @ (it, key, h0) # ys" and d: "it \<notin> fst ` set xs"
    by (rule lru_split[OF wf Some])
  have "(key, h0) \<in> set (lru_list s)" by (simp add: lru_list_def e)
  then have "l_charge h0 = l_charge h" using assms(2) by (simp add: insertable_def)
  then have "Insert_update (\<lambda>_. None) s it h = Insert_update Some s it h"
    using find_node_split[OF e d] by (simp add: Insert_update_def GetTotalCharge_def)
  moreover have "\<not> must_evict s key h" using Some by (simp add: must_evict_def)
  ultimately show ?thesis using Some by (simp add: Insert_def)
qed

section \<open>Properties of the shard\<close>

lemma LRUCacheShard_new_ok: "lru_ok (LRUCacheShard_new options)"
  by (simp add: lru_ok_def lru_wf_def lru_acc_def all_plain_def LRUCacheShard_new_def lru_list_def)

text \<open>C26: on a consistent shard Get never faults; it returns exactly the handle stored for the key,
  moves that entry to the most recent position, keeps the order of all others, and keeps the
  shard consistent. A miss changes nothing.\<close>

theorem Get_refines:
  assumes "lru_ok s"
  shows "\<exists>s'. Get s key = Inr (fst (spec_get key (lru_list s)), s') \<and> lru_ok s' \<and>
    usage s' = usage s \<and> lru_list s' = snd (spec_get key (lru_list s))"
  using Get_ok[OF assms, of key] by blast

theorem Get_refines_witness:
  "\<exists>s'. Get (LRUCacheShard_new \<lparr>so_capacity = 10, so_entry_num = 2, so_value_size = 0\<rparr> :: (nat, int) lru_shard) 7 =
     Inr (None, s')"
  using Get_refines[OF LRUCacheShard_new_ok, of "\<lparr>so_capacity = 10, so_entry_num = 2, so_value_size = 0\<rparr>" "7::nat"]
  by (auto simp: spec_get_def lru_list_def LRUCacheShard_new_def)

text \<open>C20: on a consistent shard of handles without deleters, inserting such a handle that fits the capacity, when
  no sum overflows, the entry limit is not negative and an entry it replaces has the same charge (insertable), implements the list
  specification, provided that a popped node can still be read: a known key is replaced in place and moved to the front;
  a new one goes to the front after exactly the least recently used entries that no longer fit the
  capacity or the entry limit have been dropped. The usage counter stays the sum of the charges and, for
  a new key, within the capacity. With the read of a popped node undefined, as the language has it, Insert does the
  same if it evicts nothing, and is undefined exactly when it has to evict.\<close>

theorem Insert_refines:
  assumes "lru_ok s" "insertable s key h"
  shows "(\<exists>s'. Insert Some s key h = Inr s' \<and> lru_ok s' \<and>
      lru_list s' = spec_insert (unat (capacity s)) (nat (max_entry_num s)) key h (lru_list s) \<and>
      (capacity s \<noteq> 0 \<longrightarrow> lmap s key = None \<longrightarrow> unat (usage s') \<le> unat (capacity s))) \<and>
    Insert (\<lambda>_. None) s key h = (if must_evict s key h then Inl UseAfterPop else Insert Some s key h)"
proof
  show "\<exists>s'. Insert Some s key h = Inr s' \<and> lru_ok s' \<and>
      lru_list s' = spec_insert (unat (capacity s)) (nat (max_entry_num s)) key h (lru_list s) \<and>
      (capacity s \<noteq> 0 \<longrightarrow> lmap s key = None \<longrightarrow> unat (usage s') \<le> unat (capacity s))"
    using Insert_ok[OF assms] by (elim exE conjE) (intro exI conjI; assumption)
qed (rule Insert_strict[OF assms])

text \<open>One entry that has to go: the insertion evicts it, through a read that the language leaves undefined.\<close>

theorem Insert_refines_witness:
  "\<exists>s s'. lru_list s = [(5::nat, \<lparr>l_value = Some (5::int), l_del_cb = None, l_charge = 8\<rparr>)] \<and>
     Insert Some s 2 \<lparr>l_value = Some 6, l_del_cb = None, l_charge = 4\<rparr> = Inr s' \<and>
     lru_list s' = [(2, \<lparr>l_value = Some 6, l_del_cb = None, l_charge = 4\<rparr>)] \<and>
     Insert (\<lambda>_. None) s 2 \<lparr>l_value = Some 6, l_del_cb = None, l_charge = 4\<rparr> = Inl UseAfterPop"
proof -
  let ?h = "\<lparr>l_value = Some (6::int), l_del_cb = None, l_charge = 4\<rparr>"
  let ?s = "\<lparr>capacity = 10, max_entry_num = 0, usage = 8,
     entries = [(0, 5::nat, \<lparr>l_value = Some (5::int), l_del_cb = None, l_charge = 8\<rparr>)],
     lmap = [5 \<mapsto> 0], fresh = 1, freed = []\<rparr>"
  have ok: "lru_ok ?s" by (simp add: lru_ok_def lru_wf_def lru_acc_def all_plain_def lru_list_def plain_def)
  have ins: "insertable ?s 2 ?h" by (simp add: insertable_def plain_def lru_list_def)
  have l: "lru_list ?s = [(5, \<lparr>l_value = Some 5, l_del_cb = None, l_charge = 8\<rparr>)]" by (simp add: lru_list_def)
  have m: "must_evict ?s 2 ?h" by (simp add: must_evict_def)
  have sp: "spec_insert (unat (capacity ?s)) (nat (max_entry_num ?s)) 2 ?h (lru_list ?s) = [(2, ?h)]"
    unfolding l by (simp add: spec_insert_def)
  have "\<exists>s'. Insert Some ?s 2 ?h = Inr s' \<and> lru_list s' = [(2, ?h)] \<and> Insert (\<lambda>_. None) ?s 2 ?h = Inl UseAfterPop"
    using Insert_refines[OF ok ins] unfolding sp using m by (elim conjE exE) (intro exI conjI, assumption+, simp only: if_True)
  then show ?thesis using l by blast
qed

subsection \<open>Where the code departs from the specification\<close>

text \<open>replacing the value of a known key never adjusts the usage counter. When nothing has to be
  evicted, the entry takes the new charge while usage_ keeps the old total, so the counter is off
  by exactly the difference of the two charges.\<close>

theorem Insert_update_drifts:
  assumes "lru_ok s" "lmap s key = Some it" "(key, h0) \<in> set (lru_list s)"
    "capacity s = 0 \<or> usage s + (l_charge h - l_charge h0) \<le> capacity s"
  shows "\<exists>s'. Insert Some s key h = Inr s' \<and> usage s' = usage s \<and>
    charges (lru_list s') + unat (l_charge h0) = unat (usage s') + unat (l_charge h)"
proof -
  have wf: "lru_wf s" and u: "unat (usage s) = charges (lru_list s)" and ap: "all_plain s"
    using assms(1) by (simp_all add: lru_ok_def lru_acc_def)
  from lru_split[OF wf assms(2)] obtain xs h' ys where e: "entries s = xs @ (it, key, h') # ys"
    and d: "it \<notin> fst ` set xs" "it \<notin> fst ` set ys" "key \<notin> keys_of xs" "key \<notin> keys_of ys" by blast
  have l: "lru_list s = map snd (xs @ (it, key, h') # ys)" by (simp add: lru_list_def e)
  have h': "h' = h0" using assms(3) d(3,4) by (force simp: l)
  have ev: "EvictForCharge Some s (l_charge h - l_charge h0) = Inr s"
    using assms(4) by (subst EvictForCharge.simps) (auto simp: not_less)
  let ?f = "\<lambda>(it', k, h'). (it', k, if it' = it then h else h')"
  have "map ?f zs = zs" if "it \<notin> fst ` set zs" for zs :: "('a, 'b) lentry list"
    using that by (induction zs) auto
  then have m: "map ?f (entries s) = xs @ (it, key, h) # ys" using d by (simp add: e)
  have p0: "plain h0" using ap assms(3) by (auto simp: all_plain_def)
  have "Insert Some s key h = Inr (s\<lparr>entries := (it, key, h) # xs @ ys, freed := freed s\<rparr>)"
    using find_node_split[OF e d(1)] splice_front_split[OF d(1,2)] m assms(2) ev FreeData_plain[OF p0]
    by (simp add: Insert_def Insert_update_def GetTotalCharge_def Let_def h')
  then show ?thesis using u by (simp add: l h') (simp add: lru_list_def)
qed

theorem Insert_update_drifts_witness:
  "\<exists>s'. Insert Some \<lparr>capacity = 10, max_entry_num = 0, usage = 4,
     entries = [(0, 1::nat, \<lparr>l_value = Some (5::int), l_del_cb = None, l_charge = 4\<rparr>)],
     lmap = [1 \<mapsto> 0], fresh = 1, freed = []\<rparr> 1 \<lparr>l_value = Some 6, l_del_cb = None, l_charge = 9\<rparr> = Inr s' \<and>
   usage s' = 4 \<and> charges (lru_list s') = 9"
  using Insert_update_drifts[of "\<lparr>capacity = 10, max_entry_num = 0, usage = 4,
     entries = [(0, 1::nat, \<lparr>l_value = Some (5::int), l_del_cb = None, l_charge = 4\<rparr>)],
     lmap = [1 \<mapsto> 0], fresh = 1, freed = []\<rparr>" 1 0 "\<lparr>l_value = Some 5, l_del_cb = None, l_charge = 4\<rparr>"
     "\<lparr>l_value = Some 6, l_del_cb = None, l_charge = 9\<rparr>"]
  by (force simp: lru_ok_def lru_wf_def lru_acc_def all_plain_def lru_list_def plain_def)

text \<open>an eviction of entries that have a deleter frees their values but never lowers the usage
  counter, because FreeData has already set the charge to zero: on a shard of such entries
  EvictForCharge either has nothing to do or empties the list and reads its back.\<close>

theorem EvictForCharge_deleter_fault:
  assumes "\<forall>(k, h) \<in> set (lru_list s). \<not> plain h"
  shows "EvictForCharge Some s n =
    (if capacity s \<noteq> 0 \<and> usage s + n > capacity s then Inl BackOfEmptyList else Inr s)"
  using assms
proof (induction s rule: evicted_induct)
  case (step s)
  show ?case
  proof (cases "capacity s \<noteq> 0 \<and> usage s + n > capacity s \<and> entries s \<noteq> []")
    case False
    then show ?thesis by (auto simp: EvictForCharge.simps[of Some s])
  next
    case True
    then obtain es it k h where e: "entries s = es @ [(it, k, h)]" by (metis prod_cases3 rev_exhaust)
    have "\<not> plain h" using step.prems by (simp add: lru_list_def e)
    then obtain h' calls where "FreeData h = (h', calls)" "l_charge h' = 0"
      by (auto simp: plain_def FreeData_def)
    then have ev: "usage (evicted s) = usage s" "capacity (evicted s) = capacity s"
      "entries (evicted s) = es"
      by (simp_all add: evicted_def e GetTotalCharge_def split: prod.splits)
    then have "\<forall>(k, h) \<in> set (lru_list (evicted s)). \<not> plain h"
      using step.prems by (simp add: lru_list_def e)
    then show ?thesis using step.IH True ev by (simp add: EvictForCharge.simps[of Some s])
  qed
qed

theorem EvictForCharge_deleter_fault_witness:
  "EvictForCharge Some \<lparr>capacity = 10, max_entry_num = 0, usage = 8,
     entries = [(0, 1::nat, \<lparr>l_value = Some (5::int), l_del_cb = Some 1, l_charge = 8\<rparr>)],
     lmap = [1 \<mapsto> 0], fresh = 1, freed = []\<rparr> 4 = Inl BackOfEmptyList"
  by (subst EvictForCharge_deleter_fault) (simp_all add: lru_list_def plain_def)

text \<open>growing the least recently used entry beyond the free capacity evicts that very entry and
  then writes through the stale reference to it.\<close>

theorem Insert_evicts_its_own_entry:
  assumes "lru_ok s" "entries s = es @ [(it, key, h0)]" "capacity s \<noteq> 0"
    "unat (l_charge h0) \<le> unat (l_charge h)" "unat (l_charge h) \<le> unat (capacity s)"
    "unat (capacity s) < charges (lru_list s) + (unat (l_charge h) - unat (l_charge h0))"
    "unat (capacity s) < 2 ^ 63" "usage s \<le> capacity s"
  shows "Insert Some s key h = Inl StaleReference"
proof -
  let ?n = "l_charge h - l_charge h0"
  have wf: "lru_wf s" and u: "unat (usage s) = charges (lru_list s)"
    using assms(1) by (simp_all add: lru_ok_def lru_acc_def)
  have lm: "lmap s key = Some it" and it: "it \<notin> fst ` set es"
    using wf map_of_keys_None[of key es] by (auto simp: lru_wf_def assms(2) map_add_def)
  have n: "unat ?n = unat (l_charge h) - unat (l_charge h0)" using assms(4) by (simp add: unat_sub_small)
  have room: "unat (usage s) + unat ?n < 2 ^ 64"
    using assms(4,5,7,8) n by (simp add: word_le_nat_alt)
  have add: "unat (usage s + ?n) = unat (usage s) + unat ?n" using room by (simp add: unat_add_small)
  have gt: "capacity s < usage s + ?n" using assms(6) u n add by (simp add: word_less_nat_alt)
  have ne: "entries s \<noteq> []" by (simp add: assms(2))
  note ev = evicted_ok[OF assms(1) ne]
  have ule: "unat (usage (evicted s)) \<le> unat (usage s)"
    using ev(1,2) u charges_take[of "length (lru_list s) - 1" "lru_list s"]
    by (simp add: lru_ok_def lru_acc_def butlast_conv_take)
  have e1: "entries (evicted s) = es" by (simp add: evicted_def assms(2) split: prod.splits)
  have "unat ?n \<le> unat (capacity s)" using n assms(5) by simp
  then obtain s' where s': "EvictForCharge Some (evicted s) ?n = Inr s'"
    "lru_list s' = fit (unat (capacity s) - unat ?n) (lru_list (evicted s))" "lru_ok s'"
    using EvictForCharge_fit[OF ev(1), of ?n] ev(3) assms(3) ule room by (auto simp: same_config_def)
  have evs: "EvictForCharge Some s ?n = Inr s'" using gt ne assms(3) s'(1) by (subst EvictForCharge.simps) simp
  have "find_node it (entries s') = None"
    using EvictForCharge_subset[OF s'(1)] it by (force simp: e1 find_node_def find_None_iff)
  moreover have "find_node it (entries s) = Some (it, key, h0)"
    using it by (intro find_node_split[OF assms(2)])
  moreover have "0 < ?n" using assms(6) n u assms(8) by (simp add: word_less_nat_alt word_le_nat_alt)
  ultimately show ?thesis
    using evs by (simp add: Insert_def lm Insert_update_def GetTotalCharge_def)
qed

theorem Insert_evicts_its_own_entry_witness:
  "Insert Some \<lparr>capacity = 10, max_entry_num = 0, usage = 8,
     entries = [(1, 2, \<lparr>l_value = Some 6, l_del_cb = None, l_charge = 4\<rparr>),
       (0, 1::nat, \<lparr>l_value = Some (5::int), l_del_cb = None, l_charge = 4\<rparr>)],
     lmap = [1 \<mapsto> 0, 2 \<mapsto> 1], fresh = 2, freed = []\<rparr> 1 \<lparr>l_value = Some 7, l_del_cb = None, l_charge = 8\<rparr> =
   Inl StaleReference"
  by (rule Insert_evicts_its_own_entry)
     (auto simp: lru_ok_def lru_wf_def lru_acc_def all_plain_def lru_list_def plain_def fun_eq_iff)

end
