(* ===== verification/Sharding.thy ===== *)
theory Sharding
  imports Prelude
begin

text \<open>
  The interface between a sharded cache and its shards, shared by lru/cache.h, clock/cache.cc and
  the buckets of hash_skip/cache.h: a key is routed to one of n shards by its residue, and an
  operation on the key replaces that shard. What the clients need of the routing is only that it
  stays in range.
\<close>

locale router =
  fixes route :: "nat \<Rightarrow> 'k \<Rightarrow> nat"
  assumes route_less: "0 < n \<Longrightarrow> route n k < n"
begin

lemma put_same: "ss \<noteq> [] \<Longrightarrow> ss[route (length ss) k := s] ! route (length ss) k = s"
  using route_less[of "length ss" k] by simp

lemma put_other:
  "route (length ss) k' \<noteq> route (length ss) k \<Longrightarrow>
   ss[route (length ss) k := s] ! route (length ss) k' = ss ! route (length ss) k'"
  by simp

lemma shard_mem: "ss \<noteq> [] \<Longrightarrow> ss ! route (length ss) k \<in> set ss"
  using route_less[of "length ss" k] by simp

lemma put_all: "\<forall>s \<in> set ss. P s \<Longrightarrow> P s' \<Longrightarrow> \<forall>s \<in> set (ss[route (length ss) k := s']). P s"
  using set_update_subset_insert by fastforce

text \<open>A total over the shards changes by what the routed shard changes.\<close>

lemma put_total:
  fixes m :: "'s \<Rightarrow> nat"
  assumes "ss \<noteq> []"
  shows "sum_list (map m (ss[route (length ss) k := s])) + m (ss ! route (length ss) k) = sum_list (map m ss) + m s"
  using sum_list_update_nat[of "route (length ss) k" "map m ss" "m s"] route_less[of "length ss" k] assms
  by (simp add: map_update)

end

text \<open>The remainder of a 64-bit value by the number of shards, a size_t.\<close>

definition residue64 :: "nat \<Rightarrow> u64 \<Rightarrow> nat" where
  "residue64 n x = unat (x mod of_nat n)"

lemma residue64_less: "0 < n \<Longrightarrow> residue64 n x < n"
proof (cases "n < 2 ^ 64")
  case False
  moreover have "unat (x mod of_nat n) < 2 ^ 64" using unsigned_less[of "x mod of_nat n"] by simp
  ultimately show ?thesis by (simp add: residue64_def)
qed (simp add: residue64_def unat_mod unat_of_nat_eq)

end
