(* ===== verification/Lru_Cache.thy ===== *)
theory Lru_Cache
  imports Lru_Shard Sharding
begin

text \<open>
  LRUCache of lru/cache.h for the key type int64_t: a vector of shards, each under its own mutex,
  so that a call is one operation of the shard the key is routed to.
\<close>

record lru_options =
  lo_capacity :: u64
  lo_entry_num :: int
  lo_value_size :: u64
  lo_shard_num :: int

type_synonym 'v lru_cache = "(int, 'v) lru_shard list"

definition LRUCache_new :: "lru_options \<Rightarrow> 'v lru_cache" where
  "LRUCache_new options =
     (let shard_options = \<lparr>so_capacity = lo_capacity options, so_entry_num = lo_entry_num options,
            so_value_size = lo_value_size options\<rparr>
      in map (\<lambda>i. LRUCacheShard_new shard_options) [0..<nat (lo_shard_num options)])"

definition lru_GetUsage :: "'v lru_cache \<Rightarrow> u64" where
  "lru_GetUsage shards = fold (\<lambda>shard n. n + usage shard) shards 0"

definition lru_GetCapacity :: "'v lru_cache \<Rightarrow> u64" where
  "lru_GetCapacity shards = fold (\<lambda>shard n. n + capacity shard) shards 0"

definition lru_GetMaxEntryNum :: "'v lru_cache \<Rightarrow> int" where
  "lru_GetMaxEntryNum shards = fold (\<lambda>shard n. n + max_entry_num shard) shards 0"

definition lru_GetEntryNum :: "'v lru_cache \<Rightarrow> u64" where
  "lru_GetEntryNum shards = fold (\<lambda>shard n. n + GetEntryNum shard) shards 0"

text \<open>The key, an int64_t, is converted to size_t before the remainder is taken.\<close>

definition lru_index :: "nat \<Rightarrow> int \<Rightarrow> nat" where
  "lru_index n key = residue64 n (of_int key)"

definition lru_Get :: "'v lru_cache \<Rightarrow> int \<Rightarrow> lru_fault + ('v lhandle option \<times> 'v lru_cache)" where
  "lru_Get shards key =
     (let index = lru_index (length shards) key
      in case Get (shards ! index) key of
           Inl e \<Rightarrow> Inl e
         | Inr (r, shard) \<Rightarrow> Inr (r, shards[index := shard]))"

definition lru_Insert :: "(int, 'v) popped_read \<Rightarrow> 'v lru_cache \<Rightarrow> int \<Rightarrow> 'v lhandle \<Rightarrow> lru_fault + 'v lru_cache" where
  "lru_Insert popped shards key handle =
     (let index = lru_index (length shards) key
      in case Insert popped (shards ! index) key handle of
           Inl e \<Rightarrow> Inl e
         | Inr shard \<Rightarrow> Inr (shards[index := shard]))"

interpretation lru_route: router lru_index
  by unfold_locales (simp add: lru_index_def residue64_less)

section \<open>Properties\<close>

definition cache_ok :: "'v lru_cache \<Rightarrow> bool" where
  "cache_ok shards \<longleftrightarrow> shards \<noteq> [] \<and> (\<forall>s \<in> set shards. lru_ok s)"

definition shard_lookup :: "'v lru_cache \<Rightarrow> int \<Rightarrow> 'v lhandle option" where
  "shard_lookup shards key = map_of (lru_list (shards ! lru_index (length shards) key)) key"

text \<open>inserting into a consistent sharded cache and then looking the key up returns the inserted
  handle; keys of the other shards are looked up as before, and every shard stays consistent.\<close>

theorem lru_Insert_then_Get:
  assumes "cache_ok c" "insertable (c ! lru_index (length c) key) key h"
  shows "\<exists>c'. lru_Insert Some c key h = Inr c' \<and> cache_ok c' \<and> (\<exists>c''. lru_Get c' key = Inr (Some h, c'')) \<and>
    (\<forall>k. lru_index (length c) k \<noteq> lru_index (length c) key \<longrightarrow> shard_lookup c' k = shard_lookup c k)"
proof -
  let ?i = "lru_index (length c) key"
  have ne: "c \<noteq> []" and ok: "\<forall>s \<in> set c. lru_ok s" using assms(1) by (simp_all add: cache_ok_def)
  have "lru_ok (c ! ?i)" using ok lru_route.shard_mem[OF ne] by blast
  from Insert_ok[OF this assms(2)] obtain s' where s': "Insert Some (c ! ?i) key h = Inr s'" "lru_ok s'"
    "lru_list s' = spec_insert (unat (capacity (c ! ?i))) (nat (max_entry_num (c ! ?i))) key h (lru_list (c ! ?i))"
    by blast
  have l: "map_of (lru_list s') key = Some h" by (simp add: s'(3) spec_insert_def)
  obtain s'' where s'': "Get s' key = Inr (Some h, s'')"
    using Get_ok[OF s'(2), of key] l by (auto simp: spec_get_def)
  have "cache_ok (c[?i := s'])" using lru_route.put_all[OF ok s'(2)] ne by (simp add: cache_ok_def)
  moreover have "lru_Get (c[?i := s']) key = Inr (Some h, c[?i := s''])"
    using lru_route.put_same[OF ne, of key s'] s'' by (simp add: lru_Get_def Let_def)
  moreover have "shard_lookup (c[?i := s']) k = shard_lookup c k" if "lru_index (length c) k \<noteq> ?i" for k
    using lru_route.put_other[OF that] by (simp add: shard_lookup_def)
  ultimately show ?thesis using s'(1) by (auto simp: lru_Insert_def Let_def)
qed

theorem lru_Insert_then_Get_witness:
  "\<exists>c'. lru_Insert Some (LRUCache_new \<lparr>lo_capacity = 10, lo_entry_num = 2, lo_value_size = 0, lo_shard_num = 2\<rparr>) (-3)
      \<lparr>l_value = Some (5::int), l_del_cb = None, l_charge = 4\<rparr> = Inr c' \<and>
    (\<exists>c''. lru_Get c' (-3) = Inr (Some \<lparr>l_value = Some 5, l_del_cb = None, l_charge = 4\<rparr>, c''))"
proof -
  let ?c = "LRUCache_new \<lparr>lo_capacity = 10, lo_entry_num = 2, lo_value_size = 0, lo_shard_num = 2\<rparr> :: int lru_cache"
  let ?h = "\<lparr>l_value = Some (5::int), l_del_cb = None, l_charge = 4\<rparr>"
  have "cache_ok ?c" by (auto simp: cache_ok_def LRUCache_new_def LRUCacheShard_new_ok)
  moreover have "?c ! lru_index (length ?c) (-3) \<in> set ?c"
    by (rule lru_route.shard_mem) (simp add: LRUCache_new_def)
  then have "insertable (?c ! lru_index (length ?c) (-3)) (-3) ?h"
    by (auto simp: LRUCache_new_def LRUCacheShard_new_def insertable_def plain_def lru_list_def)
  ultimately show ?thesis using lru_Insert_then_Get[of ?c "-3" ?h] by blast
qed

lemma fold_add_const: "fold (\<lambda>s n. n + f s) ss a = a + sum_list (map f ss)" for f :: "'s \<Rightarrow> 'a::comm_monoid_add"
  by (induction ss arbitrary: a) (simp_all add: ac_simps)

text \<open>the constructor computes a capacity per shard but gives every shard the whole one: the
  capacity and the entry limit of a new cache are shard_num times the configured ones (the capacity
  modulo 2^64).\<close>

theorem LRUCache_capacity_multiplied:
  assumes "0 < lo_entry_num options" "0 \<le> lo_shard_num options"
  shows "lru_GetCapacity (LRUCache_new options :: 'v lru_cache) = of_int (lo_shard_num options) * lo_capacity options \<and>
    lru_GetMaxEntryNum (LRUCache_new options :: 'v lru_cache) = lo_shard_num options * lo_entry_num options"
  using assms
  by (simp add: lru_GetCapacity_def lru_GetMaxEntryNum_def LRUCache_new_def LRUCacheShard_new_def
      fold_add_const sum_list_triv o_def Let_def)

theorem LRUCache_capacity_multiplied_witness:
  "lru_GetCapacity (LRUCache_new \<lparr>lo_capacity = 100, lo_entry_num = 7, lo_value_size = 0, lo_shard_num = 4\<rparr>
     :: int lru_cache) = 400"
  using LRUCache_capacity_multiplied[of "\<lparr>lo_capacity = 100, lo_entry_num = 7, lo_value_size = 0, lo_shard_num = 4\<rparr>",
    where ?'v = int]
  by simp

end
