(* ===== verification/Op_Stat.thy ===== *)
theory Op_Stat
  imports Atomics
begin

text \<open>
  The counters OpStat of the benchmark programs cache_rw_mixed_bench.cc and cache_rw_separate_bench.cc: how
  many insertions and lookups failed and succeeded, a lookup counting as a success when the value it found is the
  one its key was stored with. The arrays are indexed by the outcome, the counters are 64 bits wide.
\<close>

record op_stat =
  insert_status :: "bool \<Rightarrow> u64"
  get_status :: "bool \<Rightarrow> u64"

definition OpStat_new :: op_stat where
  "OpStat_new = \<lparr>insert_status = (\<lambda>succ. StoreRelaxed 0 0), get_status = (\<lambda>succ. StoreRelaxed 0 0)\<rparr>"

definition count_insert :: "bool \<Rightarrow> op_stat \<Rightarrow> op_stat" where
  "count_insert succ stat =
     stat\<lparr>insert_status := (insert_status stat)(succ := snd (FetchAddRelaxed (insert_status stat succ) 1))\<rparr>"

definition count_get :: "bool \<Rightarrow> op_stat \<Rightarrow> op_stat" where
  "count_get succ stat =
     stat\<lparr>get_status := (get_status stat)(succ := snd (FetchAddRelaxed (get_status stat succ) 1))\<rparr>"

text \<open>No failure is counted, and i insertions are.\<close>

definition all_good :: "nat \<Rightarrow> op_stat \<Rightarrow> bool" where
  "all_good i stat \<longleftrightarrow> get_status stat False = 0 \<and> insert_status stat False = 0 \<and> insert_status stat True = of_nat i"

lemma all_good_start [simp]: "all_good 0 OpStat_new"
  by (simp add: all_good_def OpStat_new_def StoreRelaxed_def)

lemma all_good_insert [simp]: "all_good i stat \<Longrightarrow> all_good (Suc i) (count_insert True stat)"
  by (simp add: all_good_def count_insert_def FetchAddRelaxed_def add.commute)

lemma all_good_get [simp]: "all_good i (count_get True stat) \<longleftrightarrow> all_good i stat"
  by (simp add: all_good_def count_get_def)

end
