(* ===== verification/Lru_Bench.thy ===== *)
theory Lru_Bench
  imports Lru_Cache Op_Stat "HOL-Library.Monad_Syntax"
begin

text \<open>
  The turns of the benchmark programs on the LRU cache, with the check the programs make of it: a lookup
  that finds something has found the value its key was stored with. The keys, and whether a turn inserts, are
  arguments in place of the random numbers; enable_stat is an argument too. None is undefined
  behaviour, a fault of the cache or a null value. An eviction of the cache reads the entry it has popped; what
  it reads is an argument too, and the runs are those on an allocator that leaves a popped entry alone.
\<close>

section \<open>The turns\<close>

definition lru_Handle_new :: "int lhandle" where
  "lru_Handle_new = \<lparr>l_value = None, l_del_cb = None, l_charge = 0\<rparr>"

definition lru_get_turn ::
  "bool \<Rightarrow> int \<Rightarrow> op_stat \<Rightarrow> int lru_cache \<Rightarrow> (int lhandle \<times> op_stat \<times> int lru_cache) option" where
  "lru_get_turn enable_stat key stat c =
     (case lru_Get c key of
        Inl _ \<Rightarrow> None
      | Inr (None, c) \<Rightarrow> Some (lru_Handle_new, stat, c)
      | Inr (Some handle, c) \<Rightarrow>
          if enable_stat
          then (case l_value handle of
                  None \<Rightarrow> None
                | Some v \<Rightarrow> Some (handle, count_get (v = key) stat, c))
          else Some (handle, stat, c))"

definition lru_insert_turn ::
  "(int, int) popped_read \<Rightarrow> bool \<Rightarrow> int lhandle \<Rightarrow> int \<Rightarrow> op_stat \<Rightarrow> int lru_cache \<Rightarrow> (op_stat \<times> int lru_cache) option" where
  "lru_insert_turn popped enable_stat handle key stat c =
     (case lru_Insert popped c key (handle\<lparr>l_value := Some key, l_charge := 16\<rparr>) of
        Inl _ \<Rightarrow> None
      | Inr c \<Rightarrow> Some (if enable_stat then count_insert True stat else stat, c))"

text \<open>A turn of the mixed benchmark inserts with the handle its lookup has filled.\<close>

definition lru_mixed_turn :: "(int, int) popped_read \<Rightarrow> bool \<Rightarrow> int \<times> bool \<Rightarrow> op_stat \<times> int lru_cache \<Rightarrow> (op_stat \<times> int lru_cache) option" where
  "lru_mixed_turn popped enable_stat t sc =
     (case (t, sc) of ((key, miss), (stat, c)) \<Rightarrow>
        do { (handle, stat, c) \<leftarrow> lru_get_turn enable_stat key stat c;
             if miss then lru_insert_turn popped enable_stat handle key stat c else Some (stat, c) })"

fun lru_mixed_run ::
  "(int, int) popped_read \<Rightarrow> bool \<Rightarrow> (int \<times> bool) list \<Rightarrow> op_stat \<times> int lru_cache \<Rightarrow> (op_stat \<times> int lru_cache) option" where
  "lru_mixed_run popped enable_stat [] sc = Some sc"
| "lru_mixed_run popped enable_stat (t # ts) sc =
     do { sc \<leftarrow> lru_mixed_turn popped enable_stat t sc; lru_mixed_run popped enable_stat ts sc }"

definition bench_lru_options :: "int \<Rightarrow> lru_options" where
  "bench_lru_options shard_num =
     \<lparr>lo_capacity = 3250000 * 16 * 2, lo_entry_num = 8388608, lo_value_size = 0, lo_shard_num = shard_num\<rparr>"

section \<open>The turns keep the cache in order\<close>

definition bench_lhandle :: "int \<Rightarrow> int lhandle" where
  "bench_lhandle key = \<lparr>l_value = Some key, l_del_cb = None, l_charge = 16\<rparr>"

definition bench_shard :: "(int, int) lru_shard \<Rightarrow> bool" where
  "bench_shard s \<longleftrightarrow> lru_ok s \<and> capacity s = 3250000 * 16 * 2 \<and> max_entry_num s = 8388608 \<and>
     (\<forall>(k, h) \<in> set (lru_list s). h = bench_lhandle k) \<and> unat (usage s) \<le> 104000000"

lemma charges_16: "(\<forall>(k, h) \<in> set es. h = bench_lhandle k) \<Longrightarrow> charges es = 16 * length es"
  by (induction es) (auto simp: bench_lhandle_def)

lemma bench_shard_usage:
  assumes "bench_shard s"
  shows "unat (usage s) = 16 * length (entries s)" "length (entries s) \<le> 6500000"
proof -
  have "charges (lru_list s) = 16 * length (lru_list s)" by (rule charges_16) (use assms in \<open>simp add: bench_shard_def\<close>)
  then show u: "unat (usage s) = 16 * length (entries s)" using assms by (simp add: bench_shard_def lru_ok_def lru_acc_def lru_list_def)
  show "length (entries s) \<le> 6500000" using u assms by (simp add: bench_shard_def)
qed

lemma spec_insert_set: "set (spec_insert cap m k h es) \<subseteq> insert (k, h) (set es)"
proof -
  have "set (fit b es) \<subseteq> set es" for b using fit_is_take[of b es] set_take_subset by metis
  then show ?thesis by (auto simp: spec_insert_def remove_key_def Let_def dest: in_set_takeD)
qed

lemma bench_Get:
  assumes "bench_shard s"
  obtains r s' where "Get s key = Inr (r, s')" "bench_shard s'" "r = None \<or> r = Some (bench_lhandle key)"
proof -
  have ok: "lru_ok s" and hs: "\<forall>(k, h) \<in> set (lru_list s). h = bench_lhandle k" using assms by (simp_all add: bench_shard_def)
  obtain s' where g: "Get s key = Inr (fst (spec_get key (lru_list s)), s')" "lru_ok s'" "same_config s s'"
    "usage s' = usage s" "lru_list s' = snd (spec_get key (lru_list s))" using Get_ok[OF ok, of key] by blast
  have "\<forall>(k, h) \<in> set (lru_list s'). h = bench_lhandle k"
    using hs g(5) by (auto simp: spec_get_def remove_key_def dest: map_of_SomeD split: option.splits)
  then have "bench_shard s'" using assms g(2-4) by (simp add: bench_shard_def same_config_def)
  moreover have "fst (spec_get key (lru_list s)) = None \<or> fst (spec_get key (lru_list s)) = Some (bench_lhandle key)"
    using hs by (auto simp: spec_get_def dest: map_of_SomeD split: option.splits)
  ultimately show thesis using that[OF g(1)] by blast
qed

lemma bench_Insert:
  assumes "bench_shard s"
  obtains s' where "Insert Some s key (bench_lhandle key) = Inr s'" "bench_shard s'"
proof -
  have ok: "lru_ok s" and hs: "\<forall>(k, h) \<in> set (lru_list s). h = bench_lhandle k" using assms by (simp_all add: bench_shard_def)
  have "length (entries s) < 2 ^ 63" using bench_shard_usage(2)[OF assms] by simp
  then have ins: "insertable s key (bench_lhandle key)"
    using assms by (auto simp: insertable_def bench_shard_def plain_def bench_lhandle_def)
  obtain s' where i: "Insert Some s key (bench_lhandle key) = Inr s'" "lru_ok s'" "same_config s s'"
    "lru_list s' = spec_insert (unat (capacity s)) (nat (max_entry_num s)) key (bench_lhandle key) (lru_list s)"
    "capacity s \<noteq> 0 \<longrightarrow> lmap s key = None \<longrightarrow> unat (usage s') \<le> unat (capacity s)" "lmap s key \<noteq> None \<longrightarrow> usage s' = usage s"
    using Insert_ok[OF ok ins] by (elim exE conjE)
  have "\<forall>(k, h) \<in> set (lru_list s'). h = bench_lhandle k"
    using hs spec_insert_set[of "unat (capacity s)" "nat (max_entry_num s)" key "bench_lhandle key" "lru_list s"] i(4) by auto
  moreover have "unat (usage s') \<le> 104000000" using i(5,6) assms by (cases "lmap s key = None") (simp_all add: bench_shard_def)
  ultimately have "bench_shard s'" using assms i(2,3) by (simp add: bench_shard_def same_config_def)
  then show thesis using that i(1) by blast
qed

definition bench_cache :: "int lru_cache \<Rightarrow> bool" where
  "bench_cache c \<longleftrightarrow> c \<noteq> [] \<and> (\<forall>s \<in> set c. bench_shard s)"

lemma bench_shard_at: "bench_cache c \<Longrightarrow> bench_shard (c ! lru_index (length c) key)"
  unfolding bench_cache_def using lru_route.shard_mem by blast

lemma bench_put: "bench_cache c \<Longrightarrow> bench_shard s \<Longrightarrow> bench_cache (c[lru_index (length c) key := s])"
  unfolding bench_cache_def using lru_route.put_all[of c bench_shard s key] by simp

lemma bench_get_turn:
  assumes "bench_cache c" "all_good i stat"
  obtains handle stat' c' where "lru_get_turn True key stat c = Some (handle, stat', c')" "bench_cache c'" "all_good i stat'"
    "handle\<lparr>l_value := Some key, l_charge := 16\<rparr> = bench_lhandle key"
proof -
  obtain r s' where g: "Get (c ! lru_index (length c) key) key = Inr (r, s')" "bench_shard s'"
    "r = None \<or> r = Some (bench_lhandle key)" by (rule bench_Get[OF bench_shard_at[OF assms(1)]])
  note b = bench_put[OF assms(1) g(2), of key]
  have l: "lru_Get c key = Inr (r, c[lru_index (length c) key := s'])" using g(1) by (simp add: lru_Get_def Let_def)
  from g(3) show thesis
  proof
    assume "r = None"
    then show thesis using l b assms(2) by (intro that) (auto simp: lru_get_turn_def lru_Handle_new_def bench_lhandle_def)
  next
    assume "r = Some (bench_lhandle key)"
    then show thesis using l b assms(2)
      by (intro that[of "bench_lhandle key" "count_get True stat"]) (auto simp: lru_get_turn_def bench_lhandle_def)
  qed
qed

lemma bench_insert_turn:
  assumes "bench_cache c" "all_good i stat" "handle\<lparr>l_value := Some key, l_charge := 16\<rparr> = bench_lhandle key"
  obtains stat' c' where "lru_insert_turn Some True handle key stat c = Some (stat', c')" "bench_cache c'" "all_good (Suc i) stat'"
proof -
  obtain s' where s: "Insert Some (c ! lru_index (length c) key) key (bench_lhandle key) = Inr s'" "bench_shard s'"
    by (rule bench_Insert[OF bench_shard_at[OF assms(1)]])
  show thesis
    using bench_put[OF assms(1) s(2), of key] s(1) assms(2,3)
    by (intro that[of "count_insert True stat" "c[lru_index (length c) key := s']"])
       (simp_all add: lru_insert_turn_def lru_Insert_def Let_def)
qed

lemma bench_run:
  assumes "bench_cache c" "all_good i stat"
  shows "\<exists>stat' c'. lru_mixed_run Some True ts (stat, c) = Some (stat', c') \<and> bench_cache c' \<and>
    all_good (i + length (filter snd ts)) stat'"
  using assms
proof (induction ts arbitrary: i stat c)
  case (Cons t ts)
  obtain key miss where t: "t = (key, miss)" by force
  obtain handle stat1 c1 where g: "lru_get_turn True key stat c = Some (handle, stat1, c1)" "bench_cache c1" "all_good i stat1"
    "handle\<lparr>l_value := Some key, l_charge := 16\<rparr> = bench_lhandle key" by (rule bench_get_turn[OF Cons.prems])
  show ?case
  proof (cases miss)
    case True
    obtain stat2 c2 where n: "lru_insert_turn Some True handle key stat1 c1 = Some (stat2, c2)" "bench_cache c2" "all_good (Suc i) stat2"
      by (rule bench_insert_turn[OF g(2-4)])
    then show ?thesis using Cons.IH[OF n(2,3)] g(1) True by (simp add: t lru_mixed_turn_def)
  next
    case False
    then show ?thesis using Cons.IH[OF g(2,3)] g(1) by (simp add: t lru_mixed_turn_def)
  qed
qed simp

lemma bench_start:
  assumes "0 < n"
  shows "bench_cache (LRUCache_new (bench_lru_options n))"
  using assms
  by (auto simp: bench_cache_def LRUCache_new_def bench_lru_options_def bench_shard_def LRUCacheShard_new_ok Let_def)
     (simp_all add: LRUCacheShard_new_def lru_list_def)

section \<open>The benchmark\<close>

text \<open>The mixed benchmark on the LRU cache, with the options of the program and any positive number of shards,
  runs over every sequence of turns without a fault, on an allocator that leaves a popped entry alone. The check it makes never fails: every value a lookup
  finds is the one stored under its key. Every shard stays in its invariant, its usage is exactly 16 for each
  entry, and it holds at most the 6500000 entries that fit its capacity.\<close>

theorem lru_mixed_bench_runs:
  assumes "0 < shard_num"
  shows "\<exists>stat c. lru_mixed_run Some True ts (OpStat_new, LRUCache_new (bench_lru_options shard_num)) = Some (stat, c) \<and>
    get_status stat False = 0 \<and> insert_status stat False = 0 \<and>
    insert_status stat True = of_nat (length (filter snd ts)) \<and>
    (\<forall>s \<in> set c. lru_ok s \<and> unat (usage s) = 16 * length (entries s) \<and> length (entries s) \<le> 6500000)"
proof -
  obtain stat c where r: "lru_mixed_run Some True ts (OpStat_new, LRUCache_new (bench_lru_options shard_num)) = Some (stat, c)"
    "bench_cache c" "all_good (0 + length (filter snd ts)) stat"
    using bench_run[OF bench_start[OF assms] all_good_start, of ts] by blast
  have "lru_ok s \<and> unat (usage s) = 16 * length (entries s) \<and> length (entries s) \<le> 6500000" if "s \<in> set c" for s
  proof -
    have "bench_shard s" using r(2) that by (simp add: bench_cache_def)
    then show ?thesis using bench_shard_usage[of s] by (simp add: bench_shard_def)
  qed
  then show ?thesis using r(1,3) by (auto simp: all_good_def)
qed

theorem lru_mixed_bench_runs_witness:
  "\<exists>stat c. lru_mixed_run Some True [(5, True), (-3, True), (5, False)] (OpStat_new, LRUCache_new (bench_lru_options 128)) = Some (stat, c) \<and>
    get_status stat False = 0 \<and> insert_status stat True = 2"
  using lru_mixed_bench_runs[of 128 "[(5, True), (-3, True), (5, False)]"] by (auto simp del: lru_mixed_run.simps)

end
