(* ===== verification/Clock_Array.thy ===== *)
theory Clock_Array
  imports Clock_Slots "HOL-Library.Multiset"
begin

text \<open>
  The slot array as a hash table. table reads the array as the map the locale open_addressing
  speaks of; arr_ok is the invariant of the array between operations: the slots are well formed,
  no reference counter exceeds a given bound, and every displacement counter is the number of
  crossings of its slot. The lemmas give the three ways operations change the array: an entry is
  touched, removed or added.
\<close>

unbundle bit_operations_syntax

section \<open>The array read as a table\<close>

definition table :: "handle_impl list \<Rightarrow> nat \<Rightarrow> key128 option" where
  "table arr i = (if i < length arr \<and> occupied (arr ! i) then Some (hashed_key (arr ! i)) else None)"

definition occ_total :: "handle_impl list \<Rightarrow> u64" where
  "occ_total arr = sum_list (map (\<lambda>h. if occupied h then 1 else 0) arr)"

definition charge_total :: "handle_impl list \<Rightarrow> u64" where
  "charge_total arr = sum_list (map (\<lambda>h. if occupied h then total_charge h else 0) arr)"

text \<open>The deleter calls still owed to the entries of the array.\<close>

definition due :: "'a handle_scheme \<Rightarrow> (u64 \<times> u64) multiset" where
  "due h = mset (snd (FreeData h))"

definition owed :: "handle_impl list \<Rightarrow> (u64 \<times> u64) multiset" where
  "owed arr = sum_list (map (\<lambda>h. if occupied h then due h else {#}) arr)"

definition arr_ok :: "nat \<Rightarrow> nat \<Rightarrow> handle_impl list \<Rightarrow> bool" where
  "arr_ok b n arr \<longleftrightarrow> b < 32 \<and> length arr = 2 ^ b \<and> (\<forall>h \<in> set arr. slot_ok n h) \<and>
     (\<forall>i < 2 ^ b. displacements (arr ! i) = of_nat (crossings (path b) (2 ^ b) (table arr) i))"

lemma arr_okD:
  assumes "arr_ok b n arr"
  shows "b < 32" "b < 64" "length arr = 2 ^ b" "i < 2 ^ b \<Longrightarrow> slot_ok n (arr ! i)"
    "i < 2 ^ b \<Longrightarrow> displacements (arr ! i) = of_nat (crossings (path b) (2 ^ b) (table arr) i)"
  using assms by (auto simp: arr_ok_def)

lemma arr_okI:
  assumes "b < 32" "length arr = 2 ^ b" "\<And>i. i < 2 ^ b \<Longrightarrow> slot_ok n (arr ! i)"
    "\<And>i. i < 2 ^ b \<Longrightarrow> displacements (arr ! i) = of_nat (crossings (path b) (2 ^ b) (table arr) i)"
  shows "arr_ok b n arr"
  using assms by (auto simp: arr_ok_def in_set_conv_nth)

lemma arr_ok_mono: "arr_ok b n arr \<Longrightarrow> n \<le> n' \<Longrightarrow> arr_ok b n' arr"
  unfolding arr_ok_def slot_ok_def by (meson le_trans)

lemma sum_list_update_word: "i < length xs \<Longrightarrow> sum_list (xs[i := y]) = sum_list xs - xs ! i + (y :: u64)"
  by (induction xs arbitrary: i) (auto simp: algebra_simps split: nat.splits)

lemma occ_total_update:
  "i < length arr \<Longrightarrow> occ_total (arr[i := h]) =
     occ_total arr - (if occupied (arr ! i) then 1 else 0) + (if occupied h then 1 else 0)"
  by (simp add: occ_total_def map_update sum_list_update_word)

lemma charge_total_update:
  "i < length arr \<Longrightarrow> charge_total (arr[i := h]) =
     charge_total arr - (if occupied (arr ! i) then total_charge (arr ! i) else 0) +
     (if occupied h then total_charge h else 0)"
  by (simp add: charge_total_def map_update sum_list_update_word)

lemma sum_list_update_cancel:
  "i < length xs \<Longrightarrow> sum_list (xs[i := y]) + xs ! i = sum_list xs + (y :: 'a::cancel_comm_monoid_add)"
  by (induction xs arbitrary: i) (auto simp: ac_simps split: nat.splits)

lemma owed_update:
  "i < length arr \<Longrightarrow> owed (arr[i := h]) + (if occupied (arr ! i) then due (arr ! i) else {#}) =
     owed arr + (if occupied h then due h else {#})"
  using sum_list_update_cancel[of i "map (\<lambda>h. if occupied h then due h else {#}) arr" "if occupied h then due h else {#}"]
  by (simp add: owed_def map_update)

lemma table_update:
  "i < length arr \<Longrightarrow> table (arr[i := h]) = (table arr)(i := if occupied h then Some (hashed_key h) else None)"
  by (rule ext) (simp add: table_def nth_list_update)

text \<open>Functions of a slot that do not read the displacement counter.\<close>

lemma totals_cong:
  assumes "length arr' = length arr" "\<And>i. i < length arr \<Longrightarrow> \<exists>d. arr' ! i = (arr ! i)\<lparr>displacements := d\<rparr>"
  shows "occ_total arr' = occ_total arr" "charge_total arr' = charge_total arr" "table arr' = table arr"
    "owed arr' = owed arr"
proof -
  have e: "\<And>i. i < length arr \<Longrightarrow> occupied (arr' ! i) = occupied (arr ! i) \<and> due (arr' ! i) = due (arr ! i) \<and>
      total_charge (arr' ! i) = total_charge (arr ! i) \<and> hashed_key (arr' ! i) = hashed_key (arr ! i)"
    using assms(2) by (fastforce simp: occupied_def due_def FreeData_def)
  have "map (\<lambda>h. if occupied h then 1 else 0) arr' = map (\<lambda>h. if occupied h then 1 else (0 :: u64)) arr"
    "map (\<lambda>h. if occupied h then total_charge h else 0) arr' = map (\<lambda>h. if occupied h then total_charge h else 0) arr"
    "map (\<lambda>h. if occupied h then due h else {#}) arr' = map (\<lambda>h. if occupied h then due h else {#}) arr"
    using e assms(1) by (simp_all add: list_eq_iff_nth_eq)
  then show "occ_total arr' = occ_total arr" "charge_total arr' = charge_total arr" "owed arr' = owed arr"
    by (simp_all only: occ_total_def charge_total_def owed_def)
  show "table arr' = table arr" proof
    show "table arr' i = table arr i" for i using e[of i] assms(1) by (cases "i < length arr") (simp_all add: table_def)
  qed
qed

section \<open>Displacement counters\<close>

lemma displacement_0_iff:
  assumes "arr_ok b n arr" "i < 2 ^ b"
  shows "displacements (arr ! i) = 0 \<longleftrightarrow> crossings (path b) (2 ^ b) (table arr) i = 0"
proof -
  have "crossings (path b) (2 ^ b) (table arr) i \<le> 2 ^ b" by (rule oa.crossings_le)
  also have "(2 :: nat) ^ b < 2 ^ 32" using arr_okD(1)[OF assms(1)] by (intro power_strict_increasing) simp_all
  finally have "crossings (path b) (2 ^ b) (table arr) i < 2 ^ LENGTH(32)" by simp
  from unat_of_nat_eq[OF this] show ?thesis by (simp only: arr_okD(5)[OF assms] word_unat_eq_iff unsigned_0)
qed

text \<open>A walk for a key that stops at a slot with no displacements has passed every entry of the key.\<close>

lemma abort_complete:
  assumes "arr_ok b n arr" "path b key = pre @ i # post" "displacements (arr ! i) = 0" "j \<in> set post"
  shows "table arr j \<noteq> Some key"
proof
  assume t: "table arr j = Some key"
  have d: "distinct (pre @ i # post)" using path_distinct[of b key] assms(2) by simp
  have il: "i < 2 ^ b" "j < 2 ^ b" using path_set[of b key] assms(2,4) by auto
  from assms(4) obtain p1 p2 where p: "post = p1 @ j # p2" "j \<notin> set p1" by (meson split_list_first)
  have "takeWhile (\<lambda>l. l \<noteq> j) (path b key) = pre @ i # p1"
    using takeWhile_split[of j "pre @ i # p1" p2] d p by (simp add: assms(2))
  then have "0 < crossings (path b) (2 ^ b) (table arr) i"
    using oa.crossings_pos[where T = "table arr", OF il(2) t, of i] by simp
  then show False using displacement_0_iff[OF assms(1) il(1)] assms(3) by simp
qed

section \<open>Touching, removing and adding an entry\<close>

lemma arr_touch:
  assumes "arr_ok b n arr" "i < 2 ^ b" "slot_ok n' h" "n \<le> n'" "occupied h = occupied (arr ! i)"
    "hashed_key h = hashed_key (arr ! i)" "displacements h = displacements (arr ! i)"
  shows "arr_ok b n' (arr[i := h])" "table (arr[i := h]) = table arr"
proof -
  show t: "table (arr[i := h]) = table arr"
    by (rule ext) (use assms arr_okD(3)[OF assms(1)] in \<open>simp add: table_def nth_list_update\<close>)
  show "arr_ok b n' (arr[i := h])"
  proof (rule arr_okI)
    show "slot_ok n' (arr[i := h] ! j)" if "j < 2 ^ b" for j
      using arr_okD(4)[OF arr_ok_mono[OF assms(1,4)] that] assms(2,3) arr_okD(3)[OF assms(1)]
      by (simp add: nth_list_update)
    show "displacements (arr[i := h] ! j) = of_nat (crossings (path b) (2 ^ b) (table (arr[i := h])) j)" if "j < 2 ^ b" for j
      using arr_okD(5)[OF assms(1) that] assms(7) arr_okD(3)[OF assms(1)] that by (cases "j = i") (simp_all add: t)
  qed (use assms(1) in \<open>simp_all add: arr_okD\<close>)
qed

lemma totals_touch:
  assumes "i < length arr" "occupied h = occupied (arr ! i)" "total_charge h = total_charge (arr ! i)"
  shows "occ_total (arr[i := h]) = occ_total arr" "charge_total (arr[i := h]) = charge_total arr"
    "due h = due (arr ! i) \<Longrightarrow> owed (arr[i := h]) = owed arr"
  using assms owed_update[of i arr h]
  by (simp_all add: occ_total_update charge_total_update) (simp split: if_splits)

lemma before_distinct: "distinct (before b key i)"
  unfolding before_def by (rule distinct_takeWhile) (rule path_distinct)

lemma before_not: "i \<notin> set (before b key i)"
  unfolding before_def using set_takeWhileD by fastforce

lemma before_in_range: "j \<in> set (before b key i) \<Longrightarrow> j < 2 ^ b"
  unfolding before_def by (rule oa.before_less)

lemma decr_displacement_simps:
  "decr_displacement h = h\<lparr>displacements := displacements h - 1\<rparr>"
  "incr_displacement h = h\<lparr>displacements := displacements h + 1\<rparr>"
  by (simp_all add: decr_displacement_def incr_displacement_def atomic_defs)

lemma rolled_update:
  assumes "i \<notin> set is"
  shows "(rolled is arr)[i := h] = rolled is (arr[i := h])"
  using assms
proof (induction "is" arbitrary: arr)
  case (Cons j js)
  then have "(arr[j := decr_displacement (arr ! j)])[i := h] = (arr[i := h])[j := decr_displacement (arr[i := h] ! j)]"
    by (simp add: list_update_swap)
  moreover have "rolled (j # js) arr = rolled js (arr[j := decr_displacement (arr ! j)])" for arr
    by (simp add: rolled_def)
  ultimately show ?case using Cons by simp
qed (simp add: rolled_def)

lemma rolled_totals:
  assumes "distinct is"
  shows "occ_total (rolled is arr) = occ_total arr" "charge_total (rolled is arr) = charge_total arr"
    "table (rolled is arr) = table arr" "owed (rolled is arr) = owed arr"
proof -
  have "\<exists>d. rolled is arr ! i = (arr ! i)\<lparr>displacements := d\<rparr>" if "i < length arr" for i
    using rolled_nth[OF assms that] by (cases "i \<in> set is")
      (auto simp: decr_displacement_simps intro: exI[of _ "displacements (arr ! i)"])
  then show "occ_total (rolled is arr) = occ_total arr" "charge_total (rolled is arr) = charge_total arr"
    "table (rolled is arr) = table arr" "owed (rolled is arr) = owed arr" by (auto intro!: totals_cong)
qed

lemma arr_clear:
  assumes "arr_ok b n arr" "i < 2 ^ b" "occupied (arr ! i)" "meta h = 0"
    "displacements h = displacements (arr ! i)"
  defines "arr' \<equiv> rolled (before b (hashed_key (arr ! i)) i) (arr[i := h])"
  shows "arr_ok b n arr'" "table arr' = (table arr)(i := None)" "occ_total arr' = occ_total arr - 1"
    "charge_total arr' = charge_total arr - total_charge (arr ! i)" "length arr' = length arr"
    "\<And>j. j < 2 ^ b \<Longrightarrow> j \<noteq> i \<Longrightarrow> \<exists>d. arr' ! j = (arr ! j)\<lparr>displacements := d\<rparr>"
    "\<exists>d. arr' ! i = h\<lparr>displacements := d\<rparr>" "owed arr = due (arr ! i) + owed arr'"
proof -
  let ?key = "hashed_key (arr ! i)"
  let ?bf = "before b ?key i"
  have len: "length arr = 2 ^ b" by (rule arr_okD(3)[OF assms(1)])
  have free: "\<not> occupied h" using assms(4) fields_0 by (simp add: occupied_def)
  have ti: "table arr i = Some ?key" using assms(2,3) len by (simp add: table_def)
  show t: "table arr' = (table arr)(i := None)"
    using assms(2) len free by (simp add: arr'_def rolled_totals before_distinct table_update)
  show "occ_total arr' = occ_total arr - 1" "charge_total arr' = charge_total arr - total_charge (arr ! i)"
    using assms(2,3) len free
    by (simp_all add: arr'_def rolled_totals before_distinct occ_total_update charge_total_update)
  show "owed arr = due (arr ! i) + owed arr'"
    using owed_update[of i arr h] assms(2,3) len free
    by (simp add: arr'_def rolled_totals before_distinct add.commute)
  show len': "length arr' = length arr" by (simp add: arr'_def)
  have nth: "arr' ! j = (if j \<in> set ?bf then decr_displacement (arr[i := h] ! j) else arr[i := h] ! j)"
    if "j < 2 ^ b" for j
    using that len by (simp add: arr'_def rolled_nth before_distinct)
  have updj: "arr[i := h] ! j = arr ! j" if "j \<noteq> i" for j using that by simp
  have updi: "arr[i := h] ! i = h" using assms(2) len by simp
  show other: "\<exists>d. arr' ! j = (arr ! j)\<lparr>displacements := d\<rparr>" if "j < 2 ^ b" "j \<noteq> i" for j
    using nth[OF that(1)] updj[OF that(2)]
    by (cases "j \<in> set ?bf") (auto simp: decr_displacement_simps intro: exI[of _ "displacements (arr ! j)"])
  have self: "arr' ! i = h" using nth[OF assms(2)] before_not updi by metis
  then show "\<exists>d. arr' ! i = h\<lparr>displacements := d\<rparr>" by (intro exI[of _ "displacements h"]) simp
  show "arr_ok b n arr'"
  proof (rule arr_okI)
    show "slot_ok n (arr' ! j)" if "j < 2 ^ b" for j
    proof (cases "j = i")
      case True
      then show ?thesis using self assms(4) fields_0 by (simp add: slot_ok_def)
    next
      case False
      then show ?thesis using other[OF that] arr_okD(4)[OF assms(1) that] by (auto simp: slot_ok_def)
    qed
    show "displacements (arr' ! j) = of_nat (crossings (path b) (2 ^ b) (table arr') j)" if "j < 2 ^ b" for j
    proof -
      have cr: "crossings (path b) (2 ^ b) (table arr') j + (if j \<in> set ?bf then 1 else 0) =
          crossings (path b) (2 ^ b) (table arr) j"
        unfolding t before_def by (rule oa.crossings_clear[where T = "table arr" and j = i]) (fact assms(2), fact ti)
      have d: "displacements (arr[i := h] ! j) = of_nat (crossings (path b) (2 ^ b) (table arr) j)"
        using arr_okD(5)[OF assms(1) that] assms(5) updi updj[of j] by (cases "j = i") simp_all
      show ?thesis using nth[OF that] d by (simp add: decr_displacement_simps flip: cr)
    qed
  qed (use len len' assms(1) in \<open>simp_all add: arr_okD\<close>)
qed

text \<open>Insertion raises the counters of the slots its walk passes.\<close>

definition raised :: "nat list \<Rightarrow> handle_impl list \<Rightarrow> handle_impl list" where
  "raised is arr = foldl (\<lambda>arr j. arr[j := incr_displacement (arr ! j)]) arr is"

lemma raised_snoc: "raised (is @ [i]) arr = (raised is arr)[i := incr_displacement (raised is arr ! i)]"
  by (simp add: raised_def)

lemma raised_Nil [simp]: "raised [] arr = arr"
  by (simp add: raised_def)

lemma raised_length [simp]: "length (raised is arr) = length arr"
  by (induction "is" arbitrary: arr) (simp_all add: raised_def)

lemma raised_nth:
  assumes "distinct is" "i < length arr"
  shows "raised is arr ! i = (if i \<in> set is then incr_displacement (arr ! i) else arr ! i)"
  using assms
proof (induction "is" rule: rev_induct)
  case (snoc j js)
  have "raised js arr ! i = (if i \<in> set js then incr_displacement (arr ! i) else arr ! i)"
    using snoc by simp
  then show ?case using snoc.prems by (cases "i = j") (simp_all add: raised_snoc)
qed simp

lemma rolled_raised:
  assumes "distinct is"
  shows "rolled is (raised is arr) = arr"
proof (rule nth_equalityI)
  show "rolled is (raised is arr) ! i = arr ! i" if "i < length (rolled is (raised is arr))" for i
    using that assms by (simp add: rolled_nth raised_nth decr_displacement_simps)
qed simp

lemma raised_totals:
  assumes "distinct is"
  shows "occ_total (raised is arr) = occ_total arr" "charge_total (raised is arr) = charge_total arr"
    "table (raised is arr) = table arr" "owed (raised is arr) = owed arr"
proof -
  have "\<exists>d. raised is arr ! i = (arr ! i)\<lparr>displacements := d\<rparr>" if "i < length arr" for i
    using raised_nth[OF assms that] by (cases "i \<in> set is")
      (auto simp: decr_displacement_simps intro: exI[of _ "displacements (arr ! i)"])
  then show "occ_total (raised is arr) = occ_total arr" "charge_total (raised is arr) = charge_total arr"
    "table (raised is arr) = table arr" "owed (raised is arr) = owed arr" by (auto intro!: totals_cong)
qed

lemma arr_insert:
  assumes "arr_ok b n arr" "i < 2 ^ b" "\<not> occupied (arr ! i)" "slot_ok n h" "occupied h"
    "displacements h = displacements (arr ! i)"
  defines "arr' \<equiv> (raised (before b (hashed_key h) i) arr)[i := h]"
  shows "arr_ok b n arr'" "table arr' = (table arr)(i := Some (hashed_key h))" "occ_total arr' = occ_total arr + 1"
    "charge_total arr' = charge_total arr + total_charge h" "length arr' = length arr"
    "\<And>j. j < 2 ^ b \<Longrightarrow> j \<noteq> i \<Longrightarrow> \<exists>d. arr' ! j = (arr ! j)\<lparr>displacements := d\<rparr>" "arr' ! i = h"
    "owed arr' = due h + owed arr"
proof -
  let ?key = "hashed_key h"
  let ?bf = "before b ?key i"
  have len: "length arr = 2 ^ b" by (rule arr_okD(3)[OF assms(1)])
  have ri: "raised ?bf arr ! i = arr ! i" using before_not assms(2) len by (simp add: raised_nth before_distinct)
  have ti: "table arr i = None" using assms(3) by (simp add: table_def)
  show t: "table arr' = (table arr)(i := Some ?key)"
    using assms(2,5) len by (simp add: arr'_def raised_totals before_distinct table_update)
  show "occ_total arr' = occ_total arr + 1" "charge_total arr' = charge_total arr + total_charge h"
    using assms(2,3,5) len
    by (simp_all add: arr'_def raised_totals before_distinct occ_total_update charge_total_update ri)
  show "owed arr' = due h + owed arr"
    using owed_update[of i "raised ?bf arr" h] assms(2,3,5) len
    by (simp add: arr'_def raised_totals before_distinct ri add.commute)
  show len': "length arr' = length arr" by (simp add: arr'_def)
  show self: "arr' ! i = h" using assms(2) len by (simp add: arr'_def)
  have nth: "arr' ! j = (if j \<in> set ?bf then incr_displacement (arr ! j) else arr ! j)"
    if "j < 2 ^ b" "j \<noteq> i" for j
    using that len by (simp add: arr'_def raised_nth before_distinct)
  show other: "\<exists>d. arr' ! j = (arr ! j)\<lparr>displacements := d\<rparr>" if "j < 2 ^ b" "j \<noteq> i" for j
    using nth[OF that]
    by (cases "j \<in> set ?bf") (auto simp: decr_displacement_simps intro: exI[of _ "displacements (arr ! j)"])
  show "arr_ok b n arr'"
  proof (rule arr_okI)
    show "slot_ok n (arr' ! j)" if "j < 2 ^ b" for j
    proof (cases "j = i")
      case True
      then show ?thesis using self assms(4) by simp
    next
      case False
      then show ?thesis using other[OF that] arr_okD(4)[OF assms(1) that] by (auto simp: slot_ok_def)
    qed
    show "displacements (arr' ! j) = of_nat (crossings (path b) (2 ^ b) (table arr') j)" if "j < 2 ^ b" for j
    proof -
      have "crossings (path b) (2 ^ b) (table arr') j =
          crossings (path b) (2 ^ b) (table arr) j + (if j \<in> set ?bf then 1 else 0)"
        unfolding t before_def by (rule oa.crossings_put[where T = "table arr" and j = i]) (fact assms(2), fact ti)
      then show ?thesis
        using nth[OF that] arr_okD(5)[OF assms(1)] that self assms(2,6) before_not[of i b ?key]
        by (cases "j = i") (simp_all add: decr_displacement_simps)
    qed
  qed (use len len' assms(1) in \<open>simp_all add: arr_okD\<close>)
qed

end
