(* ===== verification/Clock_Cache.thy ===== *)
theory Clock_Cache
  imports Clock_Array
begin

text \<open>
  Lookup, Release, Erase and the insertion walk DoInsert of the class ClockCache, run to completion
  by one thread. The slot array is a list, a pointer to a slot its index. None is undefined
  behaviour (an index outside the array, a division by length zero) or a walk that does not end.
  calls logs the deleter calls the cache makes, latest first.

  The weak compare-and-swap of Erase may fail spuriously: its argument spurious gives, for each
  slot, how often it does.
\<close>

unbundle bit_operations_syntax

section \<open>The cache\<close>

record clock_cache =
  clock_pointer :: u64
  occupancy :: u64
  usage :: u64
  hit_decr_delta :: int
  hit_decr_delta_min :: int
  capacity :: u64
  cc_length :: u64
  occupancy_limit :: u64
  array :: "handle_impl list"
  calls :: "(u64 \<times> u64) list"

definition GetCapacity :: "clock_cache \<Rightarrow> u64" where "GetCapacity C = capacity C"
definition GetOccupancy :: "clock_cache \<Rightarrow> u64" where "GetOccupancy C = LoadRelaxed (occupancy C)"
definition GetUsage :: "clock_cache \<Rightarrow> u64" where "GetUsage C = LoadRelaxed (usage C)"
definition GetLength :: "clock_cache \<Rightarrow> u64" where "GetLength C = cc_length C"
definition GetOccupancyLimit :: "clock_cache \<Rightarrow> u64" where "GetOccupancyLimit C = occupancy_limit C"

definition Release :: "clock_cache \<Rightarrow> nat \<Rightarrow> (bool \<times> clock_cache) option" where
  "Release C h = do { arr \<leftarrow> on_slot RefDecr h (array C); Some (True, C\<lparr>array := arr\<rparr>) }"

text \<open>The abort function of Lookup and Erase, and their empty update function.\<close>

definition no_displacements :: "nat \<Rightarrow> handle_impl list \<Rightarrow> bool option" where
  "no_displacements h arr = (if h < length arr then Some (LoadRelaxed (displacements (arr ! h)) = 0) else None)"

definition lookup_abort :: "nat \<Rightarrow> handle_impl list \<Rightarrow> (bool \<times> handle_impl list) option" where
  "lookup_abort i arr = do { a \<leftarrow> no_displacements i arr; Some (a, arr) }"

definition no_update :: "nat \<Rightarrow> bool \<Rightarrow> 's \<Rightarrow> 's option" where
  "no_update i is_last s = Some s"

definition lookup_match :: "key128 \<Rightarrow> nat \<Rightarrow> handle_impl list \<Rightarrow> (bool \<times> handle_impl list) option" where
  "lookup_match key i arr =
     (if i < length arr then (let (matched, h) = lookup_slot key (arr ! i) in Some (matched, arr[i := h])) else None)"

definition Lookup :: "clock_cache \<Rightarrow> key128 \<Rightarrow> (nat option \<times> clock_cache) option" where
  "Lookup C key =
     do { (e, arr) \<leftarrow> FindSlot (cc_length C) key (lookup_match key)
            lookup_abort no_update (array C);
          Some (e, C\<lparr>array := arr\<rparr>) }"

definition ReclaimEntryUsage :: "clock_cache \<Rightarrow> u64 \<Rightarrow> clock_cache" where
  "ReclaimEntryUsage C charge =
     C\<lparr>occupancy := snd (FetchSubAcqRel (occupancy C) 1), usage := snd (FetchSubRelaxed (usage C) charge)\<rparr>"

text \<open>The state of Erase's walk: found, succ and the cache.\<close>

type_synonym erasing = "bool \<times> bool \<times> clock_cache"

definition erase_owned :: "key128 \<Rightarrow> nat \<Rightarrow> bool \<Rightarrow> clock_cache \<Rightarrow> bool \<times> handle_impl \<Rightarrow> (bool \<times> erasing) option" where
  "erase_owned key i succ C r =
     (case r of (took, h) \<Rightarrow>
        if took
        then do { let charge = GetTotalCharge h;
                  let (h, fs) = FreeDataMarkEmpty h;
                  let C = ReclaimEntryUsage (C\<lparr>array := (array C)[i := h], calls := fs @ calls C\<rparr>) charge;
                  arr \<leftarrow> Rollback (cc_length C) key i (array C);
                  Some (False, (True, True, C\<lparr>array := arr\<rparr>)) }
        else Some (False, (True, succ, C\<lparr>array := (array C)[i := h]\<rparr>)))"

definition erase_match :: "key128 \<Rightarrow> (nat \<Rightarrow> nat) \<Rightarrow> nat \<Rightarrow> erasing \<Rightarrow> (bool \<times> erasing) option" where
  "erase_match key spurious i st =
     (case st of (found, succ, C) \<Rightarrow>
        if i < length (array C)
        then let (old_meta, h) = RefIncr (array C ! i)
             in if state_of old_meta = kStateVisible
                then if hashed_key h = key
                     then do { let (old_meta, h) = erase_begin h;
                               r \<leftarrow> erase_loop (spurious i) old_meta h;
                               erase_owned key i succ C r }
                     else Some (False, (found, succ, C\<lparr>array := (array C)[i := RefDecr h]\<rparr>))
                else if state_of old_meta = kStateInvisible
                then Some (False, (found, succ, C\<lparr>array := (array C)[i := RefDecr h]\<rparr>))
                else Some (False, (found, succ, C\<lparr>array := (array C)[i := RefDecr h]\<rparr>))
        else None)"

definition erase_abort :: "nat \<Rightarrow> erasing \<Rightarrow> (bool \<times> erasing) option" where
  "erase_abort i st =
     (case st of (found, succ, C) \<Rightarrow> do { a \<leftarrow> no_displacements i (array C); Some (a, (found, succ, C)) })"

definition Erase :: "(nat \<Rightarrow> nat) \<Rightarrow> clock_cache \<Rightarrow> key128 \<Rightarrow> (bool \<times> clock_cache) option" where
  "Erase spurious C key =
     do { (_, (found, succ, C)) \<leftarrow> FindSlot (cc_length C) key (erase_match key spurious)
            erase_abort no_update (False, False, C);
          Some (succ \<or> \<not> found, C) }"

text \<open>The state of DoInsert's walk: already_matches and the array.\<close>

type_synonym inserting = "bool \<times> handle_impl list"

definition insert_match :: "'a handle_scheme \<Rightarrow> nat \<Rightarrow> inserting \<Rightarrow> (bool \<times> inserting) option" where
  "insert_match handle i st =
     (case st of (already_matches, arr) \<Rightarrow>
        if i < length arr
        then (let (b, already_matches, h) = TryInsert handle (arr ! i) already_matches
              in Some (b, (already_matches, arr[i := h])))
        else None)"

definition insert_abort :: "u64 \<Rightarrow> key128 \<Rightarrow> nat \<Rightarrow> inserting \<Rightarrow> (bool \<times> inserting) option" where
  "insert_abort len key i st =
     (case st of (already_matches, arr) \<Rightarrow>
        if already_matches then do { arr \<leftarrow> Rollback len key i arr; Some (True, (True, arr)) }
        else Some (False, (False, arr)))"

definition insert_update :: "u64 \<Rightarrow> key128 \<Rightarrow> nat \<Rightarrow> bool \<Rightarrow> inserting \<Rightarrow> inserting option" where
  "insert_update len key i is_last st =
     (case st of (already_matches, arr) \<Rightarrow>
        do { arr \<leftarrow> (if is_last then Rollback len key i arr else on_slot incr_displacement i arr);
             Some (already_matches, arr) })"

text \<open>The result is the slot, if any, the value of already_matches, and the cache.\<close>

definition DoInsert :: "clock_cache \<Rightarrow> 'a handle_scheme \<Rightarrow> (nat option \<times> bool \<times> clock_cache) option" where
  "DoInsert C handle =
     do { (e, (already_matches, arr)) \<leftarrow> FindSlot (cc_length C) (hashed_key handle) (insert_match handle)
            (insert_abort (cc_length C) (hashed_key handle)) (insert_update (cc_length C) (hashed_key handle))
            (False, array C);
          let C = C\<lparr>array := arr\<rparr>;
          if already_matches then Some (None, True, C) else Some (e, False, C) }"

section \<open>The invariant and the contents\<close>

text \<open>
  Between operations the counters occupancy and usage are the number of occupied slots and the sum
  of their charges; inside Insert they are ahead by what the insertion has reserved.
\<close>

definition occ_drift :: "clock_cache \<Rightarrow> u64" where
  "occ_drift C = occupancy C - occ_total (array C)"

definition usage_drift :: "clock_cache \<Rightarrow> u64" where
  "usage_drift C = usage C - charge_total (array C)"

definition cc_arr :: "nat \<Rightarrow> nat \<Rightarrow> clock_cache \<Rightarrow> bool" where
  "cc_arr b n C \<longleftrightarrow> cc_length C = 2 ^ b \<and> arr_ok b n (array C)"

definition cc_ok :: "nat \<Rightarrow> nat \<Rightarrow> clock_cache \<Rightarrow> bool" where
  "cc_ok b n C \<longleftrightarrow> cc_arr b n C \<and> occ_drift C = 0 \<and> usage_drift C = 0"

text \<open>The deleter calls made and those still owed: what the cache does never changes their sum.\<close>

definition ledger :: "clock_cache \<Rightarrow> (u64 \<times> u64) multiset" where
  "ledger C = mset (calls C) + owed (array C)"

text \<open>The slot a lookup of the key finds: the first visible one on its walk.\<close>

definition entry_at :: "nat \<Rightarrow> clock_cache \<Rightarrow> key128 \<Rightarrow> nat option" where
  "entry_at b C key = find (\<lambda>i. visible_for key (array C ! i)) (path b key)"

lemma cc_arrD:
  assumes "cc_arr b n C"
  shows "cc_length C = 2 ^ b" "arr_ok b n (array C)" "length (array C) = 2 ^ b" "b < 64"
    "i < 2 ^ b \<Longrightarrow> slot_ok n (array C ! i)"
  using assms arr_okD unfolding cc_arr_def by blast+

lemma path_less: "i \<in> set (path b key) \<Longrightarrow> i < 2 ^ b"
  by (simp add: path_set)

lemma visible_table: "visible_for key (arr ! i) \<Longrightarrow> i < length arr \<Longrightarrow> table arr i = Some key"
  by (simp add: visible_for_def table_def occupied_def)

lemma visible_displaced: "visible_for key (h\<lparr>displacements := d\<rparr>) = visible_for key h"
  by (simp add: visible_for_def)

lemma Nil_is_last: "walk m a u (i # is) s =
    m i s \<bind> (\<lambda>(matched, s). if matched then Some (Some i, s)
      else a i s \<bind> (\<lambda>(abort, s). if abort then Some (None, s) else u i (is = []) s \<bind> walk m a u is))"
  by simp

section \<open>Lookup\<close>

lemma lookup_slot_fst: "f_st (meta h) \<in> {0, 6, 7} \<Longrightarrow> fst (lookup_slot key h) = visible_for key h"
  by (cases "hashed_key h = key") (auto simp: lookup_slot_simps visible_for_def)

lemma lookup_slot_other:
  assumes "f_st (meta h) \<in> {0, 6, 7}" "\<not> visible_for key h" "occupied h"
  shows "lookup_slot key h = (False, h)"
  using assms by (auto simp: lookup_slot_simps visible_for_def occupied_def)

lemma lookup_slot_keeps:
  "\<exists>m. snd (lookup_slot key h) = h\<lparr>meta := m\<rparr>"
  by (auto simp: lookup_slot_def HitIncr_def HitDecr_def RefIncr_def RefDecr_def atomic_defs Let_def
      intro: exI[of _ "meta h"])

lemma lookup_slot_ok:
  assumes "slot_ok n h" "n + 1 < 2 ^ 30"
  shows "slot_ok (n + 1) (snd (lookup_slot key h))" "occupied (snd (lookup_slot key h)) = occupied h"
proof -
  have st: "f_st (meta h) \<in> {0, 6, 7}" "f_ref (meta h) + 1 < 2 ^ 30" "f_hit (meta h) \<le> 2000"
    using assms by (auto simp: slot_ok_def)
  have "slot_ok (n + 1) (snd (lookup_slot key h)) \<and> occupied (snd (lookup_slot key h)) = occupied h"
  proof (cases "visible_for key h")
    case True
    then obtain m where "lookup_slot key h = (True, h\<lparr>meta := m\<rparr>)"
      "meta_fields m = (f_ref (meta h) + 1, min (f_hit (meta h) + 1) 2000, f_bit (meta h), 7)"
      using lookup_slot_hit[of h key] st by (auto simp: visible_for_def)
    then show ?thesis using assms(1) True by (simp add: slot_ok_def occupied_def visible_for_def)
  next
    case False
    show ?thesis
    proof (cases "occupied h")
      case True
      then show ?thesis using lookup_slot_other[OF st(1) False True] assms(1) by (simp add: slot_ok_def)
    next
      case False
      then have "lookup_slot key h = (False, h\<lparr>meta := meta h + 1\<rparr>)" "f_st (meta h) = 0"
        by (simp_all add: occupied_def lookup_slot_simps)
      then show ?thesis using fields_RefIncr[OF st(2)] assms(1) by (simp add: slot_ok_def occupied_def)
    qed
  qed
  then show "slot_ok (n + 1) (snd (lookup_slot key h))" "occupied (snd (lookup_slot key h)) = occupied h" by simp_all
qed

definition abort_sound :: "handle_impl list \<Rightarrow> key128 \<Rightarrow> nat list \<Rightarrow> bool" where
  "abort_sound arr key is \<longleftrightarrow>
     (\<forall>p i q. is = p @ i # q \<longrightarrow> displacements (arr ! i) = 0 \<longrightarrow> (\<forall>j \<in> set q. \<not> visible_for key (arr ! j)))"

lemma abort_soundD:
  assumes "abort_sound arr key (i # is)"
  shows "abort_sound arr key is" "displacements (arr ! i) = 0 \<Longrightarrow> j \<in> set is \<Longrightarrow> \<not> visible_for key (arr ! j)"
proof -
  show "abort_sound arr key is" unfolding abort_sound_def
  proof (intro allI impI ballI)
    fix p l q j assume "is = p @ l # q" "displacements (arr ! l) = 0" "j \<in> set q"
    then show "\<not> visible_for key (arr ! j)" using assms unfolding abort_sound_def by (metis append_Cons)
  qed
  show "\<not> visible_for key (arr ! j)" if "displacements (arr ! i) = 0" "j \<in> set is"
    using assms that unfolding abort_sound_def by (metis append_Nil)
qed

lemma abort_sound_cong:
  assumes "\<And>i. i \<in> set is \<Longrightarrow> arr' ! i = arr ! i" "abort_sound arr key is"
  shows "abort_sound arr' key is"
  unfolding abort_sound_def
proof (intro allI impI ballI)
  fix p i q j assume a: "is = p @ i # q" "displacements (arr' ! i) = 0" "j \<in> set q"
  then have "arr' ! i = arr ! i" "arr' ! j = arr ! j" using assms(1) by auto
  then show "\<not> visible_for key (arr' ! j)" using assms(2) a unfolding abort_sound_def by metis
qed

lemma path_abort_sound:
  assumes "arr_ok b n arr" "path b key = pre @ is"
  shows "abort_sound arr key is"
  unfolding abort_sound_def
proof (intro allI impI ballI notI)
  fix p i q j assume a: "is = p @ i # q" "displacements (arr ! i) = 0" "j \<in> set q" "visible_for key (arr ! j)"
  have "j < 2 ^ b" by (rule path_less[of j b key]) (use a assms(2) in auto)
  then have "table arr j = Some key" using a(4) visible_table arr_okD(3)[OF assms(1)] by simp
  moreover have "path b key = (pre @ p) @ i # q" using a assms(2) by simp
  ultimately show False using abort_complete[OF assms(1) _ a(2,3)] by simp
qed

abbreviation lookup_walk :: "key128 \<Rightarrow> nat list \<Rightarrow> handle_impl list \<Rightarrow> (nat option \<times> handle_impl list) option" where
  "lookup_walk key \<equiv> walk (lookup_match key) lookup_abort no_update"

text \<open>
  The outcome of a lookup walk along a list: V are the slots it ran lookup_slot on, r is its result.
\<close>

definition looked :: "key128 \<Rightarrow> nat list \<Rightarrow> handle_impl list \<Rightarrow> nat option \<Rightarrow> nat set \<Rightarrow> handle_impl list \<Rightarrow> bool" where
  "looked key is arr r V arr' \<longleftrightarrow> V \<subseteq> set is \<and> length arr' = length arr \<and>
     (\<forall>j < length arr. arr' ! j = (if j \<in> V then snd (lookup_slot key (arr ! j)) else arr ! j)) \<and>
     (\<forall>j. r = Some j \<longrightarrow> j \<in> V) \<and> (\<forall>j \<in> V. visible_for key (arr ! j) \<longrightarrow> r = Some j)"

lemma lookedD:
  assumes "looked key is arr r V arr'"
  shows "V \<subseteq> set is" "length arr' = length arr"
    "j < length arr \<Longrightarrow> arr' ! j = (if j \<in> V then snd (lookup_slot key (arr ! j)) else arr ! j)"
    "r = Some j \<Longrightarrow> j \<in> V" "j \<in> V \<Longrightarrow> visible_for key (arr ! j) \<Longrightarrow> r = Some j"
  using assms unfolding looked_def by blast+

lemma looked_single:
  assumes "lookup_slot key (arr ! i) = (ok, h)" "i < length arr" "ok = visible_for key (arr ! i)"
  shows "looked key (i # js) arr (if ok then Some i else None) {i} (arr[i := h])"
  unfolding looked_def using assms by (auto simp: nth_list_update)

lemma looked_Cons:
  assumes h: "lookup_slot key (arr ! i) = (False, h)" "i < length arr" "\<not> visible_for key (arr ! i)"
    and d: "distinct (i # js)" and L: "looked key js (arr[i := h]) r V arr'"
  shows "looked key (i # js) arr r (insert i V) arr'"
proof -
  note L = lookedD[OF L]
  have eq: "j \<noteq> i \<Longrightarrow> arr[i := h] ! j = arr ! j" for j by simp
  have iV: "i \<notin> V" using L(1) d by auto
  have "arr' ! j = (if j \<in> insert i V then snd (lookup_slot key (arr ! j)) else arr ! j)" if "j < length arr" for j
  proof (cases "j = i")
    case True
    then show ?thesis using L(3)[of j] that h iV by simp
  next
    case False
    then show ?thesis using L(3)[of j] that by simp
  qed
  moreover have "r = Some j" if "j \<in> insert i V" "visible_for key (arr ! j)" for j
  proof (cases "j = i")
    case True
    then show ?thesis using that h(3) by simp
  next
    case False
    then show ?thesis using that L(5)[of j] by simp
  qed
  moreover have "insert i V \<subseteq> set (i # js)" "length arr' = length arr" using L(1,2) by auto
  ultimately show ?thesis unfolding looked_def using L(4) by blast
qed

lemma lookup_walk_spec:
  assumes "distinct is" "\<forall>i \<in> set is. i < length arr" "\<forall>i \<in> set is. f_st (meta (arr ! i)) \<in> {0, 6, 7}"
    "abort_sound arr key is"
  shows "\<exists>V arr'. lookup_walk key is arr = Some (find (\<lambda>i. visible_for key (arr ! i)) is, arr') \<and>
     looked key is arr (find (\<lambda>i. visible_for key (arr ! i)) is) V arr'"
  using assms
proof (induction "is" arbitrary: arr)
  case Nil
  then show ?case by (intro exI[of _ "{}"] exI[of _ arr]) (simp add: looked_def)
next
  case (Cons i js)
  obtain ok h where h: "lookup_slot key (arr ! i) = (ok, h)" by force
  have i: "i < length arr" and st: "f_st (meta (arr ! i)) \<in> {0, 6, 7}" using Cons.prems by simp_all
  have ok: "ok = visible_for key (arr ! i)" using lookup_slot_fst[OF st, of key] h by simp
  obtain m where m: "h = (arr ! i)\<lparr>meta := m\<rparr>" using lookup_slot_keeps[of key "arr ! i"] h by auto
  let ?arr = "arr[i := h]"
  note single = looked_single[OF h i ok, of js]
  show ?case
  proof (cases ok)
    case True
    then have "lookup_walk key (i # js) arr = Some (Some i, ?arr)"
      using h i by (simp add: lookup_match_def)
    then show ?thesis using single ok True by (intro exI[of _ "{i}"] exI[of _ ?arr]) simp
  next
    case False
    have eq: "arr[i := h] ! j = arr ! j" if "j \<in> set js" for j
      using that Cons.prems(1) by (cases "j = i") auto
    have d: "displacements (arr[i := h] ! i) = displacements (arr ! i)" using i m by simp
    have fi: "find (\<lambda>i. visible_for key (arr ! i)) (i # js) = find (\<lambda>i. visible_for key (arr ! i)) js"
      using ok False by simp
    show ?thesis
    proof (cases "displacements (arr ! i) = 0")
      case True
      then have n: "find (\<lambda>i. visible_for key (arr ! i)) js = None"
        using abort_soundD(2)[OF Cons.prems(4)] by (simp add: find_None_iff)
      have "lookup_walk key (i # js) arr = Some (None, ?arr)"
        using h i False True d
        by (simp add: lookup_match_def lookup_abort_def no_displacements_def LoadRelaxed_def)
      then show ?thesis unfolding fi n using single False by (intro exI[of _ "{i}"] exI[of _ ?arr]) simp
    next
      case nz: False
      have as: "abort_sound ?arr key js"
        using abort_soundD(1)[OF Cons.prems(4)] by (rule abort_sound_cong[rotated]) (rule eq)
      have f: "find (\<lambda>i. visible_for key (?arr ! i)) js = find (\<lambda>i. visible_for key (arr ! i)) js"
        using eq by (intro find_cong) auto
      have p: "distinct js" "\<forall>i \<in> set js. i < length ?arr" "\<forall>i \<in> set js. f_st (meta (?arr ! i)) \<in> {0, 6, 7}"
        using Cons.prems(1-3) eq by simp_all
      obtain V arr' where IH: "lookup_walk key js ?arr = Some (find (\<lambda>i. visible_for key (arr ! i)) js, arr')"
        "looked key js ?arr (find (\<lambda>i. visible_for key (arr ! i)) js) V arr'"
        using Cons.IH[OF p as] unfolding f by blast
      have step: "lookup_walk key (i # js) arr = lookup_walk key js ?arr"
        using h i False nz d by (simp add: lookup_match_def lookup_abort_def no_update_def no_displacements_def LoadRelaxed_def)
      have "looked key (i # js) arr (find (\<lambda>i. visible_for key (arr ! i)) js) (insert i V) arr'"
        using looked_Cons[OF _ i _ Cons.prems(1) IH(2)] h ok False by simp
      then show ?thesis unfolding step IH(1) fi by blast
    qed
  qed
qed

text \<open>What Lookup leaves of a slot it did not return: an entry stays as it is, an empty slot that was passed keeps
  the increment of its meta word, which makes no entry of it.\<close>

definition undisturbed :: "handle_impl \<Rightarrow> handle_impl \<Rightarrow> bool" where
  "undisturbed h h' \<longleftrightarrow> (if occupied h then h' = h else \<not> occupied h' \<and> (h' = h \<or> h' = h\<lparr>meta := meta h + 1\<rparr>))"

lemma map_updated_totals:
  assumes "length arr' = length arr" "\<And>j. j < length arr \<Longrightarrow> occupied (arr' ! j) = occupied (arr ! j) \<and>
     total_charge (arr' ! j) = total_charge (arr ! j) \<and> hashed_key (arr' ! j) = hashed_key (arr ! j) \<and>
     due (arr' ! j) = due (arr ! j)"
  shows "occ_total arr' = occ_total arr" "charge_total arr' = charge_total arr" "table arr' = table arr" "owed arr' = owed arr"
proof -
  have "map (\<lambda>h. if occupied h then 1 else 0) arr' = map (\<lambda>h. if occupied h then 1 else (0 :: u64)) arr"
    "map (\<lambda>h. if occupied h then total_charge h else 0) arr' = map (\<lambda>h. if occupied h then total_charge h else 0) arr"
    "map (\<lambda>h. if occupied h then due h else {#}) arr' = map (\<lambda>h. if occupied h then due h else {#}) arr"
    using assms by (simp_all add: list_eq_iff_nth_eq)
  then show "occ_total arr' = occ_total arr" "charge_total arr' = charge_total arr" "owed arr' = owed arr"
    by (simp_all only: occ_total_def charge_total_def owed_def)
  show "table arr' = table arr"
  proof
    show "table arr' i = table arr i" for i using assms(2)[of i] assms(1) by (cases "i < length arr") (simp_all add: table_def)
  qed
qed

lemma Lookup_spec:
  assumes "cc_arr b n C" "n + 1 < 2 ^ 30"
  obtains C' where "Lookup C key = Some (entry_at b C key, C')" "cc_arr b (n + 1) C'"
    "C' = C\<lparr>array := array C'\<rparr>" "occ_drift C' = occ_drift C" "usage_drift C' = usage_drift C" "ledger C' = ledger C"
    "\<And>j. j < 2 ^ b \<Longrightarrow> entry_at b C key \<noteq> Some j \<Longrightarrow> undisturbed (array C ! j) (array C' ! j)"
    "\<And>j. entry_at b C key = Some j \<Longrightarrow> array C' ! j = snd (lookup_slot key (array C ! j))"
proof -
  let ?arr = "array C"
  note D = cc_arrD[OF assms(1)]
  have st: "\<forall>i \<in> set (path b key). f_st (meta (?arr ! i)) \<in> {0, 6, 7}"
    using D(5) path_less by (fastforce simp: slot_ok_def)
  have range: "\<forall>i \<in> set (path b key). i < length ?arr" using path_less D(3) by metis
  obtain V arr' where W0: "lookup_walk key (path b key) ?arr = Some (entry_at b C key, arr')"
    "looked key (path b key) ?arr (entry_at b C key) V arr'"
    using lookup_walk_spec[OF path_distinct range st path_abort_sound[OF D(2), of key "[]"]]
    unfolding entry_at_def append_Nil by blast
  note W = lookedD[OF W0(2)]
  let ?C = "C\<lparr>array := arr'\<rparr>"
  have slot: "slot_ok (n + 1) (arr' ! j) \<and> occupied (arr' ! j) = occupied (?arr ! j) \<and>
      (\<exists>m. arr' ! j = (?arr ! j)\<lparr>meta := m\<rparr>)" if "j < 2 ^ b" for j
  proof (cases "j \<in> V")
    case True
    then show ?thesis using W(3)[of j] that D(3) lookup_slot_ok[OF D(5)[OF that] assms(2), of key] lookup_slot_keeps[of key "?arr ! j"]
      by auto
  next
    case False
    then show ?thesis using W(3)[of j] that D(3) D(5)[OF that] by (auto simp: slot_ok_def intro: exI[of _ "meta (?arr ! j)"])
  qed
  have keep: "occupied (arr' ! j) = occupied (?arr ! j) \<and> total_charge (arr' ! j) = total_charge (?arr ! j) \<and>
      hashed_key (arr' ! j) = hashed_key (?arr ! j) \<and> due (arr' ! j) = due (?arr ! j)" if "j < length ?arr" for j
    using slot[of j] that D(3) by (auto simp: due_def FreeData_def)
  note T = map_updated_totals[OF W(2) keep]
  have "arr_ok b (n + 1) arr'"
  proof (rule arr_okI)
    show "displacements (arr' ! i) = of_nat (crossings (path b) (2 ^ b) (table arr') i)" if "i < 2 ^ b" for i
      using slot[OF that] arr_okD(5)[OF D(2) that] by (auto simp: T)
  qed (use slot D(3) W(2) arr_okD(1)[OF D(2)] in auto)
  then have "cc_arr b (n + 1) ?C" using D(1) by (simp add: cc_arr_def)
  moreover have "Lookup C key = Some (entry_at b C key, ?C)"
    by (simp add: Lookup_def D(1) FindSlot_walk[OF D(4)] W0(1))
  moreover have "undisturbed (?arr ! j) (arr' ! j)" if "j < 2 ^ b" "entry_at b C key \<noteq> Some j" for j
  proof (cases "occupied (?arr ! j)")
    case True
    have "arr' ! j = ?arr ! j"
    proof (cases "j \<in> V")
      case True
      then have "\<not> visible_for key (?arr ! j)" using W(5) that(2) by blast
      then have "lookup_slot key (?arr ! j) = (False, ?arr ! j)"
        using lookup_slot_other \<open>occupied (?arr ! j)\<close> D(5)[OF that(1)] by (simp add: slot_ok_def)
      then show ?thesis using W(3)[of j] that(1) D(3) by simp
    next
      case False
      then show ?thesis using W(3)[of j] that(1) D(3) by simp
    qed
    then show ?thesis using True by (simp add: undisturbed_def)
  next
    case False
    then have "f_st (meta (?arr ! j)) = 0" by (simp add: occupied_def)
    then have "arr' ! j = ?arr ! j \<or> arr' ! j = (?arr ! j)\<lparr>meta := meta (?arr ! j) + 1\<rparr>"
      using W(3)[of j] that(1) D(3) lookup_slot_simps(1) by (cases "j \<in> V") auto
    then show ?thesis using False slot[OF that(1)] by (auto simp: undisturbed_def)
  qed
  moreover have "arr' ! j = snd (lookup_slot key (?arr ! j))" if "entry_at b C key = Some j" for j
  proof -
    have "j \<in> V" using W(4) that by blast
    then show ?thesis using W(1) W(3)[of j] path_less[of j b key] D(3) by auto
  qed
  ultimately show thesis by (intro that[of ?C]) (simp_all add: occ_drift_def usage_drift_def ledger_def T)
qed

section \<open>Erase\<close>

text \<open>
  What Erase makes of a slot, up to its displacement counter: an unreferenced visible entry of the
  key is freed, a referenced one is made invisible with its counters kept, the rest stays.
\<close>

definition erased :: "key128 \<Rightarrow> handle_impl \<Rightarrow> handle_impl \<Rightarrow> bool" where
  "erased key h h' \<longleftrightarrow>
     (if visible_for key h
      then if f_ref (meta h) = 0 then \<not> occupied h'
           else payload h' = payload h \<and>
                meta_fields (meta h') = (f_ref (meta h), f_hit (meta h), f_bit (meta h), 6)
      else payload h' = payload h \<and> meta h' = meta h)"

definition displaced :: "handle_impl \<Rightarrow> handle_impl \<Rightarrow> bool" where
  "displaced h h' \<longleftrightarrow> payload h' = payload h \<and> meta h' = meta h"

lemma displacedI: "\<exists>d. h' = h\<lparr>displacements := d\<rparr> \<Longrightarrow> displaced h h'"
  by (auto simp: displaced_def payload_def)

lemma displaced_refl: "displaced h h"
  by (simp add: displaced_def)

lemma displacedD:
  assumes "displaced h h'"
  shows "meta h' = meta h" "hashed_key h' = hashed_key h" "total_charge h' = total_charge h"
    "h_value h' = h_value h" "del_cb h' = del_cb h" "payload h' = payload h"
  using assms by (simp_all add: displaced_def payload_def)

lemma visible_for_displaced: "displaced h h' \<Longrightarrow> visible_for key h' = visible_for key h"
  by (simp add: visible_for_def displacedD)

lemma occupied_displaced: "displaced h h' \<Longrightarrow> occupied h' = occupied h"
  by (simp add: occupied_def displacedD)

lemma erased_displaced: "erased key h h' \<Longrightarrow> displaced h' h'' \<Longrightarrow> erased key h h''"
  using displacedD(1,6)[of h' h''] occupied_displaced[of h' h''] by (simp add: erased_def split: if_splits)

lemma displaced_erased: "displaced h h' \<Longrightarrow> erased key h' h'' \<Longrightarrow> erased key h h''"
  using displacedD(1,6)[of h h'] visible_for_displaced[of h h' key] by (simp add: erased_def)

lemma displaced_trans: "displaced h h' \<Longrightarrow> displaced h' h'' \<Longrightarrow> displaced h h''"
  by (simp add: displaced_def)

definition freed_by :: "key128 \<Rightarrow> handle_impl \<Rightarrow> bool" where
  "freed_by key h \<longleftrightarrow> visible_for key h \<and> f_ref (meta h) = 0"

lemma freed_by_displaced: "displaced h h' \<Longrightarrow> freed_by key h' = freed_by key h"
  by (simp add: freed_by_def visible_for_displaced displacedD)

lemma FreeData_displaced: "displaced h h' \<Longrightarrow> snd (FreeData h') = snd (FreeData h)"
  by (simp add: FreeData_def displacedD)

text \<open>The cache C' after C, apart from the array, its counters and the deleter calls fs.\<close>

definition moved :: "clock_cache \<Rightarrow> (u64 \<times> u64) list \<Rightarrow> clock_cache \<Rightarrow> bool" where
  "moved C fs C' \<longleftrightarrow> C' = C\<lparr>array := array C', occupancy := occupancy C', usage := usage C', calls := fs @ calls C\<rparr> \<and>
     occ_drift C' = occ_drift C \<and> usage_drift C' = usage_drift C \<and> ledger C' = ledger C"

lemma moved_refl: "moved C [] C"
  by (simp add: moved_def)

lemma moved_trans:
  assumes "moved C fs C'" "moved C' gs C''"
  shows "moved C (gs @ fs) C''"
proof -
  obtain a o' u where C': "C' = C\<lparr>array := a, occupancy := o', usage := u, calls := fs @ calls C\<rparr>"
    using assms(1) unfolding moved_def by blast
  obtain a2 o2 u2 where C'': "C'' = C'\<lparr>array := a2, occupancy := o2, usage := u2, calls := gs @ calls C'\<rparr>"
    using assms(2) unfolding moved_def by blast
  have "C'' = C\<lparr>array := array C'', occupancy := occupancy C'', usage := usage C'', calls := (gs @ fs) @ calls C\<rparr>"
    by (simp add: C'' C')
  then show ?thesis using assms unfolding moved_def by (simp only:)
qed

lemma movedE:
  assumes "moved C fs C'"
  obtains a oc u where "C' = C\<lparr>array := a, occupancy := oc, usage := u, calls := fs @ calls C\<rparr>"
    "occ_drift C' = occ_drift C" "usage_drift C' = usage_drift C" "ledger C' = ledger C"
  using assms unfolding moved_def by blast

text \<open>One slot of the walk.\<close>

lemma erase_match_step:
  assumes "cc_arr b n C" "i < 2 ^ b" "n + 1 < 2 ^ 30"
  defines "h \<equiv> array C ! i"
  obtains C' where "erase_match key sp i (found, succ, C) =
      Some (False, (found \<or> visible_for key h, succ \<or> freed_by key h, C'))"
    "cc_arr b n C'" "moved C (if freed_by key h then snd (FreeData h) else []) C'"
    "erased key h (array C' ! i)" "\<And>j. j < 2 ^ b \<Longrightarrow> j \<noteq> i \<Longrightarrow> displaced (array C ! j) (array C' ! j)"
proof (cases "visible_for key h")
  case False
  note D = cc_arrD[OF assms(1)]
  have "erase_match key sp i (found, succ, C) = Some (False, (found, succ, C))"
    using False assms(2) D(3)
    by (auto simp: erase_match_def h_def RefIncr_simp RefDecr_simp visible_for_def state_of_consts Let_def)
  then show thesis using False assms(1) moved_refl[of C]
    by (intro that[of C]) (simp_all add: freed_by_def erased_def h_def displaced_refl)
next
  case True
  note D = cc_arrD[OF assms(1)]
  have i: "i < length (array C)" using assms(2) D(3) by simp
  have ok: "slot_ok n h" unfolding h_def by (rule D(5)[OF assms(2)])
  have st: "f_st (meta h) = 7" "hashed_key h = key" using True by (simp_all add: visible_for_def)
  have occ: "occupied h" using st by (simp add: occupied_def)
  have rb: "f_ref (meta h) + 1 < 2 ^ 30" using ok assms(3) by (simp add: slot_ok_def)
  have unf: "erase_match key sp i (found, succ, C) = erase_visible (sp i) h \<bind> erase_owned key i succ C"
    using i st unfolding erase_match_def h_def[symmetric] prod.case
    by (simp add: erase_visible_def RefIncr_simp state_of_consts split_beta Let_def flip: h_def)
  show thesis
  proof (rule erase_visible_cases[OF st(1) rb, of "sp i"])
    assume r: "f_ref (meta h) = 0"
      and e: "erase_visible (sp i) h = Some (True, h\<lparr>meta := push_bit kStateShift kStateConstruction\<rparr>)"
    let ?h = "h\<lparr>meta := push_bit kStateShift kStateConstruction\<rparr>"
    define h' where "h' = fst (FreeDataMarkEmpty ?h)"
    have fd: "FreeDataMarkEmpty ?h = (h', snd (FreeData h))"
      by (simp add: h'_def FreeDataMarkEmpty_def FreeData_def)
    have h': "meta h' = 0" "displacements h' = displacements (array C ! i)"
      by (simp_all add: h'_def FreeDataMarkEmpty_def FreeData_def MarkEmpty_def atomic_defs h_def)
    define arr' where "arr' = rolled (before b (hashed_key (array C ! i)) i) ((array C)[i := h'])"
      note A = arr_clear[OF D(2) assms(2) occ[unfolded h_def] h', folded arr'_def]
    let ?C = "C\<lparr>array := arr', occupancy := occupancy C - 1, usage := usage C - total_charge h,
                calls := snd (FreeData h) @ calls C\<rparr>"
    have key: "hashed_key (array C ! i) = key" using st by (simp add: h_def)
    have "Rollback (cc_length C) key i ((array C)[i := h']) = Some arr'"
      using Rollback_rolled[OF D(4), of "(array C)[i := h']" i key] D(1,3) assms(2) by (simp add: arr'_def key)
    then have "erase_match key sp i (found, succ, C) = Some (False, (True, True, ?C))"
      unfolding unf e by (simp add: erase_owned_def fd ReclaimEntryUsage_def GetTotalCharge_def atomic_defs Let_def)
    moreover have "moved C (snd (FreeData h)) ?C"
      using A(3,4,8) by (simp add: moved_def occ_drift_def usage_drift_def ledger_def due_def h_def)
    moreover have "cc_arr b n ?C" using D(1) A(1) by (simp add: cc_arr_def)
    moreover have "erased key h (arr' ! i)"
    proof -
      have "meta (arr' ! i) = 0" using A(7) h'(1) by auto
      then show ?thesis using True r fields_0 by (simp add: erased_def occupied_def)
    qed
    moreover have "displaced (array C ! j) (arr' ! j)" if "j < 2 ^ b" "j \<noteq> i" for j
      by (rule displacedI) (rule A(6)[OF that])
    ultimately show thesis using True r by (intro that[of ?C]) (simp_all add: freed_by_def)
  next
    fix m
    assume r: "0 < f_ref (meta h)" and e: "erase_visible (sp i) h = Some (False, h\<lparr>meta := m\<rparr>)"
      and m: "meta_fields m = (f_ref (meta h), f_hit (meta h), f_bit (meta h), 6)"
    let ?h = "h\<lparr>meta := m\<rparr>"
    let ?C = "C\<lparr>array := (array C)[i := ?h]\<rparr>"
    have sl: "slot_ok n ?h" "occupied ?h" using ok m by (simp_all add: slot_ok_def occupied_def)
    have same: "occupied ?h = occupied (array C ! i)" "hashed_key ?h = hashed_key (array C ! i)"
      "displacements ?h = displacements (array C ! i)" "total_charge ?h = total_charge (array C ! i)"
      using sl occ by (simp_all add: h_def)
    have due: "due ?h = due (array C ! i)" by (simp add: due_def FreeData_def h_def)
    have "erase_match key sp i (found, succ, C) = Some (False, (True, succ, ?C))"
      unfolding unf e by (simp add: erase_owned_def)
    moreover have "cc_arr b n ?C"
      using D(1) arr_touch(1)[OF D(2) assms(2) sl(1) order_refl same(1,2,3)] by (simp add: cc_arr_def)
    moreover have "moved C [] ?C"
      using totals_touch[OF i same(1,4)] due by (simp add: moved_def occ_drift_def usage_drift_def ledger_def)
    moreover have "erased key h (?h)"
      using True r m by (simp add: erased_def payload_def)
    ultimately show thesis using True r i
      by (intro that[of ?C]) (simp_all add: freed_by_def displaced_refl)
  qed
qed

abbreviation erase_walk :: "key128 \<Rightarrow> (nat \<Rightarrow> nat) \<Rightarrow> nat list \<Rightarrow> erasing \<Rightarrow> (nat option \<times> erasing) option" where
  "erase_walk key sp \<equiv> walk (erase_match key sp) erase_abort no_update"

text \<open>The deleter calls of a walk along a list, latest first.\<close>

definition erase_calls :: "key128 \<Rightarrow> handle_impl list \<Rightarrow> nat list \<Rightarrow> (u64 \<times> u64) list" where
  "erase_calls key arr is = concat (map (\<lambda>j. snd (FreeData (arr ! j))) (rev (filter (\<lambda>j. freed_by key (arr ! j)) is)))"

lemma erase_calls_cong:
  assumes "\<And>j. j \<in> set is \<Longrightarrow> displaced (arr ! j) (arr' ! j)"
  shows "erase_calls key arr' is = erase_calls key arr is"
proof -
  have "filter (\<lambda>j. freed_by key (arr' ! j)) is = filter (\<lambda>j. freed_by key (arr ! j)) is"
    using assms by (intro filter_cong refl freed_by_displaced)
  then show ?thesis unfolding erase_calls_def
    using assms by (intro arg_cong[of _ _ concat] map_cong) (simp_all add: FreeData_displaced)
qed

lemma erase_calls_Cons:
  "erase_calls key arr (i # js) = erase_calls key arr js @ (if freed_by key (arr ! i) then snd (FreeData (arr ! i)) else [])"
  by (simp add: erase_calls_def)

lemma erase_calls_none: "\<forall>j \<in> set is. \<not> visible_for key (arr ! j) \<Longrightarrow> erase_calls key arr is = []"
  by (simp add: erase_calls_def freed_by_def)

text \<open>The outcome of an erasing walk along a list.\<close>

definition erased_along :: "nat \<Rightarrow> nat \<Rightarrow> key128 \<Rightarrow> nat list \<Rightarrow> clock_cache \<Rightarrow> clock_cache \<Rightarrow> bool" where
  "erased_along b n key is C C' \<longleftrightarrow> cc_arr b n C' \<and> moved C (erase_calls key (array C) is) C' \<and>
     (\<forall>j < 2 ^ b. (j \<in> set is \<longrightarrow> erased key (array C ! j) (array C' ! j)) \<and>
        (j \<notin> set is \<longrightarrow> displaced (array C ! j) (array C' ! j)))"

lemma erase_walk_spec:
  assumes "cc_arr b n C" "n + 1 < 2 ^ 30" "path b key = pre @ is"
  shows "\<exists>C'. erase_walk key sp is (found, succ, C) =
       Some (None, (found \<or> (\<exists>j \<in> set is. visible_for key (array C ! j)),
                    succ \<or> (\<exists>j \<in> set is. freed_by key (array C ! j)), C')) \<and>
     erased_along b n key is C C'"
  using assms(1,3)
proof (induction "is" arbitrary: pre found succ C)
  case Nil
  then show ?case by (intro exI[of _ C]) (simp add: erased_along_def erase_calls_def moved_refl displaced_refl)
next
  case (Cons i js)
  have ipath: "i \<in> set (path b key)" using Cons.prems by simp
  then have i: "i < 2 ^ b" by (rule path_less)
  have dist: "i \<notin> set js" using path_distinct[of b key] Cons.prems(2) by simp
  have jless: "j < 2 ^ b" "j \<noteq> i" if "j \<in> set js" for j
    using path_less[of j b key] that Cons.prems(2) dist by auto
  obtain C1 where S: "erase_match key sp i (found, succ, C) =
      Some (False, (found \<or> visible_for key (array C ! i), succ \<or> freed_by key (array C ! i), C1))"
    and ok1: "cc_arr b n C1"
    and m1: "moved C (if freed_by key (array C ! i) then snd (FreeData (array C ! i)) else []) C1"
    and e1: "erased key (array C ! i) (array C1 ! i)"
    and o1: "\<And>j. j < 2 ^ b \<Longrightarrow> j \<noteq> i \<Longrightarrow> displaced (array C ! j) (array C1 ! j)"
    by (rule erase_match_step[OF Cons.prems(1) i assms(2), of key sp found succ]) blast
  note D = cc_arrD[OF ok1]
  have dj: "displaced (array C ! j) (array C1 ! j)" if "j \<in> set js" for j using o1 jless[OF that] by blast
  have vj: "visible_for key (array C1 ! j) = visible_for key (array C ! j)"
    "freed_by key (array C1 ! j) = freed_by key (array C ! j)" if "j \<in> set js" for j
    using visible_for_displaced[OF dj[OF that]] freed_by_displaced[OF dj[OF that]] by blast+
  have p1: "path b key = (pre @ [i]) @ js" using Cons.prems(2) by simp
  have nd: "no_displacements i (array C1) = Some (displacements (array C1 ! i) = 0)"
    using i D(3) by (simp add: no_displacements_def LoadRelaxed_def)
  show ?case
  proof (cases "displacements (array C1 ! i) = 0")
    case True
    have none: "\<not> visible_for key (array C1 ! j)" if "j \<in> set js" for j
      using abort_soundD(2)[OF path_abort_sound[OF D(2), of key pre "i # js"] True that] Cons.prems(2) by blast
    have nonej: "\<not> visible_for key (array C ! j)" if "j \<in> set js" for j using none vj(1) that by blast
    then have none': "(\<exists>j \<in> set js. visible_for key (array C ! j)) = False" "(\<exists>j \<in> set js. freed_by key (array C ! j)) = False"
      by (auto simp: freed_by_def)
    have "erase_walk key sp (i # js) (found, succ, C) =
        Some (None, (found \<or> visible_for key (array C ! i), succ \<or> freed_by key (array C ! i), C1))"
      using S True nd by (simp add: erase_abort_def)
    moreover have "erased_along b n key (i # js) C C1"
    proof -
      have "erased key (array C ! j) (array C1 ! j)" if "j \<in> set (i # js)" for j
        using that e1 dj[of j] nonej[of j] displacedD[of "array C ! j" "array C1 ! j"] by (auto simp: erased_def)
      moreover have "moved C (erase_calls key (array C) (i # js)) C1"
        using m1 erase_calls_none nonej by (simp add: erase_calls_Cons)
      ultimately show ?thesis using ok1 o1 unfolding erased_along_def by auto
    qed
    ultimately show ?thesis using none' by (intro exI[of _ C1]) simp
  next
    case False
    obtain C2 where IH: "erase_walk key sp js (found \<or> visible_for key (array C ! i), succ \<or> freed_by key (array C ! i), C1) =
       Some (None, ((found \<or> visible_for key (array C ! i)) \<or> (\<exists>j \<in> set js. visible_for key (array C1 ! j)),
                    (succ \<or> freed_by key (array C ! i)) \<or> (\<exists>j \<in> set js. freed_by key (array C1 ! j)), C2))"
      and E: "erased_along b n key js C1 C2"
      using Cons.IH[OF ok1 p1] by blast
    have "erase_walk key sp (i # js) (found, succ, C) =
        erase_walk key sp js (found \<or> visible_for key (array C ! i), succ \<or> freed_by key (array C ! i), C1)"
      using S False nd by (simp add: erase_abort_def no_update_def)
    moreover have "erased_along b n key (i # js) C C2"
    proof -
      have "moved C (erase_calls key (array C) (i # js)) C2"
        using moved_trans[OF m1, of "erase_calls key (array C1) js" C2] E erase_calls_cong[of js "array C" "array C1" key] dj
        by (simp add: erased_along_def erase_calls_Cons)
      moreover have "erased key (array C ! j) (array C2 ! j)" if "j < 2 ^ b" "j \<in> set (i # js)" for j
      proof (cases "j = i")
        case True
        then have "displaced (array C1 ! j) (array C2 ! j)" using E that dist unfolding erased_along_def by blast
        then show ?thesis using e1 True erased_displaced by blast
      next
        case False
        then have "j \<in> set js" using that by simp
        then show ?thesis using E that dj displaced_erased unfolding erased_along_def by blast
      qed
      moreover have "displaced (array C ! j) (array C2 ! j)" if "j < 2 ^ b" "j \<notin> set (i # js)" for j
        using E that o1[of j] displaced_trans unfolding erased_along_def by (metis list.set_intros)
      ultimately show ?thesis using E unfolding erased_along_def by blast
    qed
    ultimately show ?thesis unfolding IH using vj by (intro exI[of _ C2]) auto
  qed
qed

lemma Erase_spec:
  assumes "cc_arr b n C" "n + 1 < 2 ^ 30"
  obtains C' where "Erase sp C key =
      Some ((\<exists>j < 2 ^ b. freed_by key (array C ! j)) \<or> \<not> (\<exists>j < 2 ^ b. visible_for key (array C ! j)), C')"
    "cc_arr b n C'" "moved C (erase_calls key (array C) (path b key)) C'"
    "\<And>j. j < 2 ^ b \<Longrightarrow> erased key (array C ! j) (array C' ! j)"
proof -
  note D = cc_arrD[OF assms(1)]
  obtain C' where W: "erase_walk key sp (path b key) (False, False, C) =
       Some (None, (False \<or> (\<exists>j \<in> set (path b key). visible_for key (array C ! j)),
                    False \<or> (\<exists>j \<in> set (path b key). freed_by key (array C ! j)), C'))"
    and E: "erased_along b n key (path b key) C C'"
    using erase_walk_spec[OF assms, of key "[]"] unfolding append_Nil by blast
  have "Erase sp C key =
      Some ((\<exists>j < 2 ^ b. freed_by key (array C ! j)) \<or> \<not> (\<exists>j < 2 ^ b. visible_for key (array C ! j)), C')"
    unfolding Erase_def D(1) FindSlot_walk[OF D(4)] W by (simp add: path_set Bex_def)
  then show thesis using E unfolding erased_along_def path_set by (intro that[of C']) simp_all
qed

section \<open>The insertion walk\<close>

text \<open>The walk stops at the first slot that is empty or holds a visible entry of the key.\<close>

definition insert_stop :: "key128 \<Rightarrow> handle_impl \<Rightarrow> bool" where
  "insert_stop key h \<longleftrightarrow> \<not> occupied h \<or> visible_for key h"

definition insert_result :: "nat \<Rightarrow> 'a handle_scheme \<Rightarrow> handle_impl list \<Rightarrow> nat option \<Rightarrow> nat option \<times> inserting" where
  "insert_result b handle arr r =
     (case r of
        None \<Rightarrow> (None, (False, arr))
      | Some j \<Rightarrow>
          if occupied (arr ! j) then (None, (True, arr))
          else (Some j, (False, (raised (before b (hashed_key handle) j) arr)[j := FinishSlotInsert handle (arr ! j)])))"

abbreviation insert_walk :: "u64 \<Rightarrow> 'a handle_scheme \<Rightarrow> nat list \<Rightarrow> inserting \<Rightarrow> (nat option \<times> inserting) option" where
  "insert_walk len handle \<equiv>
     walk (insert_match handle) (insert_abort len (hashed_key handle)) (insert_update len (hashed_key handle))"

lemma before_prefix: "path b key = pre @ i # js \<Longrightarrow> before b key i = pre"
  unfolding before_def using path_distinct[of b key] takeWhile_split[of i pre js] by simp

lemma insert_walk_step:
  assumes "arr_ok b n arr" "path b (hashed_key handle) = pre @ i # js"
  shows "insert_stop (hashed_key handle) (arr ! i) \<Longrightarrow>
      insert_walk (2 ^ b) handle (i # js) (False, raised pre arr) = Some (insert_result b handle arr (Some i))"
    "\<not> insert_stop (hashed_key handle) (arr ! i) \<Longrightarrow>
      insert_walk (2 ^ b) handle (i # js) (False, raised pre arr) =
        insert_update (2 ^ b) (hashed_key handle) i (js = []) (False, raised pre arr) \<bind> insert_walk (2 ^ b) handle js"
    "insert_update (2 ^ b) (hashed_key handle) i True (False, raised pre arr) = Some (False, arr)"
    "insert_update (2 ^ b) (hashed_key handle) i False (False, raised pre arr) = Some (False, raised (pre @ [i]) arr)"
proof -
  let ?key = "hashed_key handle" and ?len = "2 ^ b :: u64"
  have b: "b < 64" and len: "length arr = 2 ^ b" using arr_okD[OF assms(1)] by simp_all
  have i: "i < 2 ^ b" by (rule path_less[of i b ?key]) (simp add: assms(2))
  have dpre: "distinct pre" "i \<notin> set pre" using path_distinct[of b ?key] assms(2) by simp_all
  have ri: "raised pre arr ! i = arr ! i" using i len dpre by (simp add: raised_nth)
  have st: "f_st (meta (arr ! i)) \<in> {0, 6, 7}" using arr_okD(4)[OF assms(1) i] by (simp add: slot_ok_def)
  have bf: "before b ?key i = pre" by (rule before_prefix[OF assms(2)])
  have restored: "Rollback ?len ?key i (raised pre arr) = Some arr"
    using Rollback_rolled[OF b _ i, of "raised pre arr" ?key] len bf dpre by (simp add: rolled_raised)
  have il: "i < length (raised pre arr)" using i len by simp
  have same: "(raised pre arr)[i := arr ! i] = raised pre arr" using ri by (metis list_update_id)
  show "insert_update ?len ?key i True (False, raised pre arr) = Some (False, arr)"
    by (simp add: insert_update_def restored)
  show "insert_update ?len ?key i False (False, raised pre arr) = Some (False, raised (pre @ [i]) arr)"
    using il by (simp add: insert_update_def on_slot_def raised_snoc)
  show "insert_walk ?len handle (i # js) (False, raised pre arr) = Some (insert_result b handle arr (Some i))"
    if "insert_stop ?key (arr ! i)"
  proof (cases "occupied (arr ! i)")
    case False
    then have "TryInsert handle (raised pre arr ! i) False = (True, False, FinishSlotInsert handle (arr ! i))"
      using TryInsert_simps(1)[of "arr ! i" handle] by (simp add: occupied_def ri)
    then show ?thesis using il False by (simp add: insert_match_def insert_result_def bf)
  next
    case True
    then have "visible_for ?key (arr ! i)" using that by (simp add: insert_stop_def)
    then have "TryInsert handle (raised pre arr ! i) False = (False, True, arr ! i)"
      using TryInsert_simps(3)[of "arr ! i" handle] by (simp add: visible_for_def ri)
    then show ?thesis using il same restored True by (simp add: insert_match_def insert_abort_def insert_result_def)
  qed
  show "insert_walk ?len handle (i # js) (False, raised pre arr) =
        insert_update ?len ?key i (js = []) (False, raised pre arr) \<bind> insert_walk ?len handle js"
    if "\<not> insert_stop ?key (arr ! i)"
  proof -
    have "TryInsert handle (raised pre arr ! i) False = (False, False, arr ! i)"
      using TryInsert_simps(2,3)[of "arr ! i" handle] that st
      by (auto simp: insert_stop_def visible_for_def occupied_def ri)
    then show ?thesis using il same by (simp add: insert_match_def insert_abort_def)
  qed
qed

lemma insert_walk_spec:
  assumes "arr_ok b n arr" "path b (hashed_key handle) = pre @ i # js"
  shows "insert_walk (2 ^ b) handle (i # js) (False, raised pre arr) =
     Some (insert_result b handle arr (find (\<lambda>i. insert_stop (hashed_key handle) (arr ! i)) (i # js)))"
  using assms(2)
proof (induction js arbitrary: i pre)
  case Nil
  note S = insert_walk_step[OF assms(1) Nil]
  show ?case
  proof (cases "insert_stop (hashed_key handle) (arr ! i)")
    case True
    then show ?thesis using S(1) by simp
  next
    case False
    then show ?thesis using S(2) S(3) by (simp add: insert_result_def)
  qed
next
  case (Cons j js)
  note S = insert_walk_step[OF assms(1) Cons.prems]
  have "path b (hashed_key handle) = (pre @ [i]) @ j # js" using Cons.prems by simp
  from Cons.IH[OF this] have IH: "insert_walk (2 ^ b) handle (j # js) (False, raised (pre @ [i]) arr) =
     Some (insert_result b handle arr (find (\<lambda>i. insert_stop (hashed_key handle) (arr ! i)) (j # js)))" .
  show ?case
  proof (cases "insert_stop (hashed_key handle) (arr ! i)")
    case True
    then show ?thesis using S(1) by simp
  next
    case False
    then have "insert_walk (2 ^ b) handle (i # j # js) (False, raised pre arr) =
        insert_walk (2 ^ b) handle (j # js) (False, raised (pre @ [i]) arr)"
      using S(2) S(4) by simp
    then show ?thesis unfolding IH using False by simp
  qed
qed

lemma find_split:
  assumes "find P xs = Some j"
  obtains pre post where "xs = pre @ j # post" "P j" "\<forall>i \<in> set pre. \<not> P i"
  using assms
proof (induction xs arbitrary: thesis)
  case (Cons x xs)
  show ?case
  proof (cases "P x")
    case True
    then show ?thesis using Cons.prems(1)[of "[]" xs] Cons.prems(2) by simp
  next
    case False
    then obtain pre post where "xs = pre @ j # post" "P j" "\<forall>i \<in> set pre. \<not> P i"
      using Cons.IH Cons.prems(2) by auto
    then show ?thesis using Cons.prems(1)[of "x # pre" post] False by simp
  qed
qed simp

lemma find_prefix:
  "\<forall>i \<in> set pre. \<not> P i \<Longrightarrow> P j \<Longrightarrow> find P (pre @ j # post) = Some j"
  by (induction pre) auto

text \<open>The cache after a successful insertion of handle at slot j.\<close>

definition inserted_at :: "nat \<Rightarrow> 'a handle_scheme \<Rightarrow> nat \<Rightarrow> clock_cache \<Rightarrow> clock_cache \<Rightarrow> bool" where
  "inserted_at b handle j C C' \<longleftrightarrow> j < 2 ^ b \<and> \<not> occupied (array C ! j) \<and> C' = C\<lparr>array := array C'\<rparr> \<and>
     occ_drift C' = occ_drift C - 1 \<and> usage_drift C' = usage_drift C - total_charge handle \<and>
     ledger C' = due handle + ledger C \<and>
     payload (array C' ! j) = handle.truncate handle \<and> meta_fields (meta (array C' ! j)) = (0, 3, 0, 7) \<and>
     (\<forall>i < 2 ^ b. i \<noteq> j \<longrightarrow> displaced (array C ! i) (array C' ! i)) \<and>
     entry_at b C' (hashed_key handle) = Some j"

text \<open>The slots on the key's walk before slot i are occupied, so the insertion walk reaches i.\<close>

definition reaches :: "nat \<Rightarrow> clock_cache \<Rightarrow> key128 \<Rightarrow> nat \<Rightarrow> bool" where
  "reaches b C key i \<longleftrightarrow> i < 2 ^ b \<and> (\<forall>l \<in> set (before b key i). occupied (array C ! l))"

lemma DoInsert_cases:
  fixes handle :: "'a handle_scheme"
  assumes "cc_arr b n C"
  obtains (present) j where "reaches b C (hashed_key handle) j" "visible_for (hashed_key handle) (array C ! j)"
      "DoInsert C handle = Some (None, True, C)"
    | (inserted) j C' where "DoInsert C handle = Some (Some j, False, C')" "inserted_at b handle j C C'" "cc_arr b n C'"
    | (full) "\<forall>i < 2 ^ b. occupied (array C ! i) \<and> \<not> visible_for (hashed_key handle) (array C ! i)"
      "DoInsert C handle = Some (None, False, C)"
proof -
  let ?key = "hashed_key handle" and ?arr = "array C"
  let ?r = "find (\<lambda>i. insert_stop ?key (?arr ! i)) (path b ?key)"
  note D = cc_arrD[OF assms]
  obtain js where js: "path b ?key = probe b ?key 0 # js" by (rule path_Cons[OF D(4), of ?key]) blast
  have W: "insert_walk (2 ^ b) handle (path b ?key) (False, ?arr) = Some (insert_result b handle ?arr ?r)"
    using insert_walk_spec[OF D(2), of handle "[]" "probe b ?key 0" js] js by simp
  have I: "DoInsert C handle = (case insert_result b handle ?arr ?r of (e, (am, arr)) \<Rightarrow>
      Some (if am then (None, True, C\<lparr>array := arr\<rparr>) else (e, False, C\<lparr>array := arr\<rparr>)))"
    unfolding DoInsert_def D(1) FindSlot_walk[OF D(4)] W by (simp add: split_beta Let_def)
  have CC: "C\<lparr>array := ?arr\<rparr> = C" by simp
  show thesis
  proof (cases ?r)
    case None
    then have "\<forall>i \<in> set (path b ?key). \<not> insert_stop ?key (?arr ! i)" by (simp add: find_None_iff)
    moreover have "DoInsert C handle = Some (None, False, C)" unfolding I None by (simp add: insert_result_def)
    ultimately show thesis by (intro full) (auto simp: path_set insert_stop_def)
  next
    case (Some j)
    obtain pre post where P: "path b ?key = pre @ j # post" "insert_stop ?key (?arr ! j)"
      "\<forall>i \<in> set pre. \<not> insert_stop ?key (?arr ! i)" by (rule find_split[OF Some])
    have j: "j < 2 ^ b" by (rule path_less[of j b ?key]) (simp add: P(1))
    show thesis
    proof (cases "occupied (?arr ! j)")
      case True
      then have "DoInsert C handle = Some (None, True, C)" unfolding I Some by (simp add: insert_result_def)
      moreover have "visible_for ?key (?arr ! j)" using True P(2) by (simp add: insert_stop_def)
      moreover have "reaches b C ?key j"
        using j P(3) before_prefix[OF P(1)] by (simp add: reaches_def insert_stop_def)
      ultimately show thesis by (intro present)
    next
      case False
      define h where "h = FinishSlotInsert handle (?arr ! j)"
      note F = FinishSlotInsert_fields[of handle "?arr ! j", folded h_def]
      have h: "slot_ok n h" "occupied h" using F(1) by (simp_all add: slot_ok_def occupied_def)
      define arr' where "arr' = (raised (before b (hashed_key h) j) ?arr)[j := h]"
      note A = arr_insert[OF D(2) j False h F(3), folded arr'_def]
      let ?C = "C\<lparr>array := arr'\<rparr>"
      have "DoInsert C handle = Some (Some j, False, ?C)"
        unfolding I Some using False by (simp add: insert_result_def arr'_def h_def F(4)[unfolded h_def])
      moreover have "cc_arr b n ?C" using A(1) D(1) by (simp add: cc_arr_def)
      moreover have disp: "displaced (?arr ! i) (arr' ! i)" if "i < 2 ^ b" "i \<noteq> j" for i
        by (rule displacedI) (rule A(6)[OF that])
      moreover have "entry_at b ?C ?key = Some j"
      proof -
        have "\<not> visible_for ?key (arr' ! i)" if "i \<in> set pre" for i
        proof -
          have "i < 2 ^ b" "i \<noteq> j" using path_less[of i b ?key] path_distinct[of b ?key] P(1) that by auto
          then show ?thesis using visible_for_displaced[OF disp] P(3) that by (simp add: insert_stop_def)
        qed
        moreover have "visible_for ?key (arr' ! j)" using A(7) F by (simp add: visible_for_def)
        ultimately show ?thesis unfolding entry_at_def P(1) by (intro find_prefix) simp_all
      qed
      moreover have "due h = due handle" by (simp add: h_def due_def FreeData_def FinishSlotInsert_def Let_def)
      ultimately show thesis using j False A(3,4,7,8) F
        by (intro inserted[of j ?C]) (simp_all add: inserted_at_def occ_drift_def usage_drift_def ledger_def)
    qed
  qed
qed

section \<open>What the operations promise\<close>

text \<open>The handle a lookup of the key finds in the cache, as the client inserted it.\<close>

definition contents :: "nat \<Rightarrow> clock_cache \<Rightarrow> key128 \<Rightarrow> handle option" where
  "contents b C key = map_option (\<lambda>i. payload (array C ! i)) (entry_at b C key)"

lemma entry_at_Some:
  assumes "entry_at b C key = Some j"
  shows "j < 2 ^ b" "visible_for key (array C ! j)"
proof -
  obtain pre post where "path b key = pre @ j # post" "visible_for key (array C ! j)"
    by (rule find_split[OF assms[unfolded entry_at_def]])
  then show "j < 2 ^ b" "visible_for key (array C ! j)" using path_less[of j b key] by simp_all
qed

lemma entry_at_None: "entry_at b C key = None \<longleftrightarrow> (\<forall>j < 2 ^ b. \<not> visible_for key (array C ! j))"
  by (auto simp: entry_at_def find_None_iff path_set)

lemma entry_at_cong:
  assumes "\<And>j. j < 2 ^ b \<Longrightarrow> visible_for key (array C' ! j) = visible_for key (array C ! j)"
  shows "entry_at b C' key = entry_at b C key"
  unfolding entry_at_def using assms path_less by (intro find_cong) auto

lemma contents_cong:
  assumes "\<And>j. j < 2 ^ b \<Longrightarrow> visible_for key (array C' ! j) = visible_for key (array C ! j)"
    "\<And>j. j < 2 ^ b \<Longrightarrow> visible_for key (array C ! j) \<Longrightarrow> payload (array C' ! j) = payload (array C ! j)"
  shows "contents b C' key = contents b C key"
proof -
  have e: "entry_at b C' key = entry_at b C key" by (rule entry_at_cong) (rule assms(1))
  show ?thesis
  proof (cases "entry_at b C key")
    case (Some j)
    then show ?thesis using assms(2)[of j] entry_at_Some[OF Some] by (simp add: contents_def e)
  qed (simp add: contents_def e)
qed

lemma slot_st: "slot_ok n h \<Longrightarrow> f_st (meta h) \<in> {0, 6, 7}"
  by (simp add: slot_ok_def)

lemma undisturbed_visible: "undisturbed h h' \<Longrightarrow> visible_for key h' = visible_for key h"
  by (auto simp: undisturbed_def visible_for_def occupied_def split: if_splits)

lemma undisturbed_payload: "undisturbed h h' \<Longrightarrow> payload h' = payload h"
  by (auto simp: undisturbed_def payload_def split: if_splits)

text \<open>The two operations of a reader.\<close>

lemma Lookup_facts:
  assumes "cc_ok b n C" "n + 1 < 2 ^ 30"
  shows "\<exists>C'. Lookup C key = Some (entry_at b C key, C') \<and> cc_ok b (n + 1) C' \<and>
     (entry_at b C key = None \<longleftrightarrow> (\<forall>j < 2 ^ b. \<not> visible_for key (array C ! j))) \<and>
     (\<forall>j. entry_at b C key = Some j \<longrightarrow> payload (array C' ! j) = payload (array C ! j) \<and>
        meta_fields (meta (array C' ! j)) =
          (f_ref (meta (array C ! j)) + 1, min (f_hit (meta (array C ! j)) + 1) 2000, f_bit (meta (array C ! j)), 7)) \<and>
     (\<forall>j < 2 ^ b. entry_at b C key \<noteq> Some j \<longrightarrow> undisturbed (array C ! j) (array C' ! j)) \<and>
     (\<forall>k. contents b C' k = contents b C k) \<and> ledger C' = ledger C \<and> C' = C\<lparr>array := array C'\<rparr>"
proof -
  have arr: "cc_arr b n C" and dr: "occ_drift C = 0" "usage_drift C = 0" using assms(1) by (simp_all add: cc_ok_def)
  obtain C' where L: "Lookup C key = Some (entry_at b C key, C')" "cc_arr b (n + 1) C'"
    "C' = C\<lparr>array := array C'\<rparr>" "occ_drift C' = occ_drift C" "usage_drift C' = usage_drift C" "ledger C' = ledger C"
    "\<And>j. j < 2 ^ b \<Longrightarrow> entry_at b C key \<noteq> Some j \<Longrightarrow> undisturbed (array C ! j) (array C' ! j)"
    "\<And>j. entry_at b C key = Some j \<Longrightarrow> array C' ! j = snd (lookup_slot key (array C ! j))"
    by (rule Lookup_spec[OF arr assms(2), of key]) blast
  have hit: "payload (array C' ! j) = payload (array C ! j) \<and>
        meta_fields (meta (array C' ! j)) =
          (f_ref (meta (array C ! j)) + 1, min (f_hit (meta (array C ! j)) + 1) 2000, f_bit (meta (array C ! j)), 7)"
    if "entry_at b C key = Some j" for j
  proof -
    have v: "visible_for key (array C ! j)" "j < 2 ^ b" using entry_at_Some[OF that] by simp_all
    have "slot_ok n (array C ! j)" by (rule cc_arrD(5)[OF arr v(2)])
    then obtain m where "lookup_slot key (array C ! j) = (True, (array C ! j)\<lparr>meta := m\<rparr>)"
      "meta_fields m = (f_ref (meta (array C ! j)) + 1, min (f_hit (meta (array C ! j)) + 1) 2000, f_bit (meta (array C ! j)), 7)"
      using lookup_slot_hit[of "array C ! j" key] v assms(2) by (auto simp: visible_for_def slot_ok_def)
    then show ?thesis using L(8)[OF that] by (simp add: payload_def)
  qed
  have vis: "visible_for k (array C' ! j) = visible_for k (array C ! j) \<and> payload (array C' ! j) = payload (array C ! j)"
    if "j < 2 ^ b" for j k
  proof (cases "entry_at b C key = Some j")
    case True
    then have p: "payload (array C' ! j) = payload (array C ! j)" "f_st (meta (array C' ! j)) = 7" using hit by simp_all
    have "hashed_key (array C' ! j) = hashed_key (array C ! j)" using p(1) by (simp add: payload_def)
    then show ?thesis using p entry_at_Some(2)[OF True] by (simp add: visible_for_def)
  next
    case False
    then show ?thesis using L(7)[OF that False] undisturbed_visible undisturbed_payload by blast
  qed
  have ct: "contents b C' k = contents b C k" for k
    using vis by (intro contents_cong) simp_all
  have ok': "cc_ok b (n + 1) C'" unfolding cc_ok_def using L(2,4,5) dr by simp
  show ?thesis
    by (intro exI[of _ C'] conjI allI impI, rule L(1), rule ok', rule entry_at_None, erule hit[THEN conjunct1],
        erule hit[THEN conjunct2], erule (1) L(7), rule ct, rule L(6), rule L(3))
qed

lemma Release_spec:
  assumes "cc_ok b n C" "j < 2 ^ b" "0 < f_ref (meta (array C ! j))"
  obtains C' where "Release C j = Some (True, C')" "cc_ok b n C'" "C' = C\<lparr>array := array C'\<rparr>"
    "\<And>i. i \<noteq> j \<Longrightarrow> array C' ! i = array C ! i" "payload (array C' ! j) = payload (array C ! j)"
    "meta_fields (meta (array C' ! j)) =
       (f_ref (meta (array C ! j)) - 1, f_hit (meta (array C ! j)), f_bit (meta (array C ! j)), f_st (meta (array C ! j)))"
    "\<And>k. contents b C' k = contents b C k" "ledger C' = ledger C"
proof -
  have arr: "cc_arr b n C" and dr: "occ_drift C = 0" "usage_drift C = 0" using assms(1) by (simp_all add: cc_ok_def)
  note D = cc_arrD[OF arr]
  let ?h = "array C ! j"
  let ?g = "RefDecr ?h"
  let ?C = "C\<lparr>array := (array C)[j := ?g]\<rparr>"
  have i: "j < length (array C)" using assms(2) D(3) by simp
  have f: "meta_fields (meta ?g) = (f_ref (meta ?h) - 1, f_hit (meta ?h), f_bit (meta ?h), f_st (meta ?h))"
    using fields_RefDecr[OF assms(3)] by (simp add: RefDecr_simp)
  have same: "occupied ?g = occupied ?h" "hashed_key ?g = hashed_key ?h" "displacements ?g = displacements ?h"
    "total_charge ?g = total_charge ?h" "due ?g = due ?h" "payload ?g = payload ?h"
    using f by (simp_all add: occupied_def due_def FreeData_def payload_def RefDecr_simp)
  have ok: "slot_ok n ?g" using D(5)[OF assms(2)] f by (auto simp: slot_ok_def)
  have "cc_arr b n ?C" using D(1) arr_touch(1)[OF D(2) assms(2) ok order_refl same(1-3)] by (simp add: cc_arr_def)
  then have C': "cc_ok b n ?C" "ledger ?C = ledger C"
    using dr totals_touch[OF i same(1,4)] same(5) by (simp_all add: cc_ok_def occ_drift_def usage_drift_def ledger_def)
  have "visible_for k (array ?C ! l) = visible_for k (array C ! l) \<and> payload (array ?C ! l) = payload (array C ! l)" for k l
    using same f i by (cases "l = j") (simp_all add: visible_for_def)
  then have "contents b ?C k = contents b C k" for k by (intro contents_cong) simp_all
  moreover have "Release C j = Some (True, ?C)" using i by (simp add: Release_def on_slot_def)
  ultimately show thesis using C' f same(6) i by (intro that[of ?C]) simp_all
qed

text \<open>C2: Lookup on a table of 2 ^ b slots returns the first visible slot of the key on its walk, and
  null exactly when no visible slot holds the key. It takes one reference on the entry and
  adds a hit, capped at kMaxHitCount, leaves every other entry, the counters of the table and the contents for every key as
  they were, calls no deleter, and keeps the invariant, with the bound on references raised by one. An empty slot
  that it passes stays empty but may keep the increment of its meta word, which Lookup does not take back.\<close>

theorem Lookup_correct:
  assumes "cc_ok b n C" "n + 1 < 2 ^ 30"
  shows "\<exists>C'. Lookup C key = Some (entry_at b C key, C') \<and> cc_ok b (n + 1) C' \<and>
     (entry_at b C key = None \<longleftrightarrow> (\<forall>j < 2 ^ b. \<not> visible_for key (array C ! j))) \<and>
     (\<forall>j. entry_at b C key = Some j \<longrightarrow> payload (array C' ! j) = payload (array C ! j) \<and>
        meta_fields (meta (array C' ! j)) =
          (f_ref (meta (array C ! j)) + 1, min (f_hit (meta (array C ! j)) + 1) 2000, f_bit (meta (array C ! j)), 7)) \<and>
     (\<forall>j < 2 ^ b. entry_at b C key \<noteq> Some j \<longrightarrow> undisturbed (array C ! j) (array C' ! j)) \<and>
     (\<forall>k. contents b C' k = contents b C k) \<and> ledger C' = ledger C \<and> C' = C\<lparr>array := array C'\<rparr>"
  by (rule Lookup_facts[OF assms])

text \<open>C3: Release takes back the reference of a Lookup: after the two the entry has its references and its data as before,
  every lookup finds what it found, and the invariant and the sum of the deleter calls made and owed are
  kept.\<close>

theorem Release_undoes_Lookup:
  assumes "cc_ok b n C" "n + 1 < 2 ^ 30" "entry_at b C key = Some j"
  shows "\<exists>C' C''. Lookup C key = Some (Some j, C') \<and> Release C' j = Some (True, C'') \<and> cc_ok b (n + 1) C'' \<and>
     f_ref (meta (array C'' ! j)) = f_ref (meta (array C ! j)) \<and> payload (array C'' ! j) = payload (array C ! j) \<and>
     (\<forall>k. contents b C'' k = contents b C k) \<and> ledger C'' = ledger C"
proof -
  obtain C' where L: "Lookup C key = Some (Some j, C')" "cc_ok b (n + 1) C'"
    "payload (array C' ! j) = payload (array C ! j)" "f_ref (meta (array C' ! j)) = f_ref (meta (array C ! j)) + 1"
    "\<And>k. contents b C' k = contents b C k" "ledger C' = ledger C"
    using Lookup_facts[OF assms(1,2), of key] assms(3) by auto
  have "0 < f_ref (meta (array C' ! j))" using L(4) by simp
  from Release_spec[OF L(2) entry_at_Some(1)[OF assms(3)] this] obtain C'' where
    "Release C' j = Some (True, C'')" "cc_ok b (n + 1) C''" "payload (array C'' ! j) = payload (array C' ! j)"
    "f_ref (meta (array C'' ! j)) = f_ref (meta (array C' ! j)) - 1" "\<And>k. contents b C'' k = contents b C' k"
    "ledger C'' = ledger C'" by (metis prod.inject)
  then show ?thesis using L by (intro exI[of _ C'] exI[of _ C'']) simp
qed

text \<open>C4: Erase removes the key: afterwards no lookup finds it. Each visible entry of the key without
  references is freed, its deleter called once, its charge and its slot given back; one with
  references becomes invisible and keeps them. The result is true exactly when an entry
  was freed or there was none. The contents for every other key stay, and so do the invariant and the sum of
  the deleter calls made and owed.\<close>

theorem Erase_correct:
  assumes "cc_ok b n C" "n + 1 < 2 ^ 30"
  shows "\<exists>C'. Erase spurious C key =
      Some ((\<exists>j < 2 ^ b. freed_by key (array C ! j)) \<or> \<not> (\<exists>j < 2 ^ b. visible_for key (array C ! j)), C') \<and>
     cc_ok b n C' \<and> contents b C' key = None \<and> (\<forall>k. k \<noteq> key \<longrightarrow> contents b C' k = contents b C k) \<and>
     (\<forall>j < 2 ^ b. erased key (array C ! j) (array C' ! j)) \<and>
     calls C' = erase_calls key (array C) (path b key) @ calls C \<and> ledger C' = ledger C"
proof -
  have arr: "cc_arr b n C" and dr: "occ_drift C = 0" "usage_drift C = 0" using assms(1) by (simp_all add: cc_ok_def)
  obtain C' where E: "Erase spurious C key =
      Some ((\<exists>j < 2 ^ b. freed_by key (array C ! j)) \<or> \<not> (\<exists>j < 2 ^ b. visible_for key (array C ! j)), C')"
    "cc_arr b n C'" "moved C (erase_calls key (array C) (path b key)) C'"
    "\<And>j. j < 2 ^ b \<Longrightarrow> erased key (array C ! j) (array C' ! j)"
    by (rule Erase_spec[OF arr assms(2), of spurious key]) blast
  have gone: "\<not> visible_for key (array C' ! j)" if "j < 2 ^ b" for j
  proof
    assume v: "visible_for key (array C' ! j)"
    then have "f_st (meta (array C' ! j)) = 7" "occupied (array C' ! j)" "hashed_key (array C' ! j) = key"
      by (simp_all add: visible_for_def occupied_def)
    with E(4)[OF that] show False
      by (auto simp: erased_def visible_for_def payload_def split: if_splits)
  qed
  then have "contents b C' key = None" by (simp add: contents_def entry_at_None)
  moreover have "contents b C' k = contents b C k" if "k \<noteq> key" for k
  proof (rule contents_cong)
    fix j :: nat assume j: "j < 2 ^ b"
    note e = E(4)[OF j]
    have "visible_for k (array C' ! j) = visible_for k (array C ! j) \<and>
      (visible_for k (array C ! j) \<longrightarrow> payload (array C' ! j) = payload (array C ! j))"
    proof (cases "visible_for key (array C ! j)")
      case True
      then have "\<not> visible_for k (array C ! j)" using that by (auto simp: visible_for_def)
      moreover have "\<not> visible_for k (array C' ! j)"
        using e True by (auto simp: erased_def visible_for_def occupied_def split: if_splits)
      ultimately show ?thesis by simp
    next
      case False
      then have "displaced (array C ! j) (array C' ! j)" using e by (simp add: erased_def displaced_def)
      then show ?thesis using visible_for_displaced displacedD(6) by blast
    qed
    then show "visible_for k (array C' ! j) = visible_for k (array C ! j)"
      "visible_for k (array C ! j) \<Longrightarrow> payload (array C' ! j) = payload (array C ! j)" by blast+
  qed
  moreover have "cc_ok b n C'" using E(2,3) dr by (auto simp: cc_ok_def moved_def)
  moreover have "calls C' = erase_calls key (array C) (path b key) @ calls C"
    by (rule movedE[OF E(3)]) simp
  moreover have "ledger C' = ledger C" by (rule movedE[OF E(3)])
  ultimately show ?thesis using E(1,4) by blast
qed

section \<open>A concrete cache\<close>

text \<open>Two slots; the first holds the key (0, 0), once referenced.\<close>

definition demo_slot :: "u64 \<Rightarrow> handle_impl" where
  "demo_slot refs = \<lparr>h_value = 9, del_cb = 1, hashed_key = (0, 0), total_charge = 5,
     meta = push_bit 61 7 OR push_bit 30 3 OR refs, displacements = 0\<rparr>"

definition demo_cache :: "u64 \<Rightarrow> clock_cache" where
  "demo_cache refs = \<lparr>clock_pointer = 0, occupancy = 1, usage = 5, hit_decr_delta = 1, hit_decr_delta_min = 1,
     capacity = 10, cc_length = 2, occupancy_limit = 2, array = [demo_slot refs, HandleImpl_new], calls = []\<rparr>"

lemma demo_fields: "meta_fields (meta (demo_slot 0)) = (0, 3, 0, 7)" "meta_fields (meta (demo_slot 1)) = (1, 3, 0, 7)"
  "meta_fields (meta HandleImpl_new) = (0, 0, 0, 0)"
  by (simp_all add: demo_slot_def HandleImpl_new_def f_ref_def f_hit_def f_bit_def f_st_def)

lemma demo_path: "path 1 (0, 0) = [0, 1]"
  by (simp add: path_def probe_def increment_of_def upt_rec)

lemma demo_array: "array (demo_cache r) = [demo_slot r, HandleImpl_new]" "calls (demo_cache r) = []"
  by (simp_all add: demo_cache_def)

lemma demo_key: "hashed_key (demo_slot r) = (0, 0)" "total_charge (demo_slot r) = 5" "displacements (demo_slot r) = 0"
  "displacements HandleImpl_new = 0"
  by (simp_all add: demo_slot_def HandleImpl_new_def)

lemma ex_less_2: "(\<exists>j < 2 ^ 1. P j) \<longleftrightarrow> P 0 \<or> P (1 :: nat)"
  by (auto simp: less_Suc_eq numeral_2_eq_2)

lemma demo_ok:
  assumes "refs = 0 \<and> n = 0 \<or> refs = 1 \<and> n = 1"
  shows "cc_ok 1 n (demo_cache refs)"
proof -
  let ?arr = "[demo_slot refs, HandleImpl_new]"
  have f: "meta_fields (meta (demo_slot refs)) = (n, 3, 0, 7)" using assms demo_fields by auto
  have occ: "occupied (demo_slot refs)" "\<not> occupied HandleImpl_new" using f demo_fields by (simp_all add: occupied_def)
  have t: "table ?arr = (\<lambda>i. if i = 0 then Some (0, 0) else None)"
    by (rule ext) (auto simp: table_def occ less_Suc_eq demo_key)
  have "crossers (path 1) 2 (table ?arr) i = {}" for i
    unfolding t crossers_def by (auto simp: demo_path[unfolded One_nat_def] split: if_splits)
  then have c: "crossings (path 1) (2 ^ 1) (table ?arr) i = 0" for i by (simp add: crossings_def)
  have "arr_ok 1 n ?arr"
  proof (rule arr_okI)
    show "slot_ok n (?arr ! i)" if "i < 2 ^ 1" for i
      using that f demo_fields by (auto simp: slot_ok_def less_Suc_eq numeral_2_eq_2)
    show "displacements (?arr ! i) = of_nat (crossings (path 1) (2 ^ 1) (table ?arr) i)" if "i < 2 ^ 1" for i
      unfolding c using that by (auto simp: less_Suc_eq numeral_2_eq_2 demo_key)
  qed simp_all
  moreover have "occ_total ?arr = 1" "charge_total ?arr = 5"
    using occ by (simp_all add: occ_total_def charge_total_def demo_key)
  ultimately show ?thesis
    by (simp add: cc_ok_def cc_arr_def occ_drift_def usage_drift_def demo_array) (simp add: demo_cache_def)
qed

lemma demo_visible: "visible_for (0, 0) (demo_slot 0)" "visible_for (0, 0) (demo_slot 1)" "\<not> visible_for (0, 0) HandleImpl_new"
  using demo_fields by (simp_all add: visible_for_def demo_key)

lemma Lookup_correct_witness:
  "\<exists>C'. Lookup (demo_cache 0) (0, 0) = Some (Some 0, C') \<and> cc_ok 1 1 C' \<and>
     f_ref (meta (array C' ! 0)) = 1 \<and> f_hit (meta (array C' ! 0)) = 4"
proof -
  have e: "entry_at 1 (demo_cache 0) (0, 0) = Some 0"
    unfolding entry_at_def demo_path demo_array using demo_visible by simp
  obtain C' where "Lookup (demo_cache 0) (0, 0) = Some (Some 0, C')" "cc_ok 1 (0 + 1) C'"
    "\<forall>j. Some (0 :: nat) = Some j \<longrightarrow> payload (array C' ! j) = payload (array (demo_cache 0) ! j) \<and>
      meta_fields (meta (array C' ! j)) = (f_ref (meta (array (demo_cache 0) ! j)) + 1,
        min (f_hit (meta (array (demo_cache 0) ! j)) + 1) 2000, f_bit (meta (array (demo_cache 0) ! j)), 7)"
    using Lookup_correct[of 1 0 "demo_cache 0" "(0, 0)"] demo_ok[of 0 0] unfolding e by force
  then show ?thesis using demo_fields(1) by (intro exI[of _ C']) (simp add: demo_array)
qed

lemma Erase_correct_witness:
  "\<exists>C' D'. Erase (\<lambda>_. 2) (demo_cache 0) (0, 0) = Some (True, C') \<and> cc_ok 1 0 C' \<and> calls C' = [(1, 9)] \<and>
     Erase (\<lambda>_. 2) (demo_cache 1) (0, 0) = Some (False, D') \<and> contents 1 D' (0, 0) = None"
proof -
  have f: "freed_by (0, 0) (demo_slot 0)" "\<not> freed_by (0, 0) (demo_slot 1)" "\<not> freed_by (0, 0) HandleImpl_new"
    using demo_visible demo_fields by (simp_all add: freed_by_def)
  have e: "erase_calls (0, 0) [demo_slot 0, HandleImpl_new] [0, 1] = [(1, 9)]"
    using f by (simp add: erase_calls_def FreeData_def) (simp add: demo_slot_def)
  have r0: "((\<exists>j < 2 ^ 1. freed_by (0, 0) (array (demo_cache 0) ! j)) \<or> \<not> (\<exists>j < 2 ^ 1. visible_for (0, 0) (array (demo_cache 0) ! j))) = True"
    and r1: "((\<exists>j < 2 ^ 1. freed_by (0, 0) (array (demo_cache 1) ! j)) \<or> \<not> (\<exists>j < 2 ^ 1. visible_for (0, 0) (array (demo_cache 1) ! j))) = False"
    unfolding ex_less_2 demo_array using f demo_visible by simp_all
  obtain C' where "Erase (\<lambda>_. 2) (demo_cache 0) (0, 0) = Some (True, C')" "cc_ok 1 0 C'"
    "calls C' = erase_calls (0, 0) [demo_slot 0, HandleImpl_new] [0, 1] @ []"
    using Erase_correct[of 1 0 "demo_cache 0" "\<lambda>_. 2" "(0, 0)"] demo_ok[of 0 0]
    unfolding r0 unfolding demo_array demo_path by force
  moreover obtain D' where "Erase (\<lambda>_. 2) (demo_cache 1) (0, 0) = Some (False, D')" "contents 1 D' (0, 0) = None"
    using Erase_correct[of 1 1 "demo_cache 1" "\<lambda>_. 2" "(0, 0)"] demo_ok[of 1 1] unfolding r1 by force
  ultimately show ?thesis unfolding e by auto
qed

lemma Release_undoes_Lookup_witness:
  "\<exists>C' C''. Lookup (demo_cache 1) (0, 0) = Some (Some 0, C') \<and> Release C' 0 = Some (True, C'') \<and>
     f_ref (meta (array C'' ! 0)) = 1"
proof -
  have "entry_at 1 (demo_cache 1) (0, 0) = Some 0"
    using demo_visible by (simp add: entry_at_def demo_path demo_array del: One_nat_def)
  then show ?thesis
    using Release_undoes_Lookup[OF demo_ok[of 1 1], of "(0, 0)" 0] demo_fields by (auto simp: demo_array)
qed

end
