(* ===== verification/Clock_Evict.thy ===== *)
theory Clock_Evict
  imports Clock_Cache
begin

text \<open>
  Eviction and insertion of ClockCache: Evict, TrackAndReleaseEvictedEntry, EvictForCharge and
  Insert of clock/clock_cache.cc.

  evict_loop is the for(;;) of Evict: one round visits step_size slots. The local counter
  hit_count_sum is an argument of the loop; its address is handed to ClockUpdate, and the pointer
  ClockUpdate has moved, undefined when it left the counter, is dropped. The double
  hit_count_sum * 1.0 / kDecrHitPerEntryCount is truncated to an int by the code; accelerated is
  this integer. The weak compare-and-swap of EvictForCharge fails spuriously as often as its
  argument says.
\<close>

unbundle bit_operations_syntax

section \<open>The operations\<close>

definition TrackAndReleaseEvictedEntry :: "clock_cache \<Rightarrow> nat \<Rightarrow> clock_cache" where
  "TrackAndReleaseEvictedEntry C i =
     (let (h, fs) = FreeDataMarkEmpty (array C ! i)
      in C\<lparr>array := (array C)[i := h], calls := fs @ calls C\<rparr>)"

definition step_size :: nat where "step_size = 4"

text \<open>The body of the inner loop of Evict on the slot at clock position pos.\<close>

definition evict_slot :: "u64 \<Rightarrow> int \<Rightarrow> u64 \<Rightarrow> clock_cache \<times> eviction_data \<Rightarrow> (clock_cache \<times> eviction_data) option" where
  "evict_slot hit_count_sum delta pos st =
     (case st of (C, data) \<Rightarrow>
        let i = unat (ModLength (cc_length C) pos)
        in if i < length (array C)
           then (let (took, h, data, _) = ClockUpdate (array C ! i) data hit_count_sum delta;
                     C = C\<lparr>array := (array C)[i := h]\<rparr>
                 in if took
                    then do { arr \<leftarrow> Rollback (cc_length C) (hashed_key h) i (array C);
                              Some (TrackAndReleaseEvictedEntry (C\<lparr>array := arr\<rparr>) i, data) }
                    else Some (C, data))
           else None)"

fun evict_round :: "u64 \<Rightarrow> int \<Rightarrow> u64 list \<Rightarrow> clock_cache \<times> eviction_data \<Rightarrow> (clock_cache \<times> eviction_data) option" where
  "evict_round hit_count_sum delta [] st = Some st"
| "evict_round hit_count_sum delta (pos # ps) st =
     do { st \<leftarrow> evict_slot hit_count_sum delta pos st; evict_round hit_count_sum delta ps st }"

definition accelerated :: "int \<Rightarrow> int" where
  "accelerated hit_count_sum = max (hit_count_sum div kDecrHitPerEntryCount) 1"

partial_function (option) evict_loop ::
  "u64 \<Rightarrow> u64 \<Rightarrow> u64 \<Rightarrow> u64 \<Rightarrow> int \<Rightarrow> int \<Rightarrow> int \<Rightarrow> clock_cache \<times> eviction_data \<Rightarrow> (clock_cache \<times> eviction_data) option" where
  [code]: "evict_loop addr requested max_clock_pointer old_clock_pointer offset hit_count_sum delta st =
     do { st \<leftarrow> evict_round addr delta (map (\<lambda>i. old_clock_pointer + of_nat i) [0..<step_size]) st;
          case st of (C, data) \<Rightarrow>
            if requested \<le> freed_charge data \<or> max_clock_pointer \<le> old_clock_pointer \<or> IsEvictionEffortExceeded data 30
            then Some (C\<lparr>hit_decr_delta := delta\<rparr>, data)
            else let (old_clock_pointer, p) = FetchAddRelaxed (clock_pointer C) (of_nat step_size);
                     C = C\<lparr>clock_pointer := p\<rparr>;
                     offset = offset + int step_size;
                     (hit_count_sum, delta) =
                       (if kDecrHitPerEntryCount \<le> offset + int step_size
                        then (0, let delta = accelerated hit_count_sum
                                 in if delta < hit_decr_delta_min C then hit_decr_delta_min C else delta)
                        else (hit_count_sum, delta))
                 in evict_loop addr requested max_clock_pointer old_clock_pointer offset hit_count_sum delta (C, data) }"

definition Evict :: "u64 \<Rightarrow> clock_cache \<Rightarrow> u64 \<Rightarrow> eviction_data \<Rightarrow> (clock_cache \<times> eviction_data) option" where
  "Evict addr C requested data =
     (if cc_length C = 0 then None
      else let (old_clock_pointer, p) = FetchAddRelaxed (clock_pointer C) (of_nat step_size);
               C = C\<lparr>clock_pointer := p\<rparr>;
               max_clock_pointer = old_clock_pointer + kMaxCountdown * cc_length C
           in evict_loop addr requested max_clock_pointer old_clock_pointer 0 0 (LoadRelaxed (hit_decr_delta C)) (C, data))"

partial_function (option) reserve_loop :: "nat \<Rightarrow> u64 \<Rightarrow> u64 \<Rightarrow> clock_cache \<Rightarrow> (u64 \<times> u64 \<times> clock_cache) option" where
  [code]: "reserve_loop spurious charge old_usage C =
     (let new_usage = min (capacity C) (old_usage + charge)
      in if new_usage = old_usage then Some (old_usage, new_usage, C)
         else (case CasWeakRelaxed (0 < spurious) (usage C) old_usage new_usage of
                 (ok, old_usage, u) \<Rightarrow>
                   if ok then Some (old_usage, new_usage, C\<lparr>usage := u\<rparr>)
                   else reserve_loop (spurious - 1) charge old_usage (C\<lparr>usage := u\<rparr>)))"

definition EvictForCharge :: "nat \<Rightarrow> u64 \<Rightarrow> clock_cache \<Rightarrow> u64 \<Rightarrow> bool \<Rightarrow> (bool \<times> clock_cache) option" where
  "EvictForCharge spurious addr C charge need_evict_for_occupancy =
     do { (old_usage, new_usage, C) \<leftarrow> reserve_loop spurious charge (LoadRelaxed (usage C)) C;
          let need_evict_charge = old_usage + charge - new_usage;
          let request_evict_charge =
            (if need_evict_for_occupancy \<and> need_evict_charge = 0 then 1 else need_evict_charge);
          if 0 < request_evict_charge
          then do { (C, data) \<leftarrow> Evict addr C request_evict_charge
                      \<lparr>freed_charge = 0, freed_count = 0, seen_pinned_count = 0\<rparr>;
                    let C = C\<lparr>occupancy := snd (FetchSubAcqRel (occupancy C) (freed_count data))\<rparr>;
                    if need_evict_charge < freed_charge data
                    then Some (True, C\<lparr>usage := snd (FetchSubRelaxed (usage C) (freed_charge data - need_evict_charge))\<rparr>)
                    else if freed_charge data < need_evict_charge \<or> need_evict_for_occupancy \<and> freed_count data = 0
                    then Some (False, C\<lparr>usage := snd (FetchSubRelaxed (usage C) (freed_charge data + (new_usage - old_usage)))\<rparr>)
                    else Some (True, C) }
          else Some (True, C) }"

definition Insert ::
  "nat \<Rightarrow> (nat \<Rightarrow> nat) \<Rightarrow> u64 \<Rightarrow> clock_cache \<Rightarrow> 'a handle_scheme \<Rightarrow> (bool \<times> clock_cache) option" where
  "Insert spurious_usage spurious_erase addr C handle =
     do { let (old_occupancy, oc) = FetchAddAcqRel (occupancy C) 1;
          let C = C\<lparr>occupancy := oc\<rparr>;
          let need_evict_for_occupancy = occupancy_limit C < old_occupancy + 1;
          (ok, C) \<leftarrow> EvictForCharge spurious_usage addr C (GetTotalCharge handle) need_evict_for_occupancy;
          if \<not> ok then Some (False, C\<lparr>occupancy := snd (FetchSubRelaxed (occupancy C) 1)\<rparr>)
          else do { (e, already_matches, C) \<leftarrow> DoInsert C handle;
                    if e \<noteq> None then Some (True, C)
                    else do { (replaced, C) \<leftarrow>
                                (if already_matches
                                 then do { (succ, C) \<leftarrow> Erase spurious_erase C (hashed_key handle);
                                           if succ then do { (e, _, C) \<leftarrow> DoInsert C handle; Some (e \<noteq> None, C) }
                                           else Some (False, C) }
                                 else Some (False, C));
                              if replaced then Some (True, C)
                              else Some (False, C\<lparr>occupancy := snd (FetchSubRelaxed (occupancy C) 1),
                                usage := snd (FetchSubRelaxed (usage C) (GetTotalCharge handle))\<rparr>) } } }"

section \<open>What a sweep does\<close>

text \<open>
  A sweep frees a slot or keeps its entry with the hits it had or fewer; an entry with references
  it does not touch.
\<close>

definition aged :: "handle_impl \<Rightarrow> handle_impl \<Rightarrow> bool" where
  "aged h h' \<longleftrightarrow>
     (if \<not> occupied h then \<not> occupied h'
      else if 0 < f_ref (meta h) then displaced h h'
      else \<not> occupied h' \<or> payload h' = payload h \<and> f_ref (meta h') = 0 \<and> f_st (meta h') = f_st (meta h) \<and>
             f_hit (meta h') \<le> f_hit (meta h))"

lemma aged_refl: "aged h h"
  by (simp add: aged_def displaced_refl)

lemma aged_displaced: "displaced h h' \<Longrightarrow> aged h h'"
  using occupied_displaced[of h h'] displacedD(1,6)[of h h'] by (simp add: aged_def)

lemma aged_trans:
  assumes "aged h h'" "aged h' h''"
  shows "aged h h''"
proof (cases "occupied h \<and> 0 < f_ref (meta h)")
  case True
  then have d: "displaced h h'" using assms(1) by (simp add: aged_def)
  then have "displaced h' h''"
    using assms(2) True occupied_displaced[OF d] displacedD(1)[OF d] by (simp add: aged_def)
  then show ?thesis using True displaced_trans[OF d] by (simp add: aged_def)
next
  case False
  then show ?thesis using assms by (auto simp: aged_def occupied_def split: if_splits)
qed

definition swept :: "nat \<Rightarrow> nat \<Rightarrow> clock_cache \<times> eviction_data \<Rightarrow> clock_cache \<times> eviction_data \<Rightarrow> bool" where
  "swept b n st st' \<longleftrightarrow> (case (st, st') of ((C, data), (C', data')) \<Rightarrow>
     cc_arr b n C' \<and> occupancy C' = occupancy C \<and> usage C' = usage C \<and> capacity C' = capacity C \<and>
     occupancy_limit C' = occupancy_limit C \<and> hit_decr_delta_min C' = hit_decr_delta_min C \<and>
     occ_drift C' - freed_count data' = occ_drift C - freed_count data \<and>
     usage_drift C' - freed_charge data' = usage_drift C - freed_charge data \<and>
     ledger C' = ledger C \<and> (\<forall>j < 2 ^ b. aged (array C ! j) (array C' ! j)))"

lemma swept_refl: "cc_arr b n C \<Longrightarrow> swept b n (C, data) (C, data)"
  by (simp add: swept_def aged_refl)

lemma swept_trans: "swept b n st st' \<Longrightarrow> swept b n st' st'' \<Longrightarrow> swept b n st st''"
  unfolding swept_def split_beta by (auto intro: aged_trans)

lemma swept_arr: "swept b n st (C', data') \<Longrightarrow> cc_arr b n C'"
  by (simp add: swept_def split_beta)

lemma frame_simps:
  "occ_drift (C\<lparr>clock_pointer := p\<rparr>) = occ_drift C" "usage_drift (C\<lparr>clock_pointer := p\<rparr>) = usage_drift C"
  "ledger (C\<lparr>clock_pointer := p\<rparr>) = ledger C" "cc_arr b n (C\<lparr>clock_pointer := p\<rparr>) = cc_arr b n C"
  "occ_drift (C\<lparr>hit_decr_delta := d\<rparr>) = occ_drift C" "usage_drift (C\<lparr>hit_decr_delta := d\<rparr>) = usage_drift C"
  "ledger (C\<lparr>hit_decr_delta := d\<rparr>) = ledger C" "cc_arr b n (C\<lparr>hit_decr_delta := d\<rparr>) = cc_arr b n C"
  by (simp_all add: cc_arr_def occ_drift_def usage_drift_def ledger_def)

lemma swept_frame: "swept b n st (C', data) \<Longrightarrow> swept b n st (C'\<lparr>clock_pointer := p, hit_decr_delta := d\<rparr>, data)"
  by (simp add: swept_def split_beta frame_simps)

text \<open>One slot.\<close>

lemma evict_slot_spec:
  assumes "cc_arr b n C" "0 \<le> delta"
  obtains C' data' where "evict_slot addr delta pos (C, data) = Some (C', data')" "swept b n (C, data) (C', data')"
    "clock_pointer C' = clock_pointer C" "hit_decr_delta C' = hit_decr_delta C"
proof -
  note D = cc_arrD[OF assms(1)]
  let ?i = "unat (ModLength (cc_length C) pos)"
  have i: "?i < 2 ^ b" using D(4) by (simp add: D(1) ModLength_def unat_mod unat_length)
  then have il: "?i < length (array C)" using D(3) by simp
  define i h where "i = ?i" and "h = array C ! ?i"
  have ok: "slot_ok n h" unfolding h_def by (rule D(5)[OF i])
  have unf: "evict_slot addr delta pos (C, data) =
      (case ClockUpdate h data addr delta of (took, h, data, _) \<Rightarrow>
         if took
         then do { arr \<leftarrow> Rollback (cc_length C) (hashed_key h) i ((array C)[i := h]);
                   Some (TrackAndReleaseEvictedEntry (C\<lparr>array := arr\<rparr>) i, data) }
         else Some (C\<lparr>array := (array C)[i := h]\<rparr>, data))"
    using il by (simp add: evict_slot_def Let_def i_def h_def split_beta)
  have same: "C\<lparr>array := (array C)[i := h]\<rparr> = C" by (simp add: h_def i_def)
  show thesis
  proof (rule ClockUpdate_cases[OF slot_st[OF ok] assms(2), of data addr])
    assume "ClockUpdate h data addr delta = (False, h, data, Some addr)"
    then show thesis using swept_refl[OF assms(1)] by (intro that[of C data]) (simp_all add: unf same)
  next
    let ?d = "data\<lparr>seen_pinned_count := seen_pinned_count data + 1\<rparr>"
    assume "ClockUpdate h data addr delta = (False, h, ?d, Some addr)"
    moreover have "swept b n (C, data) (C, ?d)" using assms(1) by (simp add: swept_def aged_refl)
    ultimately show thesis by (intro that[of C ?d]) (simp_all add: unf same)
  next
    fix m p'
    assume a: "f_st (meta h) = 7" "f_ref (meta h) = 0" "0 < f_hit (meta h)"
      "ClockUpdate h data addr delta = (False, h\<lparr>meta := m\<rparr>, data, p')"
      "meta_fields m = (0, f_hit (meta h) - nat delta, f_bit (meta h), 7)"
    let ?h = "h\<lparr>meta := m\<rparr>"
    let ?C = "C\<lparr>array := (array C)[i := ?h]\<rparr>"
    have sl: "slot_ok n ?h" "occupied ?h" "occupied h"
      using ok a by (simp_all add: slot_ok_def occupied_def)
    have s: "occupied ?h = occupied (array C ! i)" "hashed_key ?h = hashed_key (array C ! i)"
      "displacements ?h = displacements (array C ! i)" "total_charge ?h = total_charge (array C ! i)"
      "due ?h = due (array C ! i)"
      using sl by (simp_all add: h_def i_def due_def FreeData_def)
    have il': "i < length (array C)" "i < 2 ^ b" using il i by (simp_all add: i_def)
    have "aged (array C ! j) (array ?C ! j)" for j
    proof (cases "j = i")
      case True
      then show ?thesis using il' sl(3) a by (simp add: aged_def payload_def i_def h_def)
    qed (simp add: aged_refl)
    moreover have "cc_arr b n ?C"
      using D(1) arr_touch(1)[OF D(2) il'(2) sl(1) order_refl s(1,2,3)] by (simp add: cc_arr_def)
    ultimately have "swept b n (C, data) (?C, data)"
      using totals_touch[OF il'(1) s(1,4)] s(5) by (simp add: swept_def occ_drift_def usage_drift_def ledger_def)
    then show thesis using a(4) by (intro that[of ?C data]) (simp_all add: unf)
  next
    fix m
    let ?d = "data\<lparr>freed_charge := freed_charge data + total_charge h, freed_count := freed_count data + 1\<rparr>"
    assume a: "f_st (meta h) \<noteq> 0" "f_ref (meta h) = 0"
      "ClockUpdate h data addr delta = (True, h\<lparr>meta := m\<rparr>, ?d, Some addr)"
    let ?h = "h\<lparr>meta := m\<rparr>"
    let ?bf = "before b (hashed_key h) i"
    have il': "i < length (array C)" "i < 2 ^ b" using il i by (simp_all add: i_def)
    have occ: "occupied (array C ! i)" using a(1) by (simp add: occupied_def h_def i_def)
    define h' where "h' = fst (FreeDataMarkEmpty ?h)"
    have fd: "FreeDataMarkEmpty ?h = (h', snd (FreeData h))"
      by (simp add: h'_def FreeDataMarkEmpty_def FreeData_def)
    have h': "meta h' = 0" "displacements h' = displacements (array C ! i)"
      by (simp_all add: h'_def FreeDataMarkEmpty_def FreeData_def MarkEmpty_def atomic_defs h_def i_def)
    define arr' where "arr' = rolled (before b (hashed_key (array C ! i)) i) ((array C)[i := h'])"
    note A = arr_clear[OF D(2) il'(2) occ h', folded arr'_def]
    have key: "hashed_key (array C ! i) = hashed_key h" by (simp add: h_def i_def)
    have rb: "Rollback (cc_length C) (hashed_key h) i ((array C)[i := ?h]) = Some (rolled ?bf ((array C)[i := ?h]))"
      using Rollback_rolled[OF D(4), of "(array C)[i := ?h]" i "hashed_key h"] D(1,3) il' by simp
    have "rolled ?bf ((array C)[i := ?h]) ! i = ?h"
      using il' before_not by (simp add: rolled_nth before_distinct)
    moreover have "(rolled ?bf ((array C)[i := ?h]))[i := h'] = arr'"
      using rolled_update[OF before_not, where arr = "(array C)[i := ?h]"] by (simp add: arr'_def key)
    ultimately have "TrackAndReleaseEvictedEntry (C\<lparr>array := rolled ?bf ((array C)[i := ?h])\<rparr>) i =
        C\<lparr>array := arr', calls := snd (FreeData h) @ calls C\<rparr>"
      by (simp add: TrackAndReleaseEvictedEntry_def fd)
    then have res: "evict_slot addr delta pos (C, data) = Some (C\<lparr>array := arr', calls := snd (FreeData h) @ calls C\<rparr>, ?d)"
      unfolding unf a(3) by (simp add: rb)
    let ?C = "C\<lparr>array := arr', calls := snd (FreeData h) @ calls C\<rparr>"
    have "aged (array C ! j) (arr' ! j)" if "j < 2 ^ b" for j
    proof (cases "j = i")
      case True
      have "meta (arr' ! i) = 0" using A(7) h'(1) by auto
      then show ?thesis using True a(1,2) fields_0 by (simp add: aged_def occupied_def h_def i_def)
    next
      case False
      then show ?thesis by (intro aged_displaced displacedI A(6)[OF that])
    qed
    moreover have "cc_arr b n ?C" using D(1) A(1) by (simp add: cc_arr_def)
    moreover have "total_charge (array C ! i) = total_charge h" "due (array C ! i) = due h" by (simp_all add: h_def i_def)
    ultimately have "swept b n (C, data) (?C, ?d)"
      using A(3,4,8) by (simp add: swept_def occ_drift_def usage_drift_def ledger_def due_def)
    then show thesis using res by (intro that[of ?C ?d]) simp_all
  qed
qed

lemma evict_round_spec:
  assumes "cc_arr b n C" "0 \<le> delta"
  shows "\<exists>C' data'. evict_round addr delta ps (C, data) = Some (C', data') \<and> swept b n (C, data) (C', data') \<and>
    clock_pointer C' = clock_pointer C \<and> hit_decr_delta C' = hit_decr_delta C"
  using assms(1)
proof (induction ps arbitrary: C data)
  case Nil
  then show ?case by (simp add: swept_refl)
next
  case (Cons pos ps)
  obtain C1 d1 where 1: "evict_slot addr delta pos (C, data) = Some (C1, d1)" "swept b n (C, data) (C1, d1)"
    "clock_pointer C1 = clock_pointer C" "hit_decr_delta C1 = hit_decr_delta C"
    by (rule evict_slot_spec[OF Cons.prems assms(2)])
  obtain C2 d2 where 2: "evict_round addr delta ps (C1, d1) = Some (C2, d2)" "swept b n (C1, d1) (C2, d2)"
    "clock_pointer C2 = clock_pointer C1" "hit_decr_delta C2 = hit_decr_delta C1"
    using Cons.IH[OF swept_arr[OF 1(2)], of d1] by blast
  then show ?case using 1 swept_trans[OF 1(2) 2(2)] by simp
qed

text \<open>The delta the sweep ends with: the counter it could be accelerated by stays 0.\<close>

definition delta_after :: "clock_cache \<Rightarrow> int \<Rightarrow> int \<Rightarrow> bool" where
  "delta_after C delta d \<longleftrightarrow> d = delta \<or> d = max 1 (hit_decr_delta_min C)"

lemma pointer_next: "unat (cp + 4) \<le> max (unat cp) k + 4" for cp :: u64
proof -
  have "unat (cp + 4) \<le> unat cp + 4" by (simp add: unat_word_ariths)
  then show ?thesis by simp
qed

lemma evict_loop_spec:
  assumes "unat max_cp + 4 < 2 ^ 64"
  shows "cc_arr b n C \<Longrightarrow> 0 \<le> delta \<Longrightarrow> clock_pointer C = cp + 4 \<Longrightarrow> unat max_cp \<le> unat cp + 4 * k \<Longrightarrow>
    \<exists>C' data'. evict_loop addr requested max_cp cp offset 0 delta (C, data) = Some (C', data') \<and>
      swept b n (C, data) (C', data') \<and> delta_after C delta (hit_decr_delta C') \<and>
      unat (clock_pointer C') \<le> max (unat cp) (unat max_cp + 3) + 4"
proof (induction k arbitrary: C data cp offset delta)
  case (0 C data cp offset delta)
  obtain C1 d1 where 1: "evict_round addr delta (map (\<lambda>i. cp + of_nat i) [0..<step_size]) (C, data) = Some (C1, d1)"
    "swept b n (C, data) (C1, d1)" "clock_pointer C1 = cp + 4"
    using evict_round_spec[OF 0(1,2)] 0(3) by metis
  have "max_cp \<le> cp" using 0(4) by (simp add: word_le_nat_alt)
  then have "evict_loop addr requested max_cp cp offset 0 delta (C, data) = Some (C1\<lparr>hit_decr_delta := delta\<rparr>, d1)"
    by (subst evict_loop.simps) (simp add: 1(1))
  moreover have "swept b n (C, data) (C1\<lparr>hit_decr_delta := delta\<rparr>, d1)"
    using swept_frame[OF 1(2), where p = "clock_pointer C1" and d = delta] by simp
  ultimately show ?case using pointer_next[of cp "unat max_cp + 3"] 1(3) by (simp add: delta_after_def)
next
  case (Suc k C data cp offset delta)
  obtain C1 d1 where 1: "evict_round addr delta (map (\<lambda>i. cp + of_nat i) [0..<step_size]) (C, data) = Some (C1, d1)"
    "swept b n (C, data) (C1, d1)" "clock_pointer C1 = clock_pointer C"
    using evict_round_spec[OF Suc.prems(1,2)] by blast
  show ?case
  proof (cases "requested \<le> freed_charge d1 \<or> max_cp \<le> cp \<or> IsEvictionEffortExceeded d1 30")
    case True
    then have "evict_loop addr requested max_cp cp offset 0 delta (C, data) = Some (C1\<lparr>hit_decr_delta := delta\<rparr>, d1)"
      by (subst evict_loop.simps) (simp add: 1(1))
    moreover have "swept b n (C, data) (C1\<lparr>hit_decr_delta := delta\<rparr>, d1)"
      using swept_frame[OF 1(2), where p = "clock_pointer C1" and d = delta] by simp
    ultimately show ?thesis using pointer_next[of cp "unat max_cp + 3"] 1(3) Suc.prems(3) by (simp add: delta_after_def)
  next
    case False
    let ?C = "C1\<lparr>clock_pointer := cp + 4 + 4\<rparr>"
    define delta' where "delta' = (if kDecrHitPerEntryCount \<le> offset + 4 + 4 then max 1 (hit_decr_delta_min C) else delta)"
    have min: "hit_decr_delta_min C1 = hit_decr_delta_min C" using 1(2) by (simp add: swept_def)
    have step: "evict_loop addr requested max_cp cp offset 0 delta (C, data) =
        evict_loop addr requested max_cp (cp + 4) (offset + 4) 0 delta' (?C, d1)"
      using False Suc.prems(3) 1(3) min
      by (subst evict_loop.simps, subst 1(1)) (auto simp: step_size_def FetchAddRelaxed_def Let_def delta'_def accelerated_def
          kDecrHitPerEntryCount_def)
    have lt: "unat cp < unat max_cp" using False by (simp add: word_le_nat_alt)
    then have cp4: "unat (cp + 4) = unat cp + 4" using assms by (subst unat_add_small) simp_all
    then have k: "unat max_cp \<le> unat (cp + 4) + 4 * k" using Suc.prems(4) by simp
    have s: "swept b n (C, data) (?C, d1)"
      using swept_frame[OF 1(2), where p = "cp + 4 + 4" and d = "hit_decr_delta C1"] by simp
    have d: "0 \<le> delta'" using Suc.prems(2) by (simp add: delta'_def max_def)
    have c: "clock_pointer ?C = cp + 4 + 4" by simp
    obtain C2 d2 where 2: "evict_loop addr requested max_cp (cp + 4) (offset + 4) 0 delta' (?C, d1) = Some (C2, d2)"
      "swept b n (?C, d1) (C2, d2)" "delta_after ?C delta' (hit_decr_delta C2)"
      "unat (clock_pointer C2) \<le> max (unat (cp + 4)) (unat max_cp + 3) + 4"
      using Suc.IH[OF swept_arr[OF s] d c k] by blast
    have "delta_after C delta (hit_decr_delta C2)"
      using 2(3) min by (auto simp: delta_after_def delta'_def)
    moreover have "unat (clock_pointer C2) \<le> max (unat cp) (unat max_cp + 3) + 4"
      using 2(4) lt unfolding cp4 by linarith
    ultimately show ?thesis unfolding step using 2(1) swept_trans[OF s 2(2)] by blast
  qed
qed

text \<open>The clock pointer has room for one more sweep.\<close>

definition pointer_room :: "nat \<Rightarrow> clock_cache \<Rightarrow> bool" where
  "pointer_room b C \<longleftrightarrow> unat (clock_pointer C) + 3 * 2 ^ b + 4 < 2 ^ 64"

lemma Evict_spec:
  assumes "cc_arr b n C" "0 \<le> hit_decr_delta C" "pointer_room b C"
  obtains C' data' where "Evict addr C requested data = Some (C', data')" "swept b n (C, data) (C', data')"
    "delta_after C (hit_decr_delta C) (hit_decr_delta C')" "unat (clock_pointer C') \<le> unat (clock_pointer C) + 3 * 2 ^ b + 7"
proof -
  note D = cc_arrD[OF assms(1)]
  let ?cp = "clock_pointer C" and ?max = "clock_pointer C + kMaxCountdown * cc_length C"
  have b: "b < 32" by (rule arr_okD(1)[OF D(2)])
  have "(2 :: nat) ^ b < 2 ^ 32" using b by (intro power_strict_increasing) simp_all
  then have m3: "unat (kMaxCountdown * cc_length C) = 3 * 2 ^ b"
    using unat_length[OF D(4)] by (simp add: kMaxCountdown_def D(1) unat_word_ariths)
  have mx: "unat ?max = unat ?cp + 3 * 2 ^ b"
    using assms(3) m3 by (subst unat_add_small) (simp_all add: pointer_room_def)
  let ?C = "C\<lparr>clock_pointer := ?cp + 4\<rparr>"
  have nz: "cc_length C \<noteq> 0" using unat_length[OF D(4)] D(1) by (metis power_not_zero unsigned_0 zero_neq_numeral)
  have E: "Evict addr C requested data = evict_loop addr requested ?max ?cp 0 0 (hit_decr_delta C) (?C, data)"
    using nz by (simp add: Evict_def FetchAddRelaxed_def LoadRelaxed_def step_size_def Let_def)
  have "unat ?max + 4 < 2 ^ 64" using assms(3) mx by (simp add: pointer_room_def)
  then have "\<exists>C' d'. evict_loop addr requested ?max ?cp 0 0 (hit_decr_delta C) (?C, data) = Some (C', d') \<and>
      swept b n (?C, data) (C', d') \<and> delta_after ?C (hit_decr_delta C) (hit_decr_delta C') \<and>
      unat (clock_pointer C') \<le> max (unat ?cp) (unat ?max + 3) + 4"
    by (rule evict_loop_spec[where k = "3 * 2 ^ b"]) (use assms(1,2) mx in \<open>simp_all add: frame_simps\<close>)
  then obtain C' d' where "evict_loop addr requested ?max ?cp 0 0 (hit_decr_delta C) (?C, data) = Some (C', d')"
    "swept b n (?C, data) (C', d')" "delta_after ?C (hit_decr_delta C) (hit_decr_delta C')"
    "unat (clock_pointer C') \<le> max (unat ?cp) (unat ?max + 3) + 4" by blast
  then show thesis using E mx by (intro that[of C' d']) (simp_all add: swept_def frame_simps delta_after_def)
qed

section \<open>Making room\<close>

lemma reserve_loop_spec:
  "reserve_loop k charge (usage C) C =
     Some (usage C, min (capacity C) (usage C + charge), C\<lparr>usage := min (capacity C) (usage C + charge)\<rparr>)"
proof (induction k)
  case 0
  show ?case
  proof (cases "min (capacity C) (usage C + charge) = usage C")
    case True
    then show ?thesis by (subst reserve_loop.simps) (simp add: Let_def)
  next
    case False
    then show ?thesis by (subst reserve_loop.simps) (simp add: Let_def CasWeakRelaxed_def CasStrongRelaxed_def)
  qed
next
  case (Suc k)
  show ?case
  proof (cases "min (capacity C) (usage C + charge) = usage C")
    case True
    then show ?thesis by (subst reserve_loop.simps) (simp add: Let_def)
  next
    case False
    then have "reserve_loop (Suc k) charge (usage C) C = reserve_loop k charge (usage C) C"
      by (subst reserve_loop.simps) (simp add: Let_def CasWeakRelaxed_def)
    with Suc show ?thesis by simp
  qed
qed

definition evict_need :: "clock_cache \<Rightarrow> u64 \<Rightarrow> u64" where
  "evict_need C charge = usage C + charge - min (capacity C) (usage C + charge)"

text \<open>
  The outcome of EvictForCharge: it freed cnt entries of charge freed in total, reserved the
  new charge when it returns true, and otherwise took back the reservation.
\<close>

definition made_room :: "nat \<Rightarrow> nat \<Rightarrow> u64 \<Rightarrow> bool \<Rightarrow> clock_cache \<Rightarrow> bool \<Rightarrow> clock_cache \<Rightarrow> u64 \<Rightarrow> u64 \<Rightarrow> bool" where
  "made_room b n charge need_occ C ok C' freed cnt \<longleftrightarrow>
     cc_arr b n C' \<and> capacity C' = capacity C \<and> occupancy_limit C' = occupancy_limit C \<and>
     hit_decr_delta_min C' = hit_decr_delta_min C \<and> delta_after C (hit_decr_delta C) (hit_decr_delta C') \<and>
     unat (clock_pointer C') \<le> unat (clock_pointer C) + 3 * 2 ^ b + 7 \<and>
     occupancy C' = occupancy C - cnt \<and> occ_total (array C') = occ_total (array C) - cnt \<and>
     usage C' = (if ok then usage C + charge - freed else usage C - freed) \<and>
     charge_total (array C') = charge_total (array C) - freed \<and> ledger C' = ledger C \<and>
     (\<forall>j < 2 ^ b. aged (array C ! j) (array C' ! j)) \<and>
     (ok \<longrightarrow> evict_need C charge \<le> freed \<and> (need_occ \<longrightarrow> evict_need C charge < freed \<or> cnt \<noteq> 0)) \<and>
     (\<not> ok \<longrightarrow> freed < evict_need C charge \<or> need_occ \<and> cnt = 0) \<and>
     (evict_need C charge = 0 \<and> \<not> need_occ \<longrightarrow> ok \<and> array C' = array C)"

lemma EvictForCharge_spec:
  assumes "cc_arr b n C" "0 \<le> hit_decr_delta C" "pointer_room b C"
  obtains ok C' freed cnt where "EvictForCharge sp addr C charge need_occ = Some (ok, C')"
    "made_room b n charge need_occ C ok C' freed cnt"
proof -
  let ?need = "evict_need C charge" and ?new = "min (capacity C) (usage C + charge)"
  let ?C1 = "C\<lparr>usage := ?new\<rparr>" and ?d0 = "\<lparr>freed_charge = 0, freed_count = 0, seen_pinned_count = 0\<rparr>"
  let ?req = "if need_occ \<and> ?need = 0 then 1 else ?need"
  have E: "EvictForCharge sp addr C charge need_occ =
      (if 0 < ?req
       then do { (D, data) \<leftarrow> Evict addr ?C1 ?req ?d0;
                 let D = D\<lparr>occupancy := snd (FetchSubAcqRel (occupancy D) (freed_count data))\<rparr>;
                 if ?need < freed_charge data
                 then Some (True, D\<lparr>usage := snd (FetchSubRelaxed (usage D) (freed_charge data - ?need))\<rparr>)
                 else if freed_charge data < ?need \<or> need_occ \<and> freed_count data = 0
                 then Some (False, D\<lparr>usage := snd (FetchSubRelaxed (usage D) (freed_charge data + (?new - usage C)))\<rparr>)
                 else Some (True, D) }
       else Some (True, ?C1))"
    by (simp only: EvictForCharge_def LoadRelaxed_def reserve_loop_spec Option.bind.simps prod.case Let_def evict_need_def)
  show thesis
  proof (cases "0 < ?req")
    case False
    then have z: "?need = 0" "\<not> need_occ" by (auto simp: word_gt_0 split: if_splits)
    then have "usage C + charge = ?new" by (simp add: evict_need_def)
    then have "made_room b n charge need_occ C True ?C1 0 0"
      using assms(1) z by (simp add: made_room_def cc_arr_def delta_after_def ledger_def aged_refl)
    moreover have "EvictForCharge sp addr C charge need_occ = Some (True, ?C1)" unfolding E using False by simp
    ultimately show thesis by (rule that[rotated])
  next
    case True
    have p: "cc_arr b n ?C1" "0 \<le> hit_decr_delta ?C1" "pointer_room b ?C1"
      using assms by (simp_all add: cc_arr_def pointer_room_def)
    obtain C2 data where V: "Evict addr ?C1 ?req ?d0 = Some (C2, data)" "swept b n (?C1, ?d0) (C2, data)"
      "delta_after ?C1 (hit_decr_delta ?C1) (hit_decr_delta C2)"
      "unat (clock_pointer C2) \<le> unat (clock_pointer ?C1) + 3 * 2 ^ b + 7" by (rule Evict_spec[OF p])
    let ?fr = "freed_charge data" and ?cnt = "freed_count data"
    have S: "cc_arr b n C2" "occupancy C2 = occupancy C" "usage C2 = ?new" "capacity C2 = capacity C"
      "occupancy_limit C2 = occupancy_limit C" "hit_decr_delta_min C2 = hit_decr_delta_min C"
      "ledger C2 = ledger C" "\<forall>j < 2 ^ b. aged (array C ! j) (array C2 ! j)"
      and o2: "occ_drift C2 - ?cnt = occ_drift ?C1 - 0" and u2: "usage_drift C2 - ?fr = usage_drift ?C1 - 0"
      using V(2) by (simp_all add: swept_def ledger_def)
    have oc: "occ_total (array C2) = occ_total (array C) - ?cnt"
      using o2 S(2) by (simp add: occ_drift_def algebra_simps)
    have ch: "charge_total (array C2) = charge_total (array C) - ?fr"
      using u2 S(3) by (simp add: usage_drift_def algebra_simps)
    have dl: "delta_after C (hit_decr_delta C) (hit_decr_delta C2)" using V(3) by (simp add: delta_after_def)
    have room: "made_room b n charge need_occ C ok (C2\<lparr>occupancy := occupancy C - ?cnt, usage := u\<rparr>) ?fr ?cnt"
      if "u = (if ok then usage C + charge - ?fr else usage C - ?fr)"
        "ok \<longrightarrow> ?need \<le> ?fr \<and> (need_occ \<longrightarrow> ?need < ?fr \<or> ?cnt \<noteq> 0)"
        "\<not> ok \<longrightarrow> ?fr < ?need \<or> need_occ \<and> ?cnt = 0" for ok u
    proof -
      have "\<not> (?need = 0 \<and> \<not> need_occ)" using True by (auto simp: word_gt_0 split: if_splits)
      then show ?thesis using S oc ch dl V(4) that by (simp add: made_room_def cc_arr_def ledger_def) blast
    qed
    have need: "?need = usage C + charge - ?new" by (simp add: evict_need_def)
    consider (more) "?need < ?fr" | (fail) "\<not> ?need < ?fr" "?fr < ?need \<or> need_occ \<and> ?cnt = 0"
      | (exact) "\<not> ?need < ?fr" "\<not> (?fr < ?need \<or> need_occ \<and> ?cnt = 0)" by blast
    then show thesis
    proof cases
      case more
      have "EvictForCharge sp addr C charge need_occ =
          Some (True, C2\<lparr>occupancy := occupancy C - ?cnt, usage := ?new - (?fr - ?need)\<rparr>)"
        unfolding E using True V(1) more S by (simp add: atomic_defs)
      moreover have "made_room b n charge need_occ C True
          (C2\<lparr>occupancy := occupancy C - ?cnt, usage := ?new - (?fr - ?need)\<rparr>) ?fr ?cnt"
        by (rule room) (use more in \<open>auto simp: need\<close>)
      ultimately show thesis by (rule that)
    next
      case fail
      have "EvictForCharge sp addr C charge need_occ =
          Some (False, C2\<lparr>occupancy := occupancy C - ?cnt, usage := ?new - (?fr + (?new - usage C))\<rparr>)"
        unfolding E using True V(1) fail S by (simp add: atomic_defs)
      moreover have "made_room b n charge need_occ C False
          (C2\<lparr>occupancy := occupancy C - ?cnt, usage := ?new - (?fr + (?new - usage C))\<rparr>) ?fr ?cnt"
        by (rule room) (use fail in auto)
      ultimately show thesis by (rule that)
    next
      case exact
      have rec: "C2\<lparr>occupancy := occupancy C - ?cnt, usage := ?new\<rparr> = C2\<lparr>occupancy := occupancy C - ?cnt\<rparr>"
        unfolding S(3)[symmetric] by simp
      have "EvictForCharge sp addr C charge need_occ =
          Some (True, C2\<lparr>occupancy := occupancy C - ?cnt, usage := ?new\<rparr>)"
        unfolding E rec using True V(1) exact S(1,2) by (auto simp add: atomic_defs Let_def)
      moreover have eq: "?fr = ?need" using exact by auto
      have "?new = usage C + charge - ?fr" unfolding eq need by simp
      then have "made_room b n charge need_occ C True (C2\<lparr>occupancy := occupancy C - ?cnt, usage := ?new\<rparr>) ?fr ?cnt"
        by (intro room) (use exact in auto)
      ultimately show thesis by (rule that)
    qed
  qed
qed

section \<open>Insert\<close>

text \<open>
  What an insertion of key may do to a slot: an entry with references keeps them and its data, and its whole
  meta word when its key is another one; a visible entry of another key was there before.
\<close>

definition survives :: "key128 \<Rightarrow> handle_impl \<Rightarrow> handle_impl \<Rightarrow> bool" where
  "survives key h h' \<longleftrightarrow>
     (occupied h \<and> 0 < f_ref (meta h) \<longrightarrow> occupied h' \<and> payload h' = payload h \<and> f_ref (meta h') = f_ref (meta h) \<and>
        (hashed_key h \<noteq> key \<longrightarrow> meta h' = meta h)) \<and>
     (\<forall>k. k \<noteq> key \<longrightarrow> visible_for k h' \<longrightarrow> visible_for k h \<and> payload h' = payload h)"

lemma payload_key: "payload h' = payload h \<Longrightarrow> hashed_key h' = hashed_key h"
  by (simp add: payload_def)

lemma survives_trans: "survives key h h' \<Longrightarrow> survives key h' h'' \<Longrightarrow> survives key h h''"
  unfolding survives_def using payload_key[of h' h] by simp

lemma displaced_survives: "displaced h h' \<Longrightarrow> survives key h h'"
  using occupied_displaced[of h h'] displacedD(1,6)[of h h'] visible_for_displaced[of h h'] by (simp add: survives_def)

lemma aged_survives: "aged h h' \<Longrightarrow> survives key h h'"
proof (cases "occupied h")
  case False
  assume "aged h h'"
  with False have "\<not> occupied h'" by (simp add: aged_def)
  with False show ?thesis by (auto simp: survives_def visible_for_def occupied_def)
next
  case True
  assume a: "aged h h'"
  show ?thesis
  proof (cases "0 < f_ref (meta h)")
    case True
    with a \<open>occupied h\<close> have "displaced h h'" by (simp add: aged_def)
    then show ?thesis by (rule displaced_survives)
  next
    case False
    with a True have "\<not> occupied h' \<or> payload h' = payload h \<and> f_st (meta h') = f_st (meta h)"
      by (simp add: aged_def)
    with False show ?thesis using payload_key[of h' h] by (auto simp: survives_def visible_for_def occupied_def)
  qed
qed

lemma erased_survives: "erased key h h' \<Longrightarrow> survives key h h'"
proof (cases "visible_for key h")
  case True
  assume e: "erased key h h'"
  have nv: "\<not> visible_for k h'" for k
    using e True by (auto simp: erased_def visible_for_def occupied_def split: if_splits)
  show ?thesis
  proof (cases "f_ref (meta h) = 0")
    case False
    with e True show ?thesis using nv by (simp add: erased_def survives_def occupied_def visible_for_def)
  qed (use nv in \<open>simp add: survives_def\<close>)
next
  case False
  assume "erased key h h'"
  with False have "displaced h h'" by (simp add: erased_def displaced_def)
  then show ?thesis by (rule displaced_survives)
qed

definition all_survive :: "nat \<Rightarrow> key128 \<Rightarrow> clock_cache \<Rightarrow> clock_cache \<Rightarrow> bool" where
  "all_survive b key C C' \<longleftrightarrow> (\<forall>j < 2 ^ b. survives key (array C ! j) (array C' ! j))"

lemma all_survive_trans: "all_survive b key C C' \<Longrightarrow> all_survive b key C' C'' \<Longrightarrow> all_survive b key C C''"
  unfolding all_survive_def by (meson survives_trans)

lemma inserted_survive: "inserted_at b handle j C C' \<Longrightarrow> all_survive b (hashed_key handle) C C'"
  unfolding all_survive_def
proof (intro allI impI)
  fix i :: nat
  assume a: "inserted_at b handle j C C'" and i: "i < 2 ^ b"
  show "survives (hashed_key handle) (array C ! i) (array C' ! i)"
  proof (cases "i = j")
    case True
    have "payload (array C' ! j) = handle.truncate handle" "\<not> occupied (array C ! j)"
      using a by (simp_all add: inserted_at_def)
    then have "hashed_key (array C' ! j) = hashed_key handle" by (simp add: payload_def handle.truncate_def)
    then show ?thesis using True \<open>\<not> occupied (array C ! j)\<close> by (auto simp: survives_def visible_for_def)
  next
    case False
    then show ?thesis using a i by (intro displaced_survives) (simp add: inserted_at_def)
  qed
qed

lemma inserted_contents:
  assumes "inserted_at b handle j C C'"
  shows "contents b C' (hashed_key handle) = Some (handle.truncate handle)"
  using assms by (simp add: inserted_at_def contents_def)

definition insert_start :: "clock_cache \<Rightarrow> clock_cache" where
  "insert_start C = C\<lparr>occupancy := occupancy C + 1\<rparr>"

lemma insert_start_simps:
  "array (insert_start C) = array C" "occ_drift (insert_start C) = occ_drift C + 1"
  "usage_drift (insert_start C) = usage_drift C" "ledger (insert_start C) = ledger C"
  "cc_arr b n (insert_start C) = cc_arr b n C" "usage (insert_start C) = usage C" "capacity (insert_start C) = capacity C"
  "occupancy (insert_start C) = occupancy C + 1" "occupancy_limit (insert_start C) = occupancy_limit C"
  "clock_pointer (insert_start C) = clock_pointer C"
  "hit_decr_delta (insert_start C) = hit_decr_delta C" "hit_decr_delta_min (insert_start C) = hit_decr_delta_min C"
  "pointer_room b (insert_start C) = pointer_room b C" "evict_need (insert_start C) charge = evict_need C charge"
  by (simp_all add: insert_start_def occ_drift_def usage_drift_def ledger_def cc_arr_def pointer_room_def evict_need_def)

lemma made_room_drift:
  assumes "made_room b n charge need_occ C ok C' freed cnt"
  shows "occ_drift C' = occ_drift C" "usage_drift C' = usage_drift C + (if ok then charge else 0)"
    "all_survive b key C C'" "ledger C' = ledger C" "cc_arr b n C'"
  using assms aged_survives by (simp_all add: made_room_def occ_drift_def usage_drift_def all_survive_def)

text \<open>The ways Insert ends.\<close>

definition insert_undo :: "clock_cache \<Rightarrow> u64 \<Rightarrow> clock_cache" where
  "insert_undo C charge = C\<lparr>occupancy := occupancy C - 1, usage := usage C - charge\<rparr>"

lemma Insert_cases:
  fixes handle :: "'a handle_scheme"
  assumes "cc_arr b n C" "n + 1 < 2 ^ 30" "0 \<le> hit_decr_delta C" "pointer_room b C"
  defines "key \<equiv> hashed_key handle" and "charge \<equiv> total_charge handle"
    and "need_occ \<equiv> occupancy_limit C < occupancy C + 1"
  obtains
    (no_room) C1 freed cnt where "Insert su se addr C handle = Some (False, insert_undo C1 0)"
      "made_room b n charge need_occ (insert_start C) False C1 freed cnt"
  | (inserted) C1 freed cnt j C' where "Insert su se addr C handle = Some (True, C')"
      "made_room b n charge need_occ (insert_start C) True C1 freed cnt" "inserted_at b handle j C1 C'" "cc_arr b n C'"
  | (replaced) C1 freed cnt l C2 j C' where "Insert su se addr C handle = Some (True, C')"
      "made_room b n charge need_occ (insert_start C) True C1 freed cnt"
      "reaches b C1 key l" "visible_for key (array C1 ! l)" "\<exists>i < 2 ^ b. freed_by key (array C1 ! i)" "moved C1 (erase_calls key (array C1) (path b key)) C2" "cc_arr b n C2"
      "\<forall>i < 2 ^ b. erased key (array C1 ! i) (array C2 ! i)" "inserted_at b handle j C2 C'" "cc_arr b n C'"
  | (pinned) C1 freed cnt l C2 where "Insert su se addr C handle = Some (False, insert_undo C2 charge)"
      "made_room b n charge need_occ (insert_start C) True C1 freed cnt"
      "reaches b C1 key l" "visible_for key (array C1 ! l)" "\<forall>i < 2 ^ b. \<not> freed_by key (array C1 ! i)"
      "moved C1 (erase_calls key (array C1) (path b key)) C2" "cc_arr b n C2"
      "\<forall>i < 2 ^ b. erased key (array C1 ! i) (array C2 ! i)"
  | (full) C1 freed cnt where "Insert su se addr C handle = Some (False, insert_undo C1 charge)"
      "made_room b n charge need_occ (insert_start C) True C1 freed cnt"
      "\<forall>i < 2 ^ b. occupied (array C1 ! i) \<and> \<not> visible_for key (array C1 ! i)"
proof -
  have pre: "cc_arr b n (insert_start C)" "0 \<le> hit_decr_delta (insert_start C)" "pointer_room b (insert_start C)"
    using assms(1,3,4) by (simp_all add: insert_start_simps)
  obtain ok C1 freed cnt where E: "EvictForCharge su addr (insert_start C) charge need_occ = Some (ok, C1)"
    and M: "made_room b n charge need_occ (insert_start C) ok C1 freed cnt" by (rule EvictForCharge_spec[OF pre])
  have arr1: "cc_arr b n C1" using M by (simp add: made_room_def)
  have I: "Insert su se addr C handle =
      (if \<not> ok then Some (False, C1\<lparr>occupancy := occupancy C1 - 1\<rparr>)
       else do { (e, already_matches, D) \<leftarrow> DoInsert C1 handle;
                 if e \<noteq> None then Some (True, D)
                 else do { (replaced, D) \<leftarrow>
                             (if already_matches
                              then do { (succ, D) \<leftarrow> Erase se D key;
                                        if succ then do { (e, _, D) \<leftarrow> DoInsert D handle; Some (e \<noteq> None, D) }
                                        else Some (False, D) }
                              else Some (False, D));
                           if replaced then Some (True, D) else Some (False, insert_undo D charge) } })"
    using E by (simp add: Insert_def atomic_defs insert_start_def GetTotalCharge_def key_def charge_def need_occ_def
        insert_undo_def Let_def cong: if_cong)
  show thesis
  proof (cases ok)
    case False
    then show thesis using I M by (intro no_room) (simp_all add: insert_undo_def)
  next
    case ok: True
    have M1: "made_room b n charge need_occ (insert_start C) True C1 freed cnt" using M ok by simp
    show thesis
    proof (rule DoInsert_cases[OF arr1, of handle])
      fix j C'
      assume "DoInsert C1 handle = Some (Some j, False, C')" "inserted_at b handle j C1 C'" "cc_arr b n C'"
      then show thesis using I ok by (intro inserted[OF _ M1]) simp_all
    next
      assume "\<forall>i < 2 ^ b. occupied (array C1 ! i) \<and> \<not> visible_for (hashed_key handle) (array C1 ! i)"
        and "DoInsert C1 handle = Some (None, False, C1)"
      then show thesis using I ok by (intro full[OF _ M1]) (simp_all add: key_def)
    next
      fix i
      assume i0: "reaches b C1 (hashed_key handle) i" "visible_for (hashed_key handle) (array C1 ! i)" and d: "DoInsert C1 handle = Some (None, True, C1)"
      have i: "i < 2 ^ b" "visible_for (hashed_key handle) (array C1 ! i)" using i0 by (simp_all add: reaches_def)
      have i1: "reaches b C1 key i" "visible_for key (array C1 ! i)" using i0 by (simp_all add: key_def)
      let ?er = "(\<exists>j < 2 ^ b. freed_by key (array C1 ! j)) \<or> \<not> (\<exists>j < 2 ^ b. visible_for key (array C1 ! j))"
      obtain C2 where X: "Erase se C1 key = Some (?er, C2)" "cc_arr b n C2"
        "moved C1 (erase_calls key (array C1) (path b key)) C2"
        "\<And>j. j < 2 ^ b \<Longrightarrow> erased key (array C1 ! j) (array C2 ! j)"
        by (rule Erase_spec[OF arr1 assms(2), of se key]) blast
      have X4: "\<forall>i < 2 ^ b. erased key (array C1 ! i) (array C2 ! i)" using X(4) by blast
      have ex: "\<exists>j < 2 ^ b. visible_for key (array C1 ! j)" using i by (auto simp: key_def)
      show thesis
      proof (cases "\<exists>j < 2 ^ b. freed_by key (array C1 ! j)")
        case False
        have er: "?er = False" using False ex by simp
        have "Insert su se addr C handle = Some (False, insert_undo C2 charge)" using I ok d X(1)[unfolded er] by simp
        then show thesis using False i1 X(2,3) X4 by (intro pinned[OF _ M1]) simp_all
      next
        case fr: True
        then obtain l where l: "l < 2 ^ b" "freed_by key (array C1 ! l)" by blast
        have er: "?er = True" using fr by simp
        have I2: "Insert su se addr C handle = do { (e, _, D) \<leftarrow> DoInsert C2 handle;
            if e \<noteq> None then Some (True, D) else Some (False, insert_undo D charge) }"
          using I ok d X(1)[unfolded er] by (simp add: case_prod_unfold cong: if_cong)
        have noocc: "\<not> occupied (array C2 ! l)" using X(4)[OF l(1)] l(2) by (simp add: erased_def freed_by_def)
        have gone: "\<not> visible_for key (array C2 ! j)" if "j < 2 ^ b" for j
        proof
          assume v: "visible_for key (array C2 ! j)"
          then have "f_st (meta (array C2 ! j)) = 7" "occupied (array C2 ! j)" "hashed_key (array C2 ! j) = key"
            by (simp_all add: visible_for_def occupied_def)
          with X(4)[OF that] show False
            by (auto simp: erased_def visible_for_def payload_def split: if_splits)
        qed
        show thesis
        proof (rule DoInsert_cases[OF X(2), of handle])
          fix j C'
          assume "DoInsert C2 handle = Some (Some j, False, C')" "inserted_at b handle j C2 C'" "cc_arr b n C'"
          then show thesis using I2 fr i1 X(2,3) X4 by (intro replaced[OF _ M1 i1]) simp_all
        next
          fix j assume "reaches b C2 (hashed_key handle) j" "visible_for (hashed_key handle) (array C2 ! j)"
          then show thesis using gone by (simp add: key_def reaches_def)
        next
          assume "\<forall>i < 2 ^ b. occupied (array C2 ! i) \<and> \<not> visible_for (hashed_key handle) (array C2 ! i)"
          then show thesis using noocc l(1) by blast
        qed
      qed
    qed
  qed
qed

lemma insert_undo_simps:
  "array (insert_undo C charge) = array C" "occ_drift (insert_undo C charge) = occ_drift C - 1"
  "usage_drift (insert_undo C charge) = usage_drift C - charge" "ledger (insert_undo C charge) = ledger C"
  "cc_arr b n (insert_undo C charge) = cc_arr b n C" "usage (insert_undo C charge) = usage C - charge"
  "occupancy (insert_undo C charge) = occupancy C - 1" "all_survive b key D (insert_undo C charge) = all_survive b key D C"
  "contents b (insert_undo C charge) k = contents b C k"
  by (simp_all add: insert_undo_def occ_drift_def usage_drift_def ledger_def cc_arr_def all_survive_def contents_def entry_at_def)

lemma insertedD:
  assumes "inserted_at b handle j C C'"
  shows "occ_drift C' = occ_drift C - 1" "usage_drift C' = usage_drift C - total_charge handle"
    "ledger C' = due handle + ledger C" "usage C' = usage C" "occupancy C' = occupancy C"
    "capacity C' = capacity C" "occupancy_limit C' = occupancy_limit C" "clock_pointer C' = clock_pointer C"
    "hit_decr_delta C' = hit_decr_delta C"
proof -
  obtain a where "C' = C\<lparr>array := a\<rparr>" using assms unfolding inserted_at_def by blast
  then show "usage C' = usage C" "occupancy C' = occupancy C" "capacity C' = capacity C"
    "occupancy_limit C' = occupancy_limit C" "clock_pointer C' = clock_pointer C" "hit_decr_delta C' = hit_decr_delta C"
    by simp_all
qed (use assms in \<open>simp_all add: inserted_at_def\<close>)

lemma movedD:
  assumes "moved C fs C'"
  shows "occ_drift C' = occ_drift C" "usage_drift C' = usage_drift C" "ledger C' = ledger C"
    "capacity C' = capacity C" "occupancy_limit C' = occupancy_limit C" "clock_pointer C' = clock_pointer C"
    "hit_decr_delta C' = hit_decr_delta C"
  by (rule movedE[OF assms]; simp)+

lemma start_survive: "all_survive b key (insert_start C) D = all_survive b key C D"
  by (simp add: all_survive_def insert_start_simps)

lemma Insert_outcome:
  fixes handle :: "'a handle_scheme"
  assumes "cc_ok b n C" "n + 1 < 2 ^ 30" "0 \<le> hit_decr_delta C" "pointer_room b C"
  obtains ok C' where "Insert su se addr C handle = Some (ok, C')" "cc_ok b n C'"
    "ledger C' = (if ok then due handle else {#}) + ledger C"
    "ok \<Longrightarrow> contents b C' (hashed_key handle) = Some (handle.truncate handle)"
    "all_survive b (hashed_key handle) C C'"
proof -
  let ?key = "hashed_key handle"
  have arr: "cc_arr b n C" and dr: "occ_drift C = 0" "usage_drift C = 0" using assms(1) by (simp_all add: cc_ok_def)
  note simps = insert_start_simps insert_undo_simps cc_ok_def dr
  show thesis
  proof (rule Insert_cases[OF arr assms(2-4), of su se addr handle])
    fix C1 freed cnt
    assume a: "Insert su se addr C handle = Some (False, insert_undo C1 0)"
      and m: "made_room b n (total_charge handle) (occupancy_limit C < occupancy C + 1) (insert_start C) False C1 freed cnt"
    show thesis using a made_room_drift(1,2,4,5)[OF m] made_room_drift(3)[OF m, of ?key] by (intro that[OF a]) (simp_all add: simps start_survive)
  next
    fix C1 freed cnt j C'
    assume a: "Insert su se addr C handle = Some (True, C')" "inserted_at b handle j C1 C'" "cc_arr b n C'"
      and m: "made_room b n (total_charge handle) (occupancy_limit C < occupancy C + 1) (insert_start C) True C1 freed cnt"
    have "all_survive b ?key C C'"
      using made_room_drift(3)[OF m, of ?key] inserted_survive[OF a(2)] all_survive_trans by (auto simp: start_survive)
    then show thesis using made_room_drift(1,2,4)[OF m] insertedD[OF a(2)] a(3) inserted_contents[OF a(2)]
      by (intro that[OF a(1)]) (simp_all add: simps)
  next
    fix C1 freed cnt l C2 j C'
    assume a: "Insert su se addr C handle = Some (True, C')" "inserted_at b handle j C2 C'" "cc_arr b n C'"
      and m: "made_room b n (total_charge handle) (occupancy_limit C < occupancy C + 1) (insert_start C) True C1 freed cnt"
      and mv: "moved C1 (erase_calls ?key (array C1) (path b ?key)) C2"
      and er: "\<forall>i < 2 ^ b. erased ?key (array C1 ! i) (array C2 ! i)"
    have "all_survive b ?key C1 C2" using er erased_survives by (simp add: all_survive_def)
    then have "all_survive b ?key C C'"
      using made_room_drift(3)[OF m, of ?key] inserted_survive[OF a(2)] all_survive_trans by (metis start_survive)
    then show thesis using made_room_drift(1,2,4)[OF m] movedD[OF mv] insertedD[OF a(2)] a(3) inserted_contents[OF a(2)]
      by (intro that[OF a(1)]) (simp_all add: simps)
  next
    fix C1 freed cnt l C2
    assume a: "Insert su se addr C handle = Some (False, insert_undo C2 (total_charge handle))" "cc_arr b n C2"
      and m: "made_room b n (total_charge handle) (occupancy_limit C < occupancy C + 1) (insert_start C) True C1 freed cnt"
      and mv: "moved C1 (erase_calls ?key (array C1) (path b ?key)) C2"
      and er: "\<forall>i < 2 ^ b. erased ?key (array C1 ! i) (array C2 ! i)"
    have "all_survive b ?key C1 C2" using er erased_survives by (simp add: all_survive_def)
    then have "all_survive b ?key C C2"
      using made_room_drift(3)[OF m, of ?key] all_survive_trans by (metis start_survive)
    then show thesis using made_room_drift(1,2,4)[OF m] movedD[OF mv] a(2)
      by (intro that[OF a(1)]) (simp_all add: simps)
  next
    fix C1 freed cnt
    assume a: "Insert su se addr C handle = Some (False, insert_undo C1 (total_charge handle))"
      and m: "made_room b n (total_charge handle) (occupancy_limit C < occupancy C + 1) (insert_start C) True C1 freed cnt"
    show thesis using made_room_drift(1,2,4,5)[OF m] made_room_drift(3)[OF m, of ?key] by (intro that[OF a]) (simp_all add: simps start_survive)
  qed
qed

text \<open>C1: Insert returns for every state that satisfies the invariant and keeps it: the counters
  occupancy and usage stay exact on every branch. When it returns true the cache holds the
  handle under its key and owes one more deleter call, the handle's; when it returns false it owes
  what it owed. An entry with references keeps them and its data; one of another key keeps its whole
  meta word, one of the key that is inserted may be made invisible. Entries without references, of any key, may be aged or
  evicted, and no entry of another key appears.\<close>

theorem Insert_correct:
  assumes "cc_ok b n C" "n + 1 < 2 ^ 30" "0 \<le> hit_decr_delta C" "pointer_room b C"
  shows "\<exists>ok C'. Insert spurious_usage spurious_erase addr C handle = Some (ok, C') \<and> cc_ok b n C' \<and>
     ledger C' = (if ok then due handle else {#}) + ledger C \<and>
     (ok \<longrightarrow> contents b C' (hashed_key handle) = Some (handle.truncate handle)) \<and>
     (\<forall>j < 2 ^ b. survives (hashed_key handle) (array C ! j) (array C' ! j))"
proof -
  obtain ok C' where "Insert spurious_usage spurious_erase addr C handle = Some (ok, C')" "cc_ok b n C'"
    "ledger C' = (if ok then due handle else {#}) + ledger C"
    "ok \<Longrightarrow> contents b C' (hashed_key handle) = Some (handle.truncate handle)"
    "all_survive b (hashed_key handle) C C'"
    by (rule Insert_outcome[OF assms, of spurious_usage spurious_erase addr handle]) blast
  then show ?thesis unfolding all_survive_def by blast
qed

definition demo_handle :: "key128 \<Rightarrow> u64 \<Rightarrow> u64 \<Rightarrow> handle" where
  "demo_handle key v charge = \<lparr>h_value = v, del_cb = 1, hashed_key = key, total_charge = charge\<rparr>"

lemma demo_room: "0 \<le> hit_decr_delta (demo_cache r)" "pointer_room 1 (demo_cache r)"
  by (simp_all add: demo_cache_def pointer_room_def)

lemma Insert_correct_witness:
  "\<exists>ok C'. Insert 1 (\<lambda>_. 1) 0 (demo_cache 1) (demo_handle (0, 0) 7 3) = Some (ok, C') \<and> cc_ok 1 1 C' \<and>
     payload (array C' ! 0) = payload (demo_slot 1) \<and> f_ref (meta (array C' ! 0)) = 1"
proof -
  obtain ok C' where i: "Insert 1 (\<lambda>_. 1) 0 (demo_cache 1) (demo_handle (0, 0) 7 3) = Some (ok, C')" "cc_ok 1 1 C'"
    "\<forall>j < 2 ^ 1. survives (hashed_key (demo_handle (0, 0) 7 3)) (array (demo_cache 1) ! j) (array C' ! j)"
    using Insert_correct[OF demo_ok[of 1 1] _ demo_room, of 1 "\<lambda>_. 1" 0 "demo_handle (0, 0) 7 3"] by force
  have "survives (hashed_key (demo_handle (0, 0) 7 3)) (demo_slot 1) (array C' ! 0)"
    using i(3)[rule_format, of 0] by (simp add: demo_array)
  then show ?thesis using i(1,2) demo_fields(2) by (auto simp: survives_def occupied_def)
qed

section \<open>Evict\<close>

lemma sweptD:
  assumes "swept b n (C, data) (C', data')"
  shows "cc_arr b n C'" "ledger C' = ledger C" "occupancy C' = occupancy C" "usage C' = usage C"
    "occ_total (array C) = occ_total (array C') + (freed_count data' - freed_count data)"
    "charge_total (array C) = charge_total (array C') + (freed_charge data' - freed_charge data)"
    "j < 2 ^ b \<Longrightarrow> aged (array C ! j) (array C' ! j)"
  using assms by (auto simp: swept_def occ_drift_def usage_drift_def algebra_simps)

text \<open>C24: Evict ends, after at most three turns of the clock and a round. It does not touch an
  entry with references; any other entry it frees or leaves with the hits it had or fewer. The
  counts it reports are the entries and the charge that left the table, each freed
  entry's deleter has been called, and the displacement counters are exact again.\<close>

theorem Evict_sweeps:
  assumes "cc_arr b n C" "0 \<le> hit_decr_delta C" "pointer_room b C"
  shows "\<exists>C' data'. Evict addr C requested data = Some (C', data') \<and> cc_arr b n C' \<and>
     (\<forall>j < 2 ^ b. aged (array C ! j) (array C' ! j)) \<and> ledger C' = ledger C \<and>
     occ_total (array C) = occ_total (array C') + (freed_count data' - freed_count data) \<and>
     charge_total (array C) = charge_total (array C') + (freed_charge data' - freed_charge data)"
proof -
  obtain C' data' where "Evict addr C requested data = Some (C', data')" "swept b n (C, data) (C', data')"
    by (rule Evict_spec[OF assms, of addr requested data]) blast
  then show ?thesis using sweptD[of b n C data C' data'] by blast
qed

lemma Evict_sweeps_witness:
  "\<exists>C' data'. Evict 0 (demo_cache 1) 1 \<lparr>freed_charge = 0, freed_count = 0, seen_pinned_count = 0\<rparr> = Some (C', data') \<and>
     displaced (demo_slot 1) (array C' ! 0)"
proof -
  have "cc_arr 1 1 (demo_cache 1)" using demo_ok[of 1 1] by (simp add: cc_ok_def)
  then obtain C' data' where e: "Evict 0 (demo_cache 1) 1 \<lparr>freed_charge = 0, freed_count = 0, seen_pinned_count = 0\<rparr> = Some (C', data')"
    "\<forall>j < 2 ^ 1. aged (array (demo_cache 1) ! j) (array C' ! j)"
    using Evict_sweeps[of 1 1 "demo_cache 1" 0 1 "\<lparr>freed_charge = 0, freed_count = 0, seen_pinned_count = 0\<rparr>"] demo_room by blast
  have "aged (demo_slot 1) (array C' ! 0)" using e(2)[rule_format, of 0] by (simp add: demo_array)
  then have "displaced (demo_slot 1) (array C' ! 0)" using demo_fields(2) by (simp add: aged_def occupied_def)
  then show ?thesis using e(1) by blast
qed

text \<open>The acceleration of the sweep that ClockCacheOptions and the counter hit_count_sum describe
  never happens: whatever hit counts the slots have, the step the next sweep uses is the old
  one or the configured minimum, because ClockUpdate moves its copy of the pointer and
  not the counter.\<close>

theorem Evict_never_accelerates:
  assumes "cc_arr b n C" "0 \<le> hit_decr_delta C" "pointer_room b C"
  shows "\<exists>C' data'. Evict addr C requested data = Some (C', data') \<and>
     (hit_decr_delta C' = hit_decr_delta C \<or> hit_decr_delta C' = max 1 (hit_decr_delta_min C))"
proof -
  obtain C' data' where "Evict addr C requested data = Some (C', data')"
    "delta_after C (hit_decr_delta C) (hit_decr_delta C')"
    by (rule Evict_spec[OF assms, of addr requested data]) blast
  then show ?thesis by (auto simp: delta_after_def)
qed

lemma Evict_never_accelerates_witness:
  "\<exists>C' data'. Evict 0 (demo_cache 0) 1 \<lparr>freed_charge = 0, freed_count = 0, seen_pinned_count = 0\<rparr> = Some (C', data') \<and>
     hit_decr_delta C' = 1"
proof -
  have "cc_arr 1 0 (demo_cache 0)" using demo_ok[of 0 0] by (simp add: cc_ok_def)
  moreover have "hit_decr_delta (demo_cache 0) = 1" "hit_decr_delta_min (demo_cache 0) = 1" by (simp_all add: demo_cache_def)
  ultimately show ?thesis
    using Evict_never_accelerates[of 1 0 "demo_cache 0" 0 1 "\<lparr>freed_charge = 0, freed_count = 0, seen_pinned_count = 0\<rparr>"] demo_room[of 0]
    by auto
qed

end
