(* ===== verification/Clock_Bounds.thy ===== *)
theory Clock_Bounds
  imports Clock_Evict
begin

text \<open>
  The limits of the clock cache over the natural numbers: the sum of the charges of the entries and
  the number of entries after an Insert of clock/clock_cache.cc, when an Insert cannot fail, and
  what a lookup after an insertion returns.
\<close>

unbundle bit_operations_syntax

section \<open>Totals as natural numbers\<close>

definition charge_of :: "handle_impl \<Rightarrow> nat" where
  "charge_of h = (if occupied h then unat (total_charge h) else 0)"

definition charges_nat :: "handle_impl list \<Rightarrow> nat" where
  "charges_nat arr = sum_list (map charge_of arr)"

definition occ_nat :: "handle_impl list \<Rightarrow> nat" where
  "occ_nat arr = length (filter occupied arr)"

lemma charge_total_nat: "charge_total arr = of_nat (charges_nat arr)"
  by (induction arr) (simp_all add: charge_total_def charges_nat_def charge_of_def)

lemma occ_total_nat: "occ_total arr = of_nat (occ_nat arr)"
  by (induction arr) (simp_all add: occ_total_def occ_nat_def)

lemma charges_nat_sum: "charges_nat arr = (\<Sum>i<length arr. charge_of (arr ! i))"
  unfolding charges_nat_def by (simp add: sum_list_sum_nth atLeast0LessThan)

lemma occ_nat_card: "occ_nat arr = card {i. i < length arr \<and> occupied (arr ! i)}"
  by (simp add: occ_nat_def length_filter_conv_card)

lemma occ_nat_le: "occ_nat arr \<le> length arr"
  by (simp add: occ_nat_def)

lemma occ_nat_full: "\<forall>i < length arr. occupied (arr ! i) \<Longrightarrow> occ_nat arr = length arr"
  by (simp add: occ_nat_def filter_True all_set_conv_all_nth)

text \<open>A step that only removes entries.\<close>

definition shrinks :: "nat \<Rightarrow> clock_cache \<Rightarrow> clock_cache \<Rightarrow> bool" where
  "shrinks b C C' \<longleftrightarrow> (\<forall>j < 2 ^ b. occupied (array C' ! j) \<longrightarrow>
     occupied (array C ! j) \<and> total_charge (array C' ! j) = total_charge (array C ! j))"

lemma payload_charge: "payload h' = payload h \<Longrightarrow> total_charge h' = total_charge h"
  by (simp add: payload_def)

lemma aged_shrinks: "\<forall>j < 2 ^ b. aged (array C ! j) (array C' ! j) \<Longrightarrow> shrinks b C C'"
  unfolding shrinks_def
proof (intro allI impI)
  fix j :: nat assume a: "\<forall>j < 2 ^ b. aged (array C ! j) (array C' ! j)" "j < 2 ^ b" "occupied (array C' ! j)"
  then have g: "aged (array C ! j) (array C' ! j)" by blast
  then show "occupied (array C ! j) \<and> total_charge (array C' ! j) = total_charge (array C ! j)"
    using a(3) payload_charge[of "array C' ! j" "array C ! j"] displacedD(6)[of "array C ! j" "array C' ! j"]
    by (auto simp: aged_def split: if_splits)
qed

lemma erased_shrinks: "\<forall>j < 2 ^ b. erased key (array C ! j) (array C' ! j) \<Longrightarrow> shrinks b C C'"
  unfolding shrinks_def
proof (intro allI impI)
  fix j :: nat assume a: "\<forall>j < 2 ^ b. erased key (array C ! j) (array C' ! j)" "j < 2 ^ b" "occupied (array C' ! j)"
  then have g: "erased key (array C ! j) (array C' ! j)" by blast
  then show "occupied (array C ! j) \<and> total_charge (array C' ! j) = total_charge (array C ! j)"
    using a(3) payload_charge[of "array C' ! j" "array C ! j"]
    by (auto simp: erased_def visible_for_def occupied_def split: if_splits)
qed

lemma shrinks_trans: "shrinks b C C' \<Longrightarrow> shrinks b C' C'' \<Longrightarrow> shrinks b C C''"
  unfolding shrinks_def by simp

lemma shrinks_totals:
  assumes "shrinks b C C'" "length (array C) = 2 ^ b" "length (array C') = 2 ^ b"
  shows "charges_nat (array C') \<le> charges_nat (array C)" "occ_nat (array C') \<le> occ_nat (array C)"
    "occ_nat (array C') = occ_nat (array C) \<Longrightarrow> charges_nat (array C') = charges_nat (array C)"
proof -
  show "charges_nat (array C') \<le> charges_nat (array C)"
    unfolding charges_nat_sum assms(2,3) using assms(1)
    by (intro sum_mono) (auto simp: shrinks_def charge_of_def)
  let ?S = "{i. i < 2 ^ b \<and> occupied (array C ! i)}" and ?S' = "{i. i < 2 ^ b \<and> occupied (array C' ! i)}"
  have sub: "?S' \<subseteq> ?S" using assms(1) by (auto simp: shrinks_def)
  then show "occ_nat (array C') \<le> occ_nat (array C)"
    unfolding occ_nat_card assms(2,3) by (intro card_mono) simp_all
  assume "occ_nat (array C') = occ_nat (array C)"
  then have "?S' = ?S" using sub unfolding occ_nat_card assms(2,3) by (intro card_subset_eq) simp_all
  then have "charge_of (array C' ! i) = charge_of (array C ! i)" if "i < 2 ^ b" for i
    using that assms(1) by (auto simp: shrinks_def charge_of_def)
  then show "charges_nat (array C') = charges_nat (array C)"
    unfolding charges_nat_sum assms(2,3) by (intro sum.cong) auto
qed

lemma inserted_totals:
  assumes "inserted_at b handle j C C'" "length (array C) = 2 ^ b" "length (array C') = 2 ^ b"
  shows "charges_nat (array C') = charges_nat (array C) + unat (total_charge handle)"
    "occ_nat (array C') = occ_nat (array C) + 1"
proof -
  have j: "j < 2 ^ b" "\<not> occupied (array C ! j)" "occupied (array C' ! j)" and
    pl: "payload (array C' ! j) = handle.truncate handle" and
    d: "\<And>i. i < 2 ^ b \<Longrightarrow> i \<noteq> j \<Longrightarrow> displaced (array C ! i) (array C' ! i)"
    using assms(1) by (auto simp: inserted_at_def occupied_def)
  have ch: "total_charge (array C' ! j) = total_charge handle"
    using pl by (simp add: payload_def handle.truncate_def)
  have same: "charge_of (array C' ! i) = charge_of (array C ! i)" if "i \<in> {..<2 ^ b} - {j}" for i
  proof -
    have "displaced (array C ! i) (array C' ! i)" using d that by blast
    then show ?thesis using occupied_displaced[of "array C ! i" "array C' ! i"] displacedD(3)
      by (simp add: charge_of_def)
  qed
  have "charges_nat (array C') = charge_of (array C' ! j) + (\<Sum>i\<in>{..<2 ^ b} - {j}. charge_of (array C' ! i))"
    unfolding charges_nat_sum assms(3) using j by (intro sum.remove) auto
  also have "\<dots> = unat (total_charge handle) + (\<Sum>i\<in>{..<2 ^ b} - {j}. charge_of (array C ! i))"
    using same j(3) ch by (simp add: charge_of_def[of "array C' ! j"])
  also have "(\<Sum>i\<in>{..<2 ^ b} - {j}. charge_of (array C ! i)) = charges_nat (array C)"
    unfolding charges_nat_sum assms(2) using j by (subst sum.remove[of _ j]) (auto simp: charge_of_def)
  finally show "charges_nat (array C') = charges_nat (array C) + unat (total_charge handle)" by simp
  have "occupied (array C' ! i) = occupied (array C ! i)" if "i < 2 ^ b" "i \<noteq> j" for i
    using occupied_displaced[OF d[OF that]] .
  then have "{i. i < 2 ^ b \<and> occupied (array C' ! i)} = insert j {i. i < 2 ^ b \<and> occupied (array C ! i)}"
    using j by auto
  then show "occ_nat (array C') = occ_nat (array C) + 1"
    unfolding occ_nat_card assms(2,3) using j by simp
qed

section \<open>The limits\<close>

text \<open>
  The counters read as numbers: usage is the sum of the charges and at most the capacity,
  occupancy at most the limit.
\<close>

definition within_limits :: "clock_cache \<Rightarrow> bool" where
  "within_limits C \<longleftrightarrow> unat (GetUsage C) = charges_nat (array C) \<and> unat (GetOccupancy C) = occ_nat (array C) \<and>
     GetUsage C \<le> GetCapacity C \<and> GetOccupancy C \<le> GetOccupancyLimit C"

lemma within_limits_iff:
  "within_limits C \<longleftrightarrow> unat (usage C) = charges_nat (array C) \<and> unat (occupancy C) = occ_nat (array C) \<and>
     charges_nat (array C) \<le> unat (capacity C) \<and> occ_nat (array C) \<le> unat (occupancy_limit C)"
  by (auto simp: within_limits_def GetUsage_def GetOccupancy_def GetCapacity_def GetOccupancyLimit_def LoadRelaxed_def
      word_le_nat_alt)

lemma unat_less_64: "unat (x :: u64) < 2 ^ LENGTH(64)"
  by (rule unsigned_less)

lemma within_limitsI:
  assumes "cc_ok b n C" "charges_nat (array C) \<le> unat (capacity C)" "occ_nat (array C) \<le> unat (occupancy_limit C)"
  shows "within_limits C"
proof -
  have "usage C = of_nat (charges_nat (array C))" "occupancy C = of_nat (occ_nat (array C))"
    using assms(1) by (simp_all add: cc_ok_def usage_drift_def occ_drift_def charge_total_nat occ_total_nat)
  moreover have "charges_nat (array C) < 2 ^ LENGTH(64)" "occ_nat (array C) < 2 ^ LENGTH(64)"
    using assms(2,3) unat_less_64[of "capacity C"] unat_less_64[of "occupancy_limit C"] by linarith+
  ultimately show ?thesis using assms(2,3) by (simp add: within_limits_iff unat_of_nat_eq)
qed

text \<open>After EvictForCharge has made room, the entries and the new charge fit.\<close>

lemma made_room_fits:
  assumes "cc_ok b n C" "within_limits C" "unat (usage C) + unat charge < 2 ^ 64"
    "made_room b n charge (occupancy_limit C < occupancy C + 1) (insert_start C) True C1 freed cnt" "b < 32"
    "0 < unat (occupancy_limit C)"
  shows "charges_nat (array C1) + unat charge \<le> unat (capacity C)" "occ_nat (array C1) + 1 \<le> unat (occupancy_limit C)"
proof -
  note W = assms(2)[unfolded within_limits_iff]
  have arr: "cc_arr b n C" using assms(1) by (simp add: cc_ok_def)
  have len: "length (array C) = 2 ^ b" "length (array C1) = 2 ^ b"
    using cc_arrD(3)[OF arr] cc_arrD(3)[OF made_room_drift(5)[OF assms(4)]] by simp_all
  have "\<forall>j < 2 ^ b. aged (array C ! j) (array C1 ! j)" using assms(4) by (simp add: made_room_def insert_start_simps)
  note T = shrinks_totals[OF aged_shrinks[OF this] len]
  have e: "charge_total (array C1) = charge_total (array C) - freed" "occ_total (array C1) = occ_total (array C) - cnt"
    and need: "evict_need C charge \<le> freed" and
    occ: "occupancy_limit C < occupancy C + 1 \<longrightarrow> evict_need C charge < freed \<or> cnt \<noteq> 0"
    using assms(4) by (auto simp: made_room_def insert_start_simps)
  let ?f = "charges_nat (array C) - charges_nat (array C1)"
  have "freed = of_nat ?f" using e(1) T(1) by (simp add: charge_total_nat)
  moreover have "?f < 2 ^ LENGTH(64)" using W unat_less_64[of "usage C"] by linarith
  ultimately have f: "unat freed = ?f" by (simp only: unat_of_nat_eq)
  let ?g = "occ_nat (array C) - occ_nat (array C1)"
  have g: "cnt = of_nat ?g" using e(2) T(2) by (simp add: occ_total_nat)
  have u: "unat (usage C + charge) = unat (usage C) + unat charge" using assms(3) by (simp add: unat_add_small)
  have "unat (evict_need C charge) = unat (usage C) + unat charge - unat (min (capacity C) (usage C + charge))"
    unfolding evict_need_def using u by (subst unat_sub_small) (auto simp: min_def word_le_nat_alt)
  then have "unat (usage C) + unat charge - unat (capacity C) \<le> ?f"
    using need f u by (auto simp: word_le_nat_alt min_def split: if_splits)
  then show "charges_nat (array C1) + unat charge \<le> unat (capacity C)" using W T(1) by linarith
  show "occ_nat (array C1) + 1 \<le> unat (occupancy_limit C)"
  proof (cases "occupancy_limit C < occupancy C + 1")
    case True
    have ne: "freed \<noteq> 0 \<or> cnt \<noteq> 0" using occ True by (metis word_not_simps(1))
    have "?f \<noteq> 0 \<or> ?g \<noteq> 0"
    proof (rule ccontr)
      assume "\<not> (?f \<noteq> 0 \<or> ?g \<noteq> 0)"
      then have z: "?f = 0" "?g = 0" by simp_all
      have "freed = 0" using \<open>freed = of_nat ?f\<close> unfolding z(1) by simp
      moreover have "cnt = 0" using g unfolding z(2) by simp
      ultimately show False using ne by simp
    qed
    then have "occ_nat (array C1) < occ_nat (array C)" using T by (cases "occ_nat (array C1) = occ_nat (array C)") auto
    then show ?thesis using W by linarith
  next
    case False
    have "occ_nat (array C) \<le> 2 ^ b" using occ_nat_le[of "array C"] len by simp
    moreover have "(2 :: nat) ^ b < 2 ^ 32" using assms(5) by (intro power_strict_increasing) simp_all
    ultimately have "unat (occupancy C) + unat (1 :: u64) < 2 ^ LENGTH(64)" using W by simp
    then have "unat (occupancy C + 1) = unat (occupancy C) + 1" by (simp only: unat_add_small unat_1)
    then show ?thesis using False T(2) W by (simp add: word_less_nat_alt)
  qed
qed

lemma moved_length: "cc_arr b n C \<Longrightarrow> cc_arr b n C' \<Longrightarrow> length (array C') = length (array C)"
  by (simp add: cc_arrD(3))

lemma Insert_limits:
  fixes handle :: "'a handle_scheme"
  assumes "cc_ok b n C" "n + 1 < 2 ^ 30" "0 \<le> hit_decr_delta C" "pointer_room b C" "within_limits C"
    "unat (usage C) + unat (total_charge handle) < 2 ^ 64" "0 < unat (occupancy_limit C)"
    "Insert su se addr C handle = Some (ok, C')" "cc_ok b n C'"
  shows "within_limits C'"
proof -
  let ?key = "hashed_key handle" and ?charge = "total_charge handle" and ?no = "occupancy_limit C < occupancy C + 1"
  note W = assms(5)[unfolded within_limits_iff]
  have arr: "cc_arr b n C" and b: "b < 32" using assms(1) by (auto simp: cc_ok_def cc_arr_def arr_ok_def)
  have len: "length (array D) = 2 ^ b" if "cc_arr b n D" for D using cc_arrD(3)[OF that] .
  have made: "shrinks b C C1" "capacity C1 = capacity C" "occupancy_limit C1 = occupancy_limit C" "cc_arr b n C1"
    if "made_room b n ?charge ?no (insert_start C) ok1 C1 freed cnt" for ok1 C1 freed cnt
  proof -
    have "\<forall>j < 2 ^ b. aged (array C ! j) (array C1 ! j)" using that by (simp add: made_room_def insert_start_simps)
    then show "shrinks b C C1" by (rule aged_shrinks)
  qed (use that in \<open>simp_all add: made_room_def insert_start_simps\<close>)
  have keep: "within_limits C'" if "shrinks b C D" "cc_arr b n D" "C' = insert_undo D charge'"
    "capacity D = capacity C" "occupancy_limit D = occupancy_limit C" for D charge'
  proof (rule within_limitsI[OF assms(9)])
    note T = shrinks_totals[OF that(1) len[OF arr] len[OF that(2)]]
    show "charges_nat (array C') \<le> unat (capacity C')" "occ_nat (array C') \<le> unat (occupancy_limit C')"
      using T W that(3-5) by (simp_all add: insert_undo_def)
  qed
  have put: "within_limits C'" if m: "made_room b n ?charge ?no (insert_start C) True C1 freed cnt"
    and D: "shrinks b C1 D" "cc_arr b n D" "capacity D = capacity C1" "occupancy_limit D = occupancy_limit C1"
    and i: "inserted_at b handle j D C'" for C1 freed cnt D j
  proof (rule within_limitsI[OF assms(9)])
    have "cc_arr b n C'" using assms(9) by (simp add: cc_ok_def)
    note I = inserted_totals[OF i len[OF D(2)] len[OF this]]
    note T = shrinks_totals[OF D(1) len[OF made(4)[OF m]] len[OF D(2)]]
    note F = made_room_fits[OF assms(1,5,6) m b assms(7)]
    show "charges_nat (array C') \<le> unat (capacity C')" "occ_nat (array C') \<le> unat (occupancy_limit C')"
      using I T F insertedD(6,7)[OF i] D(3,4) made(2,3)[OF m] by simp_all
  qed
  show ?thesis
  proof (rule Insert_cases[OF arr assms(2-4), of su se addr handle])
    fix C1 freed cnt
    assume a: "Insert su se addr C handle = Some (False, insert_undo C1 0)"
      and m: "made_room b n ?charge ?no (insert_start C) False C1 freed cnt"
    show ?thesis using a assms(8) made(2,3)[OF m] by (intro keep[OF made(1)[OF m] made(4)[OF m]]) simp_all
  next
    fix C1 freed cnt j D
    assume a: "Insert su se addr C handle = Some (True, D)" and i: "inserted_at b handle j C1 D"
      and m: "made_room b n ?charge ?no (insert_start C) True C1 freed cnt"
    have "C' = D" using a assms(8) by simp
    then show ?thesis using i by (intro put[OF m _ made(4)[OF m]]) (simp_all add: shrinks_def)
  next
    fix C1 freed cnt l C2 j D
    assume a: "Insert su se addr C handle = Some (True, D)" and i: "inserted_at b handle j C2 D"
      and m: "made_room b n ?charge ?no (insert_start C) True C1 freed cnt" and c2: "cc_arr b n C2"
      and mv: "moved C1 (erase_calls ?key (array C1) (path b ?key)) C2"
      and er: "\<forall>i < 2 ^ b. erased ?key (array C1 ! i) (array C2 ! i)"
    have "C' = D" using a assms(8) by simp
    then show ?thesis using i movedD(4,5)[OF mv] by (intro put[OF m erased_shrinks[OF er] c2]) simp_all
  next
    fix C1 freed cnt l C2
    assume a: "Insert su se addr C handle = Some (False, insert_undo C2 ?charge)" and c2: "cc_arr b n C2"
      and m: "made_room b n ?charge ?no (insert_start C) True C1 freed cnt"
      and mv: "moved C1 (erase_calls ?key (array C1) (path b ?key)) C2"
      and er: "\<forall>i < 2 ^ b. erased ?key (array C1 ! i) (array C2 ! i)"
    show ?thesis using a assms(8) movedD(4,5)[OF mv] made(2,3)[OF m]
      by (intro keep[OF shrinks_trans[OF made(1)[OF m] erased_shrinks[OF er]] c2]) simp_all
  next
    fix C1 freed cnt
    assume a: "Insert su se addr C handle = Some (False, insert_undo C1 ?charge)"
      and m: "made_room b n ?charge ?no (insert_start C) True C1 freed cnt"
    show ?thesis using a assms(8) made(2,3)[OF m] by (intro keep[OF made(1)[OF m] made(4)[OF m]]) simp_all
  qed
qed

lemma Insert_config:
  fixes handle :: "'a handle_scheme"
  assumes "cc_ok b n C" "n + 1 < 2 ^ 30" "0 \<le> hit_decr_delta C" "pointer_room b C"
    "Insert su se addr C handle = Some (ok, C')"
  shows "capacity C' = capacity C \<and> occupancy_limit C' = occupancy_limit C \<and> 0 \<le> hit_decr_delta C' \<and>
    unat (clock_pointer C') \<le> unat (clock_pointer C) + 3 * 2 ^ b + 7"
proof -
  let ?no = "occupancy_limit C < occupancy C + 1"
  have arr: "cc_arr b n C" using assms(1) by (simp add: cc_ok_def)
  have made: "capacity C1 = capacity C" "occupancy_limit C1 = occupancy_limit C" "0 \<le> hit_decr_delta C1"
    "unat (clock_pointer C1) \<le> unat (clock_pointer C) + 3 * 2 ^ b + 7"
    if "made_room b n charge ?no (insert_start C) ok1 C1 freed cnt" for charge ok1 C1 freed cnt
    using that assms(3) by (auto simp: made_room_def insert_start_simps delta_after_def)
  show ?thesis
  proof (rule Insert_cases[OF arr assms(2-4), of su se addr handle])
    fix C1 freed cnt
    assume "Insert su se addr C handle = Some (False, insert_undo C1 0)"
      "made_room b n (total_charge handle) ?no (insert_start C) False C1 freed cnt"
    then show ?thesis using assms(5) made by (simp add: insert_undo_def)
  next
    fix C1 freed cnt j D
    assume "Insert su se addr C handle = Some (True, D)" "inserted_at b handle j C1 D"
      "made_room b n (total_charge handle) ?no (insert_start C) True C1 freed cnt"
    then show ?thesis using assms(5) made by (auto dest: insertedD(6-9))
  next
    fix C1 freed cnt l C2 j D
    assume a: "Insert su se addr C handle = Some (True, D)" "inserted_at b handle j C2 D"
      "made_room b n (total_charge handle) ?no (insert_start C) True C1 freed cnt"
      "moved C1 (erase_calls (hashed_key handle) (array C1) (path b (hashed_key handle))) C2"
    show ?thesis using assms(5) a(1) made[OF a(3)] insertedD(6-9)[OF a(2)] movedD(4-7)[OF a(4)] by simp
  next
    fix C1 freed cnt l C2
    assume "Insert su se addr C handle = Some (False, insert_undo C2 (total_charge handle))"
      "made_room b n (total_charge handle) ?no (insert_start C) True C1 freed cnt"
      "moved C1 (erase_calls (hashed_key handle) (array C1) (path b (hashed_key handle))) C2"
    then show ?thesis using assms(5) made by (auto simp: insert_undo_def dest: movedD(4-7))
  next
    fix C1 freed cnt
    assume "Insert su se addr C handle = Some (False, insert_undo C1 (total_charge handle))"
      "made_room b n (total_charge handle) ?no (insert_start C) True C1 freed cnt"
    then show ?thesis using assms(5) made by (simp add: insert_undo_def)
  qed
qed

text \<open>C18: The cache stays within its limits. If usage is the exact sum of the charges and at most
  the capacity, and occupancy at most the limit, the same holds after every Insert whose charge
  does not overflow the 64-bit usage, whether it succeeds or fails.\<close>

theorem Insert_within_limits:
  assumes "cc_ok b n C" "n + 1 < 2 ^ 30" "0 \<le> hit_decr_delta C" "pointer_room b C" "within_limits C"
    "unat (usage C) + unat (total_charge handle) < 2 ^ 64" "0 < unat (occupancy_limit C)"
  shows "\<exists>ok C'. Insert spurious_usage spurious_erase addr C handle = Some (ok, C') \<and> cc_ok b n C' \<and> within_limits C'"
proof -
  obtain ok C' where i: "Insert spurious_usage spurious_erase addr C handle = Some (ok, C')" "cc_ok b n C'"
    by (rule Insert_outcome[OF assms(1-4), of spurious_usage spurious_erase addr handle])
  then show ?thesis using Insert_limits[OF assms i] by blast
qed

lemma demo_within_limits: "within_limits (demo_cache 0)"
proof -
  have "occupied (demo_slot 0)" "\<not> occupied HandleImpl_new" using demo_fields by (simp_all add: occupied_def)
  then have "charges_nat (array (demo_cache 0)) = 5" "occ_nat (array (demo_cache 0)) = 1"
    by (simp_all add: demo_array charges_nat_def charge_of_def occ_nat_def demo_key)
  then show ?thesis by (simp add: within_limits_iff) (simp add: demo_cache_def)
qed

lemma Insert_within_limits_witness:
  "\<exists>ok C'. Insert 0 (\<lambda>_. 0) 0 (demo_cache 0) (demo_handle (1, 1) 7 8) = Some (ok, C') \<and> cc_ok 1 0 C' \<and> within_limits C'"
  by (rule Insert_within_limits)
    (use demo_ok[of 0 0] demo_room demo_within_limits in \<open>simp_all add: demo_handle_def demo_cache_def\<close>)

section \<open>When an insertion succeeds\<close>

lemma inserted_other:
  assumes "inserted_at b handle j C C'" "k \<noteq> hashed_key handle"
  shows "contents b C' k = contents b C k"
proof (rule contents_cong)
  fix i :: nat assume i: "i < 2 ^ b"
  have "visible_for k (array C' ! i) = visible_for k (array C ! i) \<and>
    (visible_for k (array C ! i) \<longrightarrow> payload (array C' ! i) = payload (array C ! i))"
  proof (cases "i = j")
    case True
    have "hashed_key (array C' ! j) = hashed_key handle"
      using assms(1) by (simp add: inserted_at_def payload_def handle.truncate_def)
    moreover have "\<not> occupied (array C ! j)" using assms(1) by (simp add: inserted_at_def)
    ultimately show ?thesis using True assms(2) by (auto simp: visible_for_def occupied_def)
  next
    case False
    then have "displaced (array C ! i) (array C' ! i)" using assms(1) i by (simp add: inserted_at_def)
    then show ?thesis using visible_for_displaced displacedD(6) by blast
  qed
  then show "visible_for k (array C' ! i) = visible_for k (array C ! i)"
    "visible_for k (array C ! i) \<Longrightarrow> payload (array C' ! i) = payload (array C ! i)" by blast+
qed

lemma contents_array: "array C' = array C \<Longrightarrow> contents b C' k = contents b C k"
  by (simp add: contents_def entry_at_def)

lemma erased_other:
  assumes "\<forall>i < 2 ^ b. erased key (array C ! i) (array C' ! i)" "k \<noteq> key"
  shows "contents b C' k = contents b C k"
proof (rule contents_cong)
  fix i :: nat assume i: "i < 2 ^ b"
  then have e: "erased key (array C ! i) (array C' ! i)" using assms(1) by blast
  have "visible_for k (array C' ! i) = visible_for k (array C ! i) \<and>
    (visible_for k (array C ! i) \<longrightarrow> payload (array C' ! i) = payload (array C ! i))"
  proof (cases "visible_for key (array C ! i)")
    case True
    then have "\<not> visible_for k (array C ! i)" "\<not> visible_for k (array C' ! i)"
      using e assms(2) by (auto simp: erased_def visible_for_def occupied_def split: if_splits)
    then show ?thesis by simp
  next
    case False
    then have "displaced (array C ! i) (array C' ! i)" using e by (simp add: erased_def displaced_def)
    then show ?thesis using visible_for_displaced displacedD(6) by blast
  qed
  then show "visible_for k (array C' ! i) = visible_for k (array C ! i)"
    "visible_for k (array C ! i) \<Longrightarrow> payload (array C' ! i) = payload (array C ! i)" by blast+
qed

text \<open>No eviction is needed for the charge.\<close>

definition has_room :: "clock_cache \<Rightarrow> u64 \<Rightarrow> bool" where
  "has_room C charge \<longleftrightarrow> unat (usage C) + unat charge \<le> unat (capacity C) \<and> unat (occupancy C) < unat (occupancy_limit C)"

lemma has_room_no_evict:
  assumes "has_room C charge"
  shows "evict_need C charge = 0" "\<not> occupancy_limit C < occupancy C + 1"
proof -
  have "unat (usage C) + unat charge < 2 ^ LENGTH(64)"
    using assms unat_less_64[of "capacity C"] unfolding has_room_def by linarith
  then have "usage C + charge \<le> capacity C" using assms by (simp add: has_room_def word_le_nat_alt unat_add_small)
  then show "evict_need C charge = 0" by (simp add: evict_need_def min_def)
  have "unat (occupancy C) + unat (1 :: u64) < 2 ^ LENGTH(64)"
    using assms unat_less_64[of "occupancy_limit C"] unfolding has_room_def by (simp only: unat_1) linarith
  then have "unat (occupancy C + 1) = unat (occupancy C) + 1" by (simp only: unat_add_small unat_1)
  then show "\<not> occupancy_limit C < occupancy C + 1" using assms by (simp add: has_room_def word_less_nat_alt)
qed

lemma has_room_made:
  assumes "has_room C charge"
    "made_room b n charge (occupancy_limit C < occupancy C + 1) (insert_start C) ok C1 freed cnt"
  shows "ok" "array C1 = array C"
  using assms(2) has_room_no_evict[OF assms(1)] by (simp_all add: made_room_def insert_start_simps)

lemma has_room_slot:
  assumes "cc_ok b n C" "has_room C charge" "unat (occupancy_limit C) \<le> 2 ^ b"
  shows "\<exists>i < 2 ^ b. \<not> occupied (array C ! i)"
proof (rule ccontr)
  assume "\<not> (\<exists>i < 2 ^ b. \<not> occupied (array C ! i))"
  moreover have arr: "cc_arr b n C" using assms(1) by (simp add: cc_ok_def)
  ultimately have "occ_nat (array C) = 2 ^ b" using occ_nat_full[of "array C"] by (simp add: cc_arrD(3))
  moreover have "(2 :: nat) ^ b < 2 ^ LENGTH(64)"
    using cc_arrD(4)[OF arr] by (intro power_strict_increasing) simp_all
  moreover have "occupancy C = of_nat (occ_nat (array C))"
    using assms(1) by (simp add: cc_ok_def occ_drift_def occ_total_nat)
  ultimately have "unat (occupancy C) = 2 ^ b" by (simp only: unat_of_nat_eq)
  then show False using assms(2,3) by (simp add: has_room_def)
qed

lemma Insert_map_update:
  assumes "cc_ok b n C" "n + 1 < 2 ^ 30" "0 \<le> hit_decr_delta C" "pointer_room b C"
    "has_room C (total_charge handle)" "unat (occupancy_limit C) \<le> 2 ^ b"
    "\<forall>j < 2 ^ b. visible_for (hashed_key handle) (array C ! j) \<longrightarrow> f_ref (meta (array C ! j)) = 0"
  shows "\<exists>C'. Insert spurious_usage spurious_erase addr C handle = Some (True, C') \<and>
     contents b C' = (contents b C)(hashed_key handle := Some (handle.truncate handle))"
proof -
  let ?key = "hashed_key handle"
  have arr: "cc_arr b n C" using assms(1) by (simp add: cc_ok_def)
  note room = has_room_made[OF assms(5)]
  show ?thesis
  proof (rule Insert_cases[OF arr assms(2-4), of spurious_usage spurious_erase addr handle])
    fix C1 freed cnt
    assume "made_room b n (total_charge handle) (occupancy_limit C < occupancy C + 1) (insert_start C) False C1 freed cnt"
    then show ?thesis using room(1) by blast
  next
    fix C1 freed cnt j C'
    assume a: "Insert spurious_usage spurious_erase addr C handle = Some (True, C')" and i: "inserted_at b handle j C1 C'"
      and m: "made_room b n (total_charge handle) (occupancy_limit C < occupancy C + 1) (insert_start C) True C1 freed cnt"
    have "contents b C' k = ((contents b C)(?key := Some (handle.truncate handle))) k" for k
      using inserted_contents[OF i] inserted_other[OF i, of k] contents_array[OF room(2)[OF m], of b k] by simp
    then show ?thesis using a by blast
  next
    fix C1 freed cnt l C2 j C'
    assume a: "Insert spurious_usage spurious_erase addr C handle = Some (True, C')" and i: "inserted_at b handle j C2 C'"
      and m: "made_room b n (total_charge handle) (occupancy_limit C < occupancy C + 1) (insert_start C) True C1 freed cnt"
      and er: "\<forall>i < 2 ^ b. erased ?key (array C1 ! i) (array C2 ! i)"
    have "contents b C' k = ((contents b C)(?key := Some (handle.truncate handle))) k" for k
      using inserted_contents[OF i] inserted_other[OF i, of k] erased_other[OF er, of k]
        contents_array[OF room(2)[OF m], of b k] by simp
    then show ?thesis using a by blast
  next
    fix C1 freed cnt l C2
    assume m: "made_room b n (total_charge handle) (occupancy_limit C < occupancy C + 1) (insert_start C) True C1 freed cnt"
      and "reaches b C1 ?key l" "visible_for ?key (array C1 ! l)" "\<forall>i < 2 ^ b. \<not> freed_by ?key (array C1 ! i)"
    then show ?thesis using assms(7) room(2)[OF m] by (auto simp: freed_by_def reaches_def)
  next
    fix C1 freed cnt
    assume m: "made_room b n (total_charge handle) (occupancy_limit C < occupancy C + 1) (insert_start C) True C1 freed cnt"
      and "\<forall>i < 2 ^ b. occupied (array C1 ! i) \<and> \<not> visible_for ?key (array C1 ! i)"
    then show ?thesis using has_room_slot[OF assms(1,5,6)] room(2)[OF m] by auto
  qed
qed

text \<open>C13: With room for the charge and the slot, Insert succeeds unless a client holds a reference to
  an entry of the key, and the contents change exactly as those of a map: the key is bound to the
  handle and every other key keeps its value.\<close>

theorem Insert_refines_map:
  assumes "cc_ok b n C" "n + 1 < 2 ^ 30" "0 \<le> hit_decr_delta C" "pointer_room b C"
    "has_room C (total_charge handle)" "unat (occupancy_limit C) \<le> 2 ^ b"
    "\<forall>j < 2 ^ b. visible_for (hashed_key handle) (array C ! j) \<longrightarrow> f_ref (meta (array C ! j)) = 0"
  shows "\<exists>C'. Insert spurious_usage spurious_erase addr C handle = Some (True, C') \<and>
     contents b C' = (contents b C)(hashed_key handle := Some (handle.truncate handle))"
  by (rule Insert_map_update[OF assms])

lemma demo_has_room: "has_room (demo_cache r) 3" "unat (occupancy_limit (demo_cache r)) \<le> 2 ^ 1"
  by (simp_all add: has_room_def demo_cache_def)

lemma demo_unpinned: "j < 2 ^ 1 \<Longrightarrow> f_ref (meta (array (demo_cache 0) ! j)) = 0"
  using demo_fields by (auto simp: demo_array less_Suc_eq numeral_2_eq_2)

lemma Insert_refines_map_witness:
  "\<exists>C'. Insert 0 (\<lambda>_. 0) 0 (demo_cache 0) (demo_handle (0, 0) 7 3) = Some (True, C') \<and>
     contents 1 C' = (contents 1 (demo_cache 0))((0, 0) := Some (demo_handle (0, 0) 7 3))"
proof -
  have "\<exists>C'. Insert 0 (\<lambda>_. 0) 0 (demo_cache 0) (demo_handle (0, 0) 7 3) = Some (True, C') \<and>
     contents 1 C' = (contents 1 (demo_cache 0))(hashed_key (demo_handle (0, 0) 7 3) :=
       Some (handle.truncate (demo_handle (0, 0) 7 3)))"
    by (rule Insert_refines_map[where n = 0])
      (use demo_ok[of 0 0] demo_room demo_has_room[of 0] demo_unpinned in \<open>simp_all add: demo_handle_def\<close>)
  then show ?thesis by (simp add: demo_handle_def handle.truncate_def)
qed

text \<open>What Insert stored, Lookup returns: after a successful insertion a lookup of the key finds a slot
  with the handle's value, deleter and charge.\<close>

theorem Insert_then_Lookup:
  assumes "cc_ok b n C" "n + 2 < 2 ^ 30" "0 \<le> hit_decr_delta C" "pointer_room b C"
    "Insert spurious_usage spurious_erase addr C handle = Some (True, C')"
  shows "\<exists>j C''. Lookup C' (hashed_key handle) = Some (Some j, C'') \<and> payload (array C'' ! j) = handle.truncate handle"
proof -
  have n: "n + 1 < 2 ^ 30" using assms(2) by simp
  obtain D where D: "cc_ok b n C'" "contents b C' (hashed_key handle) = Some (handle.truncate handle)"
    by (rule Insert_outcome[OF assms(1) n assms(3,4), of spurious_usage spurious_erase addr handle])
      (use assms(5) in auto)
  have arr: "cc_arr b n C'" using D(1) by (simp add: cc_ok_def)
  obtain j where j: "entry_at b C' (hashed_key handle) = Some j" "payload (array C' ! j) = handle.truncate handle"
    using D(2) by (auto simp: contents_def)
  obtain C'' where L: "Lookup C' (hashed_key handle) = Some (entry_at b C' (hashed_key handle), C'')"
    "\<And>j. entry_at b C' (hashed_key handle) = Some j \<Longrightarrow>
       array C'' ! j = snd (lookup_slot (hashed_key handle) (array C' ! j))"
    by (rule Lookup_spec[OF arr n, of "hashed_key handle"]) blast
  have "payload (array C'' ! j) = payload (array C' ! j)"
    using L(2)[OF j(1)] lookup_slot_keeps[of "hashed_key handle" "array C' ! j"] by (auto simp: payload_def)
  then show ?thesis using L(1) j by auto
qed

lemma Insert_then_Lookup_witness:
  "\<exists>C' j C''. Insert 0 (\<lambda>_. 0) 0 (demo_cache 0) (demo_handle (0, 0) 7 3) = Some (True, C') \<and>
     Lookup C' (0, 0) = Some (Some j, C'') \<and> payload (array C'' ! j) = demo_handle (0, 0) 7 3"
proof -
  have "\<exists>C'. Insert 0 (\<lambda>_. 0) 0 (demo_cache 0) (demo_handle (0, 0) 7 3) = Some (True, C') \<and>
     contents 1 C' = (contents 1 (demo_cache 0))(hashed_key (demo_handle (0, 0) 7 3) :=
       Some (handle.truncate (demo_handle (0, 0) 7 3)))"
    by (rule Insert_map_update[where n = 0])
      (use demo_ok[of 0 0] demo_room demo_has_room[of 0] demo_unpinned in \<open>simp_all add: demo_handle_def\<close>)
  then obtain C' where i: "Insert 0 (\<lambda>_. 0) 0 (demo_cache 0) (demo_handle (0, 0) 7 3) = Some (True, C')" by blast
  have "cc_ok 1 0 (demo_cache 0)" using demo_ok[of 0 0] by simp
  from Insert_then_Lookup[OF this _ demo_room i] i show ?thesis
    by (auto simp: demo_handle_def handle.truncate_def)
qed

lemma erased_gone:
  assumes "\<forall>i < 2 ^ b. erased key (array C ! i) (array C' ! i)"
  shows "contents b C' key = None"
proof -
  have "\<not> visible_for key (array C' ! i)" if "i < 2 ^ b" for i
  proof
    assume v: "visible_for key (array C' ! i)"
    then have "f_st (meta (array C' ! i)) = 7" "occupied (array C' ! i)" "hashed_key (array C' ! i) = key"
      by (simp_all add: visible_for_def occupied_def)
    moreover have "erased key (array C ! i) (array C' ! i)" using assms that by blast
    ultimately show False by (auto simp: erased_def visible_for_def payload_def split: if_splits)
  qed
  then show ?thesis by (simp add: contents_def entry_at_None)
qed

lemma takeWhile_order:
  "i \<in> set xs \<Longrightarrow> j \<in> set xs \<Longrightarrow> i \<noteq> j \<Longrightarrow>
   i \<in> set (takeWhile (\<lambda>l. l \<noteq> j) xs) \<or> j \<in> set (takeWhile (\<lambda>l. l \<noteq> i) xs)"
  by (induction xs) auto

lemma inserted_reaches:
  assumes "inserted_at b handle j C C'" "reaches b C (hashed_key handle) i" "visible_for (hashed_key handle) (array C ! i)"
  shows False
proof -
  let ?key = "hashed_key handle"
  have i: "i < 2 ^ b" using assms(2) by (simp add: reaches_def)
  have j: "j < 2 ^ b" "\<not> occupied (array C ! j)" and e: "entry_at b C' ?key = Some j"
    using assms(1) by (simp_all add: inserted_at_def)
  have ij: "i \<noteq> j" using assms(3) j(2) by (auto simp: visible_for_def occupied_def)
  then have "displaced (array C ! i) (array C' ! i)" using assms(1) i by (simp add: inserted_at_def)
  then have v: "visible_for ?key (array C' ! i)" using assms(3) visible_for_displaced by blast
  obtain pre post where p: "path b ?key = pre @ j # post" "\<forall>l \<in> set pre. \<not> visible_for ?key (array C' ! l)"
    by (rule find_split[OF e[unfolded entry_at_def]])
  then have "i \<notin> set (before b ?key j)" using v before_prefix[OF p(1)] by blast
  then have "j \<in> set (before b ?key i)"
    using takeWhile_order[of i "path b ?key" j] i j(1) ij unfolding before_def by (simp add: path_set)
  then show False using assms(2) j(2) by (simp add: reaches_def)
qed

text \<open>C38: Replacing an entry that a client holds a reference to loses it: Insert erases the entry
  before it knows that it can store the new one, so it returns false although there is
  room, and the key, found before, is no longer found.\<close>

theorem Insert_pinned_loses_entry:
  assumes "cc_ok b n C" "n + 1 < 2 ^ 30" "0 \<le> hit_decr_delta C" "pointer_room b C"
    "has_room C (total_charge handle)" "reaches b C (hashed_key handle) i" "visible_for (hashed_key handle) (array C ! i)"
    "\<forall>j < 2 ^ b. visible_for (hashed_key handle) (array C ! j) \<longrightarrow> 0 < f_ref (meta (array C ! j))"
  shows "contents b C (hashed_key handle) \<noteq> None \<and>
     (\<exists>C'. Insert spurious_usage spurious_erase addr C handle = Some (False, C') \<and>
        contents b C' (hashed_key handle) = None)"
proof
  let ?key = "hashed_key handle"
  have i: "i < 2 ^ b" using assms(6) by (simp add: reaches_def)
  show "contents b C ?key \<noteq> None" using i assms(7) by (auto simp: contents_def entry_at_None)
  have arr: "cc_arr b n C" using assms(1) by (simp add: cc_ok_def)
  note room = has_room_made[OF assms(5)]
  show "\<exists>C'. Insert spurious_usage spurious_erase addr C handle = Some (False, C') \<and> contents b C' ?key = None"
  proof (rule Insert_cases[OF arr assms(2-4), of spurious_usage spurious_erase addr handle])
    fix C1 freed cnt
    assume "made_room b n (total_charge handle) (occupancy_limit C < occupancy C + 1) (insert_start C) False C1 freed cnt"
    then show ?thesis using room(1) by blast
  next
    fix C1 freed cnt j C'
    assume i: "inserted_at b handle j C1 C'"
      and m: "made_room b n (total_charge handle) (occupancy_limit C < occupancy C + 1) (insert_start C) True C1 freed cnt"
    have False using inserted_reaches[OF i, of i] assms(6,7) room(2)[OF m] by (simp add: reaches_def)
    then show ?thesis ..
  next
    fix C1 freed cnt l C2 j C'
    assume m: "made_room b n (total_charge handle) (occupancy_limit C < occupancy C + 1) (insert_start C) True C1 freed cnt"
      and "\<exists>i < 2 ^ b. freed_by ?key (array C1 ! i)"
    then show ?thesis using assms(8) room(2)[OF m] by (auto simp: freed_by_def)
  next
    fix C1 freed cnt l C2
    assume a: "Insert spurious_usage spurious_erase addr C handle = Some (False, insert_undo C2 (total_charge handle))"
      and er: "\<forall>i < 2 ^ b. erased ?key (array C1 ! i) (array C2 ! i)"
    then show ?thesis using erased_gone[OF er] by (simp add: insert_undo_simps)
  next
    fix C1 freed cnt
    assume m: "made_room b n (total_charge handle) (occupancy_limit C < occupancy C + 1) (insert_start C) True C1 freed cnt"
      and "\<forall>i < 2 ^ b. occupied (array C1 ! i) \<and> \<not> visible_for ?key (array C1 ! i)"
    then show ?thesis using assms(7) i room(2)[OF m] by auto
  qed
qed

lemma Insert_pinned_loses_entry_witness:
  "contents 1 (demo_cache 1) (0, 0) \<noteq> None \<and>
     (\<exists>C'. Insert 0 (\<lambda>_. 0) 0 (demo_cache 1) (demo_handle (0, 0) 7 3) = Some (False, C') \<and> contents 1 C' (0, 0) = None)"
proof -
  have key: "hashed_key (demo_handle (0, 0) 7 3) = (0, 0)" "total_charge (demo_handle (0, 0) 7 3) = 3"
    by (simp_all add: demo_handle_def)
  have r: "reaches 1 (demo_cache 1) (0, 0) 0" unfolding reaches_def before_def demo_path by simp
  have v: "visible_for (0, 0) (array (demo_cache 1) ! 0)" using demo_visible(2) by (simp add: demo_array)
  have p: "\<forall>j < 2 ^ 1. visible_for (0, 0) (array (demo_cache 1) ! j) \<longrightarrow> 0 < f_ref (meta (array (demo_cache 1) ! j))"
    using demo_visible(3) demo_fields(2) by (auto simp: demo_array less_Suc_eq numeral_2_eq_2)
  have "cc_ok 1 1 (demo_cache 1)" using demo_ok[of 1 1] by simp
  from Insert_pinned_loses_entry[OF this _ demo_room, of "demo_handle (0, 0) 7 3", unfolded key,
      OF _ demo_has_room(1) r v p, of 0 "\<lambda>_. 0" 0]
  show ?thesis by simp
qed

text \<open>A stale entry can survive its replacement. If an earlier slot of the key's walk has become
  free, Insert puts the new entry there and leaves the old one visible behind it; once the new
  one is evicted, a lookup returns the value that had been replaced.\<close>

theorem Insert_leaves_stale_entry:
  assumes "cc_ok b n C" "n + 1 < 2 ^ 30" "0 \<le> hit_decr_delta C" "pointer_room b C"
    "has_room C (total_charge handle)" "unat (occupancy_limit C) \<le> 2 ^ b" "i < 2 ^ b"
    "\<forall>j < 2 ^ b. visible_for (hashed_key handle) (array C ! j) \<longleftrightarrow> j = i" "\<not> reaches b C (hashed_key handle) i"
  shows "\<exists>j C'. Insert spurious_usage spurious_erase addr C handle = Some (True, C') \<and>
     contents b C' (hashed_key handle) = Some (handle.truncate handle) \<and>
     (\<forall>C''. (\<forall>l < 2 ^ b. aged (array C' ! l) (array C'' ! l)) \<and> \<not> occupied (array C'' ! j) \<and> occupied (array C'' ! i) \<longrightarrow>
        contents b C'' (hashed_key handle) = Some (payload (array C ! i)))"
proof -
  let ?key = "hashed_key handle"
  have arr: "cc_arr b n C" using assms(1) by (simp add: cc_ok_def)
  note room = has_room_made[OF assms(5)]
  have vi: "visible_for ?key (array C ! i)" using assms(7,8) by blast
  show ?thesis
  proof (rule Insert_cases[OF arr assms(2-4), of spurious_usage spurious_erase addr handle])
    fix C1 freed cnt
    assume "made_room b n (total_charge handle) (occupancy_limit C < occupancy C + 1) (insert_start C) False C1 freed cnt"
    then show ?thesis using room(1) by blast
  next
    fix C1 freed cnt j C'
    assume a: "Insert spurious_usage spurious_erase addr C handle = Some (True, C')" and ins: "inserted_at b handle j C1 C'"
      and m: "made_room b n (total_charge handle) (occupancy_limit C < occupancy C + 1) (insert_start C) True C1 freed cnt"
    note same = room(2)[OF m]
    have ij: "j \<noteq> i" using ins vi same by (auto simp: inserted_at_def visible_for_def occupied_def)
    have d: "displaced (array C ! l) (array C' ! l)" if "l < 2 ^ b" "l \<noteq> j" for l
      using ins that same by (simp add: inserted_at_def)
    have "contents b C'' ?key = Some (payload (array C ! i))"
      if ag: "\<forall>l < 2 ^ b. aged (array C' ! l) (array C'' ! l)" and no: "\<not> occupied (array C'' ! j)"
        and oc: "occupied (array C'' ! i)" for C''
    proof -
      have keep: "f_st (meta (array C'' ! l)) = f_st (meta (array C ! l)) \<and> payload (array C'' ! l) = payload (array C ! l)"
        if l: "l < 2 ^ b" "l \<noteq> j" "occupied (array C'' ! l)" for l
      proof -
        have "aged (array C' ! l) (array C'' ! l)" using ag l(1) by blast
        then have "f_st (meta (array C'' ! l)) = f_st (meta (array C' ! l)) \<and> payload (array C'' ! l) = payload (array C' ! l)"
          using l(3) displacedD[of "array C' ! l" "array C'' ! l"] by (auto simp: aged_def split: if_splits)
        then show ?thesis using displacedD[OF d[OF l(1,2)]] by simp
      qed
      have only: "visible_for ?key (array C'' ! l) \<longleftrightarrow> l = i" if l: "l < 2 ^ b" for l
      proof
        assume "l = i"
        then show "visible_for ?key (array C'' ! l)"
          using keep[of i] assms(7) ij oc vi payload_key[of "array C'' ! i" "array C ! i"] by (simp add: visible_for_def)
      next
        assume v: "visible_for ?key (array C'' ! l)"
        then have "occupied (array C'' ! l)" by (simp add: visible_for_def occupied_def)
        moreover from this have "l \<noteq> j" using no by auto
        ultimately have "visible_for ?key (array C ! l)"
          using keep[OF l] v payload_key[of "array C'' ! l" "array C ! l"] by (simp add: visible_for_def)
        then show "l = i" using assms(8) l by blast
      qed
      have "entry_at b C'' ?key \<noteq> None" using only assms(7) by (auto simp: entry_at_None)
      then obtain l where l: "entry_at b C'' ?key = Some l" by blast
      then have "l = i" using entry_at_Some[OF l] only by blast
      then show ?thesis using l keep[of i] assms(7) ij oc by (simp add: contents_def)
    qed
    then show ?thesis using a inserted_contents[OF ins] by blast
  next
    fix C1 freed cnt l C2 j C'
    assume m: "made_room b n (total_charge handle) (occupancy_limit C < occupancy C + 1) (insert_start C) True C1 freed cnt"
      and l: "reaches b C1 ?key l" "visible_for ?key (array C1 ! l)"
    then have "l = i" using assms(8) room(2)[OF m] by (auto simp: reaches_def)
    then show ?thesis using l(1) assms(9) room(2)[OF m] by (simp add: reaches_def)
  next
    fix C1 freed cnt l C2
    assume m: "made_room b n (total_charge handle) (occupancy_limit C < occupancy C + 1) (insert_start C) True C1 freed cnt"
      and l: "reaches b C1 ?key l" "visible_for ?key (array C1 ! l)"
    then have "l = i" using assms(8) room(2)[OF m] by (auto simp: reaches_def)
    then show ?thesis using l(1) assms(9) room(2)[OF m] by (simp add: reaches_def)
  next
    fix C1 freed cnt
    assume m: "made_room b n (total_charge handle) (occupancy_limit C < occupancy C + 1) (insert_start C) True C1 freed cnt"
      and "\<forall>i < 2 ^ b. occupied (array C1 ! i) \<and> \<not> visible_for ?key (array C1 ! i)"
    then show ?thesis using has_room_slot[OF assms(1,5,6)] room(2)[OF m] by auto
  qed
qed

text \<open>The key (0, 0) in the second slot of its walk, the first one free again.\<close>

definition demo_displaced :: clock_cache where
  "demo_displaced = (demo_cache 0)\<lparr>array := [HandleImpl_new\<lparr>displacements := 1\<rparr>, demo_slot 0]\<rparr>"

lemma demo_displaced_array: "array demo_displaced = [HandleImpl_new\<lparr>displacements := 1\<rparr>, demo_slot 0]"
  by (simp add: demo_displaced_def)

lemma demo_displaced_ok: "cc_ok 1 0 demo_displaced"
proof -
  let ?arr = "[HandleImpl_new\<lparr>displacements := 1\<rparr>, demo_slot 0]"
  have occ: "occupied (demo_slot 0)" "\<not> occupied (HandleImpl_new\<lparr>displacements := 1\<rparr>)"
    using demo_fields by (simp_all add: occupied_def)
  have t: "table ?arr = (\<lambda>i. if i = 1 then Some (0, 0) else None)"
    by (rule ext) (auto simp: table_def occ less_Suc_eq demo_key)
  have cr: "crossers (path 1) 2 (table ?arr) i = (if i = 0 then {1} else {})" for i
    unfolding t crossers_def by (auto simp: demo_path[unfolded One_nat_def] split: if_splits)
  have c: "crossings (path 1) (2 ^ 1) (table ?arr) i = (if i = 0 then 1 else 0)" for i
    using cr[of i] by (simp add: crossings_def)
  have "arr_ok 1 0 ?arr"
  proof (rule arr_okI)
    show "slot_ok 0 (?arr ! i)" if "i < 2 ^ 1" for i
      using that demo_fields by (auto simp: slot_ok_def less_Suc_eq numeral_2_eq_2)
    show "displacements (?arr ! i) = of_nat (crossings (path 1) (2 ^ 1) (table ?arr) i)" if "i < 2 ^ 1" for i
      unfolding c using that by (auto simp: less_Suc_eq numeral_2_eq_2 demo_key)
  qed simp_all
  moreover have "occ_total ?arr = 1" "charge_total ?arr = 5"
    using occ by (simp_all add: occ_total_def charge_total_def demo_key)
  ultimately show ?thesis
    by (simp add: cc_ok_def cc_arr_def occ_drift_def usage_drift_def demo_displaced_array)
      (simp add: demo_displaced_def demo_cache_def)
qed

lemma Insert_leaves_stale_entry_witness:
  "\<exists>j C'. Insert 0 (\<lambda>_. 0) 0 demo_displaced (demo_handle (0, 0) 7 3) = Some (True, C') \<and>
     contents 1 C' (0, 0) = Some (demo_handle (0, 0) 7 3) \<and>
     (\<forall>C''. (\<forall>l < 2 ^ 1. aged (array C' ! l) (array C'' ! l)) \<and> \<not> occupied (array C'' ! j) \<and> occupied (array C'' ! 1) \<longrightarrow>
        contents 1 C'' (0, 0) = Some (payload (demo_slot 0)))"
proof -
  have key: "hashed_key (demo_handle (0, 0) 7 3) = (0, 0)" "total_charge (demo_handle (0, 0) 7 3) = 3"
    "handle.truncate (demo_handle (0, 0) 7 3) = demo_handle (0, 0) 7 3"
    by (simp_all add: demo_handle_def handle.truncate_def)
  have free: "\<not> occupied (HandleImpl_new\<lparr>displacements := 1\<rparr>)" using demo_fields by (simp add: occupied_def)
  have r: "\<not> reaches 1 demo_displaced (0, 0) 1"
    unfolding reaches_def before_def demo_path demo_displaced_array using free by simp
  have v: "\<forall>j < 2 ^ 1. visible_for (0, 0) (array demo_displaced ! j) \<longleftrightarrow> j = 1"
    using demo_visible free by (auto simp: demo_displaced_array less_Suc_eq numeral_2_eq_2 visible_for_def occupied_def)
  have room: "0 \<le> hit_decr_delta demo_displaced" "pointer_room 1 demo_displaced" "has_room demo_displaced 3"
    "unat (occupancy_limit demo_displaced) \<le> 2 ^ 1"
    by (simp_all add: demo_displaced_def demo_cache_def pointer_room_def has_room_def)
  have one: "(1 :: nat) < 2 ^ 1" "(0 :: nat) + 1 < 2 ^ 30" by simp_all
  have a: "array demo_displaced ! 1 = demo_slot 0" by (simp add: demo_displaced_array)
  from Insert_leaves_stale_entry[OF demo_displaced_ok one(2) room(1,2), of "demo_handle (0, 0) 7 3", unfolded key,
      OF room(3,4) one(1) v r, unfolded a]
  show ?thesis by blast
qed

end
