(* ===== verification/Clock_Life.thy ===== *)
theory Clock_Life
  imports Clock_Bounds Doubles Murmur
begin

text \<open>
  Construction and destruction of a ClockCache (clock/clock_cache.h and clock/clock_cache.cc), and the
  default hash function of the options. The destructor's assertions are branches of the model:
  None is a failed assertion or an access out of range.
\<close>

unbundle bit_operations_syntax

section \<open>The operations\<close>

type_synonym hash_key_fn = "8 word list \<Rightarrow> 32 word \<Rightarrow> key128"

record clock_options =
  co_capacity :: u64
  co_length :: u64
  co_value_size :: u64
  co_load_factor :: dbl
  co_hash_key_fn :: hash_key_fn
  co_hit_decr_delta_min :: int

definition DefaultHashKeyFn :: hash_key_fn where
  "DefaultHashKeyFn key seed = MurmurHash3_x64_128 key seed"

definition ClockCache_new :: "clock_options \<Rightarrow> clock_cache" where
  "ClockCache_new options =
     \<lparr>clock_pointer = 0, occupancy = 0, usage = 0, hit_decr_delta = 1,
      hit_decr_delta_min = co_hit_decr_delta_min options,
      capacity = co_capacity options,
      cc_length = (if 0 < co_length options then co_length options
                   else if 0 < co_value_size options then co_capacity options div co_value_size options else 0),
      occupancy_limit = of_nat (trunc_product (unat (co_length options)) (co_load_factor options)),
      array = replicate (unat (co_length options)) HandleImpl_new,
      calls = []\<rparr>"

definition destroy_slot :: "nat \<Rightarrow> clock_cache \<Rightarrow> clock_cache option" where
  "destroy_slot i C =
     (if i < length (array C)
      then let h = array C ! i; st = state_of (LoadRelaxed (meta h))
           in if st = kStateEmpty then Some C
              else if st = kStateInvisible \<or> st = kStateVisible
              then if RefCount (LoadRelaxed (meta h)) = 0
                   then do { let (h, fs) = FreeData h;
                             arr \<leftarrow> Rollback (cc_length C) (hashed_key h) i ((array C)[i := h]);
                             Some (ReclaimEntryUsage (C\<lparr>array := arr, calls := fs @ calls C\<rparr>) (GetTotalCharge (arr ! i))) }
                   else None
              else None
      else None)"

fun destroy_slots :: "nat list \<Rightarrow> clock_cache \<Rightarrow> clock_cache option" where
  "destroy_slots [] C = Some C"
| "destroy_slots (i # is) C = do { C \<leftarrow> destroy_slot i C; destroy_slots is C }"

definition sizeof_HandleImpl :: u64 where "sizeof_HandleImpl = 64"

definition destroy_asserts :: "clock_cache \<Rightarrow> bool" where
  "destroy_asserts C \<longleftrightarrow>
     (\<forall>i \<in> set [0..<unat (GetLength C)]. i < length (array C) \<and> LoadRelaxed (displacements (array C ! i)) = 0) \<and>
     (LoadRelaxed (usage C) = 0 \<or> LoadRelaxed (usage C) = GetLength C * sizeof_HandleImpl) \<and>
     LoadRelaxed (occupancy C) = 0"

definition ClockCache_destroy :: "clock_cache \<Rightarrow> clock_cache option" where
  "ClockCache_destroy C =
     do { C \<leftarrow> destroy_slots [0..<unat (GetLength C)] C;
          if destroy_asserts C then Some C else None }"

section \<open>Destruction\<close>

text \<open>
  The destructor leaves the slots it has emptied occupied. cleared i is the array with its first i
  slots marked empty: on it the invariant of the array holds throughout.
\<close>

definition cleared :: "nat \<Rightarrow> handle_impl list \<Rightarrow> handle_impl list" where
  "cleared i arr = map (\<lambda>j. if j < i then (arr ! j)\<lparr>meta := 0\<rparr> else arr ! j) [0..<length arr]"

lemma length_cleared [simp]: "length (cleared i arr) = length arr"
  by (simp add: cleared_def)

lemma cleared_nth: "j < length arr \<Longrightarrow> cleared i arr ! j = (if j < i then (arr ! j)\<lparr>meta := 0\<rparr> else arr ! j)"
  by (simp add: cleared_def)

lemma cleared_0: "cleared 0 arr = arr"
  by (simp add: list_eq_iff_nth_eq cleared_nth)

lemma cleared_Suc:
  assumes "i < length arr"
  shows "cleared (Suc i) arr = (cleared i arr)[i := (arr ! i)\<lparr>meta := 0\<rparr>]"
  using assms by (auto simp: list_eq_iff_nth_eq cleared_nth nth_list_update)

lemma cleared_rolled:
  assumes "distinct is"
  shows "cleared i (rolled is arr) = rolled is (cleared i arr)"
  using assms by (auto simp: list_eq_iff_nth_eq cleared_nth rolled_nth decr_displacement_simps)

lemma unoccupied_totals:
  assumes "\<forall>h \<in> set arr. \<not> occupied h"
  shows "occ_total arr = 0" "charge_total arr = 0" "owed arr = {#}"
proof -
  have m: "map (\<lambda>h. if occupied h then f h else z) arr = map (\<lambda>h. z) arr" for f :: "handle_impl \<Rightarrow> 'a" and z
    using assms by (intro map_cong) auto
  show "occ_total arr = 0" "charge_total arr = 0" "owed arr = {#}"
    unfolding occ_total_def charge_total_def owed_def m by (induction arr) simp_all
qed

text \<open>The state before the slot i is destroyed.\<close>

definition half_destroyed :: "nat \<Rightarrow> nat \<Rightarrow> clock_cache \<Rightarrow> nat \<Rightarrow> clock_cache \<Rightarrow> bool" where
  "half_destroyed b n C0 i C \<longleftrightarrow> cc_length C = 2 ^ b \<and> arr_ok b n (cleared i (array C)) \<and>
     occupancy C = occ_total (cleared i (array C)) \<and> usage C = charge_total (cleared i (array C)) \<and>
     mset (calls C) + owed (cleared i (array C)) = ledger C0 \<and>
     (\<forall>j < 2 ^ b. i \<le> j \<longrightarrow> occupied (array C ! j) \<longrightarrow> f_ref (meta (array C ! j)) = 0)"

lemma destroy_slot_spec:
  assumes "half_destroyed b n C0 i C" "i < 2 ^ b"
  shows "\<exists>C'. destroy_slot i C = Some C' \<and> half_destroyed b n C0 (Suc i) C'"
proof -
  let ?A = "cleared i (array C)"
  have ok: "arr_ok b n ?A" and L: "cc_length C = 2 ^ b"
    and ref: "\<And>j. j < 2 ^ b \<Longrightarrow> i \<le> j \<Longrightarrow> occupied (array C ! j) \<Longrightarrow> f_ref (meta (array C ! j)) = 0"
    and cnt: "occupancy C = occ_total ?A" "usage C = charge_total ?A"
    and led: "mset (calls C) + owed ?A = ledger C0"
    using assms(1) by (auto simp: half_destroyed_def)
  have len: "length (array C) = 2 ^ b" using arr_okD(3)[OF ok] by simp
  have il: "i < length (array C)" using assms(2) len by simp
  define h where "h = array C ! i"
  have Ai: "?A ! i = h" using il by (simp add: cleared_nth h_def)
  have st: "f_st (meta h) \<in> {0, 6, 7}" using arr_okD(4)[OF ok assms(2)] by (simp add: Ai slot_ok_def)
  show ?thesis
  proof (cases "occupied h")
    case False
    then have "f_st (meta h) = 0" by (simp add: occupied_def)
    then have r: "destroy_slot i C = Some C"
      using il by (simp add: destroy_slot_def h_def LoadRelaxed_def state_of_simps Let_def)
    let ?h = "h\<lparr>meta := 0\<rparr>"
    have e: "cleared (Suc i) (array C) = ?A[i := ?h]" using cleared_Suc[OF il] by (simp add: h_def)
    have un: "\<not> occupied ?h" using fields_0 by (simp add: occupied_def)
    have s: "slot_ok n ?h" "occupied ?h = occupied (?A ! i)" "hashed_key ?h = hashed_key (?A ! i)"
      "displacements ?h = displacements (?A ! i)" "total_charge ?h = total_charge (?A ! i)" "due ?h = due (?A ! i)"
      using un False fields_0 by (simp_all add: Ai slot_ok_def due_def FreeData_def)
    have iA: "i < length ?A" using il by simp
    have "half_destroyed b n C0 (Suc i) C"
      using arr_touch(1)[OF ok assms(2) s(1) order_refl s(2-4)] totals_touch[OF iA s(2,5)] s(6) cnt led L ref
      by (simp add: half_destroyed_def e)
    then show ?thesis using r by blast
  next
    case True
    then have st': "state_of (meta h) \<noteq> kStateEmpty" "state_of (meta h) = kStateInvisible \<or> state_of (meta h) = kStateVisible"
      using st state_of_simps[of "meta h"] state_neqs by (auto simp: occupied_def)
    have "f_ref (meta h) = 0" using ref[OF assms(2)] True by (simp add: h_def)
    then have rc: "RefCount (meta h) = 0" by (simp add: RefCount_field)
    obtain g fs where fd: "FreeData h = (g, fs)" by (cases "FreeData h")
    have g_def: "g = fst (FreeData h)" using fd by simp
    have g: "hashed_key g = hashed_key h" "total_charge g = total_charge h" "displacements g = displacements h"
      "meta g = meta h"
      unfolding g_def by (simp_all add: FreeData_def)
    let ?bf = "before b (hashed_key h) i"
    let ?arr = "rolled ?bf ((array C)[i := g])"
    have rb: "Rollback (cc_length C) (hashed_key g) i ((array C)[i := g]) = Some ?arr"
      unfolding L g(1) by (rule Rollback_rolled) (use arr_okD(2)[OF ok] len assms(2) in simp_all)
    have ai: "?arr ! i = g" using il before_not by (simp add: rolled_nth before_distinct)
    let ?C = "ReclaimEntryUsage (C\<lparr>array := ?arr, calls := fs @ calls C\<rparr>) (total_charge h)"
    have r: "destroy_slot i C = Some ?C"
      using il st' rc by (simp add: destroy_slot_def LoadRelaxed_def Let_def h_def[symmetric] fd rb[unfolded g(1)] ai
          GetTotalCharge_def g cong: if_cong)
    let ?h = "g\<lparr>meta := 0\<rparr>"
    have occ: "occupied (?A ! i)" using True Ai by simp
    have h0: "meta ?h = 0" "displacements ?h = displacements (?A ! i)" using g Ai by simp_all
    note A = arr_clear[OF ok assms(2) occ h0, unfolded Ai]
    have "cleared (Suc i) ((array C)[i := g]) = ?A[i := ?h]"
      using il by (auto simp: list_eq_iff_nth_eq cleared_nth nth_list_update)
    then have e: "cleared (Suc i) ?arr = rolled ?bf (?A[i := ?h])"
      by (simp add: cleared_rolled before_distinct)
    have "occupied (?arr ! j) \<longrightarrow> f_ref (meta (?arr ! j)) = 0" if "j < 2 ^ b" "Suc i \<le> j" for j
    proof -
      have "meta (?arr ! j) = meta (array C ! j)"
        using that len by (simp add: rolled_nth before_distinct decr_displacement_simps)
      then show ?thesis using ref[of j] that by (simp add: occupied_def)
    qed
    moreover have "mset fs = due h" by (simp add: due_def fd)
    ultimately have "half_destroyed b n C0 (Suc i) ?C"
      using A(1,3,4,8) L cnt led
      by (simp add: half_destroyed_def ReclaimEntryUsage_def atomic_defs e ac_simps)
    then show ?thesis using r by blast
  qed
qed

lemma destroy_slots_spec:
  "half_destroyed b n C0 i C \<Longrightarrow> i + k = 2 ^ b \<Longrightarrow>
   \<exists>C'. destroy_slots [i..<2 ^ b] C = Some C' \<and> half_destroyed b n C0 (2 ^ b) C'"
proof (induction k arbitrary: i C)
  case (Suc k)
  then have i: "i < 2 ^ b" by simp
  obtain C1 where 1: "destroy_slot i C = Some C1" "half_destroyed b n C0 (Suc i) C1"
    using destroy_slot_spec[OF Suc.prems(1) i] by blast
  then show ?case using Suc.IH[OF 1(2)] Suc.prems(2) by (simp add: upt_conv_Cons[OF i])
qed simp

lemma half_destroyed_start:
  assumes "cc_ok b n C" "\<forall>j < 2 ^ b. occupied (array C ! j) \<longrightarrow> f_ref (meta (array C ! j)) = 0"
  shows "half_destroyed b n C 0 C"
  using assms by (simp add: half_destroyed_def cc_ok_def cc_arr_def cleared_0 occ_drift_def usage_drift_def ledger_def)

lemma all_cleared:
  assumes "half_destroyed b n C0 (2 ^ b) C"
  shows "occupancy C = 0" "usage C = 0" "mset (calls C) = ledger C0" "length (array C) = 2 ^ b"
    "i < 2 ^ b \<Longrightarrow> displacements (array C ! i) = 0"
proof -
  let ?A = "cleared (2 ^ b) (array C)"
  have ok: "arr_ok b n ?A" using assms by (simp add: half_destroyed_def)
  show len: "length (array C) = 2 ^ b" using arr_okD(3)[OF ok] by simp
  have un: "\<not> occupied (?A ! j)" if "j < 2 ^ b" for j
    using that len fields_0 by (simp add: cleared_nth occupied_def)
  then have "\<forall>h \<in> set ?A. \<not> occupied h" using len by (auto simp: in_set_conv_nth)
  note T = unoccupied_totals[OF this]
  show "occupancy C = 0" "usage C = 0" "mset (calls C) = ledger C0"
    using assms T by (simp_all add: half_destroyed_def)
  have "crossings (path b) (2 ^ b) (table ?A) i = 0" by (rule oa.crossings_empty) (use un in \<open>simp add: table_def\<close>)
  then show "displacements (array C ! i) = 0" if "i < 2 ^ b"
    using arr_okD(5)[OF ok that] that len by (simp add: cleared_nth)
qed

text \<open>C19: When no entry is referenced any more the destructor returns and none of its assertions fails: every
  displacement counter is back to 0, as are occupancy and usage, and each deleter that was still
  owed has been called exactly once.\<close>

theorem ClockCache_destroy_correct:
  assumes "cc_ok b n C" "\<forall>j < 2 ^ b. occupied (array C ! j) \<longrightarrow> f_ref (meta (array C ! j)) = 0"
  shows "\<exists>C'. ClockCache_destroy C = Some C' \<and> mset (calls C') = ledger C \<and> GetOccupancy C' = 0 \<and> GetUsage C' = 0 \<and>
     (\<forall>i < 2 ^ b. displacements (array C' ! i) = 0)"
proof -
  have arr: "cc_arr b n C" using assms(1) by (simp add: cc_ok_def)
  have L: "unat (GetLength C) = 2 ^ b" using cc_arrD(1,4)[OF arr] by (simp add: GetLength_def unat_length)
  obtain C' where d: "destroy_slots [0..<2 ^ b] C = Some C'" "half_destroyed b n C (2 ^ b) C'"
    using destroy_slots_spec[OF half_destroyed_start[OF assms], of "2 ^ b"] by auto
  note A = all_cleared[OF d(2)]
  have "GetLength C' = GetLength C" using d(2) cc_arrD(1)[OF arr] by (simp add: half_destroyed_def GetLength_def)
  then have "destroy_asserts C'"
    using A L by (simp add: destroy_asserts_def LoadRelaxed_def)
  then show ?thesis using d(1) A L
    by (simp add: ClockCache_destroy_def GetOccupancy_def GetUsage_def LoadRelaxed_def)
qed

lemma ClockCache_destroy_correct_witness:
  "\<exists>C'. ClockCache_destroy (demo_cache 0) = Some C' \<and> mset (calls C') = {#(1, 9)#} \<and> GetUsage C' = 0"
proof -
  have o: "occupied (demo_slot 0)" "\<not> occupied HandleImpl_new" using demo_fields by (simp_all add: occupied_def)
  have "ledger (demo_cache 0) = {#(1, 9)#}"
    by (simp add: ledger_def owed_def demo_array o) (simp add: due_def FreeData_def demo_slot_def)
  moreover have "\<forall>j < 2 ^ 1. occupied (array (demo_cache 0) ! j) \<longrightarrow> f_ref (meta (array (demo_cache 0) ! j)) = 0"
    using demo_unpinned by blast
  moreover have "cc_ok 1 0 (demo_cache 0)" using demo_ok[of 0 0] by simp
  ultimately show ?thesis using ClockCache_destroy_correct[of 1 0 "demo_cache 0"] by force
qed

section \<open>Construction\<close>

lemma new_slot: "\<not> occupied HandleImpl_new" "slot_ok 0 HandleImpl_new"
  using fields_0 by (simp_all add: HandleImpl_new_def occupied_def slot_ok_def)

lemma new_arr_ok:
  assumes "b < 32"
  shows "arr_ok b 0 (replicate (2 ^ b) HandleImpl_new)"
proof -
  have "crossings (path b) (2 ^ b) (table (replicate (2 ^ b) HandleImpl_new)) i = 0" for i
    by (rule oa.crossings_empty) (simp add: table_def new_slot)
  then show ?thesis using assms new_slot(2)
    by (intro arr_okI) (simp_all add: HandleImpl_new_def)
qed

lemma new_no_entry: "array C = replicate (2 ^ b) HandleImpl_new \<Longrightarrow> contents b C = Map.empty"
proof (rule ext)
  fix key assume a: "array C = replicate (2 ^ b) HandleImpl_new"
  have "f_st (meta HandleImpl_new) \<noteq> 7" using new_slot(1) by (simp add: occupied_def)
  then have "\<not> visible_for key (array C ! i)" if "i < 2 ^ b" for i using that a by (simp add: visible_for_def)
  then show "contents b C key = None" by (simp add: contents_def entry_at_None)
qed

lemma options_length:
  assumes "co_length options = 2 ^ b" "b < 32"
  shows "unat (co_length options) = 2 ^ b" "0 < co_length options"
proof -
  show u: "unat (co_length options) = 2 ^ b" using assms by (simp add: unat_length)
  have "co_length options \<noteq> 0" using u by (metis power_not_zero unat_0 zero_neq_numeral)
  then show "0 < co_length options" by (simp add: word_neq_0_conv)
qed

lemma ClockCache_new_facts:
  assumes "co_length options = 2 ^ b" "b < 32" "dbl_wf (co_load_factor options)"
    "mantissa (co_load_factor options) \<le> 2 ^ point (co_load_factor options)"
  shows "cc_ok b 0 (ClockCache_new options) \<and> contents b (ClockCache_new options) = Map.empty \<and>
     within_limits (ClockCache_new options) \<and> pointer_room b (ClockCache_new options) \<and>
     0 \<le> hit_decr_delta (ClockCache_new options) \<and> ledger (ClockCache_new options) = {#} \<and>
     unat (GetOccupancyLimit (ClockCache_new options)) =
       2 ^ b * mantissa (co_load_factor options) div 2 ^ point (co_load_factor options)"
proof -
  let ?C = "ClockCache_new options" and ?d = "co_load_factor options"
  note L = options_length[OF assms(1,2)]
  have a: "array ?C = replicate (2 ^ b) HandleImpl_new" by (simp add: ClockCache_new_def L)
  have un: "\<forall>h \<in> set (array ?C). \<not> occupied h" using new_slot(1) by (simp add: a)
  note T = unoccupied_totals[OF un]
  have "arr_ok b 0 (array ?C)" using new_arr_ok[OF assms(2)] by (simp add: a)
  then have ok: "cc_ok b 0 ?C"
    using T L assms(1) by (simp add: cc_ok_def cc_arr_def occ_drift_def usage_drift_def) (simp add: ClockCache_new_def)
  have "trunc_product (2 ^ b) ?d \<le> 2 ^ b" by (rule trunc_product_le[OF assms(3,4)])
  also have "(2 :: nat) ^ b < 2 ^ LENGTH(64)" using assms(2) by (intro power_strict_increasing) simp_all
  finally have lim: "unat (occupancy_limit ?C) = trunc_product (2 ^ b) ?d"
    by (simp add: ClockCache_new_def L unat_of_nat_eq)
  have "(2 :: nat) ^ b < 2 ^ 32" using assms(2) by (intro power_strict_increasing) simp_all
  then have room: "pointer_room b ?C" by (simp add: pointer_room_def ClockCache_new_def)
  have "charges_nat (array ?C) = 0" "occ_nat (array ?C) = 0"
    using un by (simp_all add: a charges_nat_def charge_of_def sum_list_replicate occ_nat_def filter_empty_conv)
  then have "within_limits ?C" by (intro within_limitsI[OF ok]) simp_all
  then show ?thesis
    using ok new_no_entry[OF a] room lim trunc_product_power[OF assms(3), of b] T(3)
    by (simp add: ledger_def GetOccupancyLimit_def) (simp add: ClockCache_new_def)
qed

text \<open>A cache constructed with a power-of-two length and a load factor of at most one satisfies the
  invariant, is empty and within its limits, owes no deleter call, and its occupancy limit is the
  exact floor of length times load factor: the double arithmetic does not round.\<close>

theorem ClockCache_new_ok:
  assumes "co_length options = 2 ^ b" "b < 32" "dbl_wf (co_load_factor options)"
    "mantissa (co_load_factor options) \<le> 2 ^ point (co_load_factor options)"
  shows "cc_ok b 0 (ClockCache_new options) \<and> contents b (ClockCache_new options) = Map.empty \<and>
     within_limits (ClockCache_new options) \<and> pointer_room b (ClockCache_new options) \<and>
     0 \<le> hit_decr_delta (ClockCache_new options) \<and> ledger (ClockCache_new options) = {#} \<and>
     unat (GetOccupancyLimit (ClockCache_new options)) =
       2 ^ b * mantissa (co_load_factor options) div 2 ^ point (co_load_factor options)"
  by (rule ClockCache_new_facts[OF assms])

definition demo_options :: "nat \<Rightarrow> clock_options" where
  "demo_options len = \<lparr>co_capacity = 100, co_length = of_nat len, co_value_size = 0, co_load_factor = dbl_065,
     co_hash_key_fn = DefaultHashKeyFn, co_hit_decr_delta_min = 1\<rparr>"

lemma ClockCache_new_ok_witness:
  "cc_ok 4 0 (ClockCache_new (demo_options 16)) \<and> unat (GetOccupancyLimit (ClockCache_new (demo_options 16))) = 10"
  using ClockCache_new_ok[of "demo_options 16" 4] by (simp add: demo_options_def dbl_wf_def dbl_065_def)

section \<open>Two configurations that do not work\<close>

text \<open>The option value_size, meant to replace length, does not work: the table is allocated and the
  limit computed from length, which is then 0, so that every Lookup, Erase and Insert on the
  new cache is undefined: it reads outside the table.\<close>

theorem value_size_unusable:
  assumes "co_length options = 0"
  shows "Lookup (ClockCache_new options) key = None \<and> Erase spurious (ClockCache_new options) key = None \<and>
     Insert su se addr (ClockCache_new options) handle = None"
proof -
  let ?C = "ClockCache_new options"
  have a: "array ?C = []" using assms by (simp add: ClockCache_new_def)
  have f: "FindSlot len k m ab u s = None" if "\<And>i. m i s = None" for len k m ab u and s :: 's
    using that by (subst FindSlot_def) (simp add: Let_def find_slot_loop.simps)
  have ev: "Evict addr D req data = None" if "array D = []" for D req data
  proof -
    have r: "evict_round addr d (map (\<lambda>i. cp + of_nat i) [0..<step_size]) (D\<lparr>clock_pointer := p\<rparr>, data) = None" for d cp p
      by (simp add: step_size_def upt_rec evict_slot_def that)
    show ?thesis by (simp add: Evict_def Let_def split_beta evict_loop.simps r)
  qed
  have efc: "EvictForCharge su addr D charge True = None" if "array D = []" for D charge
    by (simp add: EvictForCharge_def LoadRelaxed_def reserve_loop_spec ev that word_gt_0 Let_def)
  have z: "occupancy ?C = 0" "occupancy_limit ?C = 0"
    using assms by (simp_all add: ClockCache_new_def trunc_product_def round53_def bit_length.simps)
  have "Lookup ?C key = None" by (simp add: Lookup_def a f lookup_match_def)
  moreover have "Erase spurious ?C key = None" by (simp add: Erase_def f erase_match_def a)
  moreover have "Insert su se addr ?C handle = None"
    by (simp add: Insert_def z atomic_defs efc a)
  ultimately show ?thesis by blast
qed

lemma value_size_unusable_witness:
  "Insert 0 (\<lambda>_. 0) 0 (ClockCache_new ((demo_options 0)\<lparr>co_value_size := 10\<rparr>)) (demo_handle (0, 0) 7 3) = None \<and>
     GetLength (ClockCache_new ((demo_options 0)\<lparr>co_value_size := 10\<rparr>)) = 10"
  using value_size_unusable[of "(demo_options 0)\<lparr>co_value_size := 10\<rparr>" "(0, 0)" "\<lambda>_. 0" 0 "\<lambda>_. 0" 0 "demo_handle (0, 0) 7 3"]
  by (simp add: demo_options_def GetLength_def) (simp add: ClockCache_new_def)

text \<open>A shard of one slot can never hold anything: with the default load factor 0.65 its occupancy limit is
  0.65 truncated, that is 0, so every Insert fails and leaves the table empty. Such shards result whenever the
  number of shards equals the length.\<close>

theorem one_slot_cache_rejects:
  assumes "cc_ok 0 n C" "n + 1 < 2 ^ 30" "0 \<le> hit_decr_delta C" "pointer_room 0 C"
    "\<forall>h \<in> set (array C). \<not> occupied h" "GetOccupancyLimit C = GetOccupancyLimit (ClockCache_new options)"
    "co_length options = 1" "co_load_factor options = dbl_065"
  shows "\<exists>C'. Insert spurious_usage spurious_erase addr C handle = Some (False, C') \<and>
     (\<forall>h \<in> set (array C'). \<not> occupied h)"
proof -
  have arr: "cc_arr 0 n C" using assms(1) by (simp add: cc_ok_def)
  note T = unoccupied_totals[OF assms(5)]
  have z: "occupancy_limit C = 0" "occupancy C = 0"
    using assms(1,6-8) trunc_product_065[of 0] T
    by (simp_all add: GetOccupancyLimit_def cc_ok_def occ_drift_def) (simp add: ClockCache_new_def)
  have empty: "\<forall>h \<in> set (array C1). \<not> occupied h" and len: "length (array C1) = 1"
    if "made_room 0 n charge b (insert_start C) ok C1 freed cnt" for charge b ok C1 freed cnt
  proof -
    have g: "aged (array C ! 0) (array C1 ! 0)" and a1: "cc_arr 0 n C1"
      using that by (simp_all add: made_room_def insert_start_simps)
    show l: "length (array C1) = 1" using cc_arrD(3)[OF a1] by simp
    have "array C ! 0 \<in> set (array C)" using cc_arrD(3)[OF arr] by simp
    then show "\<forall>h \<in> set (array C1). \<not> occupied h"
      using g assms(5) l by (auto simp: aged_def in_set_conv_nth)
  qed
  have no: False if m: "made_room 0 n charge (occupancy_limit C < occupancy C + 1) (insert_start C) True C1 freed cnt"
    for charge C1 freed cnt
  proof -
    have "cnt = 0" "freed = 0"
      using m T unoccupied_totals[OF empty[OF m]] by (simp_all add: made_room_def insert_start_simps)
    then show False using m z by (simp add: made_room_def)
  qed
  show ?thesis
  proof (rule Insert_cases[OF arr assms(2-4), of spurious_usage spurious_erase addr handle])
    fix C1 freed cnt
    assume a: "Insert spurious_usage spurious_erase addr C handle = Some (False, insert_undo C1 0)"
      and m: "made_room 0 n (total_charge handle) (occupancy_limit C < occupancy C + 1) (insert_start C) False C1 freed cnt"
    show ?thesis using a empty[OF m] by (simp add: insert_undo_simps)
  qed (use no in blast)+
qed

lemma one_slot_cache_rejects_witness:
  "\<exists>C'. Insert 0 (\<lambda>_. 0) 0 (ClockCache_new (demo_options 1)) (demo_handle (0, 0) 7 3) = Some (False, C')"
proof -
  let ?C = "ClockCache_new (demo_options 1)"
  have a: "array ?C = replicate (2 ^ 0) HandleImpl_new" by (simp add: ClockCache_new_def demo_options_def)
  have un: "\<forall>h \<in> set (array ?C). \<not> occupied h" unfolding a using new_slot(1) by simp
  have "cc_ok 0 0 ?C" using new_arr_ok[of 0] unoccupied_totals[OF un]
    by (simp add: cc_ok_def cc_arr_def occ_drift_def usage_drift_def a) (simp add: ClockCache_new_def demo_options_def)
  moreover have "0 \<le> hit_decr_delta ?C" "pointer_room 0 ?C" by (simp_all add: ClockCache_new_def pointer_room_def)
  ultimately show ?thesis
    using one_slot_cache_rejects[OF _ _ _ _ un refl, of 0 0 "\<lambda>_. 0" 0 "demo_handle (0, 0) 7 3"]
    by (auto simp: demo_options_def)
qed

end
