(* ===== verification/Clock_Shards.thy ===== *)
theory Clock_Shards
  imports Clock_Life Sharding
begin

text \<open>
  The class Cache of clock/cache.cc and clock/cache.h: a vector of ClockCache shards. A key is a byte
  string, hashed by the function of the options; the first word of the hash selects the shard. A
  pointer to a handle is a shard and a slot. None is undefined behaviour: an index outside
  the vector of shards, a division by shard_num = 0, or what is undefined in a shard.
\<close>

section \<open>The operations\<close>

record cache_options = clock_options +
  co_shard_num :: u64
  co_hash_seed :: int

record clock_shards =
  cs_shards :: "clock_cache list"
  cs_options :: cache_options

definition Cache_new :: "cache_options \<Rightarrow> clock_shards option" where
  "Cache_new options =
     (if co_shard_num options = 0 then None
      else let shard_options = (clock_options.truncate options)
                 \<lparr>co_capacity := co_capacity options div co_shard_num options,
                  co_length := co_length options div co_shard_num options\<rparr>
           in Some \<lparr>cs_shards = map (\<lambda>i. ClockCache_new shard_options) [0..<unat (co_shard_num options)],
                    cs_options = options\<rparr>)"

fun destroy_shards :: "clock_cache list \<Rightarrow> clock_cache list option" where
  "destroy_shards [] = Some []"
| "destroy_shards (s # ss) = do { s \<leftarrow> ClockCache_destroy s; ss \<leftarrow> destroy_shards ss; Some (s # ss) }"

definition Cache_destroy :: "clock_shards \<Rightarrow> clock_cache list option" where
  "Cache_destroy c = destroy_shards (cs_shards c)"

definition HashKey :: "clock_shards \<Rightarrow> 8 word list \<Rightarrow> key128" where
  "HashKey c key = co_hash_key_fn (cs_options c) key (of_int (co_hash_seed (cs_options c)))"

definition shard_of :: "clock_shards \<Rightarrow> u64 \<Rightarrow> clock_cache option" where
  "shard_of c i = (if unat i < length (cs_shards c) then Some (cs_shards c ! unat i) else None)"

text \<open>The remainder is stored in an int32_t and converted back to size_t.\<close>

definition shard_index :: "clock_shards \<Rightarrow> key128 \<Rightarrow> u64" where
  "shard_index c key =
     (let shard_idx = (ucast (fst key mod of_nat (length (cs_shards c))) :: 32 word) in scast shard_idx)"

definition put_shard :: "clock_shards \<Rightarrow> u64 \<Rightarrow> clock_cache \<Rightarrow> clock_shards" where
  "put_shard c i s = c\<lparr>cs_shards := (cs_shards c)[unat i := s]\<rparr>"

definition cache_Lookup :: "clock_shards \<Rightarrow> 8 word list \<Rightarrow> ((u64 \<times> nat) option \<times> clock_shards) option" where
  "cache_Lookup c key =
     do { let hashed_key = HashKey c key;
          let i = shard_index c hashed_key;
          s \<leftarrow> shard_of c i;
          (e, s) \<leftarrow> Lookup s hashed_key;
          Some (map_option (Pair i) e, put_shard c i s) }"

text \<open>Insert writes the hash into the caller's handle, which is returned last.\<close>

definition cache_Insert ::
  "nat \<Rightarrow> (nat \<Rightarrow> nat) \<Rightarrow> u64 \<Rightarrow> clock_shards \<Rightarrow> 8 word list \<Rightarrow> handle \<Rightarrow> (bool \<times> clock_shards \<times> handle) option" where
  "cache_Insert spurious_usage spurious_erase addr c key handle =
     do { let hk = HashKey c key;
          let handle = handle\<lparr>hashed_key := hk\<rparr>;
          let i = shard_index c hk;
          s \<leftarrow> shard_of c i;
          (ok, s) \<leftarrow> Insert spurious_usage spurious_erase addr s handle;
          Some (ok, put_shard c i s, handle) }"

text \<open>Release reads the hash through the pointer to find a shard; the decrement is at the pointer itself.\<close>

definition cache_Release :: "clock_shards \<Rightarrow> u64 \<times> nat \<Rightarrow> (bool \<times> clock_shards) option" where
  "cache_Release c p =
     do { s \<leftarrow> shard_of c (fst p);
          h \<leftarrow> (if snd p < length (array s) then Some (array s ! snd p) else None);
          _ \<leftarrow> shard_of c (shard_index c (GetHash h));
          (ok, s) \<leftarrow> Release s (snd p);
          Some (ok, put_shard c (fst p) s) }"

definition cache_Erase :: "(nat \<Rightarrow> nat) \<Rightarrow> clock_shards \<Rightarrow> key128 \<Rightarrow> (bool \<times> clock_shards) option" where
  "cache_Erase spurious c key =
     do { let i = shard_index c key;
          s \<leftarrow> shard_of c i;
          (ok, s) \<leftarrow> Erase spurious s key;
          Some (ok, put_shard c i s) }"

definition cache_GetOccupancy :: "clock_shards \<Rightarrow> u64" where
  "cache_GetOccupancy c = fold (\<lambda>shard n. n + GetOccupancy shard) (cs_shards c) 0"

definition cache_GetUsage :: "clock_shards \<Rightarrow> u64" where
  "cache_GetUsage c = fold (\<lambda>shard n. n + GetUsage shard) (cs_shards c) 0"

definition cache_GetLength :: "clock_shards \<Rightarrow> u64" where
  "cache_GetLength c = fold (\<lambda>shard n. n + GetLength shard) (cs_shards c) 0"

definition cache_GetOccupancyLimit :: "clock_shards \<Rightarrow> u64" where
  "cache_GetOccupancyLimit c = fold (\<lambda>shard n. n + GetOccupancyLimit shard) (cs_shards c) 0"

section \<open>Routing\<close>

definition clock_route :: "nat \<Rightarrow> key128 \<Rightarrow> nat" where
  "clock_route n key = residue64 n (fst key)"

interpretation clock_route: router clock_route
  by unfold_locales (simp add: clock_route_def residue64_less)

lemma shard_index_route:
  assumes "cs_shards c \<noteq> []" "length (cs_shards c) < 2 ^ 31"
  shows "unat (shard_index c key) = clock_route (length (cs_shards c)) key"
proof -
  let ?r = "fst key mod of_nat (length (cs_shards c))"
  have r: "unat ?r < 2 ^ 31"
    using residue64_less[of "length (cs_shards c)" "fst key"] assms by (simp add: residue64_def)
  have s: "sint (ucast ?r :: 32 word) = signed_take_bit 31 (uint ?r)" by (simp add: signed_ucast_eq)
  have "uint ?r < 2 ^ 31" using r by (metis of_nat_less_iff of_nat_numeral of_nat_power uint_nat)
  then have "sint (ucast ?r :: 32 word) = uint ?r" unfolding s
    using uint_ge_0[of ?r] by (intro signed_take_bit_int_eq_self) linarith+
  then have "(scast (ucast ?r :: 32 word) :: u64) = ?r" by (simp add: scast_eq)
  then show ?thesis by (simp add: shard_index_def clock_route_def residue64_def)
qed

section \<open>The invariant\<close>

text \<open>Every shard satisfies its invariant, is within its limits and has the capacity per.\<close>

definition shard_ok :: "nat \<Rightarrow> nat \<Rightarrow> u64 \<Rightarrow> clock_cache \<Rightarrow> bool" where
  "shard_ok b n per s \<longleftrightarrow> cc_ok b n s \<and> within_limits s \<and> capacity s = per"

definition shards_ok :: "nat \<Rightarrow> nat \<Rightarrow> clock_shards \<Rightarrow> bool" where
  "shards_ok b n c \<longleftrightarrow> cs_shards c \<noteq> [] \<and> length (cs_shards c) < 2 ^ 31 \<and>
     of_nat (length (cs_shards c)) = co_shard_num (cs_options c) \<and>
     (\<forall>s \<in> set (cs_shards c). shard_ok b n (co_capacity (cs_options c) div co_shard_num (cs_options c)) s)"

definition total_charges :: "clock_shards \<Rightarrow> nat" where
  "total_charges c = sum_list (map (\<lambda>s. charges_nat (array s)) (cs_shards c))"

lemma fold_sum_word: "fold (\<lambda>s n. n + f s) ss (a :: u64) = a + sum_list (map f ss)"
  by (induction ss arbitrary: a) (simp_all add: ac_simps)

lemma sum_list_of_nat: "sum_list (map (\<lambda>x. (of_nat (f x) :: u64)) xs) = of_nat (sum_list (map f xs))"
  by (induction xs) simp_all

lemma usage_total:
  assumes "shards_ok b n c"
  shows "unat (cache_GetUsage c) = total_charges c" "total_charges c \<le> unat (co_capacity (cs_options c))"
proof -
  let ?cap = "co_capacity (cs_options c)" and ?num = "co_shard_num (cs_options c)" and ?ss = "cs_shards c"
  have len: "length ?ss < 2 ^ 31" "of_nat (length ?ss) = ?num"
    and ok: "\<And>s. s \<in> set ?ss \<Longrightarrow> shard_ok b n (?cap div ?num) s" using assms by (auto simp: shards_ok_def)
  have num: "unat ?num = length ?ss" using len(1) by (simp add: len(2)[symmetric] unat_of_nat_eq)
  have u: "unat (usage s) = charges_nat (array s)" "charges_nat (array s) \<le> unat (?cap div ?num)" if "s \<in> set ?ss" for s
    using ok[OF that] by (auto simp: shard_ok_def within_limits_iff)
  have "total_charges c \<le> sum_list (map (\<lambda>s. unat (?cap div ?num)) ?ss)"
    unfolding total_charges_def by (rule sum_list_mono) (rule u(2))
  also have "\<dots> = length ?ss * (unat ?cap div length ?ss)" by (simp add: sum_list_triv unat_div num)
  also have "\<dots> \<le> unat ?cap" by simp
  finally show le: "total_charges c \<le> unat ?cap" .
  have "map usage ?ss = map (\<lambda>s. of_nat (charges_nat (array s))) ?ss"
    by (rule map_cong) (use u(1) in \<open>simp_all add: word_unat_eq_iff flip: u(1)\<close>)
  then have "cache_GetUsage c = sum_list (map (\<lambda>s. of_nat (charges_nat (array s))) ?ss)"
    by (simp add: cache_GetUsage_def GetUsage_def LoadRelaxed_def fold_sum_word cong: map_cong)
  also have "\<dots> = of_nat (total_charges c)" by (simp add: total_charges_def sum_list_of_nat)
  finally show "unat (cache_GetUsage c) = total_charges c"
    using le unat_less_64[of ?cap] by (simp add: unat_of_nat_eq)
qed

lemma routed:
  assumes "shards_ok b n c"
  obtains s where "shard_of c (shard_index c key) = Some s"
    "s = cs_shards c ! clock_route (length (cs_shards c)) key" "s \<in> set (cs_shards c)"
    "unat (shard_index c key) = clock_route (length (cs_shards c)) key"
proof -
  have ne: "cs_shards c \<noteq> []" "length (cs_shards c) < 2 ^ 31" using assms by (simp_all add: shards_ok_def)
  note R = shard_index_route[OF ne, of key]
  have "clock_route (length (cs_shards c)) key < length (cs_shards c)" using clock_route.route_less ne(1) by simp
  then have "shard_of c (shard_index c key) = Some (cs_shards c ! clock_route (length (cs_shards c)) key)"
    by (simp add: shard_of_def R)
  then show thesis using that clock_route.shard_mem[OF ne(1)] R by blast
qed

lemma put_shard_ok:
  assumes "shards_ok b n c" "shard_ok b n (co_capacity (cs_options c) div co_shard_num (cs_options c)) s"
  shows "shards_ok b n (put_shard c i s)"
  using assms set_update_subset_insert[of "cs_shards c" "unat i" s] by (fastforce simp: shards_ok_def put_shard_def)

lemma HashKey_put: "HashKey (put_shard c i s) key = HashKey c key"
  by (simp add: HashKey_def put_shard_def)

text \<open>What a client of the sharded cache can look up.\<close>

definition stored :: "nat \<Rightarrow> clock_shards \<Rightarrow> key128 \<Rightarrow> handle option" where
  "stored b c key = contents b (cs_shards c ! clock_route (length (cs_shards c)) key) key"

lemma stored_put:
  assumes "shards_ok b n c" "\<And>k. k \<noteq> key \<Longrightarrow> clock_route (length (cs_shards c)) k = clock_route (length (cs_shards c)) key \<Longrightarrow>
      contents b s k = contents b (cs_shards c ! clock_route (length (cs_shards c)) k) k"
  shows "stored b (put_shard c (shard_index c key) s) = (stored b c)(key := contents b s key)"
proof
  fix k
  have ne: "cs_shards c \<noteq> []" using assms(1) by (simp add: shards_ok_def)
  have i: "unat (shard_index c key) = clock_route (length (cs_shards c)) key"
    by (rule routed[OF assms(1), of key]) blast
  show "stored b (put_shard c (shard_index c key) s) k = ((stored b c)(key := contents b s key)) k"
  proof (cases "clock_route (length (cs_shards c)) k = clock_route (length (cs_shards c)) key")
    case True
    then show ?thesis using assms(2)[of k] clock_route.put_same[OF ne] by (simp add: stored_def put_shard_def i)
  next
    case False
    then show ?thesis using clock_route.put_other[OF False, of s] by (auto simp: stored_def put_shard_def i)
  qed
qed

section \<open>Properties\<close>

lemma cache_Insert_spec:
  assumes "shards_ok b n c" "n + 1 < 2 ^ 30" "unat (total_charge handle) + unat (co_capacity (cs_options c)) < 2 ^ 64"
    "\<forall>s \<in> set (cs_shards c). 0 \<le> hit_decr_delta s \<and> pointer_room b s \<and> 0 < unat (occupancy_limit s)"
  obtains s res s' where "s = cs_shards c ! clock_route (length (cs_shards c)) (HashKey c key)" "s \<in> set (cs_shards c)"
    "unat (shard_index c (HashKey c key)) = clock_route (length (cs_shards c)) (HashKey c key)"
    "cache_Insert spurious_usage spurious_erase addr c key handle =
       Some (res, put_shard c (shard_index c (HashKey c key)) s', handle\<lparr>hashed_key := HashKey c key\<rparr>)"
    "shard_ok b n (co_capacity (cs_options c) div co_shard_num (cs_options c)) s'"
    "res \<Longrightarrow> contents b s' (HashKey c key) = Some (handle\<lparr>hashed_key := HashKey c key\<rparr>)"
    "occupancy_limit s' = occupancy_limit s" "0 \<le> hit_decr_delta s'"
    "unat (clock_pointer s') \<le> unat (clock_pointer s) + 3 * 2 ^ b + 7"
proof -
  let ?key = "HashKey c key" and ?per = "co_capacity (cs_options c) div co_shard_num (cs_options c)"
  let ?h = "handle\<lparr>hashed_key := ?key\<rparr>" and ?i = "shard_index c (HashKey c key)"
  obtain s where s: "shard_of c ?i = Some s" "s = cs_shards c ! clock_route (length (cs_shards c)) ?key"
    "s \<in> set (cs_shards c)" and ui: "unat ?i = clock_route (length (cs_shards c)) ?key"
    by (rule routed[OF assms(1)])
  have so: "shard_ok b n ?per s" using assms(1) s(3) by (simp add: shards_ok_def)
  then have ok: "cc_ok b n s" "within_limits s" "capacity s = ?per" by (simp_all add: shard_ok_def)
  note n = assms(2)
  have d: "0 \<le> hit_decr_delta s" "pointer_room b s" "0 < unat (occupancy_limit s)" using assms(4) s(3) by auto
  have "unat (usage s) \<le> unat ?per" using ok by (auto simp: within_limits_iff)
  also have "\<dots> \<le> unat (co_capacity (cs_options c))" by (simp add: unat_div)
  finally have ov: "unat (usage s) + unat (total_charge ?h) < 2 ^ 64" using assms(3) by simp
  obtain res s' where I: "Insert spurious_usage spurious_erase addr s ?h = Some (res, s')" "cc_ok b n s'"
    "res \<Longrightarrow> contents b s' (hashed_key ?h) = Some (handle.truncate ?h)"
    by (rule Insert_outcome[OF ok(1) n d(1,2), of spurious_usage spurious_erase addr ?h]) blast
  have w: "within_limits s'" by (rule Insert_limits[OF ok(1) n d(1,2) ok(2) ov d(3) I(1,2)])
  note K = Insert_config[OF ok(1) n d(1,2) I(1)]
  have "shard_ok b n ?per s'" using I(2) w K ok(3) by (simp add: shard_ok_def)
  moreover have "cache_Insert spurious_usage spurious_erase addr c key handle = Some (res, put_shard c ?i s', ?h)"
    by (simp add: cache_Insert_def s(1) I(1) Let_def)
  ultimately show thesis using s(2,3) ui I(3) K by (intro that[of s res s']) (simp_all add: handle.truncate_def)
qed

text \<open>C7: Insert of the sharded cache ends with every shard in its invariant and within its limits, so that
  the usage the cache reports is the sum of all charges, with no overflow, and never exceeds the configured
  capacity. It changes only the shard of the key; if it returns true, a lookup of the key bytes
  returns a pointer into that shard to a slot with the handle.\<close>

theorem cache_Insert_correct:
  assumes "shards_ok b n c" "n + 2 < 2 ^ 30" "unat (total_charge handle) + unat (co_capacity (cs_options c)) < 2 ^ 64"
    "\<forall>s \<in> set (cs_shards c). 0 \<le> hit_decr_delta s \<and> pointer_room b s \<and> 0 < unat (occupancy_limit s)"
  shows "\<exists>ok c' h. cache_Insert spurious_usage spurious_erase addr c key handle = Some (ok, c', h) \<and> shards_ok b n c' \<and>
     unat (cache_GetUsage c') = total_charges c' \<and> total_charges c' \<le> unat (co_capacity (cs_options c)) \<and>
     (\<forall>i. i \<noteq> clock_route (length (cs_shards c)) (HashKey c key) \<longrightarrow> cs_shards c' ! i = cs_shards c ! i) \<and>
     (ok \<longrightarrow> (\<exists>i j c''. cache_Lookup c' key = Some (Some (i, j), c'') \<and>
        payload (array (cs_shards c'' ! unat i) ! j) = handle\<lparr>hashed_key := HashKey c key\<rparr>))"
proof -
  let ?key = "HashKey c key" and ?i = "shard_index c (HashKey c key)"
  let ?h = "handle\<lparr>hashed_key := ?key\<rparr>"
  have n: "n + 1 < 2 ^ 30" using assms(2) by simp
  obtain s res s' where S: "s = cs_shards c ! clock_route (length (cs_shards c)) ?key" "s \<in> set (cs_shards c)"
    "unat ?i = clock_route (length (cs_shards c)) ?key"
    "cache_Insert spurious_usage spurious_erase addr c key handle = Some (res, put_shard c ?i s', ?h)"
    "shard_ok b n (co_capacity (cs_options c) div co_shard_num (cs_options c)) s'"
    "res \<Longrightarrow> contents b s' ?key = Some ?h"
    by (rule cache_Insert_spec[OF assms(1) n assms(3,4), of key spurious_usage spurious_erase addr]) blast
  note ui = S(3)
  let ?c = "put_shard c ?i s'"
  have so': "shards_ok b n ?c" by (rule put_shard_ok[OF assms(1) S(5)])
  have opt: "cs_options ?c = cs_options c" by (simp add: put_shard_def)
  have hk: "HashKey ?c key = ?key" by (rule HashKey_put)
  note ins = S(4)
  have look: "\<exists>i j c''. cache_Lookup ?c key = Some (Some (i, j), c'') \<and> payload (array (cs_shards c'' ! unat i) ! j) = ?h"
    if r: "res"
  proof -
    have "length (cs_shards ?c) = length (cs_shards c)" by (simp add: put_shard_def)
    then have si: "shard_index ?c ?key = ?i" by (simp add: shard_index_def)
    have lt: "clock_route (length (cs_shards c)) ?key < length (cs_shards c)"
      using assms(1) clock_route.route_less by (simp add: shards_ok_def)
    then have sh: "shard_of ?c ?i = Some s'" by (simp add: shard_of_def put_shard_def ui)
    obtain j where j: "entry_at b s' ?key = Some j" "payload (array s' ! j) = ?h"
      using S(6)[OF r] by (auto simp: contents_def)
    have "cc_arr b n s'" using S(5) by (simp add: shard_ok_def cc_ok_def)
    from Lookup_spec[OF this n, of ?key] obtain s'' where L: "Lookup s' ?key = Some (entry_at b s' ?key, s'')"
      "\<And>j. entry_at b s' ?key = Some j \<Longrightarrow> array s'' ! j = snd (lookup_slot ?key (array s' ! j))" by blast
    have "payload (array s'' ! j) = ?h"
      using L(2)[OF j(1)] lookup_slot_keeps[of ?key "array s' ! j"] j(2) by (auto simp: payload_def)
    moreover have "cs_shards (put_shard ?c ?i s'') ! unat ?i = s''" using lt by (simp add: put_shard_def ui)
    moreover have "cache_Lookup ?c key = Some (Some (?i, j), put_shard ?c ?i s'')"
      by (simp add: cache_Lookup_def hk si sh L(1) j(1) Let_def)
    ultimately show ?thesis by (intro exI[of _ ?i] exI[of _ j] exI[of _ "put_shard ?c ?i s''"]) simp
  qed
  show ?thesis using ins so' usage_total[OF so'] look opt by (intro exI[of _ res] exI[of _ ?c] exI[of _ ?h]) (simp add: put_shard_def ui)
qed

text \<open>The constructor, for a length that divides into shards of 2^b slots.\<close>

lemma Cache_new_ok:
  assumes "co_shard_num options = of_nat m" "0 < m" "m < 2 ^ 31" "co_length options div co_shard_num options = 2 ^ b"
    "b < 32" "dbl_wf (co_load_factor options)" "mantissa (co_load_factor options) \<le> 2 ^ point (co_load_factor options)"
  obtains c where "Cache_new options = Some c" "cs_options c = options" "length (cs_shards c) = m" "shards_ok b 0 c"
    "stored b c = Map.empty"
    "\<And>s. s \<in> set (cs_shards c) \<Longrightarrow> 0 \<le> hit_decr_delta s \<and> pointer_room b s \<and>
       unat (usage s) = 0 \<and> unat (occupancy s) = 0 \<and>
       unat (occupancy_limit s) = 2 ^ b * mantissa (co_load_factor options) div 2 ^ point (co_load_factor options)"
proof -
  define so where "so = (clock_options.truncate options)
    \<lparr>co_capacity := co_capacity options div co_shard_num options, co_length := co_length options div co_shard_num options\<rparr>"
  have so: "co_length so = 2 ^ b" "co_load_factor so = co_load_factor options"
    "co_capacity so = co_capacity options div co_shard_num options"
    using assms(4) by (simp_all add: so_def clock_options.truncate_def)
  note F = ClockCache_new_facts[OF so(1) assms(5), unfolded so(2), OF assms(6,7)]
  let ?c = "\<lparr>cs_shards = replicate m (ClockCache_new so), cs_options = options\<rparr>"
  have m: "unat (co_shard_num options) = m" using assms(1,3) by (simp add: unat_of_nat_eq)
  then have "co_shard_num options \<noteq> 0" using assms(2) by auto
  then have new: "Cache_new options = Some ?c"
    by (simp add: Cache_new_def so_def[symmetric] m map_replicate_const Let_def)
  have z: "unat (usage (ClockCache_new so)) = 0" "unat (occupancy (ClockCache_new so)) = 0"
    "capacity (ClockCache_new so) = co_capacity options div co_shard_num options"
    by (simp_all add: ClockCache_new_def so(3))
  have "shards_ok b 0 ?c" using F z(3) assms(1-3) by (simp add: shards_ok_def shard_ok_def)
  moreover have "stored b ?c = Map.empty"
  proof
    fix k
    have "clock_route m k < m" using clock_route.route_less[OF assms(2)] .
    then show "stored b ?c k = None" using F by (simp add: stored_def)
  qed
  ultimately show thesis using F z by (intro that[OF new]) (auto simp: GetOccupancyLimit_def)
qed

definition demo_cache_options :: cache_options where
  "demo_cache_options = \<lparr>co_capacity = 100, co_length = 8, co_value_size = 0, co_load_factor = dbl_065,
     co_hash_key_fn = DefaultHashKeyFn, co_hit_decr_delta_min = 1, co_shard_num = 2, co_hash_seed = -2\<rparr>"

lemma demo_shards:
  obtains c where "Cache_new demo_cache_options = Some c" "shards_ok 2 0 c" "cs_options c = demo_cache_options"
    "length (cs_shards c) = 2" "stored 2 c = Map.empty"
    "\<forall>s \<in> set (cs_shards c). 0 \<le> hit_decr_delta s \<and> pointer_room 2 s \<and> 0 < unat (occupancy_limit s)"
    "\<forall>s \<in> set (cs_shards c). has_room s 3 \<and> unat (occupancy_limit s) \<le> 2 ^ 2"
proof -
  obtain c where c: "Cache_new demo_cache_options = Some c" "cs_options c = demo_cache_options" "length (cs_shards c) = 2"
    "shards_ok 2 0 c" "stored 2 c = Map.empty"
    "\<And>s. s \<in> set (cs_shards c) \<Longrightarrow> 0 \<le> hit_decr_delta s \<and> pointer_room 2 s \<and>
       unat (usage s) = 0 \<and> unat (occupancy s) = 0 \<and>
       unat (occupancy_limit s) = 2 ^ 2 * mantissa (co_load_factor demo_cache_options) div 2 ^ point (co_load_factor demo_cache_options)"
    by (rule Cache_new_ok[of demo_cache_options 2 2]) (simp_all add: demo_cache_options_def dbl_wf_def dbl_065_def)
  have lim: "2 ^ 2 * mantissa (co_load_factor demo_cache_options) div 2 ^ point (co_load_factor demo_cache_options) = 2"
    by (simp add: demo_cache_options_def dbl_065_def)
  have cap: "capacity s = 50" if "s \<in> set (cs_shards c)" for s
    using c(4) that by (simp add: shards_ok_def shard_ok_def c(2)) (simp add: demo_cache_options_def)
  show thesis using c lim cap by (intro that[of c]) (simp_all add: has_room_def)
qed

lemma cache_Insert_correct_witness:
  "\<exists>c ok c' h. Cache_new demo_cache_options = Some c \<and>
     cache_Insert 0 (\<lambda>_. 0) 0 c [1, 2, 3] (demo_handle (0, 0) 7 3) = Some (ok, c', h) \<and> shards_ok 2 0 c' \<and>
     total_charges c' \<le> 100"
proof -
  obtain c where c: "Cache_new demo_cache_options = Some c" "shards_ok 2 0 c" "cs_options c = demo_cache_options"
    "\<forall>s \<in> set (cs_shards c). 0 \<le> hit_decr_delta s \<and> pointer_room 2 s \<and> 0 < unat (occupancy_limit s)"
    by (rule demo_shards) blast
  have "unat (total_charge (demo_handle (0, 0) 7 3)) + unat (co_capacity (cs_options c)) < 2 ^ 64"
    "unat (co_capacity (cs_options c)) = 100"
    by (simp_all add: demo_handle_def c(3) demo_cache_options_def)
  then show ?thesis using cache_Insert_correct[OF c(2) _ _ c(4), of "demo_handle (0, 0) 7 3" 0 "\<lambda>_. 0" 0 "[1, 2, 3]"] c(1)
    by fastforce
qed

lemma handle_truncate_id: "handle.truncate h = (h :: handle)"
  by (simp add: handle.truncate_def)

text \<open>C25: With room for the charge and the slot in the shard of the key and no reference to an entry of the key, Insert of the
  sharded cache is the update of a map: it succeeds and binds the hash of the key to the handle, and every
  other key keeps its value, in whatever shard it is. Without room entries are evicted, and an entry in use can be lost.\<close>

theorem cache_Insert_refines_map:
  assumes "shards_ok b n c" "n + 1 < 2 ^ 30"
    "\<forall>s. shard_of c (shard_index c (HashKey c key)) = Some s \<longrightarrow>
       0 \<le> hit_decr_delta s \<and> pointer_room b s \<and> has_room s (total_charge handle) \<and>
       unat (occupancy_limit s) \<le> 2 ^ b \<and>
       (\<forall>j < 2 ^ b. visible_for (HashKey c key) (array s ! j) \<longrightarrow> f_ref (meta (array s ! j)) = 0)"
  shows "\<exists>c' h. cache_Insert spurious_usage spurious_erase addr c key handle = Some (True, c', h) \<and>
     stored b c' = (stored b c)(HashKey c key := Some (handle\<lparr>hashed_key := HashKey c key\<rparr>))"
proof -
  let ?key = "HashKey c key" and ?h = "handle\<lparr>hashed_key := HashKey c key\<rparr>"
  obtain s where s: "shard_of c (shard_index c ?key) = Some s" "s = cs_shards c ! clock_route (length (cs_shards c)) ?key"
    "s \<in> set (cs_shards c)"
    by (rule routed[OF assms(1)])
  have ok: "cc_ok b n s" using assms(1) s(3) by (simp add: shards_ok_def shard_ok_def)
  have "\<exists>s'. Insert spurious_usage spurious_erase addr s ?h = Some (True, s') \<and>
      contents b s' = (contents b s)(hashed_key ?h := Some (handle.truncate ?h))"
    by (rule Insert_map_update[OF ok assms(2)]) (use assms(3) s(1) in simp_all)
  then obtain s' where s': "Insert spurious_usage spurious_erase addr s ?h = Some (True, s')"
    "contents b s' = (contents b s)(?key := Some ?h)" using handle_truncate_id[of ?h] by auto
  have "stored b (put_shard c (shard_index c ?key) s') = (stored b c)(?key := contents b s' ?key)"
    by (rule stored_put[OF assms(1)]) (simp add: s'(2) s(2))
  then show ?thesis using s(1) s' by (simp add: cache_Insert_def Let_def)
qed

lemma cache_Insert_refines_map_witness:
  "\<exists>c c' h. Cache_new demo_cache_options = Some c \<and>
     cache_Insert 0 (\<lambda>_. 0) 0 c [1, 2, 3] (demo_handle (0, 0) 7 3) = Some (True, c', h) \<and>
     stored 2 c' = [HashKey c [1, 2, 3] \<mapsto> (demo_handle (0, 0) 7 3)\<lparr>hashed_key := HashKey c [1, 2, 3]\<rparr>]"
proof -
  obtain c where c: "Cache_new demo_cache_options = Some c" "shards_ok 2 0 c" "stored 2 c = Map.empty"
    "\<forall>s \<in> set (cs_shards c). 0 \<le> hit_decr_delta s \<and> pointer_room 2 s \<and> 0 < unat (occupancy_limit s)"
    "\<forall>s \<in> set (cs_shards c). has_room s 3 \<and> unat (occupancy_limit s) \<le> 2 ^ 2"
    by (rule demo_shards) blast
  have "total_charge (demo_handle (0, 0) 7 3) = 3" by (simp add: demo_handle_def)
  moreover have "\<forall>s \<in> set (cs_shards c). \<forall>j < 2 ^ 2. f_ref (meta (array s ! j)) = 0"
    using c(2) cc_arrD(5) by (fastforce simp: shards_ok_def shard_ok_def cc_ok_def slot_ok_def)
  moreover have "s \<in> set (cs_shards c)" if "shard_of c (shard_index c (HashKey c [1, 2, 3])) = Some s" for s
    by (rule routed[OF c(2), of "HashKey c [1, 2, 3]"]) (use that in simp)
  ultimately show ?thesis
    using cache_Insert_refines_map[where key = "[1, 2, 3]" and handle = "demo_handle (0, 0) 7 3" and addr = 0 and
        spurious_usage = 0 and spurious_erase = "\<lambda>_. 0", OF c(2)] c by simp
qed

end
