(* ===== verification/Clock_Bench.thy ===== *)
theory Clock_Bench
  imports Clock_Shards
begin

text \<open>
  The benchmark programs cache_rw_mixed_bench.cc and cache_rw_separate_bench.cc as clients of the sharded
  clock cache: one turn of each benchmark loop, run by one thread, and the caches they configure. What a turn
  draws at random (the key, whether it inserts), the addresses new returns and the spurious failures are
  arguments. The statistics are compiled out (enable_stat is false); timing, threads and output are not
  modelled.
\<close>

section \<open>The turns of the clock cache\<close>

text \<open>A key is passed as the eight bytes of an int64_t.\<close>

definition key_bytes :: "u64 \<Rightarrow> u8 list" where
  "key_bytes key = map (\<lambda>i. ucast (drop_bit (8 * i) key)) [0..<8]"

definition bench_handle :: "u64 \<Rightarrow> u64 \<Rightarrow> handle" where
  "bench_handle del v = \<lparr>h_value = v, del_cb = del, hashed_key = (0, 0), total_charge = 16\<rparr>"

text \<open>The do-while loop around Insert; retry counts the attempts left after this one.\<close>

fun insert_retry ::
  "nat \<Rightarrow> (nat \<Rightarrow> nat) \<Rightarrow> (nat \<Rightarrow> nat \<Rightarrow> nat) \<Rightarrow> u64 \<Rightarrow> clock_shards \<Rightarrow> u8 list \<Rightarrow> handle \<Rightarrow>
   (bool \<times> clock_shards \<times> handle) option" where
  "insert_retry retry su se addr c key handle =
     do { (succ, c, handle) \<leftarrow> cache_Insert (su retry) (se retry) addr c key handle;
          case retry of
            0 \<Rightarrow> Some (succ, c, handle)
          | Suc retry \<Rightarrow> if \<not> succ then insert_retry retry su se addr c key handle else Some (succ, c, handle) }"

definition clock_get_turn :: "clock_shards \<Rightarrow> u64 \<Rightarrow> (bool \<times> clock_shards) option" where
  "clock_get_turn c key =
     do { (handle, c) \<leftarrow> cache_Lookup c (key_bytes key);
          case handle of
            None \<Rightarrow> Some (False, c)
          | Some p \<Rightarrow> do { (_, c) \<leftarrow> cache_Release c p; Some (True, c) } }"

definition clock_insert_turn ::
  "(nat \<Rightarrow> nat) \<Rightarrow> (nat \<Rightarrow> nat \<Rightarrow> nat) \<Rightarrow> u64 \<Rightarrow> u64 \<Rightarrow> u64 \<Rightarrow> clock_shards \<Rightarrow> u64 \<Rightarrow> (bool \<times> clock_shards) option" where
  "clock_insert_turn su se addr del v c key =
     do { (succ, c, _) \<leftarrow> insert_retry 2 su se addr c (key_bytes key) (bench_handle del v); Some (succ, c) }"

text \<open>What a turn of the mixed benchmark draws; the last three fields are those of the hardware.\<close>

record clock_turn =
  ct_key :: u64
  ct_miss :: bool
  ct_value :: u64
  ct_su :: "nat \<Rightarrow> nat"
  ct_se :: "nat \<Rightarrow> nat \<Rightarrow> nat"
  ct_addr :: u64

definition clock_mixed_turn :: "u64 \<Rightarrow> clock_turn \<Rightarrow> clock_shards \<Rightarrow> clock_shards option" where
  "clock_mixed_turn del t c =
     do { (_, c) \<leftarrow> clock_get_turn c (ct_key t);
          if ct_miss t
          then do { (_, c) \<leftarrow> clock_insert_turn (ct_su t) (ct_se t) (ct_addr t) del (ct_value t) c (ct_key t); Some c }
          else Some c }"

fun clock_mixed_run :: "u64 \<Rightarrow> clock_turn list \<Rightarrow> clock_shards \<Rightarrow> clock_shards option" where
  "clock_mixed_run del [] c = Some c"
| "clock_mixed_run del (t # ts) c = do { c \<leftarrow> clock_mixed_turn del t c; clock_mixed_run del ts c }"

definition bench_capicity :: u64 where
  "bench_capicity = 3250000 * 16 * 2"

definition bench_clock_options :: "u64 \<Rightarrow> cache_options" where
  "bench_clock_options shard_num = \<lparr>co_capacity = bench_capicity, co_length = 8388608, co_value_size = 16,
     co_load_factor = dbl_065, co_hash_key_fn = DefaultHashKeyFn, co_hit_decr_delta_min = 1,
     co_shard_num = shard_num, co_hash_seed = -2\<rparr>"

section \<open>The turns keep the cache in order\<close>

text \<open>n bounds the references and k the clock pointers.\<close>

definition shards_ready :: "nat \<Rightarrow> nat \<Rightarrow> nat \<Rightarrow> clock_shards \<Rightarrow> bool" where
  "shards_ready b n k c \<longleftrightarrow> shards_ok b n c \<and>
     (\<forall>s \<in> set (cs_shards c). 0 \<le> hit_decr_delta s \<and> unat (clock_pointer s) \<le> k \<and> 0 < unat (occupancy_limit s))"

lemma shards_ready_mono: "shards_ready b n k c \<Longrightarrow> k \<le> k' \<Longrightarrow> shards_ready b n k' c"
  unfolding shards_ready_def by (meson le_trans)

lemma put_ready:
  assumes "shards_ready b n k c" "shard_ok b n (co_capacity (cs_options c) div co_shard_num (cs_options c)) s"
    "0 \<le> hit_decr_delta s" "unat (clock_pointer s) \<le> k" "0 < unat (occupancy_limit s)"
  shows "shards_ready b n k (put_shard c i s)"
  using assms put_shard_ok[of b n c s i] set_update_subset_insert[of "cs_shards c" "unat i" s]
  by (auto simp: shards_ready_def put_shard_def)

lemma ready_Insert:
  assumes "shards_ready b n k c" "n + 1 < 2 ^ 30" "unat (total_charge handle) + unat (co_capacity (cs_options c)) < 2 ^ 64"
    "k + 3 * 2 ^ b + 4 < 2 ^ 64"
  obtains ok c' where "cache_Insert su se addr c key handle = Some (ok, c', handle\<lparr>hashed_key := HashKey c key\<rparr>)"
    "shards_ready b n (k + 3 * 2 ^ b + 7) c'" "cs_options c' = cs_options c"
proof -
  have ready: "shards_ok b n c" "\<forall>s \<in> set (cs_shards c). 0 \<le> hit_decr_delta s \<and> pointer_room b s \<and> 0 < unat (occupancy_limit s)"
    using assms(1,4) by (auto simp: shards_ready_def pointer_room_def)
  obtain s res s' where S: "s \<in> set (cs_shards c)"
    "cache_Insert su se addr c key handle = Some (res, put_shard c (shard_index c (HashKey c key)) s', handle\<lparr>hashed_key := HashKey c key\<rparr>)"
    "shard_ok b n (co_capacity (cs_options c) div co_shard_num (cs_options c)) s'"
    "occupancy_limit s' = occupancy_limit s" "0 \<le> hit_decr_delta s'"
    "unat (clock_pointer s') \<le> unat (clock_pointer s) + 3 * 2 ^ b + 7"
    by (rule cache_Insert_spec[OF ready(1) assms(2,3) ready(2), of key su se addr])
  have "unat (clock_pointer s) \<le> k" "0 < unat (occupancy_limit s)" using assms(1) S(1) by (auto simp: shards_ready_def)
  then have r: "shards_ready b n (k + 3 * 2 ^ b + 7) (put_shard c (shard_index c (HashKey c key)) s')"
    by (intro put_ready shards_ready_mono[OF assms(1)]) (use S in simp_all)
  show thesis by (rule that[OF S(2) r]) (simp add: put_shard_def)
qed

lemma ready_retry:
  assumes "shards_ready b n k c" "n + 1 < 2 ^ 30" "unat (total_charge handle) + unat (co_capacity (cs_options c)) < 2 ^ 64"
    "k + (retry + 1) * (3 * 2 ^ b + 7) < 2 ^ 64"
  obtains ok c' h where "insert_retry retry su se addr c key handle = Some (ok, c', h)"
    "shards_ready b n (k + (retry + 1) * (3 * 2 ^ b + 7)) c'" "cs_options c' = cs_options c"
  using assms
proof (induction retry arbitrary: k c handle thesis)
  case 0
  have "k + 3 * 2 ^ b + 4 < 2 ^ 64" using 0(5) by simp
  from ready_Insert[OF 0(2,3,4) this, of "su 0" "se 0" addr key] obtain ok c' where
    "cache_Insert (su 0) (se 0) addr c key handle = Some (ok, c', handle\<lparr>hashed_key := HashKey c key\<rparr>)"
    "shards_ready b n (k + 3 * 2 ^ b + 7) c'" "cs_options c' = cs_options c" by blast
  then show ?case by (intro 0(1)[of ok c' "handle\<lparr>hashed_key := HashKey c key\<rparr>"]) (simp_all add: add.assoc)
next
  case (Suc retry)
  have kb: "k + 3 * 2 ^ b + 4 < 2 ^ 64" using Suc(6) by simp
  obtain ok c' where I: "cache_Insert (su (Suc retry)) (se (Suc retry)) addr c key handle =
      Some (ok, c', handle\<lparr>hashed_key := HashKey c key\<rparr>)"
    "shards_ready b n (k + 3 * 2 ^ b + 7) c'" "cs_options c' = cs_options c"
    by (rule ready_Insert[OF Suc(3,4,5) kb])
  have le: "k + 3 * 2 ^ b + 7 \<le> k + (Suc retry + 1) * (3 * 2 ^ b + 7)" by simp
  show ?case
  proof (cases ok)
    case True
    then show ?thesis using I shards_ready_mono[OF I(2) le]
      by (intro Suc(2)[of ok c' "handle\<lparr>hashed_key := HashKey c key\<rparr>"]) simp_all
  next
    case False
    have k': "k + 3 * 2 ^ b + 7 + (retry + 1) * (3 * 2 ^ b + 7) = k + (Suc retry + 1) * (3 * 2 ^ b + 7)" by simp
    show ?thesis
    proof (rule Suc(1)[OF _ I(2) Suc(4)])
      show "unat (total_charge (handle\<lparr>hashed_key := HashKey c key\<rparr>)) + unat (co_capacity (cs_options c')) < 2 ^ 64"
        using Suc(5) I(3) by simp
      show "k + 3 * 2 ^ b + 7 + (retry + 1) * (3 * 2 ^ b + 7) < 2 ^ 64" unfolding k' by (rule Suc(6))
      fix ok' d h
      assume "insert_retry retry su se addr c' key (handle\<lparr>hashed_key := HashKey c key\<rparr>) = Some (ok', d, h)"
        "shards_ready b n (k + 3 * 2 ^ b + 7 + (retry + 1) * (3 * 2 ^ b + 7)) d" "cs_options d = cs_options c'"
      then show thesis unfolding k' using I(1,3) False by (intro Suc(2)[of ok' d h]) simp_all
    qed
  qed
qed

lemma undisturbed_totals:
  assumes "length arr' = length arr" "\<And>j. j < length arr \<Longrightarrow> occupied (arr' ! j) = occupied (arr ! j) \<and>
     total_charge (arr' ! j) = total_charge (arr ! j)"
  shows "charges_nat arr' = charges_nat arr" "occ_nat arr' = occ_nat arr"
proof -
  show "charges_nat arr' = charges_nat arr"
    unfolding charges_nat_sum assms(1) by (rule sum.cong) (use assms(2) in \<open>simp_all add: Clock_Bounds.charge_of_def\<close>)
  have "{i. i < length arr' \<and> occupied (arr' ! i)} = {i. i < length arr \<and> occupied (arr ! i)}" using assms by auto
  then show "occ_nat arr' = occ_nat arr" by (simp only: occ_nat_card)
qed

lemma shard_ok_array:
  assumes "shard_ok b n per s" "cc_ok b m s'" "s' = s\<lparr>array := array s'\<rparr>"
    "\<And>j. j < 2 ^ b \<Longrightarrow> occupied (array s' ! j) = occupied (array s ! j) \<and>
      total_charge (array s' ! j) = total_charge (array s ! j)"
  shows "shard_ok b m per s'"
proof -
  obtain a where a: "s' = s\<lparr>array := a\<rparr>" using assms(3) by blast
  have len: "length (array s) = 2 ^ b" "length (array s') = 2 ^ b"
    using assms(1,2) cc_arrD(3) by (auto simp: shard_ok_def cc_ok_def)
  have "charges_nat (array s') = charges_nat (array s)" "occ_nat (array s') = occ_nat (array s)"
    by (rule undisturbed_totals; use assms(4) len in simp)+
  then show ?thesis using assms(1,2) a by (auto simp: shard_ok_def within_limits_iff)
qed

lemma Lookup_reader:
  assumes "cc_ok b n C" "n + 1 < 2 ^ 30"
  obtains C' where "Lookup C key = Some (entry_at b C key, C')" "cc_ok b (n + 1) C'" "C' = C\<lparr>array := array C'\<rparr>"
    "\<And>j. j < 2 ^ b \<Longrightarrow> payload (array C' ! j) = payload (array C ! j) \<and> occupied (array C' ! j) = occupied (array C ! j)"
    "\<And>j. entry_at b C key = Some j \<Longrightarrow> 0 < f_ref (meta (array C' ! j))" "\<And>x. contents b C' x = contents b C x"
proof -
  have arr: "cc_arr b n C" using assms(1) by (simp add: cc_ok_def)
  obtain C1 where L: "Lookup C key = Some (entry_at b C key, C1)" "C1 = C\<lparr>array := array C1\<rparr>"
    by (rule Lookup_spec[OF arr assms(2), of key]) blast
  obtain C2 where F: "Lookup C key = Some (entry_at b C key, C2)" "cc_ok b (n + 1) C2"
    "\<forall>j. entry_at b C key = Some j \<longrightarrow> payload (array C2 ! j) = payload (array C ! j) \<and>
        meta_fields (meta (array C2 ! j)) =
          (f_ref (meta (array C ! j)) + 1, min (f_hit (meta (array C ! j)) + 1) 2000, f_bit (meta (array C ! j)), 7)"
    "\<forall>j < 2 ^ b. entry_at b C key \<noteq> Some j \<longrightarrow> undisturbed (array C ! j) (array C2 ! j)"
    "\<forall>k. contents b C2 k = contents b C k"
    using Lookup_facts[OF assms, of key] by blast
  have e: "C1 = C2" using L(1) F(1) by simp
  have "payload (array C2 ! j) = payload (array C ! j) \<and> occupied (array C2 ! j) = occupied (array C ! j)" if "j < 2 ^ b" for j
  proof (cases "entry_at b C key = Some j")
    case True
    then show ?thesis using F(3) entry_at_Some(2)[OF True] by (simp add: occupied_def visible_for_def)
  next
    case False
    then have "undisturbed (array C ! j) (array C2 ! j)" using F(4) that by blast
    then show ?thesis using undisturbed_payload by (auto simp: undisturbed_def split: if_splits)
  qed
  then show thesis using F L(2) unfolding e by (intro that[of C2]) auto
qed

lemma cc_ok_mono: "cc_ok b n C \<Longrightarrow> n \<le> n' \<Longrightarrow> cc_ok b n' C"
  unfolding cc_ok_def cc_arr_def using arr_ok_mono by blast

lemma shards_ready_more:
  assumes "shards_ready b n k c" "n \<le> n'"
  shows "shards_ready b n' k c"
  using assms cc_ok_mono unfolding shards_ready_def shards_ok_def shard_ok_def by blast

text \<open>A lookup and the release of what it found.\<close>

lemma ready_get:
  assumes "shards_ready b n k c" "n + 1 < 2 ^ 30"
  obtains found c' where "clock_get_turn c key = Some (found, c')" "shards_ready b (n + 1) k c'"
    "cs_options c' = cs_options c" "\<And>x. stored b c' x = stored b c x" "found \<longleftrightarrow> stored b c (HashKey c (key_bytes key)) \<noteq> None"
proof -
  let ?k = "HashKey c (key_bytes key)"
  let ?i = "shard_index c ?k" and ?per = "co_capacity (cs_options c) div co_shard_num (cs_options c)"
  let ?r = "clock_route (length (cs_shards c)) ?k"
  have ok: "shards_ok b n c" and ready: "\<And>s. s \<in> set (cs_shards c) \<Longrightarrow> 0 \<le> hit_decr_delta s \<and> unat (clock_pointer s) \<le> k \<and> 0 < unat (occupancy_limit s)"
    using assms(1) by (simp_all add: shards_ready_def)
  obtain s where s: "shard_of c ?i = Some s" "s = cs_shards c ! ?r" "s \<in> set (cs_shards c)" "unat ?i = ?r"
    by (rule routed[OF ok])
  have so: "shard_ok b n ?per s" "cc_ok b n s" using ok s(3) by (simp_all add: shards_ok_def shard_ok_def)
  have lt: "?r < length (cs_shards c)" using ok clock_route.route_less by (simp add: shards_ok_def)
  have len: "length (array s) = 2 ^ b" using so(2) cc_arrD(3) by (auto simp: cc_ok_def)
  obtain s1 where L: "Lookup s ?k = Some (entry_at b s ?k, s1)" "cc_ok b (n + 1) s1" "s1 = s\<lparr>array := array s1\<rparr>"
    "\<And>j. j < 2 ^ b \<Longrightarrow> payload (array s1 ! j) = payload (array s ! j) \<and> occupied (array s1 ! j) = occupied (array s ! j)"
    "\<And>j. entry_at b s ?k = Some j \<Longrightarrow> 0 < f_ref (meta (array s1 ! j))" "\<And>x. contents b s1 x = contents b s x"
    by (rule Lookup_reader[OF so(2) assms(2), of ?k]) blast
  have found: "entry_at b s ?k \<noteq> None \<longleftrightarrow> stored b c ?k \<noteq> None"
    unfolding stored_def s(2)[symmetric] by (simp add: contents_def split: option.splits)
  have look: "cache_Lookup c (key_bytes key) = Some (map_option (Pair ?i) (entry_at b s ?k), put_shard c ?i s1)"
    by (simp add: cache_Lookup_def s(1) L(1) Let_def)
  have final: "shards_ready b (n + 1) k (put_shard c ?i s2) \<and> cs_options (put_shard c ?i s2) = cs_options c \<and>
      (\<forall>x. stored b (put_shard c ?i s2) x = stored b c x)"
    if "cc_ok b (n + 1) s2" "s2 = s\<lparr>array := array s2\<rparr>" "\<And>x. contents b s2 x = contents b s x"
      "\<And>j. j < 2 ^ b \<Longrightarrow> payload (array s2 ! j) = payload (array s ! j) \<and> occupied (array s2 ! j) = occupied (array s ! j)" for s2
  proof -
    have tc: "total_charge (array s2 ! j) = total_charge (array s ! j)" if "j < 2 ^ b" for j
      using that(1) \<open>\<And>j. j < 2 ^ b \<Longrightarrow> payload (array s2 ! j) = payload (array s ! j) \<and> occupied (array s2 ! j) = occupied (array s ! j)\<close>[of j]
      by (simp add: payload_def)
    have "shard_ok b (n + 1) ?per s2" by (rule shard_ok_array[OF so(1) that(1,2)]) (use tc that(4) in simp)
    moreover have "hit_decr_delta s2 = hit_decr_delta s" "clock_pointer s2 = clock_pointer s" "occupancy_limit s2 = occupancy_limit s"
      by (subst that(2), simp)+
    ultimately have "shards_ready b (n + 1) k (put_shard c ?i s2)"
      using ready[OF s(3)] by (intro put_ready shards_ready_more[OF assms(1)]) simp_all
    moreover have "stored b (put_shard c ?i s2) = (stored b c)(?k := contents b s2 ?k)"
      by (rule stored_put[OF ok]) (simp add: that(3) s(2)[symmetric])
    moreover have "contents b s2 ?k = stored b c ?k" by (simp add: that(3) stored_def s(2)[symmetric])
    ultimately show ?thesis by (simp add: put_shard_def)
  qed
  show thesis
  proof (cases "entry_at b s ?k")
    case None
    have "clock_get_turn c key = Some (False, put_shard c ?i s1)" using look None by (simp add: clock_get_turn_def)
    then show thesis using final[OF L(2,3,6,4)] found None by (intro that[of False "put_shard c ?i s1"]) (simp_all del: split_paired_All)
  next
    case (Some j)
    have j: "j < 2 ^ b" "visible_for ?k (array s ! j)" using entry_at_Some[OF Some] by simp_all
    obtain s2 where R: "Release s1 j = Some (True, s2)" "cc_ok b (n + 1) s2" "s2 = s1\<lparr>array := array s2\<rparr>"
      "\<And>l. l \<noteq> j \<Longrightarrow> array s2 ! l = array s1 ! l" "payload (array s2 ! j) = payload (array s1 ! j)"
      "f_st (meta (array s2 ! j)) = f_st (meta (array s1 ! j))" "\<And>x. contents b s2 x = contents b s1 x"
      by (rule Release_spec[OF L(2) j(1) L(5)[OF Some]]) simp
    let ?c1 = "put_shard c ?i s1"
    have sh: "cs_shards ?c1 ! ?r = s1" "length (cs_shards ?c1) = length (cs_shards c)" using lt s(4) by (simp_all add: put_shard_def)
    have o1: "shard_of ?c1 ?i = Some s1" using lt sh s(4) by (simp add: shard_of_def)
    have l1: "j < length (array s1)" using j(1) L(2) cc_arrD(3) by (auto simp: cc_ok_def)
    have o2: "\<exists>y. shard_of ?c1 (shard_index ?c1 x) = Some y" for x
    proof -
      have "shard_index ?c1 x = shard_index c x" using sh(2) by (simp add: shard_index_def)
      moreover have "unat (shard_index c x) = clock_route (length (cs_shards c)) x" by (rule routed[OF ok, of x])
      moreover have "clock_route (length (cs_shards c)) x < length (cs_shards c)"
        using ok clock_route.route_less by (simp add: shards_ok_def)
      ultimately show ?thesis using sh(2) by (simp add: shard_of_def)
    qed
    have "put_shard ?c1 ?i s2 = put_shard c ?i s2" by (simp add: put_shard_def)
    then have rel: "cache_Release ?c1 (?i, j) = Some (True, put_shard c ?i s2)"
      using o1 o2[of "GetHash (array s1 ! j)"] l1 R(1) by (auto simp: cache_Release_def)
    have turn: "clock_get_turn c key = Some (True, put_shard c ?i s2)"
      using look Some rel by (simp add: clock_get_turn_def)
    have e: "s2 = s\<lparr>array := array s2\<rparr>" by (subst R(3), subst L(3)) simp
    have p: "payload (array s2 ! l) = payload (array s ! l) \<and> occupied (array s2 ! l) = occupied (array s ! l)" if "l < 2 ^ b" for l
      using R(4)[of l] R(5,6) L(4)[OF that] by (cases "l = j") (auto simp: occupied_def)
    have ct: "contents b s2 x = contents b s x" for x by (simp add: R(7) L(6))
    show thesis using final[OF R(2) e ct p] found Some turn by (intro that[of True "put_shard c ?i s2"]) (simp_all del: split_paired_All)
  qed
qed

text \<open>A turn of the mixed benchmark.\<close>

lemma ready_mixed_turn:
  assumes "shards_ready b n k c" "n + 2 < 2 ^ 30" "16 + unat (co_capacity (cs_options c)) < 2 ^ 64"
    "k + 3 * (3 * 2 ^ b + 7) < 2 ^ 64"
  obtains c' where "clock_mixed_turn del t c = Some c'" "shards_ready b (n + 1) (k + 3 * (3 * 2 ^ b + 7)) c'"
    "cs_options c' = cs_options c"
proof -
  have n: "n + 1 < 2 ^ 30" using assms(2) by simp
  obtain found c1 where G: "clock_get_turn c (ct_key t) = Some (found, c1)" "shards_ready b (n + 1) k c1"
    "cs_options c1 = cs_options c" by (rule ready_get[OF assms(1) n]) blast
  show thesis
  proof (cases "ct_miss t")
    case False
    then show ?thesis using G shards_ready_mono[OF G(2), of "k + 3 * (3 * 2 ^ b + 7)"]
      by (intro that[of c1]) (simp_all add: clock_mixed_turn_def)
  next
    case True
    have ch: "unat (total_charge (bench_handle del (ct_value t))) + unat (co_capacity (cs_options c1)) < 2 ^ 64"
      using assms(3) G(3) by (simp add: bench_handle_def)
    have n1: "n + 1 + 1 < 2 ^ 30" and k1: "k + (2 + 1) * (3 * 2 ^ b + 7) < 2 ^ 64" using assms(2,4) by simp_all
    obtain ok c2 h where I: "insert_retry 2 (ct_su t) (ct_se t) (ct_addr t) c1 (key_bytes (ct_key t)) (bench_handle del (ct_value t)) = Some (ok, c2, h)"
      "shards_ready b (n + 1) (k + (2 + 1) * (3 * 2 ^ b + 7)) c2" "cs_options c2 = cs_options c1"
      by (rule ready_retry[OF G(2) n1 ch k1]) blast
    then show ?thesis using True G
      by (intro that[of c2]) (simp_all add: clock_mixed_turn_def clock_insert_turn_def del: insert_retry.simps)
  qed
qed

lemma ready_mixed_run:
  assumes "shards_ready b n k c" "n + length ts + 1 < 2 ^ 30" "16 + unat (co_capacity (cs_options c)) < 2 ^ 64"
    "k + length ts * (3 * (3 * 2 ^ b + 7)) < 2 ^ 64"
  shows "\<exists>c'. clock_mixed_run del ts c = Some c' \<and> cs_options c' = cs_options c \<and>
    shards_ready b (n + length ts) (k + length ts * (3 * (3 * 2 ^ b + 7))) c'"
  using assms
proof (induction ts arbitrary: n k c)
  case (Cons t ts)
  have a: "n + 2 < 2 ^ 30" "k + 3 * (3 * 2 ^ b + 7) < 2 ^ 64" using Cons(3,5) by simp_all
  obtain c1 where T: "clock_mixed_turn del t c = Some c1" "shards_ready b (n + 1) (k + 3 * (3 * 2 ^ b + 7)) c1"
    "cs_options c1 = cs_options c" by (rule ready_mixed_turn[OF Cons(2) a(1) Cons(4) a(2)])
  have e: "k + 3 * (3 * 2 ^ b + 7) + length ts * (3 * (3 * 2 ^ b + 7)) = k + length (t # ts) * (3 * (3 * 2 ^ b + 7))"
    "n + 1 + length ts = n + length (t # ts)" by simp_all
  have "\<exists>c'. clock_mixed_run del ts c1 = Some c' \<and> cs_options c' = cs_options c1 \<and>
      shards_ready b (n + 1 + length ts) (k + 3 * (3 * 2 ^ b + 7) + length ts * (3 * (3 * 2 ^ b + 7))) c'"
    by (rule Cons(1)[OF T(2)]) (use Cons(3-5) T(3) e in simp_all)
  then show ?case unfolding e using T by simp
qed simp

text \<open>The two configurations: 128 and 16 shards.\<close>

lemma Cache_new_pointer: "Cache_new options = Some c \<Longrightarrow> s \<in> set (cs_shards c) \<Longrightarrow> clock_pointer s = 0"
  by (auto simp: Cache_new_def ClockCache_new_def Let_def split: if_splits)

lemma bench_clock_new:
  assumes "shard_num = 128 \<and> b = 16 \<or> shard_num = 16 \<and> b = 19"
  obtains c where "Cache_new (bench_clock_options shard_num) = Some c" "cs_options c = bench_clock_options shard_num"
    "shards_ready b 0 0 c"
proof -
  let ?o = "bench_clock_options shard_num"
  have "co_shard_num ?o = of_nat (unat shard_num)" "0 < unat shard_num" "unat shard_num < 2 ^ 31"
    "co_length ?o div co_shard_num ?o = 2 ^ b" "b < 32" "dbl_wf (co_load_factor ?o)"
    "mantissa (co_load_factor ?o) \<le> 2 ^ point (co_load_factor ?o)"
    using assms by (auto simp: bench_clock_options_def dbl_065_def dbl_wf_def)
  from Cache_new_ok[OF this] obtain c where c: "Cache_new ?o = Some c" "cs_options c = ?o" "shards_ok b 0 c"
    "\<And>s. s \<in> set (cs_shards c) \<Longrightarrow> 0 \<le> hit_decr_delta s \<and> pointer_room b s \<and>
       unat (usage s) = 0 \<and> unat (occupancy s) = 0 \<and>
       unat (occupancy_limit s) = 2 ^ b * mantissa (co_load_factor ?o) div 2 ^ point (co_load_factor ?o)" by blast
  have lim: "0 < 2 ^ b * mantissa (co_load_factor ?o) div 2 ^ point (co_load_factor ?o)"
    using assms by (auto simp: bench_clock_options_def dbl_065_def)
  have "shards_ready b 0 0 c"
    using c(3,4) Cache_new_pointer[OF c(1)] lim by (simp add: shards_ready_def)
  then show thesis using c(1,2) by (intro that[of c])
qed

text \<open>C34: The mixed benchmark of the clock cache runs: on the cache it configures, a thread may run up to 2^28 turns, whatever
  keys it draws, whenever it inserts, however its compare-and-swaps fail; no index is out of range, no search fails to end, every
  retry loop ends, and in the end the total usage is the exact sum of the charges and within the capacity. The
  evictions of such a run move the pointer of ClockUpdate out of the counter it points to, which the language leaves undefined; it is
  not read again, and the theorem is about what follows when the program goes on.\<close>

theorem clock_mixed_bench_runs:
  assumes "length ts \<le> 2 ^ 28"
  shows "\<exists>c c'. Cache_new (bench_clock_options 128) = Some c \<and> clock_mixed_run del ts c = Some c' \<and>
    shards_ok 16 (length ts) c' \<and> unat (cache_GetUsage c') = total_charges c' \<and> total_charges c' \<le> 104000000"
proof -
  obtain c where c: "Cache_new (bench_clock_options 128) = Some c" "cs_options c = bench_clock_options 128" "shards_ready 16 0 0 c"
    by (rule bench_clock_new[of 128 16]) simp_all
  have cap: "unat (co_capacity (cs_options c)) = 104000000" by (simp add: c(2) bench_clock_options_def bench_capicity_def)
  have "0 + length ts * (3 * (3 * 2 ^ 16 + 7)) \<le> 2 ^ 28 * (3 * (3 * 2 ^ 16 + 7))" using assms by simp
  also have "\<dots> < 2 ^ 64" by simp
  finally have k: "0 + length ts * (3 * (3 * 2 ^ 16 + 7)) < 2 ^ 64" .
  have n: "0 + length ts + 1 < 2 ^ 30" using assms by simp
  have ch: "16 + unat (co_capacity (cs_options c)) < 2 ^ 64" unfolding cap by simp
  obtain c' where r: "clock_mixed_run del ts c = Some c'" "cs_options c' = cs_options c"
    "shards_ready 16 (0 + length ts) (0 + length ts * (3 * (3 * 2 ^ 16 + 7))) c'"
    using ready_mixed_run[OF c(3) n ch k, of del] by blast
  then have ok: "shards_ok 16 (length ts) c'" by (simp add: shards_ready_def)
  have "total_charges c' \<le> unat (co_capacity (cs_options c'))" by (rule usage_total(2)[OF ok])
  then show ?thesis using c(1) r(1) ok usage_total(1)[OF ok] cap r(2) by (intro exI[of _ c] exI[of _ c']) simp
qed

lemma clock_mixed_bench_runs_witness:
  "\<exists>c c'. Cache_new (bench_clock_options 128) = Some c \<and> shards_ok 16 1 c' \<and>
     clock_mixed_run 1 [\<lparr>ct_key = 5, ct_miss = True, ct_value = 8, ct_su = (\<lambda>_. 0), ct_se = (\<lambda>_ _. 0), ct_addr = 0\<rparr>] c = Some c'"
  using clock_mixed_bench_runs[of "[\<lparr>ct_key = 5, ct_miss = True, ct_value = 8, ct_su = (\<lambda>_. 0), ct_se = (\<lambda>_ _. 0), ct_addr = 0\<rparr>]" 1]
  by (auto simp del: clock_mixed_run.simps)

section \<open>The displacement statistics\<close>

text \<open>
  CalcClockCacheDisplacements: the sum, the maximum and the sum of the 10000 largest displacement
  counters, which the code divides by the number of slots and by 10000 and prints. A counter is read into an
  int32_t. top() of an empty priority queue is undefined.
\<close>

definition shard_displacements :: "clock_cache \<Rightarrow> int list option" where
  "shard_displacements s =
     (if unat (GetLength s) \<le> length (array s)
      then Some (map (\<lambda>i. sint (LoadRelaxed (displacements (array s ! i)))) [0..<unat (GetLength s)]) else None)"

fun all_displacements :: "clock_cache list \<Rightarrow> int list option" where
  "all_displacements [] = Some []"
| "all_displacements (s # ss) = do { ds \<leftarrow> shard_displacements s; es \<leftarrow> all_displacements ss; Some (ds @ es) }"

definition CalcClockCacheDisplacements :: "clock_shards \<Rightarrow> (int \<times> int \<times> int) option" where
  "CalcClockCacheDisplacements c =
     do { ds \<leftarrow> all_displacements (cs_shards c);
          let queue = rev (sort ds);
          if length queue < 10000 then None
          else Some (sum_list ds, fold max ds 0, sum_list (take 10000 queue)) }"

lemma shard_displacements_ok:
  assumes "cc_ok b n s" "b \<le> 30"
  shows "shard_displacements s = Some (map (\<lambda>i. int (crossings (path b) (2 ^ b) (table (array s)) i)) [0..<2 ^ b])"
proof -
  have arr: "cc_arr b n s" using assms(1) by (simp add: cc_ok_def)
  note D = cc_arrD[OF arr]
  have len: "unat (GetLength s) = 2 ^ b" using unat_length[OF D(4)] D(1) by (simp add: GetLength_def)
  have "sint (displacements (array s ! i)) = int (crossings (path b) (2 ^ b) (table (array s)) i)" if "i < 2 ^ b" for i
  proof -
    have "crossings (path b) (2 ^ b) (table (array s)) i \<le> 2 ^ b" by (rule oa.crossings_le)
    also have "(2 :: nat) ^ b \<le> 2 ^ 30" using assms(2) by (intro power_increasing) simp_all
    finally have le: "crossings (path b) (2 ^ b) (table (array s)) i \<le> 2 ^ 30" .
    then have u: "uint (displacements (array s ! i)) = int (crossings (path b) (2 ^ b) (table (array s)) i)"
      using arr_okD(5)[OF D(2) that] by (simp add: uint_nat unat_of_nat_eq)
    then have "uint (displacements (array s ! i)) < 2 ^ 31" using le by simp
    then show ?thesis using u by (simp add: sint_uint signed_take_bit_int_eq_self)
  qed
  then show ?thesis unfolding shard_displacements_def len using D(3) by (simp add: LoadRelaxed_def)
qed

text \<open>On a cache in order with enough slots the statistics are defined and the sum counts, for every
  entry, the slots its walk passes over.\<close>

lemma CalcClockCacheDisplacements_ok:
  assumes "shards_ok b n c" "b \<le> 30" "10000 \<le> length (cs_shards c) * 2 ^ b"
  shows "\<exists>m t. CalcClockCacheDisplacements c =
    Some (\<Sum>s \<leftarrow> cs_shards c. \<Sum>i < 2 ^ b. int (crossings (path b) (2 ^ b) (table (array s)) i), m, t)"
proof -
  have "\<exists>ds. all_displacements ss = Some ds \<and> length ds = length ss * 2 ^ b \<and>
      sum_list ds = (\<Sum>s \<leftarrow> ss. \<Sum>i < 2 ^ b. int (crossings (path b) (2 ^ b) (table (array s)) i))"
    if "\<forall>s \<in> set ss. cc_ok b n s" for ss
    using that
  proof (induction ss)
    case (Cons s ss)
    then show ?case using shard_displacements_ok[OF _ assms(2), of n s]
      by (auto simp: interv_sum_list_conv_sum_set_nat lessThan_atLeast0)
  qed simp
  moreover have "\<forall>s \<in> set (cs_shards c). cc_ok b n s" using assms(1) by (simp add: shards_ok_def shard_ok_def)
  ultimately show ?thesis using assms(3) by (fastforce simp: CalcClockCacheDisplacements_def Let_def)
qed
end
