(* ===== verification/HS_Node.thy ===== *)
theory HS_Node
  imports Marked_Ptr Atomics "HOL-Library.Monad_Syntax"
begin

text \<open>
  The nodes of the atomic skip list, hash_skip/node.h, each operation run by one thread. The atomic
  shared pointer handle_ is its content (the theory Shared_Ptr shows what its operations do
  when they interleave); a shared_ptr to a handle is an optional record of the value and what the virtual
  Charge() returns, an int32_t. The loops of compare-and-swaps may fail spuriously as often as
  their first argument says.
\<close>

record 'v hs_handle =
  hs_value :: 'v
  hs_charge :: "32 word"

definition Charge :: "'v hs_handle \<Rightarrow> int" where "Charge h = sint (hs_charge h)"

lemma Charge_range: "int32_range (Charge h)"
  using sint_greater_eq[of "hs_charge h"] sint_less[of "hs_charge h"] by (simp add: Charge_def int32_range_def)

lemma Charge_simp [simp]: "Charge \<lparr>hs_value = v, hs_charge = c\<rparr> = sint c"
  by (simp add: Charge_def)

record 'v hs_node =
  hn_key :: int
  hn_nexts :: "mvptr list"
  top_level :: nat
  hn_handle :: "'v hs_handle option"
  hit_count :: int

definition MAX_HIT_COUNT :: int where "MAX_HIT_COUNT = 1000"

definition Node_new :: "int \<Rightarrow> 'v hs_handle option \<Rightarrow> nat \<Rightarrow> 'v hs_node" where
  "Node_new key handle lvl =
     \<lparr>hn_key = key, hn_nexts = replicate (lvl + 1) 0, top_level = lvl, hn_handle = handle, hit_count = 200\<rparr>"

definition node_IsMarked :: "'v hs_node \<Rightarrow> bool" where
  "node_IsMarked n = IsMarked (LoadAcquire (hn_nexts n ! 0))"

function incr_hit_loop :: "nat \<Rightarrow> int \<Rightarrow> 'v hs_node \<Rightarrow> 'v hs_node" where
  "incr_hit_loop spurious old_count n =
     (if MAX_HIT_COUNT \<le> old_count then n
      else let new_count = old_count + 1
           in case CasWeakRelease (0 < spurious) (hit_count n) old_count new_count of
                (ok, old_count', v) \<Rightarrow>
                  if ok then n\<lparr>hit_count := v\<rparr>
                  else incr_hit_loop (spurious - 1) old_count' n)"
  by pat_completeness auto
termination
  by (relation "measure (\<lambda>(spurious, old_count, n). spurious + (if old_count = hit_count n then 0 else 1))")
    (auto simp: atomic_defs split: if_splits)

definition IncrHitCount :: "nat \<Rightarrow> 'v hs_node \<Rightarrow> 'v hs_node" where
  "IncrHitCount spurious n = incr_hit_loop spurious (LoadAcquire (hit_count n)) n"

function decr_hit_loop :: "nat \<Rightarrow> int \<Rightarrow> int \<Rightarrow> 'v hs_node \<Rightarrow> int \<times> 'v hs_node" where
  "decr_hit_loop spurious old_count delta n =
     (if old_count \<le> 0 then (0, n)
      else let new_count = (if old_count \<le> delta then 0 else old_count - delta)
           in case CasWeakRelease (0 < spurious) (hit_count n) old_count new_count of
                (ok, old_count', v) \<Rightarrow>
                  if ok then (new_count, n\<lparr>hit_count := v\<rparr>)
                  else decr_hit_loop (spurious - 1) old_count' delta n)"
  by pat_completeness auto
termination
  by (relation "measure (\<lambda>(spurious, old_count, delta, n). spurious + (if old_count = hit_count n then 0 else 1))")
    (auto simp: atomic_defs split: if_splits)

definition DecrHitCount :: "nat \<Rightarrow> int \<Rightarrow> 'v hs_node \<Rightarrow> int \<times> 'v hs_node" where
  "DecrHitCount spurious delta n = decr_hit_loop spurious (LoadAcquire (hit_count n)) delta n"

text \<open>handle_.Store and handle_.Load.\<close>

definition GetHandle :: "'v hs_node \<Rightarrow> 'v hs_handle option" where
  "GetHandle n = hn_handle n"

definition UpdateHandle :: "'v hs_handle option \<Rightarrow> 'v hs_node \<Rightarrow> 'v hs_handle option \<times> 'v hs_node" where
  "UpdateHandle h n = (hn_handle n, n\<lparr>hn_handle := h\<rparr>)"

function mark_deleted_loop :: "nat \<Rightarrow> mvptr \<Rightarrow> 'v hs_node \<Rightarrow> int \<times> 'v hs_node" where
  "mark_deleted_loop spurious expected n =
     (if IsMarked expected then (0, n)
      else let desired = PackPtr (GetRawPtr expected) (scast (GetVersion expected + 1)) True
           in case CasWeakAcqRel (0 < spurious) (hn_nexts n ! 0) expected desired of
                (ok, expected', w) \<Rightarrow>
                  if ok
                  then (case UpdateHandle None (n\<lparr>hn_nexts := (hn_nexts n)[0 := w]\<rparr>) of
                          (old_handle, n) \<Rightarrow> (case old_handle of None \<Rightarrow> 0 | Some h \<Rightarrow> Charge h, n))
                  else mark_deleted_loop (spurious - 1) expected' n)"
  by pat_completeness auto
termination
  by (relation "measure (\<lambda>(spurious, expected, n). spurious + (if expected = hn_nexts n ! 0 then 0 else 1))")
    (auto simp: atomic_defs split: if_splits)

definition MarkDeleted :: "nat \<Rightarrow> 'v hs_node \<Rightarrow> int \<times> 'v hs_node" where
  "MarkDeleted spurious n = mark_deleted_loop spurious (LoadAcquire (hn_nexts n ! 0)) n"

declare incr_hit_loop.simps [simp del] decr_hit_loop.simps [simp del] mark_deleted_loop.simps [simp del]

section \<open>What the operations do\<close>

lemma incr_hit_loop_now:
  "incr_hit_loop spurious (hit_count n) n = n\<lparr>hit_count := (if MAX_HIT_COUNT \<le> hit_count n then hit_count n else hit_count n + 1)\<rparr>"
proof (induction spurious)
  case 0
  then show ?case by (subst incr_hit_loop.simps) (simp add: atomic_defs Let_def)
next
  case (Suc k)
  then show ?case by (subst incr_hit_loop.simps) (simp add: atomic_defs Let_def)
qed

lemma IncrHitCount_eq:
  "IncrHitCount spurious n = n\<lparr>hit_count := (if MAX_HIT_COUNT \<le> hit_count n then hit_count n else hit_count n + 1)\<rparr>"
  by (simp add: IncrHitCount_def LoadAcquire_def LoadRelaxed_def incr_hit_loop_now)

lemma decr_hit_loop_now:
  "decr_hit_loop spurious (hit_count n) delta n =
     (if hit_count n \<le> 0 then (0, n)
      else let c = (if hit_count n \<le> delta then 0 else hit_count n - delta) in (c, n\<lparr>hit_count := c\<rparr>))"
proof (induction spurious)
  case 0
  then show ?case by (subst decr_hit_loop.simps) (simp add: atomic_defs Let_def)
next
  case (Suc k)
  then show ?case by (subst decr_hit_loop.simps) (simp add: atomic_defs Let_def)
qed

lemma DecrHitCount_eq:
  assumes "0 \<le> hit_count n" "0 \<le> delta"
  shows "DecrHitCount spurious delta n = (max 0 (hit_count n - delta), n\<lparr>hit_count := max 0 (hit_count n - delta)\<rparr>)"
  using assms by (auto simp: DecrHitCount_def LoadAcquire_def LoadRelaxed_def decr_hit_loop_now Let_def max_def)

definition deleted_word :: "mvptr \<Rightarrow> mvptr" where
  "deleted_word w = PackPtr (GetRawPtr w) (scast (GetVersion w + 1)) True"

lemma mark_deleted_loop_now:
  "mark_deleted_loop spurious (hn_nexts n ! 0) n =
     (if IsMarked (hn_nexts n ! 0) then (0, n)
      else (case hn_handle n of None \<Rightarrow> 0 | Some h \<Rightarrow> Charge h,
            n\<lparr>hn_nexts := (hn_nexts n)[0 := deleted_word (hn_nexts n ! 0)], hn_handle := None\<rparr>))"
proof (induction spurious)
  case 0
  then show ?case by (subst mark_deleted_loop.simps) (simp add: atomic_defs Let_def UpdateHandle_def deleted_word_def)
next
  case (Suc k)
  then show ?case by (subst mark_deleted_loop.simps) (simp add: atomic_defs Let_def UpdateHandle_def deleted_word_def)
qed

lemma MarkDeleted_eq:
  "MarkDeleted spurious n =
     (if node_IsMarked n then (0, n)
      else (case hn_handle n of None \<Rightarrow> 0 | Some h \<Rightarrow> Charge h,
            n\<lparr>hn_nexts := (hn_nexts n)[0 := deleted_word (hn_nexts n ! 0)], hn_handle := None\<rparr>))"
  by (simp add: MarkDeleted_def node_IsMarked_def LoadAcquire_def LoadRelaxed_def mark_deleted_loop_now)

lemma deleted_word_fields:
  "GetRawPtr (deleted_word w) = GetRawPtr w" "IsMarked (deleted_word w)"
  by (simp_all add: deleted_word_def PackPtr_fields)

section \<open>Properties\<close>

definition node_ok :: "'v hs_node \<Rightarrow> bool" where
  "node_ok n \<longleftrightarrow> length (hn_nexts n) = top_level n + 1 \<and> 0 \<le> hit_count n \<and> hit_count n \<le> MAX_HIT_COUNT"

text \<open>A node is deleted once: MarkDeleted sets the mark, takes the handle out and returns its charge the first
  time and 0 ever after, keeps every link of the node, and no operation takes the hit
  counter out of the range 0 to 1000.\<close>

theorem MarkDeleted_once:
  assumes "node_ok n" "\<not> node_IsMarked n"
  shows "case MarkDeleted spurious n of (charge, n') \<Rightarrow>
     charge = (case GetHandle n of None \<Rightarrow> 0 | Some h \<Rightarrow> Charge h) \<and> node_ok n' \<and> node_IsMarked n' \<and>
     GetHandle n' = None \<and> map GetRawPtr (hn_nexts n') = map GetRawPtr (hn_nexts n) \<and>
     MarkDeleted spurious' n' = (0, n') \<and>
     node_ok (IncrHitCount spurious' n') \<and> (0 \<le> delta \<longrightarrow> node_ok (snd (DecrHitCount spurious' delta n')))"
proof -
  let ?n = "n\<lparr>hn_nexts := (hn_nexts n)[0 := deleted_word (hn_nexts n ! 0)], hn_handle := None\<rparr>"
  have l: "0 < length (hn_nexts n)" using assms(1) by (simp add: node_ok_def)
  have m: "node_IsMarked ?n" using l by (simp add: node_IsMarked_def LoadAcquire_def LoadRelaxed_def deleted_word_fields)
  have r: "map GetRawPtr (hn_nexts ?n) = map GetRawPtr (hn_nexts n)"
    using map_update_same[OF l, of GetRawPtr "deleted_word (hn_nexts n ! 0)"] by (simp add: deleted_word_fields)
  have ok: "node_ok ?n" using assms(1) by (simp add: node_ok_def)
  then have "node_ok (IncrHitCount spurious' ?n)" "0 \<le> delta \<Longrightarrow> node_ok (snd (DecrHitCount spurious' delta ?n))"
    by (auto simp: node_ok_def IncrHitCount_eq DecrHitCount_eq MAX_HIT_COUNT_def)
  then show ?thesis using assms(2) m r ok by (simp add: MarkDeleted_eq GetHandle_def)
qed

lemma MarkDeleted_once_witness:
  "fst (MarkDeleted 2 (Node_new 5 (Some \<lparr>hs_value = (9 :: nat), hs_charge = 40\<rparr>) 1)) = 40"
proof -
  let ?n = "Node_new 5 (Some \<lparr>hs_value = (9 :: nat), hs_charge = 40\<rparr>) 1"
  have n: "node_ok ?n" by (simp add: Node_new_def node_ok_def MAX_HIT_COUNT_def)
  have u: "\<not> node_IsMarked ?n" by (simp add: Node_new_def node_IsMarked_def LoadAcquire_def LoadRelaxed_def IsMarked_bit)
  have g: "GetHandle ?n = Some \<lparr>hs_value = 9, hs_charge = 40\<rparr>" by (simp add: Node_new_def GetHandle_def)
  show ?thesis using MarkDeleted_once[OF n u, where spurious = 2] g by (simp add: case_prod_unfold)
qed

end
