(* ===== verification/Levels.thy ===== *)
theory Levels
  imports Prelude
begin

text \<open>
  Lists linked on several levels, shared by the two skip lists (util/skiplist.h and
  hash_skip/atomic_skiplist.h). A node of height h has a successor on the levels 0..h-1: the next
  node in the order of level 0 that is higher than the level. The section is about a successor function
  nxt and a height function ht alone; the two skip lists read them off their heaps.
\<close>

definition first_of :: "('p \<Rightarrow> nat) \<Rightarrow> 'p list \<Rightarrow> (nat \<Rightarrow> 'p option) \<Rightarrow> nat \<Rightarrow> 'p option" where
  "first_of ht ps e l = (case find (\<lambda>q. l < ht q) ps of None \<Rightarrow> e l | Some q \<Rightarrow> Some q)"

text \<open>linked_to: the nodes are linked in this order, and e l follows the last one of level l.\<close>

primrec linked_to :: "(nat \<Rightarrow> 'p \<Rightarrow> 'p option) \<Rightarrow> ('p \<Rightarrow> nat) \<Rightarrow> 'p list \<Rightarrow> (nat \<Rightarrow> 'p option) \<Rightarrow> bool" where
  "linked_to nxt ht [] e = True"
| "linked_to nxt ht (p # ps) e = ((\<forall>l < ht p. nxt l p = first_of ht ps e l) \<and> linked_to nxt ht ps e)"

definition pred_at :: "('p \<Rightarrow> nat) \<Rightarrow> nat \<Rightarrow> 'p list \<Rightarrow> 'p" where
  "pred_at ht l ps = last (filter (\<lambda>q. l < ht q) ps)"

lemma first_of_simps [simp]:
  "first_of ht [] e = e"
  "first_of ht (p # ps) e l = (if l < ht p then Some p else first_of ht ps e l)"
  by (simp_all add: first_of_def fun_eq_iff)

lemma first_of_append: "first_of ht (ps @ qs) e = first_of ht ps (first_of ht qs e)"
  by (rule ext) (induction ps, simp_all)

lemma first_of_cases:
  "first_of ht ps e l = e l \<and> (\<forall>q \<in> set ps. \<not> l < ht q) \<or>
   (\<exists>q \<in> set ps. l < ht q \<and> first_of ht ps e l = Some q)"
  by (induction ps) auto

lemma first_of_cong:
  assumes "\<And>q. q \<in> set ps \<Longrightarrow> ht' q = ht q"
  shows "first_of ht' ps e l = first_of ht ps e l"
  using assms by (induction ps) auto

lemma linked_to_append: "linked_to nxt ht (ps @ qs) e \<longleftrightarrow> linked_to nxt ht ps (first_of ht qs e) \<and> linked_to nxt ht qs e"
  by (induction ps) (auto simp: first_of_append)

lemma linked_to_cong:
  assumes "\<And>p. p \<in> set ps \<Longrightarrow> ht' p = ht p" "\<And>l p. p \<in> set ps \<Longrightarrow> l < ht p \<Longrightarrow> nxt' l p = nxt l p"
  shows "linked_to nxt' ht' ps e = linked_to nxt ht ps e"
  using assms
proof (induction ps)
  case (Cons p ps)
  have "first_of ht' ps e l = first_of ht ps e l" for l by (rule first_of_cong) (simp add: Cons.prems)
  then show ?case using Cons by auto
qed simp

lemma pred_at_mem:
  assumes "q \<in> set ps" "l < ht q"
  shows "pred_at ht l ps \<in> set ps \<and> l < ht (pred_at ht l ps)"
proof -
  have "filter (\<lambda>q. l < ht q) ps \<noteq> []" using assms by (auto simp: filter_empty_conv)
  then have "pred_at ht l ps \<in> set (filter (\<lambda>q. l < ht q) ps)" unfolding pred_at_def by (rule last_in_set)
  then show ?thesis by simp
qed

lemma pred_at_Cons:
  "pred_at ht l (p # ps) = (if \<exists>q \<in> set ps. l < ht q then pred_at ht l ps else if l < ht p then p else pred_at ht l ps)"
  by (auto simp: pred_at_def filter_empty_conv)

lemma pred_at_cong: "(\<And>q. q \<in> set ps \<Longrightarrow> ht' q = ht q) \<Longrightarrow> pred_at ht' l ps = pred_at ht l ps"
  unfolding pred_at_def by (metis (mono_tags, lifting) filter_cong)

text \<open>The successor of the last node of a level.\<close>

lemma pred_at_next:
  assumes "linked_to nxt ht ps e" "q \<in> set ps" "l < ht q"
  shows "nxt l (pred_at ht l ps) = e l"
  using assms
proof (induction ps arbitrary: q)
  case (Cons p ps)
  show ?case
  proof (cases "\<exists>q \<in> set ps. l < ht q")
    case True
    then show ?thesis using Cons by (auto simp: pred_at_Cons)
  next
    case False
    then have "l < ht p" using Cons.prems by auto
    moreover have "first_of ht ps e l = e l" using first_of_cases[of ht ps e l] False by auto
    ultimately show ?thesis using Cons.prems False by (simp add: pred_at_Cons)
  qed
qed simp

text \<open>Redirecting the last node of some levels changes what follows there.\<close>

lemma linked_to_redirect:
  assumes "linked_to nxt ht ps e" "distinct ps"
    "\<And>l p. p \<in> set ps \<Longrightarrow> l < ht p \<Longrightarrow> nxt' l p = (if L l \<and> p = pred_at ht l ps then e' l else nxt l p)"
    "\<And>l. \<not> L l \<Longrightarrow> e' l = e l"
  shows "linked_to nxt' ht ps e'"
  using assms(1-3)
proof (induction ps)
  case (Cons p ps)
  have p: "nxt' l p = first_of ht ps e' l" if "l < ht p" for l
  proof (cases "\<exists>q \<in> set ps. l < ht q")
    case True
    then obtain q where q: "q \<in> set ps" "l < ht q" by blast
    have "pred_at ht l (p # ps) \<noteq> p"
      using pred_at_mem[of q ps l ht] q Cons.prems(2) True by (auto simp: pred_at_Cons)
    then have "nxt' l p = first_of ht ps e l" using Cons.prems(1,3) that by simp
    moreover have "find (\<lambda>q. l < ht q) ps \<noteq> None" using q by (auto simp: find_None_iff)
    ultimately show ?thesis by (auto simp: first_of_def)
  next
    case False
    then have "pred_at ht l (p # ps) = p" using that by (simp add: pred_at_Cons)
    moreover have "first_of ht ps e l = e l" "first_of ht ps e' l = e' l"
      using first_of_cases[of ht ps e l] first_of_cases[of ht ps e' l] False by auto
    ultimately show ?thesis using Cons.prems(1,3) that assms(4)[of l] by (cases "L l") simp_all
  qed
  have "nxt' l r = (if L l \<and> r = pred_at ht l ps then e' l else nxt l r)" if "r \<in> set ps" "l < ht r" for l r
  proof -
    have "pred_at ht l (p # ps) = pred_at ht l ps" using that by (auto simp: pred_at_Cons)
    then show ?thesis using Cons.prems(3)[of r l] that by simp
  qed
  then have "linked_to nxt' ht ps e'" using Cons by simp
  then show ?case using p by simp
qed simp

text \<open>A walk along a level that passes the nodes before a key ends at the last of them.\<close>

lemma level_walk:
  assumes "linked_to nxt ht ps e" "p \<in> set ps" "l < ht p"
    "\<And>q. q \<in> set ps \<Longrightarrow> l < ht q \<Longrightarrow> adv q = (case nxt l q of None \<Rightarrow> Some q | Some r \<Rightarrow> if before r then adv r else Some q)"
    "\<And>q. q \<in> set (tl ps) \<Longrightarrow> before q" "\<And>q. e l = Some q \<Longrightarrow> \<not> before q"
  shows "adv p = Some (pred_at ht l ps)"
  using assms(1-5)
proof (induction ps arbitrary: p)
  case (Cons a ps)
  have IH: "adv q = Some (pred_at ht l (a # ps))" if "q \<in> set ps" "l < ht q" for q
  proof -
    have "adv q = Some (pred_at ht l ps)"
      by (rule Cons.IH) (use Cons.prems that in \<open>auto dest: list.set_sel(2)[rotated]\<close>)
    then show ?thesis using that by (auto simp: pred_at_Cons)
  qed
  show ?case
  proof (cases "p \<in> set ps")
    case True
    then show ?thesis using IH Cons.prems(3) by blast
  next
    case False
    then have p: "p = a" using Cons.prems(2) by simp
    have n: "nxt l a = first_of ht ps e l" using Cons.prems(1,3) p by simp
    have A: "adv a = (case nxt l a of None \<Rightarrow> Some a | Some r \<Rightarrow> if before r then adv r else Some a)"
      using Cons.prems(3,4) p by simp
    consider (stop) "first_of ht ps e l = e l" "\<forall>q \<in> set ps. \<not> l < ht q"
      | (go) q where "q \<in> set ps" "l < ht q" "first_of ht ps e l = Some q"
      using first_of_cases[of ht ps e l] by blast
    then show ?thesis
    proof cases
      case stop
      then have "adv a = Some a" using A n assms(6) by (auto split: option.splits)
      moreover have "pred_at ht l (a # ps) = a" using stop(2) Cons.prems(3) p by (auto simp: pred_at_Cons)
      ultimately show ?thesis using p by simp
    next
      case go
      then have "adv a = adv q" using A n Cons.prems(5)[of q] by simp
      then show ?thesis using IH[OF go(1,2)] p by simp
    qed
  qed
qed simp

section \<open>Sorted lists of entries as maps\<close>

text \<open>A sorted list splits at a key.\<close>

lemma key_split:
  fixes f :: "'p \<Rightarrow> 'k :: linorder"
  assumes "sorted_wrt (<) (map f xs)"
  obtains ys zs where "xs = ys @ zs" "\<forall>y \<in> set ys. f y < k" "\<forall>z \<in> set zs. k \<le> f z"
proof
  show "xs = takeWhile (\<lambda>x. f x < k) xs @ dropWhile (\<lambda>x. f x < k) xs" by simp
  show "\<forall>y \<in> set (takeWhile (\<lambda>x. f x < k) xs). f y < k" by (auto dest: set_takeWhileD)
  show "\<forall>z \<in> set (dropWhile (\<lambda>x. f x < k) xs). k \<le> f z" using assms
  proof (induction xs)
    case (Cons a xs)
    then show ?case by (cases "f a < k") (auto intro: less_imp_le)
  qed simp
qed

lemma map_of_split:
  assumes "\<forall>y \<in> set ys. fst (f y) < (key :: 'k :: linorder)" "\<forall>z \<in> set zs. key \<le> fst (f z)"
    "sorted_wrt (<) (map (fst \<circ> f) zs)"
  shows "map_of (map f (ys @ zs)) key = (case zs of [] \<Rightarrow> None | z # _ \<Rightarrow> if fst (f z) = key then Some (snd (f z)) else None)"
proof -
  have "map_of (map f ys) key = None" using assms(1) by (force simp: map_of_eq_None_iff)
  then have "map_of (map f (ys @ zs)) key = map_of (map f zs) key" by (simp add: map_add_def)
  also have "\<dots> = (case zs of [] \<Rightarrow> None | z # _ \<Rightarrow> if fst (f z) = key then Some (snd (f z)) else None)"
  proof (cases zs)
    case (Cons z zs')
    have "map_of (map f zs') key = None" if "fst (f z) \<noteq> key"
      using assms(2,3) Cons that by (force simp: map_of_eq_None_iff)
    then show ?thesis using Cons by (cases "f z") auto
  qed simp
  finally show ?thesis .
qed

lemma map_of_put:
  assumes "\<forall>y \<in> set ys. fst (e y) \<noteq> k"
  shows "map_of (map e ys @ (k, v) # es) = (map_of (map e ys @ es))(k \<mapsto> v)"
proof -
  have "map_of (map e ys) k = None" using assms by (auto simp: map_of_eq_None_iff)
  then have "k \<notin> dom (map_of (map e ys))" by (simp add: domIff)
  then show ?thesis by (simp add: map_add_upd_left)
qed

lemma map_of_drop:
  assumes "\<forall>y \<in> set ys. fst (e y) \<noteq> k" "\<forall>z \<in> set zs. fst (e z) \<noteq> k" "fst (e q) = k"
  shows "map_of (map e (ys @ zs)) = (map_of (map e (ys @ q # zs)))(k := None)"
proof -
  obtain v where q: "e q = (k, v)" using assms(3) by (cases "e q") auto
  have "map_of (map e (ys @ zs)) k = None" using assms(1,2) by (auto simp: map_of_eq_None_iff)
  then have "(map_of (map e (ys @ zs)))(k \<mapsto> v, k := None) = map_of (map e (ys @ zs))" by (simp only: fun_upd_upd) (simp only: fun_upd_idem)
  then show ?thesis using map_of_put[OF assms(1), of v "map e zs"] by (simp add: q)
qed

end
