(* ===== verification/HS_Skiplist.thy ===== *)
theory HS_Skiplist
  imports HS_Node Levels
begin

text \<open>
  The atomic skip list of hash_skip/atomic_skiplist.h, its operations run one after the other. Nodes
  live in a heap, a map from addresses to nodes; a link is the packed word of Marked_Ptr. None is
  undefined behaviour (a null or dangling pointer, an index outside nexts) or a loop that does not end.
  The addresses of new nodes, the random coins and the spurious failures of weak compare-and-swaps are
  arguments; the retry loop of Insert takes those of its i-th turn at i.
\<close>

section \<open>The operations\<close>

type_synonym 'v hheap = "u64 \<Rightarrow> 'v hs_node option"

record 'v askip =
  as_heap :: "'v hheap"
  as_head :: u64
  as_tail :: u64
  node_num :: int
  marked_deleted_num :: int

definition hs_max_level :: nat where "hs_max_level = 15"
definition INT64_MIN :: int where "INT64_MIN = - (2 ^ 63)"
definition INT64_MAX :: int where "INT64_MAX = 2 ^ 63 - 1"

definition AtomicSkipList_new :: "u64 \<Rightarrow> u64 \<Rightarrow> 'v askip" where
  "AtomicSkipList_new a b =
     \<lparr>as_heap = Map.empty(a := Some ((Node_new INT64_MIN None hs_max_level)\<lparr>hn_nexts := replicate (hs_max_level + 1) b\<rparr>),
        b := Some (Node_new INT64_MAX None hs_max_level)),
      as_head = a, as_tail = b, node_num = 0, marked_deleted_num = 0\<rparr>"

definition next_word :: "'v hheap \<Rightarrow> nat \<Rightarrow> u64 \<Rightarrow> mvptr option" where
  "next_word h l p = do { n \<leftarrow> h p; if l < length (hn_nexts n) then Some (LoadAcquire (hn_nexts n ! l)) else None }"

definition set_word :: "'v hheap \<Rightarrow> nat \<Rightarrow> u64 \<Rightarrow> mvptr \<Rightarrow> 'v hheap option" where
  "set_word h l p w =
     do { n \<leftarrow> h p;
          if l < length (hn_nexts n) then Some (h(p := Some (n\<lparr>hn_nexts := (hn_nexts n)[l := w]\<rparr>))) else None }"

text \<open>One level of Find: the node before the key and its word.\<close>

partial_function (option) find_level :: "'v hheap \<Rightarrow> int \<Rightarrow> nat \<Rightarrow> u64 \<Rightarrow> (u64 \<times> mvptr) option" where
  [code]: "find_level h key l pred =
     do { w \<leftarrow> next_word h l pred;
          m \<leftarrow> h (GetRawPtr w);
          if hn_key m < key then find_level h key l (GetRawPtr w) else Some (pred, w) }"

fun find_levels :: "'v hheap \<Rightarrow> int \<Rightarrow> nat \<Rightarrow> u64 \<Rightarrow> (bool \<times> u64 list \<times> mvptr list) option" where
  "find_levels h key 0 pred = Some (False, [], [])"
| "find_levels h key (Suc l) pred =
     do { (pred, w) \<leftarrow> find_level h key l pred;
          m \<leftarrow> h (GetRawPtr w);
          (found, preds, succs) \<leftarrow> find_levels h key l pred;
          Some (hn_key m = key \<or> found, preds @ [pred], succs @ [w]) }"

definition Find :: "'v askip \<Rightarrow> 'v hheap \<Rightarrow> int \<Rightarrow> (bool \<times> u64 list \<times> mvptr list) option" where
  "Find sl h key = find_levels h key (hs_max_level + 1) (as_head sl)"

text \<open>Node* Get(int64_t key).\<close>

definition Get_node :: "'v askip \<Rightarrow> int \<Rightarrow> u64 option option" where
  "Get_node sl key =
     do { (found, preds, succs) \<leftarrow> Find sl (as_heap sl) key;
          if \<not> found then Some None
          else do { n \<leftarrow> as_heap sl (GetRawPtr (succs ! 0));
                    if node_IsMarked n then Some None else Some (Some (GetRawPtr (succs ! 0))) } }"

text \<open>bool Get(int64_t key, std::shared_ptr<Handle>* handle): None is the result false.\<close>

definition Get :: "nat \<Rightarrow> 'v askip \<Rightarrow> int \<Rightarrow> ('v hs_handle option \<times> 'v askip) option" where
  "Get spurious sl key =
     do { node \<leftarrow> Get_node sl key;
          case node of
            None \<Rightarrow> Some (None, sl)
          | Some p \<Rightarrow>
              do { n \<leftarrow> as_heap sl p;
                   Some (GetHandle n, sl\<lparr>as_heap := (as_heap sl)(p := Some (IncrHitCount spurious n))\<rparr>) } }"

function hs_random_level :: "(nat \<Rightarrow> bool) \<Rightarrow> nat \<Rightarrow> nat" where
  "hs_random_level coins level =
     (if coins level \<and> level < hs_max_level then hs_random_level coins (level + 1) else level)"
  by pat_completeness auto
termination by (relation "measure (\<lambda>(_, level). hs_max_level - level)") auto

declare hs_random_level.simps [simp del]

definition RandomLevel :: "(nat \<Rightarrow> bool) \<Rightarrow> nat" where
  "RandomLevel coins = hs_random_level coins 0"

definition LinkLevel :: "'v hheap \<Rightarrow> u64 \<Rightarrow> mvptr \<Rightarrow> u64 \<Rightarrow> nat \<Rightarrow> bool \<Rightarrow> bool \<Rightarrow> (bool \<times> 'v hheap) option" where
  "LinkLevel h pred expected new_node level strong spurious =
     do { w \<leftarrow> next_word h level pred;
          let desired = PackPtr new_node (scast (GetVersion expected + 1)) False;
          let (ok, _, w) = (if strong then CasStrongAcqRel w expected desired else CasWeakAcqRel spurious w expected desired);
          h \<leftarrow> set_word h level pred w;
          Some (ok, h) }"

text \<open>The while loop that links one level above 0, and the loop over these levels.\<close>

partial_function (option) link_level_loop ::
  "'v askip \<Rightarrow> nat \<Rightarrow> 'v hheap \<Rightarrow> int \<Rightarrow> u64 \<Rightarrow> nat \<Rightarrow> u64 list \<Rightarrow> mvptr list \<Rightarrow> ('v hheap \<times> u64 list \<times> mvptr list) option" where
  [code]: "link_level_loop sl spurious h key a level preds succs =
     do { (ok, h) \<leftarrow> LinkLevel h (preds ! level) (succs ! level) a level False (0 < spurious);
          if ok then Some (h, preds, succs)
          else do { (_, preds, succs) \<leftarrow> Find sl h key;
                    link_level_loop sl (spurious - 1) h key a level preds succs } }"

fun link_upper ::
  "'v askip \<Rightarrow> (nat \<Rightarrow> nat) \<Rightarrow> 'v hheap \<Rightarrow> int \<Rightarrow> u64 \<Rightarrow> u64 list \<Rightarrow> mvptr list \<Rightarrow> nat list \<Rightarrow> 'v hheap option" where
  "link_upper sl spurious h key a preds succs [] = Some h"
| "link_upper sl spurious h key a preds succs (level # levels) =
     do { (h, preds, succs) \<leftarrow> link_level_loop sl (spurious level) h key a level preds succs;
          link_upper sl spurious h key a preds succs levels }"

text \<open>
  The node Insert allocates, with its links set. The handle is moved into it: a second turn of the loop
  has only a null pointer.
\<close>

definition new_node :: "int \<Rightarrow> 'v hs_handle option \<Rightarrow> nat \<Rightarrow> mvptr list \<Rightarrow> 'v hs_node" where
  "new_node key handle lvl succs =
     (Node_new key handle lvl)\<lparr>hn_nexts := map (\<lambda>l. PackPtr (GetRawPtr (succs ! l)) 0 False) [0..<lvl + 1]\<rparr>"

partial_function (option) insert_loop ::
  "(nat \<Rightarrow> nat \<Rightarrow> bool) \<Rightarrow> (nat \<Rightarrow> u64) \<Rightarrow> (nat \<Rightarrow> nat) \<Rightarrow> nat \<Rightarrow> 'v askip \<Rightarrow> int \<Rightarrow> 'v hs_handle option \<Rightarrow>
   ('v hs_handle option \<times> 'v askip) option" where
  [code]: "insert_loop coins alloc spurious i sl key handle =
     do { (found, preds, succs) \<leftarrow> Find sl (as_heap sl) key;
          if found
          then do { let p = GetRawPtr (succs ! 0);
                    n \<leftarrow> as_heap sl p;
                    let (old, n) = UpdateHandle handle n;
                    Some (old, sl\<lparr>as_heap := (as_heap sl)(p := Some n)\<rparr>) }
          else do { let lvl = RandomLevel (coins i);
                    (ok, h) \<leftarrow> LinkLevel ((as_heap sl)(alloc i := Some (new_node key handle lvl succs)))
                                 (preds ! 0) (succs ! 0) (alloc i) 0 True False;
                    if \<not> ok then insert_loop coins alloc spurious (i + 1) (sl\<lparr>as_heap := h(alloc i := None)\<rparr>) key None
                    else do { h \<leftarrow> link_upper sl spurious h key (alloc i) preds succs [1..<lvl + 1];
                              Some (None, sl\<lparr>as_heap := h, node_num := snd (FetchAddRelaxed (node_num sl) 1)\<rparr>) } } }"

definition Insert ::
  "(nat \<Rightarrow> nat \<Rightarrow> bool) \<Rightarrow> (nat \<Rightarrow> u64) \<Rightarrow> (nat \<Rightarrow> nat) \<Rightarrow> 'v askip \<Rightarrow> int \<Rightarrow> 'v hs_handle option \<Rightarrow>
   ('v hs_handle option \<times> 'v askip) option" where
  "Insert coins alloc spurious sl key handle =
     (if handle = None then Some (None, sl) else insert_loop coins alloc spurious 0 sl key handle)"

definition list_MarkDeleted :: "nat \<Rightarrow> 'v askip \<Rightarrow> u64 \<Rightarrow> (int \<times> 'v askip) option" where
  "list_MarkDeleted spurious sl p =
     do { n \<leftarrow> as_heap sl p;
          let (charge, n) = MarkDeleted spurious n;
          let sl = sl\<lparr>as_heap := (as_heap sl)(p := Some n)\<rparr>;
          Some (charge, if 0 < charge then sl\<lparr>marked_deleted_num := snd (FetchAddRelaxed (marked_deleted_num sl) 1)\<rparr> else sl) }"

text \<open>IterateLevel: fn is called on the nodes of a level that are not marked, with the state s the list is part of.\<close>

partial_function (option) iterate_from ::
  "('s \<Rightarrow> 'v askip) \<Rightarrow> (u64 \<Rightarrow> 's \<Rightarrow> (bool \<times> 's) option) \<Rightarrow> nat \<Rightarrow> u64 \<Rightarrow> 's \<Rightarrow> 's option" where
  [code]: "iterate_from list_of fn l pred s =
     do { w \<leftarrow> next_word (as_heap (list_of s)) l pred;
          let curr = GetRawPtr w;
          n \<leftarrow> as_heap (list_of s) curr;
          if node_IsMarked n then iterate_from list_of fn l curr s
          else if curr = as_tail (list_of s) then Some s
          else do { (go, s) \<leftarrow> fn curr s;
                    if go then iterate_from list_of fn l curr s else Some s } }"

definition IterateLevel :: "('s \<Rightarrow> 'v askip) \<Rightarrow> (u64 \<Rightarrow> 's \<Rightarrow> (bool \<times> 's) option) \<Rightarrow> nat \<Rightarrow> 's \<Rightarrow> 's option" where
  "IterateLevel list_of fn l s = iterate_from list_of fn l (as_head (list_of s)) s"

text \<open>The destructor.\<close>

partial_function (option) destroy_from :: "u64 \<Rightarrow> 'v hheap \<Rightarrow> u64 \<Rightarrow> 'v hheap option" where
  [code]: "destroy_from tail h pred =
     do { w \<leftarrow> next_word h 0 pred;
          let curr = GetRawPtr w;
          let h = h(pred := None);
          if curr = tail
          then (if h curr = None then None else Some (h(curr := None)))
          else destroy_from tail h curr }"

definition AtomicSkipList_destroy :: "'v askip \<Rightarrow> 'v hheap option" where
  "AtomicSkipList_destroy sl = destroy_from (as_tail sl) (as_heap sl) (as_head sl)"

section \<open>Heaps as linked levels\<close>

definition hlen :: "'v hheap \<Rightarrow> u64 \<Rightarrow> nat" where
  "hlen h p = (case h p of None \<Rightarrow> 0 | Some n \<Rightarrow> length (hn_nexts n))"

definition word_at :: "'v hheap \<Rightarrow> nat \<Rightarrow> u64 \<Rightarrow> mvptr" where
  "word_at h l p = (case h p of None \<Rightarrow> 0 | Some n \<Rightarrow> hn_nexts n ! l)"

definition hkey :: "'v hheap \<Rightarrow> u64 \<Rightarrow> int" where
  "hkey h p = (case h p of None \<Rightarrow> 0 | Some n \<Rightarrow> hn_key n)"

definition hnxt :: "'v hheap \<Rightarrow> nat \<Rightarrow> u64 \<Rightarrow> u64 option" where
  "hnxt h l p = (let r = GetRawPtr (word_at h l p) in if r = 0 then None else Some r)"

lemma next_word_eq: "l < hlen h p \<Longrightarrow> next_word h l p = Some (word_at h l p)"
  by (auto simp: next_word_def hlen_def word_at_def LoadAcquire_def LoadRelaxed_def split: option.splits)

lemma hlen_dom: "l < hlen h p \<Longrightarrow> h p \<noteq> None"
  by (auto simp: hlen_def split: option.splits)

text \<open>Two heaps that differ in words alone.\<close>

definition frame_node :: "'v hs_node \<Rightarrow> 'v hs_node \<Rightarrow> bool" where
  "frame_node n n' \<longleftrightarrow> n'\<lparr>hn_nexts := []\<rparr> = n\<lparr>hn_nexts := []\<rparr> \<and> length (hn_nexts n') = length (hn_nexts n)"

lemma frame_node_refl: "frame_node n n"
  by (simp add: frame_node_def)

lemma frame_node_trans: "frame_node n n' \<Longrightarrow> frame_node n' n'' \<Longrightarrow> frame_node n n''"
  by (simp add: frame_node_def)

definition same_frame :: "'v hheap \<Rightarrow> 'v hheap \<Rightarrow> bool" where
  "same_frame h h' \<longleftrightarrow> (\<forall>p. rel_option frame_node (h p) (h' p))"

lemma same_frame_refl: "same_frame h h"
  by (simp add: same_frame_def option.rel_refl frame_node_refl)

lemma same_frame_trans: "same_frame h h' \<Longrightarrow> same_frame h' h'' \<Longrightarrow> same_frame h h''"
  unfolding same_frame_def by (metis (mono_tags, lifting) frame_node_trans option.rel_sel)

lemma frame_node_key: "frame_node n n' \<Longrightarrow> hn_key n' = hn_key n"
proof -
  assume "frame_node n n'"
  then have "hn_key (n'\<lparr>hn_nexts := []\<rparr>) = hn_key (n\<lparr>hn_nexts := []\<rparr>)" by (simp only: frame_node_def)
  then show ?thesis by simp
qed

lemma frame_node_len: "frame_node n n' \<Longrightarrow> length (hn_nexts n') = length (hn_nexts n)"
  by (simp add: frame_node_def)

lemma same_frame_cases:
  assumes "same_frame h h'"
  obtains "h p = None" "h' p = None" | n n' where "h p = Some n" "h' p = Some n'" "frame_node n n'"
  using assms[unfolded same_frame_def, rule_format, of p] by (cases "h p"; cases "h' p") auto

lemma same_frameD:
  assumes "same_frame h h'"
  shows "hlen h' p = hlen h p" "hkey h' p = hkey h p" "h' p = None \<longleftrightarrow> h p = None"
  by (rule same_frame_cases[OF assms, of p]; simp add: hlen_def hkey_def frame_node_key frame_node_len)+

lemma set_word_spec:
  assumes "l < hlen h p"
  obtains h' where "set_word h l p w = Some h'" "same_frame h h'"
    "\<And>l' p'. word_at h' l' p' = (if l' = l \<and> p' = p then w else word_at h l' p')"
    "\<And>p'. p' \<noteq> p \<Longrightarrow> h' p' = h p'"
proof -
  obtain n where n: "h p = Some n" "l < length (hn_nexts n)" using assms by (auto simp: hlen_def split: option.splits)
  let ?h = "h(p := Some (n\<lparr>hn_nexts := (hn_nexts n)[l := w]\<rparr>))"
  have "same_frame h ?h" using n by (auto simp: same_frame_def frame_node_def option.rel_refl frame_node_refl)
  moreover have "word_at ?h l' p' = (if l' = l \<and> p' = p then w else word_at h l' p')" for l' p'
    using n by (auto simp: word_at_def nth_list_update)
  ultimately show thesis using n by (intro that[of ?h]) (simp_all add: set_word_def)
qed

section \<open>Find\<close>

text \<open>
  As in Skip_List: ps are the nodes before the key with the head, zs those from the key on, the
  tail last. hh is the height up to which a node is linked, which Insert raises level by level.
\<close>

definition hs_split :: "'v hheap \<Rightarrow> (u64 \<Rightarrow> nat) \<Rightarrow> int \<Rightarrow> u64 list \<Rightarrow> u64 list \<Rightarrow> bool" where
  "hs_split h hh key ps zs \<longleftrightarrow> linked_to (hnxt h) hh (ps @ zs) (\<lambda>_. None) \<and>
     (\<forall>x \<in> set (ps @ zs). h x \<noteq> None \<and> x \<noteq> 0 \<and> 1 \<le> hh x \<and> hh x \<le> hlen h x) \<and>
     (\<forall>y \<in> set (tl ps). hkey h y < key) \<and> (\<forall>z \<in> set zs. key \<le> hkey h z) \<and>
     ps \<noteq> [] \<and> zs \<noteq> [] \<and> hh (hd ps) = hs_max_level + 1 \<and> hh (last zs) = hs_max_level + 1"

lemma hs_splitD:
  assumes "hs_split h hh key ps zs"
  shows "linked_to (hnxt h) hh ps (first_of hh zs (\<lambda>_. None))" "linked_to (hnxt h) hh zs (\<lambda>_. None)"
    "linked_to (hnxt h) hh (ps @ zs) (\<lambda>_. None)"
    "x \<in> set ps \<or> x \<in> set zs \<Longrightarrow> h x \<noteq> None" "x \<in> set ps \<or> x \<in> set zs \<Longrightarrow> x \<noteq> 0"
    "x \<in> set ps \<or> x \<in> set zs \<Longrightarrow> 1 \<le> hh x" "x \<in> set ps \<or> x \<in> set zs \<Longrightarrow> hh x \<le> hlen h x"
    "x \<in> set (tl ps) \<Longrightarrow> hkey h x < key" "x \<in> set zs \<Longrightarrow> key \<le> hkey h x"
    "ps \<noteq> []" "zs \<noteq> []" "hh (hd ps) = hs_max_level + 1" "hh (last zs) = hs_max_level + 1"
  using assms by (auto simp: hs_split_def linked_to_append)

text \<open>The tail bounds every level.\<close>

lemma split_succ:
  assumes "hs_split h hh key ps zs" "l \<le> hs_max_level"
  obtains z where "first_of hh zs (\<lambda>_. None) l = Some z" "z \<in> set zs" "l < hh z"
proof -
  have "last zs \<in> set zs" "l < hh (last zs)" using hs_splitD(11,13)[OF assms(1)] assms(2) by simp_all
  then show thesis using first_of_cases[of hh zs "\<lambda>_. None" l] that by auto
qed

lemma split_pred_word:
  assumes "hs_split h hh key ps zs" "p \<in> set ps" "l < hh p" "first_of hh zs (\<lambda>_. None) l = Some z"
  shows "GetRawPtr (word_at h l (pred_at hh l ps)) = z"
proof -
  have "hnxt h l (pred_at hh l ps) = Some z"
    using pred_at_next[OF hs_splitD(1)[OF assms(1)] assms(2,3)] assms(4) by simp
  then show ?thesis by (auto simp: hnxt_def Let_def split: if_splits)
qed

lemma linked_next_in:
  assumes "linked_to nx hh ps e" "p \<in> set ps" "l < hh p" "nx l p = Some q"
  shows "q \<in> set ps \<or> e l = Some q"
  using assms
proof (induction ps)
  case (Cons a ps)
  show ?case
  proof (cases "p \<in> set ps")
    case False
    then have "first_of hh ps e l = Some q" using Cons.prems by auto
    then show ?thesis using first_of_cases[of hh ps e l] by auto
  qed (use Cons in auto)
qed simp

lemma linked_next_form:
  assumes "linked_to nx hh ps e" "p \<in> set ps" "l < hh p"
  shows "\<exists>as. nx l p = first_of hh as e l"
  using assms by (induction ps) auto

lemma find_level_word:
  assumes "find_level h key l p = Some y"
  shows "next_word h l (fst y) = Some (snd y)"
proof (rule find_level.raw_induct[of "\<lambda>h key l p y. next_word h l (fst y) = Some (snd y)", OF _ assms])
  fix f and h :: "'v hheap" and key l p y
  assume IH: "\<And>h key l p y. f h key l p = Some y \<Longrightarrow> next_word h l (fst y) = Some (snd y)"
    and f: "next_word h l p \<bind> (\<lambda>w. h (GetRawPtr w) \<bind> (\<lambda>m. if hn_key m < key then f h key l (GetRawPtr w) else Some (p, w))) = Some y"
  then show "next_word h l (fst y) = Some (snd y)" by (auto simp: bind_eq_Some_conv split: if_splits)
qed

lemma find_level_step:
  assumes "l < hlen h p" "hnxt h l p = Some q" "h q \<noteq> None"
  shows "find_level h key l p = (if hkey h q < key then find_level h key l q else Some (p, word_at h l p))"
proof -
  have "GetRawPtr (word_at h l p) = q" using assms(2) by (auto simp: hnxt_def Let_def split: if_splits)
  moreover obtain m where "h q = Some m" using assms(3) by blast
  ultimately show ?thesis by (subst find_level.simps) (simp add: next_word_eq[OF assms(1)] hkey_def)
qed

lemma find_level_spec:
  assumes "hs_split h hh key ps zs" "p \<in> set ps" "l < hh p" "l \<le> hs_max_level"
  shows "find_level h key l p = Some (pred_at hh l ps, word_at h l (pred_at hh l ps))"
proof -
  note D = hs_splitD[OF assms(1)]
  obtain z where z: "first_of hh zs (\<lambda>_. None) l = Some z" "z \<in> set zs" by (rule split_succ[OF assms(1,4)]) blast
  let ?adv = "\<lambda>q. map_option fst (find_level h key l q)"
  have "?adv p = Some (pred_at hh l ps)"
  proof (rule level_walk[OF D(1) assms(2,3), where before = "\<lambda>q. hkey h q < key"])
    show "?adv q = (case hnxt h l q of None \<Rightarrow> Some q | Some r \<Rightarrow> if hkey h r < key then ?adv r else Some q)"
      if q: "q \<in> set ps" "l < hh q" for q
    proof -
      have ne: "hnxt h l q \<noteq> None"
      proof
        assume n: "hnxt h l q = None"
        have "first_of hh as (first_of hh zs (\<lambda>_. None)) l \<noteq> None" for as
          using first_of_cases[of hh as "first_of hh zs (\<lambda>_. None)" l] z(1) by auto
        moreover have "\<exists>as. hnxt h l q = first_of hh as (first_of hh zs (\<lambda>_. None)) l"
          by (rule linked_next_form[OF D(1) q])
        ultimately show False using n by metis
      qed
      then obtain r where r: "hnxt h l q = Some r" by blast
      have "r \<in> set ps \<or> r \<in> set zs"
        using linked_next_in[OF D(3), of q l r] q r by auto
      then have "h r \<noteq> None" using D(4) by blast
      moreover have "l < hlen h q" using D(7)[of q] q by simp
      ultimately show ?thesis using find_level_step[of l h q r key] r by simp
    qed
    show "hkey h q < key" if "q \<in> set (tl ps)" for q using D(8) that .
    show "\<not> hkey h q < key" if "first_of hh zs (\<lambda>_. None) l = Some q" for q
      using z that D(9)[of z] by simp
  qed
  then obtain w where w: "find_level h key l p = Some (pred_at hh l ps, w)" by auto
  have "l < hlen h (pred_at hh l ps)" using pred_at_mem[of p ps l hh] assms(2,3) D(7) by (meson less_le_trans)
  then have "w = word_at h l (pred_at hh l ps)" using find_level_word[OF w] by (simp add: next_word_eq)
  then show ?thesis using w by simp
qed

lemma find_levels_spec:
  assumes "hs_split h hh key ps zs" "p \<in> set ps" "n \<le> hh p" "n \<le> hs_max_level + 1"
  shows "find_levels h key n p = Some (\<exists>l < n. \<exists>z. first_of hh zs (\<lambda>_. None) l = Some z \<and> hkey h z = key,
    map (\<lambda>l. pred_at hh l ps) [0..<n], map (\<lambda>l. word_at h l (pred_at hh l ps)) [0..<n])"
  using assms(2-4)
proof (induction n arbitrary: p)
  case (Suc l)
  let ?q = "pred_at hh l ps"
  have l: "l < hh p" "l \<le> hs_max_level" using Suc.prems by simp_all
  have q: "?q \<in> set ps" "l < hh ?q" using pred_at_mem[of p ps l hh] Suc.prems(1) l by simp_all
  obtain z where z: "first_of hh zs (\<lambda>_. None) l = Some z" "z \<in> set zs" by (rule split_succ[OF assms(1) l(2)]) blast
  have rz: "GetRawPtr (word_at h l ?q) = z" by (rule split_pred_word[OF assms(1) Suc.prems(1) l(1) z(1)])
  obtain m where m: "h z = Some m" using hs_splitD(4)[OF assms(1)] z(2) by blast
  have IH: "find_levels h key l ?q = Some (\<exists>l' < l. \<exists>z. first_of hh zs (\<lambda>_. None) l' = Some z \<and> hkey h z = key,
    map (\<lambda>l. pred_at hh l ps) [0..<l], map (\<lambda>l. word_at h l (pred_at hh l ps)) [0..<l])"
    by (rule Suc.IH[OF q(1)]) (use q(2) l(2) in simp_all)
  have "(hn_key m = key \<or> (\<exists>l' < l. \<exists>z. first_of hh zs (\<lambda>_. None) l' = Some z \<and> hkey h z = key)) \<longleftrightarrow>
      (\<exists>l' < Suc l. \<exists>z. first_of hh zs (\<lambda>_. None) l' = Some z \<and> hkey h z = key)"
    using z(1) m by (auto simp: less_Suc_eq hkey_def)
  then show ?case
    using find_level_spec[OF assms(1) Suc.prems(1) l] by (simp add: rz m IH)
qed simp

section \<open>The invariant\<close>

definition visible :: "'v hs_node \<Rightarrow> 'v hs_handle option" where
  "visible n = (if node_IsMarked n then None else hn_handle n)"

definition hentry :: "'v hheap \<Rightarrow> u64 \<Rightarrow> int \<times> 'v hs_handle option" where
  "hentry h p = (hkey h p, Option.bind (h p) visible)"

text \<open>What Get finds: the handle of the node with the key, if the node is not marked.\<close>

definition hs_contents :: "'v hheap \<Rightarrow> u64 list \<Rightarrow> int \<Rightarrow> 'v hs_handle option" where
  "hs_contents h xs key = Option.bind (map_of (map (hentry h) xs) key) id"

definition as_nodes :: "'v askip \<Rightarrow> u64 list \<Rightarrow> u64 list" where
  "as_nodes sl xs = as_head sl # xs @ [as_tail sl]"

definition as_ok :: "'v askip \<Rightarrow> u64 list \<Rightarrow> bool" where
  "as_ok sl xs \<longleftrightarrow> (let h = as_heap sl in
     (\<forall>p. h p \<noteq> None \<longleftrightarrow> p \<in> set (as_nodes sl xs)) \<and> distinct (as_nodes sl xs) \<and>
     (\<forall>p n. h p = Some n \<longrightarrow> node_ok n \<and> p \<noteq> 0 \<and> unat p < 2 ^ 47 \<and> hlen h p \<le> hs_max_level + 1) \<and>
     hlen h (as_head sl) = hs_max_level + 1 \<and> hlen h (as_tail sl) = hs_max_level + 1 \<and>
     sorted_wrt (<) (map (hkey h) (xs @ [as_tail sl])) \<and> hkey h (as_tail sl) = INT64_MAX \<and>
     \<not> IsMarked (word_at h 0 (as_tail sl)) \<and>
     linked_to (hnxt h) (hlen h) (as_nodes sl xs) (\<lambda>_. None) \<and> node_num sl = int (length xs))"

lemma as_okD:
  assumes "as_ok sl xs"
  shows "as_heap sl p \<noteq> None \<longleftrightarrow> p = as_head sl \<or> p \<in> set xs \<or> p = as_tail sl"
    "distinct (as_head sl # xs @ [as_tail sl])"
    "as_heap sl p = Some n \<Longrightarrow> node_ok n" "as_heap sl p = Some n \<Longrightarrow> p \<noteq> 0" "as_heap sl p = Some n \<Longrightarrow> unat p < 2 ^ 47"
    "hlen (as_heap sl) p \<le> hs_max_level + 1"
    "hlen (as_heap sl) (as_head sl) = hs_max_level + 1" "hlen (as_heap sl) (as_tail sl) = hs_max_level + 1"
    "sorted_wrt (<) (map (hkey (as_heap sl)) (xs @ [as_tail sl]))" "hkey (as_heap sl) (as_tail sl) = INT64_MAX"
    "\<not> IsMarked (word_at (as_heap sl) 0 (as_tail sl))"
    "linked_to (hnxt (as_heap sl)) (hlen (as_heap sl)) (as_head sl # xs @ [as_tail sl]) (\<lambda>_. None)"
    "node_num sl = int (length xs)"
proof -
  show "hlen (as_heap sl) p \<le> hs_max_level + 1"
    using assms by (cases "as_heap sl p") (auto simp: as_ok_def Let_def hlen_def)
qed (use assms in \<open>auto simp: as_ok_def as_nodes_def Let_def\<close>)

lemma as_ok_hlen: "as_ok sl xs \<Longrightarrow> as_heap sl p \<noteq> None \<Longrightarrow> 1 \<le> hlen (as_heap sl) p"
  using as_okD(3) by (fastforce simp: hlen_def node_ok_def)

lemma as_ok_keys:
  assumes "as_ok sl xs"
  shows "sorted_wrt (<) (map (hkey (as_heap sl)) xs)" "x \<in> set xs \<Longrightarrow> hkey (as_heap sl) x < INT64_MAX"
  using as_okD(9,10)[OF assms] by (simp_all add: sorted_wrt_append)

text \<open>Find on a list between operations.\<close>

lemma hs_search:
  assumes "as_ok sl xs" "key < INT64_MAX"
  obtains ys zs where "xs = ys @ zs" "hs_split (as_heap sl) (hlen (as_heap sl)) key (as_head sl # ys) (zs @ [as_tail sl])"
    "Find sl (as_heap sl) key = Some (zs \<noteq> [] \<and> hkey (as_heap sl) (hd zs) = key,
       map (\<lambda>l. pred_at (hlen (as_heap sl)) l (as_head sl # ys)) [0..<hs_max_level + 1],
       map (\<lambda>l. word_at (as_heap sl) l (pred_at (hlen (as_heap sl)) l (as_head sl # ys))) [0..<hs_max_level + 1])"
    "GetRawPtr (word_at (as_heap sl) 0 (pred_at (hlen (as_heap sl)) 0 (as_head sl # ys))) = hd (zs @ [as_tail sl])"
    "\<forall>y \<in> set ys. hkey (as_heap sl) y < key" "\<forall>z \<in> set zs. key \<le> hkey (as_heap sl) z"
proof -
  let ?h = "as_heap sl"
  note D = as_okD[OF assms(1)]
  obtain ys zs where s: "xs = ys @ zs" "\<forall>y \<in> set ys. hkey ?h y < key" "\<forall>z \<in> set zs. key \<le> hkey ?h z"
    by (rule key_split[OF as_ok_keys(1)[OF assms(1)]])
  let ?ps = "as_head sl # ys" and ?zs = "zs @ [as_tail sl]"
  have mem: "?h x \<noteq> None \<and> x \<noteq> 0 \<and> 1 \<le> hlen ?h x" if "x \<in> set (?ps @ ?zs)" for x
  proof -
    have "?h x \<noteq> None" using D(1)[of x] that s(1) by auto
    then show ?thesis using D(4)[of x] as_ok_hlen[OF assms(1)] by auto
  qed
  have sp: "hs_split ?h (hlen ?h) key ?ps ?zs"
    using mem s D(7,8,10,12) assms(2) by (auto simp: hs_split_def)
  have eqz: "z = hd zs" "zs \<noteq> []" if "z \<in> set ?zs" "hkey ?h z = key" for z
  proof -
    have "z \<in> set zs" using that D(10) assms(2) by auto
    then show "zs \<noteq> []" by auto
    then obtain z0 zs' where z0: "zs = z0 # zs'" by (cases zs) auto
    have "hkey ?h z0 < hkey ?h z'" if "z' \<in> set zs'" for z'
      using as_ok_keys(1)[OF assms(1)] s(1) z0 that by (simp add: sorted_wrt_append)
    then show "z = hd zs" using \<open>z \<in> set zs\<close> that s(3) z0 by fastforce
  qed
  have f: "(\<exists>l < hs_max_level + 1. \<exists>z. first_of (hlen ?h) ?zs (\<lambda>_. None) l = Some z \<and> hkey ?h z = key) \<longleftrightarrow>
      zs \<noteq> [] \<and> hkey ?h (hd zs) = key"
  proof
    assume "\<exists>l < hs_max_level + 1. \<exists>z. first_of (hlen ?h) ?zs (\<lambda>_. None) l = Some z \<and> hkey ?h z = key"
    then obtain l z where z: "first_of (hlen ?h) ?zs (\<lambda>_. None) l = Some z" "hkey ?h z = key" by blast
    then have "z \<in> set ?zs" using first_of_cases[of "hlen ?h" ?zs "\<lambda>_. None" l] by auto
    then show "zs \<noteq> [] \<and> hkey ?h (hd zs) = key" using eqz[of z] z(2) by auto
  next
    assume a: "zs \<noteq> [] \<and> hkey ?h (hd zs) = key"
    then obtain z0 zs' where z0: "zs = z0 # zs'" by (cases zs) auto
    then have "0 < hlen ?h z0" using mem[of z0] by auto
    then show "\<exists>l < hs_max_level + 1. \<exists>z. first_of (hlen ?h) ?zs (\<lambda>_. None) l = Some z \<and> hkey ?h z = key"
      using a z0 by (intro exI[of _ 0]) simp
  qed
  have fl: "Find sl ?h key = Some (zs \<noteq> [] \<and> hkey ?h (hd zs) = key,
       map (\<lambda>l. pred_at (hlen ?h) l ?ps) [0..<hs_max_level + 1],
       map (\<lambda>l. word_at ?h l (pred_at (hlen ?h) l ?ps)) [0..<hs_max_level + 1])"
    unfolding Find_def f[symmetric] by (rule find_levels_spec[OF sp]) (use D(7) in simp_all)
  have "first_of (hlen ?h) ?zs (\<lambda>_. None) 0 = Some (hd ?zs)"
    using mem by (cases zs) (auto simp: Suc_le_eq)
  then have "GetRawPtr (word_at ?h 0 (pred_at (hlen ?h) 0 ?ps)) = hd ?zs"
    by (rule split_pred_word[OF sp, of "as_head sl", rotated 2]) (use D(7) in simp_all)
  then show thesis using that[OF s(1) sp fl] s(2,3) by blast
qed

end
