(* ===== verification/HS_Insert.thy ===== *)
theory HS_Insert
  imports HS_Skiplist
begin

text \<open>
  The operations of the atomic skip list hash_skip/atomic_skiplist.h that change it, on the map of its
  contents: Get and Insert, whose new node is linked level by level, MarkDeleted, the walk of
  IterateLevel and the destructor.
\<close>

section \<open>Changing one node\<close>

lemma hs_contents_split:
  assumes "as_ok sl (ys @ zs)" "\<forall>y \<in> set ys. hkey (as_heap sl) y < key" "\<forall>z \<in> set zs. key \<le> hkey (as_heap sl) z"
  shows "hs_contents (as_heap sl) (ys @ zs) key =
     (case zs of [] \<Rightarrow> None | z # _ \<Rightarrow> if hkey (as_heap sl) z = key then Option.bind (as_heap sl z) visible else None)"
proof -
  have k: "fst (hentry (as_heap sl) x) = hkey (as_heap sl) x" for x by (simp add: hentry_def)
  have "sorted_wrt (<) (map (fst \<circ> hentry (as_heap sl)) zs)"
    using as_ok_keys(1)[OF assms(1)] by (simp add: sorted_wrt_append k comp_def)
  then show ?thesis
    using map_of_split[of ys "hentry (as_heap sl)" key zs] assms(2,3)
    by (auto simp: hs_contents_def k hentry_def split: list.splits)
qed

definition same_links :: "'v hs_node \<Rightarrow> 'v hs_node \<Rightarrow> bool" where
  "same_links n n' \<longleftrightarrow> hn_key n' = hn_key n \<and> map GetRawPtr (hn_nexts n') = map GetRawPtr (hn_nexts n)"

lemma node_update:
  assumes "h p = Some n" "same_links n n'"
  shows "hlen (h(p := Some n')) = hlen h" "hkey (h(p := Some n')) = hkey h"
    "l < hlen h q \<Longrightarrow> hnxt (h(p := Some n')) l q = hnxt h l q"
proof -
  have len: "length (hn_nexts n') = length (hn_nexts n)"
    using assms(2) map_eq_imp_length_eq by (auto simp: same_links_def)
  show "hlen (h(p := Some n')) = hlen h" using assms(1) len by (auto simp: hlen_def)
  show "hkey (h(p := Some n')) = hkey h" using assms by (auto simp: hkey_def same_links_def)
  assume l: "l < hlen h q"
  have "GetRawPtr (hn_nexts n' ! l) = GetRawPtr (hn_nexts n ! l)" if "q = p"
    using that l len assms unfolding same_links_def hlen_def by (metis nth_map option.simps(5))
  then show "hnxt (h(p := Some n')) l q = hnxt h l q" using assms(1) by (simp add: hnxt_def word_at_def)
qed

lemma as_ok_node:
  assumes "as_ok sl xs" "p \<in> set xs" "as_heap sl p = Some n" "same_links n n'" "node_ok n'"
  shows "as_ok (sl\<lparr>as_heap := (as_heap sl)(p := Some n')\<rparr>) xs"
    "hs_contents ((as_heap sl)(p := Some n')) xs = (hs_contents (as_heap sl) xs)(hn_key n := visible n')"
proof -
  let ?h = "as_heap sl" and ?h' = "(as_heap sl)(p := Some n')"
  note D = as_okD[OF assms(1)]
  note U = node_update[of ?h, OF assms(3,4)]
  have pt: "p \<noteq> as_head sl" "p \<noteq> as_tail sl" using D(2) assms(2) by auto
  have wt: "word_at ?h' 0 (as_tail sl) = word_at ?h 0 (as_tail sl)" using pt by (simp add: word_at_def)
  have lk: "linked_to (hnxt ?h') (hlen ?h') (as_head sl # xs @ [as_tail sl]) (\<lambda>_. None)"
    using D(12) by (subst linked_to_cong[of _ "hlen ?h'" "hlen ?h" "hnxt ?h'" "hnxt ?h"]) (simp_all only: U)
  have dm: "?h' q \<noteq> None \<longleftrightarrow> q \<in> set (as_head sl # xs @ [as_tail sl])" for q
    using D(1)[of q] assms(2) by auto
  have nd: "node_ok m \<and> q \<noteq> 0 \<and> unat q < 2 ^ 47 \<and> hlen ?h' q \<le> hs_max_level + 1" if "?h' q = Some m" for q m
    using that D(3,4,5,6)[of q] D(4,5)[OF assms(3)] assms(5) unfolding U(1) by (auto split: if_splits)
  show "as_ok (sl\<lparr>as_heap := ?h'\<rparr>) xs"
    unfolding as_ok_def as_nodes_def Let_def
    using dm nd wt lk D(2,7-11,13) U by (simp del: fun_upd_apply)
  obtain ys zs where xs: "xs = ys @ p # zs" using assms(2) by (auto simp: in_set_conv_decomp)
  have k: "fst (hentry ?h x) = hkey ?h x" for x by (simp add: hentry_def)
  have pk: "hkey ?h p = hn_key n" using assms(3) by (simp add: hkey_def)
  have lt: "\<forall>y \<in> set ys. fst (hentry ?h y) \<noteq> hn_key n"
    using as_ok_keys(1)[OF assms(1)] xs pk k by (auto simp: sorted_wrt_append)
  have py: "p \<notin> set ys" "p \<notin> set zs" using D(2) xs by auto
  have e: "hentry ?h' q = (if q = p then (hn_key n, visible n') else hentry ?h q)" for q
    unfolding hentry_def U(2) by (simp add: pk)
  have "map (hentry ?h') xs = map (hentry ?h) ys @ (hn_key n, visible n') # map (hentry ?h) zs"
    using xs py e by (auto simp del: fun_upd_apply)
  then have m': "map_of (map (hentry ?h') xs) = (map_of (map (hentry ?h) ys @ map (hentry ?h) zs))(hn_key n \<mapsto> visible n')"
    using map_of_put[OF lt] by metis
  have "map (hentry ?h) xs = map (hentry ?h) ys @ (hn_key n, visible n) # map (hentry ?h) zs"
    using xs by (simp add: hentry_def pk assms(3))
  then have m: "map_of (map (hentry ?h) xs) = (map_of (map (hentry ?h) ys @ map (hentry ?h) zs))(hn_key n \<mapsto> visible n)"
    using map_of_put[OF lt] by metis
  show "hs_contents ?h' xs = (hs_contents ?h xs)(hn_key n := visible n')"
    unfolding hs_contents_def m m' by (rule ext) simp
qed

section \<open>Get\<close>

lemma Get_node_spec:
  assumes "as_ok sl xs" "key < INT64_MAX"
  shows "case Get_node sl key of None \<Rightarrow> False
    | Some None \<Rightarrow> hs_contents (as_heap sl) xs key = None
    | Some (Some p) \<Rightarrow> p \<in> set xs \<and> (\<exists>n. as_heap sl p = Some n \<and> hn_key n = key \<and> \<not> node_IsMarked n \<and>
        hs_contents (as_heap sl) xs key = hn_handle n)"
proof -
  obtain ys zs where s: "xs = ys @ zs"
    "Find sl (as_heap sl) key = Some (zs \<noteq> [] \<and> hkey (as_heap sl) (hd zs) = key,
       map (\<lambda>l. pred_at (hlen (as_heap sl)) l (as_head sl # ys)) [0..<hs_max_level + 1],
       map (\<lambda>l. word_at (as_heap sl) l (pred_at (hlen (as_heap sl)) l (as_head sl # ys))) [0..<hs_max_level + 1])"
    "GetRawPtr (word_at (as_heap sl) 0 (pred_at (hlen (as_heap sl)) 0 (as_head sl # ys))) = hd (zs @ [as_tail sl])"
    "\<forall>y \<in> set ys. hkey (as_heap sl) y < key" "\<forall>z \<in> set zs. key \<le> hkey (as_heap sl) z"
    by (rule hs_search[OF assms]) blast
  have c: "hs_contents (as_heap sl) xs key = (case zs of [] \<Rightarrow> None | z # _ \<Rightarrow>
      if hkey (as_heap sl) z = key then Option.bind (as_heap sl z) visible else None)"
    using hs_contents_split[of sl ys zs key] assms(1) s(1,4,5) by simp
  show ?thesis
  proof (cases "zs \<noteq> [] \<and> hkey (as_heap sl) (hd zs) = key")
    case True
    then obtain z zs' where z: "zs = z # zs'" "hkey (as_heap sl) z = key" by (cases zs) auto
    have "as_heap sl z \<noteq> None" using as_okD(1)[OF assms(1)] s(1) z(1) by simp
    then obtain n where n: "as_heap sl z = Some n" by blast
    then have "hn_key n = key" using z(2) by (simp add: hkey_def)
    then show ?thesis using s(1) c z n by (simp add: Get_node_def s(2,3) visible_def nth_append del: upt_Suc)
  next
    case False
    then show ?thesis using c by (auto simp: Get_node_def s(2) simp del: upt_Suc split: list.splits)
  qed
qed

lemma Get_node_cases:
  assumes "as_ok sl xs" "key < INT64_MAX"
  obtains (none) "Get_node sl key = Some None" "hs_contents (as_heap sl) xs key = None"
  | (some) p n where "Get_node sl key = Some (Some p)" "p \<in> set xs" "as_heap sl p = Some n" "hn_key n = key"
      "\<not> node_IsMarked n" "hs_contents (as_heap sl) xs key = hn_handle n"
  using Get_node_spec[OF assms] by (auto split: option.splits)

lemma Get_spec:
  assumes "as_ok sl xs" "key < INT64_MAX"
  obtains sl' where "Get spurious sl key = Some (hs_contents (as_heap sl) xs key, sl')" "as_ok sl' xs"
    "hs_contents (as_heap sl') xs = hs_contents (as_heap sl) xs"
proof (rule Get_node_cases[OF assms])
  assume a: "Get_node sl key = Some None" "hs_contents (as_heap sl) xs key = None"
  show thesis by (rule that[of sl]) (simp_all add: Get_def a assms(1))
next
  fix p n
  assume a: "Get_node sl key = Some (Some p)" "p \<in> set xs" "as_heap sl p = Some n" "hn_key n = key"
    "\<not> node_IsMarked n" "hs_contents (as_heap sl) xs key = hn_handle n"
  let ?n = "IncrHitCount spurious n"
  have n: "same_links n ?n" "node_ok ?n" "visible ?n = hn_handle n"
    using as_okD(3)[OF assms(1) a(3)] a(5)
    by (auto simp: same_links_def IncrHitCount_eq node_ok_def visible_def node_IsMarked_def)
  note N = as_ok_node[OF assms(1) a(2,3) n(1,2)]
  show thesis
    by (rule that[OF _ N(1)]) (simp_all add: Get_def a GetHandle_def N(2) n(3) fun_upd_idem del: fun_upd_apply)
qed

section \<open>Linking a new node level by level\<close>

text \<open>
  The state while Insert links the node a between P and Z: it is linked on the levels below l, and its
  own words are set on all its levels. What the links of the other nodes leave unchanged is grown.
\<close>

definition grown :: "'v hheap \<Rightarrow> 'v hheap \<Rightarrow> bool" where
  "grown h h' \<longleftrightarrow> same_frame h h' \<and> (\<forall>p. IsMarked (word_at h' 0 p) \<longrightarrow> IsMarked (word_at h 0 p))"

lemma grown_refl: "grown h h"
  by (simp add: grown_def same_frame_refl)

lemma grown_trans: "grown h h' \<Longrightarrow> grown h' h'' \<Longrightarrow> grown h h''"
  by (auto simp: grown_def intro: same_frame_trans)

definition link_state :: "'v hheap \<Rightarrow> (u64 \<Rightarrow> nat) \<Rightarrow> int \<Rightarrow> u64 list \<Rightarrow> u64 \<Rightarrow> u64 list \<Rightarrow> nat \<Rightarrow> bool" where
  "link_state h hh key P a Z l \<longleftrightarrow> linked_to (hnxt h) (hh(a := l)) (P @ a # Z) (\<lambda>_. None) \<and> distinct (P @ a # Z) \<and>
     (\<forall>x. x \<in> set P \<or> x \<in> set Z \<longrightarrow> h x \<noteq> None \<and> x \<noteq> 0 \<and> 1 \<le> hh x \<and> hh x \<le> hlen h x) \<and>
     a \<noteq> 0 \<and> unat a < 2 ^ 47 \<and> hkey h a = key \<and> h a \<noteq> None \<and> hlen h a \<le> hs_max_level + 1 \<and>
     (\<forall>y \<in> set (tl P). hkey h y < key) \<and> (\<forall>z \<in> set Z. key \<le> hkey h z) \<and>
     P \<noteq> [] \<and> Z \<noteq> [] \<and> hh (hd P) = hs_max_level + 1 \<and> hh (last Z) = hs_max_level + 1 \<and>
     (\<forall>l' < hlen h a. hnxt h l' a = first_of hh Z (\<lambda>_. None) l')"

lemma link_stateD:
  assumes "link_state h hh key P a Z l"
  shows "linked_to (hnxt h) (hh(a := l)) (P @ a # Z) (\<lambda>_. None)" "distinct (P @ a # Z)"
    "x \<in> set P \<or> x \<in> set Z \<Longrightarrow> h x \<noteq> None" "x \<in> set P \<or> x \<in> set Z \<Longrightarrow> x \<noteq> 0"
    "x \<in> set P \<or> x \<in> set Z \<Longrightarrow> 1 \<le> hh x" "x \<in> set P \<or> x \<in> set Z \<Longrightarrow> hh x \<le> hlen h x"
    "a \<noteq> 0" "unat a < 2 ^ 47" "hkey h a = key" "h a \<noteq> None" "hlen h a \<le> hs_max_level + 1"
    "\<forall>y \<in> set (tl P). hkey h y < key" "\<forall>z \<in> set Z. key \<le> hkey h z"
    "P \<noteq> []" "Z \<noteq> []" "hh (hd P) = hs_max_level + 1" "hh (last Z) = hs_max_level + 1"
    "l' < hlen h a \<Longrightarrow> hnxt h l' a = first_of hh Z (\<lambda>_. None) l'"
    "a \<notin> set P" "a \<notin> set Z"
  using assms by (auto simp: link_state_def)

definition preds_ok :: "'v hheap \<Rightarrow> (u64 \<Rightarrow> nat) \<Rightarrow> u64 list \<Rightarrow> nat \<Rightarrow> u64 list \<Rightarrow> mvptr list \<Rightarrow> bool" where
  "preds_ok h hh P l preds succs \<longleftrightarrow> (\<forall>l'. l \<le> l' \<and> l' \<le> hs_max_level \<longrightarrow>
     preds ! l' = pred_at hh l' P \<and> succs ! l' = word_at h l' (pred_at hh l' P))"

lemma link_state_split:
  assumes "link_state h hh key P a Z l" "1 \<le> l" "l \<le> hlen h a"
  shows "hs_split h (hh(a := l)) key P (a # Z)"
proof -
  note D = link_stateD[OF assms(1)]
  have hd: "hd P \<in> set P" "last Z \<in> set Z" using D(14,15) by simp_all
  then have ne: "hd P \<noteq> a" "last Z \<noteq> a" using D(19,20) by metis+
  have "h x \<noteq> None \<and> x \<noteq> 0 \<and> 1 \<le> (hh(a := l)) x \<and> (hh(a := l)) x \<le> hlen h x" if "x \<in> set (P @ a # Z)" for x
    using that D(3-6)[of x] D(7,10) assms(2,3) by (cases "x = a") auto
  then show ?thesis
    unfolding hs_split_def using D(1,9,12-17) ne by auto
qed

lemma link_state_find:
  assumes "link_state (h :: 'v hheap) hh key P a Z l" "1 \<le> l" "l \<le> hlen h a" "as_head sl = hd P"
  obtains found preds succs where "Find sl h key = Some (found, preds, succs)" "preds_ok h hh P l preds succs"
proof -
  note D = link_stateD[OF assms(1)]
  have hd: "hd P \<in> set P" "hd P \<noteq> a" using D(14,19) hd_in_set by metis+
  have f: "find_levels h key (hs_max_level + 1) (as_head sl) =
    Some (\<exists>k < hs_max_level + 1. \<exists>z. first_of (hh(a := l)) (a # Z) (\<lambda>_. None) k = Some z \<and> hkey h z = key,
      map (\<lambda>k. pred_at (hh(a := l)) k P) [0..<hs_max_level + 1],
      map (\<lambda>k. word_at h k (pred_at (hh(a := l)) k P)) [0..<hs_max_level + 1])"
    by (rule find_levels_spec[OF link_state_split[OF assms(1-3)]]) (use hd D(16) assms(4) in auto)
  have "pred_at (hh(a := l)) k P = pred_at hh k P" for k
    by (rule pred_at_cong) (use D(19) in auto)
  then show thesis
    by (intro that[OF f[folded Find_def]]) (simp add: preds_ok_def nth_append del: upt_Suc)
qed

lemma link_state_step:
  assumes "link_state h hh key P a Z l" "l < hlen h a" "same_frame h h'" "GetRawPtr w = a"
    "\<And>l' p'. word_at h' l' p' = (if l' = l \<and> p' = pred_at hh l P then w else word_at h l' p')"
  shows "link_state h' hh key P a Z (Suc l)"
proof -
  note D = link_stateD[OF assms(1)] and F = same_frameD[OF assms(3)]
  have hd: "hd P \<in> set P" "l < hh (hd P)" using D(14,16,11) assms(2) by simp_all
  have pP: "pred_at hh l P \<in> set P" using pred_at_mem[of "hd P" P l hh] hd by simp
  then have pa: "pred_at hh l P \<noteq> a" "pred_at hh l P \<notin> set Z" using D(2) by auto
  have nx: "hnxt h' l' p' = (if l' = l \<and> p' = pred_at hh l P then Some a else hnxt h l' p')" for l' p'
    using assms(4,5) D(7) by (simp add: hnxt_def Let_def)
  have lk: "linked_to (hnxt h) hh P (first_of (hh(a := l)) (a # Z) (\<lambda>_. None))"
  proof -
    have "linked_to (hnxt h) (hh(a := l)) P (first_of (hh(a := l)) (a # Z) (\<lambda>_. None))"
      using D(1) by (simp add: linked_to_append)
    then show ?thesis by (subst linked_to_cong[of _ _ "hh(a := l)"]) (use D(19) in auto)
  qed
  have foZ: "first_of (hh(a := k)) Z (\<lambda>_. None) l' = first_of hh Z (\<lambda>_. None) l'" for k l'
    by (rule first_of_cong) (use D(20) in auto)
  have P: "linked_to (hnxt h') hh P (first_of (hh(a := Suc l)) (a # Z) (\<lambda>_. None))"
  proof (rule linked_to_redirect[OF lk, where L = "\<lambda>l'. l' = l"])
    show "distinct P" using D(2) by simp
    show "hnxt h' l' p = (if l' = l \<and> p = pred_at hh l' P then first_of (hh(a := Suc l)) (a # Z) (\<lambda>_. None) l' else hnxt h l' p)"
      for l' p using nx by auto
    show "first_of (hh(a := Suc l)) (a # Z) (\<lambda>_. None) l' = first_of (hh(a := l)) (a # Z) (\<lambda>_. None) l'"
      if "l' \<noteq> l" for l' using that by (auto simp: foZ less_Suc_eq)
  qed
  have P': "linked_to (hnxt h') (hh(a := Suc l)) P (first_of (hh(a := Suc l)) (a # Z) (\<lambda>_. None))"
    using P by (subst linked_to_cong[of _ _ hh]) (use D(19) in auto)
  have "linked_to (hnxt h) (hh(a := l)) Z (\<lambda>_. None)" using D(1) by (simp add: linked_to_append)
  then have Z: "linked_to (hnxt h') (hh(a := Suc l)) Z (\<lambda>_. None)"
    by (subst linked_to_cong[of _ _ "hh(a := l)" _ "hnxt h"]) (use D(20) nx pa in auto)
  have A: "hnxt h' l' a = first_of hh Z (\<lambda>_. None) l'" if "l' < hlen h a" for l'
    using D(18)[OF that] nx pa(1) by simp
  have "linked_to (hnxt h') (hh(a := Suc l)) (P @ a # Z) (\<lambda>_. None)"
    using P' Z A assms(2) by (simp add: linked_to_append foZ)
  then show ?thesis
    unfolding link_state_def F using D(2-17) A by blast
qed

lemma LinkLevel_spec:
  assumes "link_state h hh key P a Z l" "l < hlen h a" "preds_ok h hh P l preds succs"
  obtains h' where "LinkLevel h (preds ! l) (succs ! l) a l True s = Some (True, h')"
    "LinkLevel h (preds ! l) (succs ! l) a l False s = Some (if s then (False, h) else (True, h'))"
    "link_state h' hh key P a Z (Suc l)" "preds_ok h' hh P (Suc l) preds succs" "grown h h'"
    "\<And>q. q \<noteq> preds ! l \<Longrightarrow> h' q = h q"
proof -
  note D = link_stateD[OF assms(1)]
  let ?p = "pred_at hh l P"
  have l: "l \<le> hs_max_level" using D(11) assms(2) by simp
  have hd: "hd P \<in> set P" "l < hh (hd P)" using D(14,16) l by simp_all
  have lp: "l < hlen h ?p" using pred_at_mem[of "hd P" P l hh] hd D(6)[of ?p] by simp
  have ps: "preds ! l = ?p" "succs ! l = word_at h l ?p" using assms(3) l by (simp_all add: preds_ok_def)
  let ?w = "PackPtr a (scast (GetVersion (word_at h l ?p) + 1)) False"
  have w: "GetRawPtr ?w = a" "\<not> IsMarked ?w" using GetRawPtr_self[OF D(8)] by (simp_all add: PackPtr_fields)
  obtain h' where h': "set_word h l ?p ?w = Some h'" "same_frame h h'"
    "\<And>l' p'. word_at h' l' p' = (if l' = l \<and> p' = ?p then ?w else word_at h l' p')"
    "\<And>q. q \<noteq> ?p \<Longrightarrow> h' q = h q"
    by (rule set_word_spec[OF lp, of ?w]) blast
  obtain n where n: "h ?p = Some n" "l < length (hn_nexts n)" using lp by (auto simp: hlen_def split: option.splits)
  have same: "set_word h l ?p (word_at h l ?p) = Some h" using n by (simp add: set_word_def word_at_def fun_upd_idem)
  show thesis
  proof (rule that)
    show "LinkLevel h (preds ! l) (succs ! l) a l True s = Some (True, h')"
      unfolding LinkLevel_def ps next_word_eq[OF lp] by (simp add: atomic_defs h'(1))
    show "LinkLevel h (preds ! l) (succs ! l) a l False s = Some (if s then (False, h) else (True, h'))"
      unfolding LinkLevel_def ps next_word_eq[OF lp] by (simp add: atomic_defs h'(1) same)
    show "link_state h' hh key P a Z (Suc l)" by (rule link_state_step[OF assms(1,2) h'(2) w(1) h'(3)])
    show "preds_ok h' hh P (Suc l) preds succs" using assms(3) by (simp add: preds_ok_def h'(3))
    show "grown h h'" unfolding grown_def using h'(2,3) w(2) by (auto split: if_splits)
    show "h' q = h q" if "q \<noteq> preds ! l" for q using h'(4) that ps(1) by simp
  qed
qed

lemma link_level_loop_spec:
  assumes "link_state h hh key P a Z l" "1 \<le> l" "l < hlen h a" "preds_ok h hh P l preds succs" "as_head sl = hd P"
  obtains h' preds' succs' where "link_level_loop sl spurious h key a l preds succs = Some (h', preds', succs')"
    "link_state h' hh key P a Z (Suc l)" "preds_ok h' hh P (Suc l) preds' succs'" "grown h h'"
  using assms(4)
proof (induction spurious arbitrary: preds succs thesis)
  case 0
  obtain h' where h': "LinkLevel h (preds ! l) (succs ! l) a l False False = Some (if False then (False, h) else (True, h'))"
    "link_state h' hh key P a Z (Suc l)" "preds_ok h' hh P (Suc l) preds succs" "grown h h'"
    by (rule LinkLevel_spec[OF assms(1,3) 0(2), of False]) blast
  show ?case by (rule 0(1)[OF _ h'(2-4)]) (subst link_level_loop.simps, simp add: h'(1))
next
  case (Suc k)
  have f: "LinkLevel h (preds ! l) (succs ! l) a l False True = Some (False, h)"
    by (rule LinkLevel_spec[OF assms(1,3) Suc(3), of True]) simp
  obtain found preds1 succs1 where fd: "Find sl h key = Some (found, preds1, succs1)" "preds_ok h hh P l preds1 succs1"
    using link_state_find[OF assms(1,2) less_imp_le[OF assms(3)] assms(5)] by metis
  obtain h' preds' succs' where r: "link_level_loop sl k h key a l preds1 succs1 = Some (h', preds', succs')"
    "link_state h' hh key P a Z (Suc l)" "preds_ok h' hh P (Suc l) preds' succs'" "grown h h'"
    using Suc.IH[OF _ fd(2)] by metis
  show ?case by (rule Suc(2)[OF _ r(2-4)]) (subst link_level_loop.simps, simp add: f fd(1) r(1))
qed

lemma link_upper_spec:
  assumes "link_state h hh key P a Z l" "1 \<le> l" "n \<le> hlen h a" "l \<le> n" "preds_ok h hh P l preds succs" "as_head sl = hd P"
  obtains h' where "link_upper sl spurious h key a preds succs [l..<n] = Some h'"
    "link_state h' hh key P a Z n" "grown h h'"
  using assms(1-5)
proof (induction "n - l" arbitrary: h l preds succs thesis)
  case 0
  then show ?case using 0(2)[of h] by (simp add: grown_refl)
next
  case (Suc k)
  have ln: "l < n" using Suc(2) by simp
  then have la: "l < hlen h a" using Suc(6) by simp
  obtain h1 preds1 succs1 where s: "link_level_loop sl (spurious l) h key a l preds succs = Some (h1, preds1, succs1)"
    "link_state h1 hh key P a Z (Suc l)" "preds_ok h1 hh P (Suc l) preds1 succs1" "grown h h1"
    by (rule link_level_loop_spec[OF Suc(4,5) la Suc(8) assms(6)]) blast
  have hl: "n \<le> hlen h1 a" using s(4) Suc(6) by (simp add: grown_def same_frameD(1)[of h h1])
  have k: "k = n - Suc l" "1 \<le> Suc l" "Suc l \<le> n" using Suc(2) ln by simp_all
  obtain h' where r: "link_upper sl spurious h1 key a preds1 succs1 [Suc l..<n] = Some h'"
    "link_state h' hh key P a Z n" "grown h1 h'"
    by (rule Suc(1)[OF k(1) _ s(2) k(2) hl k(3) s(3)]) blast
  show ?case
    by (rule Suc(3)[OF _ r(2) grown_trans[OF s(4) r(3)]]) (simp add: upt_conv_Cons[OF ln] s(1) r(1) del: upt_Suc)
qed

section \<open>Insert\<close>

text \<open>
  A node that is marked has lost its handle. MarkDeleted makes it so, and LinkLevel needs it: its word has
  mark 0, so linking behind a marked node takes the mark off.
\<close>

definition tidy :: "'v hheap \<Rightarrow> bool" where
  "tidy h \<longleftrightarrow> (\<forall>p n. h p = Some n \<longrightarrow> node_IsMarked n \<longrightarrow> hn_handle n = None)"

definition deleted_key :: "'v hheap \<Rightarrow> u64 list \<Rightarrow> int \<Rightarrow> bool" where
  "deleted_key h xs key \<longleftrightarrow> (\<exists>p \<in> set xs. \<exists>n. h p = Some n \<and> hn_key n = key \<and> node_IsMarked n)"

definition handle_at :: "'v hheap \<Rightarrow> u64 \<Rightarrow> 'v hs_handle option" where
  "handle_at h p = Option.bind (h p) hn_handle"

lemma tidy_hentry: "tidy h \<Longrightarrow> hentry h p = (hkey h p, handle_at h p)"
  by (cases "h p") (auto simp: hentry_def handle_at_def visible_def tidy_def)

lemma marked_word: "h p = Some n \<Longrightarrow> node_IsMarked n = IsMarked (word_at h 0 p)"
  by (simp add: node_IsMarked_def word_at_def LoadAcquire_def LoadRelaxed_def)

lemma frame_node_rest:
  assumes "frame_node n n'"
  shows "hn_handle n' = hn_handle n" "node_ok n \<Longrightarrow> node_ok n'"
proof -
  have e: "n'\<lparr>hn_nexts := []\<rparr> = n\<lparr>hn_nexts := []\<rparr>" using assms by (simp add: frame_node_def)
  have "hn_handle (n'\<lparr>hn_nexts := []\<rparr>) = hn_handle (n\<lparr>hn_nexts := []\<rparr>)"
    "top_level (n'\<lparr>hn_nexts := []\<rparr>) = top_level (n\<lparr>hn_nexts := []\<rparr>)"
    "hit_count (n'\<lparr>hn_nexts := []\<rparr>) = hit_count (n\<lparr>hn_nexts := []\<rparr>)" unfolding e by (rule refl)+
  then show "hn_handle n' = hn_handle n" "node_ok n \<Longrightarrow> node_ok n'"
    using frame_node_len[OF assms] by (simp_all add: node_ok_def)
qed

lemma grown_node:
  assumes "grown h h'" "h' p = Some n'"
  obtains n where "h p = Some n" "frame_node n n'"
proof (rule same_frame_cases[of h h' p])
  show "same_frame h h'" using assms(1) by (simp add: grown_def)
qed (use assms(2) that in auto)

lemma grown_handle: "grown h h' \<Longrightarrow> handle_at h' p = handle_at h p"
  by (rule same_frame_cases[of h h' p]) (auto simp: grown_def handle_at_def frame_node_rest)

lemma grown_frame: "grown h h' \<Longrightarrow> hlen h' p = hlen h p" "grown h h' \<Longrightarrow> hkey h' p = hkey h p"
  by (simp_all add: grown_def same_frameD(1,2)[of h h'])

lemma grown_tidy:
  assumes "tidy h" "grown h h'"
  shows "tidy h'"
  unfolding tidy_def
proof (intro allI impI)
  fix p n' assume n': "h' p = Some n'" "node_IsMarked n'"
  obtain n where n: "h p = Some n" "frame_node n n'" by (rule grown_node[OF assms(2) n'(1)])
  have "IsMarked (word_at h 0 p)" using n' assms(2) by (simp add: marked_word[of h' p n', OF n'(1)] grown_def)
  then show "hn_handle n' = None"
    using assms(1) n by (simp add: frame_node_rest tidy_def marked_word[of h p n, OF n(1), symmetric])
qed

lemma hs_random_level_bound: "level \<le> hs_max_level \<Longrightarrow> hs_random_level coins level \<le> hs_max_level"
  by (induction coins level rule: hs_random_level.induct) (subst hs_random_level.simps, auto)

lemma RandomLevel_bound: "RandomLevel coins \<le> hs_max_level"
  by (simp add: RandomLevel_def hs_random_level_bound)

lemma linked_to_skip: "hh a = 0 \<Longrightarrow> linked_to nx hh (P @ a # Z) e = linked_to nx hh (P @ Z) e"
proof -
  assume "hh a = 0"
  then have "first_of hh (a # Z) e = first_of hh Z e" by (simp add: fun_eq_iff)
  then show ?thesis using \<open>hh a = 0\<close> by (simp only: linked_to_append linked_to.simps) simp
qed

lemma new_node_facts:
  assumes "succs = map f [0..<hs_max_level + 1]" "lvl \<le> hs_max_level"
  shows "length (hn_nexts (new_node key handle lvl succs)) = lvl + 1" "hn_key (new_node key handle lvl succs) = key"
    "hn_handle (new_node key handle lvl succs) = handle" "node_ok (new_node key handle lvl succs)"
    "l \<le> lvl \<Longrightarrow> GetRawPtr (hn_nexts (new_node key handle lvl succs) ! l) = GetRawPtr (f l)"
    "\<not> IsMarked (hn_nexts (new_node key handle lvl succs) ! 0)"
proof -
  have s: "succs ! l = f l" if "l \<le> hs_max_level" for l using assms(1) that by (simp del: upt_Suc)
  show "l \<le> lvl \<Longrightarrow> GetRawPtr (hn_nexts (new_node key handle lvl succs) ! l) = GetRawPtr (f l)"
    using s[of l] assms(2) by (simp add: new_node_def PackPtr_fields nth_append del: upt_Suc)
  show "\<not> IsMarked (hn_nexts (new_node key handle lvl succs) ! 0)"
    by (simp add: new_node_def PackPtr_fields nth_append del: upt_Suc)
qed (simp_all add: new_node_def Node_new_def node_ok_def MAX_HIT_COUNT_def)

lemma link_state_new:
  assumes "as_ok sl (ys @ zs)" "hs_split (as_heap sl) (hlen (as_heap sl)) key (as_head sl # ys) (zs @ [as_tail sl])"
    "as_heap sl a = None" "a \<noteq> 0" "unat a < 2 ^ 47" "lvl \<le> hs_max_level"
    "succs = map (\<lambda>l. word_at (as_heap sl) l (pred_at (hlen (as_heap sl)) l (as_head sl # ys))) [0..<hs_max_level + 1]"
  shows "link_state ((as_heap sl)(a := Some (new_node key handle lvl succs))) (hlen (as_heap sl)) key (as_head sl # ys) a (zs @ [as_tail sl]) 0"
proof -
  let ?h = "as_heap sl" and ?n = "new_node key handle lvl succs" and ?P = "as_head sl # ys" and ?Z = "zs @ [as_tail sl]"
  let ?g = "?h(a := Some ?n)"
  note D = as_okD[OF assms(1)] and S = hs_splitD[OF assms(2)] and N = new_node_facts[OF assms(7,6), where key = key and handle = handle]
  have na: "a \<notin> set ?P" "a \<notin> set ?Z" using S(4) assms(3) by blast+
  have ne: "hlen ?g q = hlen ?h q" "hkey ?g q = hkey ?h q" "word_at ?g l q = word_at ?h l q" "hnxt ?g l q = hnxt ?h l q"
    if "q \<noteq> a" for q l using that by (simp_all add: hlen_def hkey_def word_at_def hnxt_def)
  have ea: "hlen ?h a = 0" "hlen ?g a = lvl + 1" "hkey ?g a = key"
    using assms(3) N(1,2) by (simp_all add: hlen_def hkey_def)
  have "linked_to (hnxt ?g) (hlen ?h) (?P @ ?Z) (\<lambda>_. None) = linked_to (hnxt ?h) (hlen ?h) (?P @ ?Z) (\<lambda>_. None)"
  proof (rule linked_to_cong)
    show "hnxt ?g l p = hnxt ?h l p" if "p \<in> set (?P @ ?Z)" for l p using that na ne(4)[of p l] by (metis Un_iff set_append)
  qed simp
  then have "linked_to (hnxt ?g) (hlen ?h) (?P @ ?Z) (\<lambda>_. None)" using S(3) by (simp only:)
  then have "linked_to (hnxt ?g) (hlen ?h) (?P @ a # ?Z) (\<lambda>_. None)" by (simp only: linked_to_skip[of "hlen ?h" a, OF ea(1)])
  then have lk: "linked_to (hnxt ?g) ((hlen ?h)(a := 0)) (?P @ a # ?Z) (\<lambda>_. None)"
    using ea(1) by (metis fun_upd_triv)
  have A: "hnxt ?g l a = first_of (hlen ?h) ?Z (\<lambda>_. None) l" if "l < hlen ?g a" for l
  proof -
    have l: "l \<le> hs_max_level" using that assms(6) ea(2) by simp
    obtain z where z: "first_of (hlen ?h) ?Z (\<lambda>_. None) l = Some z" "z \<in> set ?Z" by (rule split_succ[OF assms(2) l]) blast
    have "GetRawPtr (word_at ?h l (pred_at (hlen ?h) l ?P)) = z"
      by (rule split_pred_word[OF assms(2) _ _ z(1), of "as_head sl"]) (use l D(7) in simp_all)
    then have "GetRawPtr (word_at ?g l a) = z" using N(5)[of l] that ea(2) by (simp add: word_at_def)
    then show ?thesis using z S(5)[of z] by (simp add: hnxt_def)
  qed
  have dist: "distinct (?P @ a # ?Z)" using D(2) na by auto
  have mem: "?g x \<noteq> None \<and> x \<noteq> 0 \<and> 1 \<le> hlen ?h x \<and> hlen ?h x \<le> hlen ?g x" if "x \<in> set ?P \<or> x \<in> set ?Z" for x
  proof -
    have "x \<noteq> a" using that na by blast
    then show ?thesis using S(4,5,6)[OF that] ne(1)[of x] by simp
  qed
  have before: "\<forall>y \<in> set (tl ?P). hkey ?g y < key"
  proof
    fix y assume y: "y \<in> set (tl ?P)"
    then have "y \<noteq> a" using na(1) by auto
    then show "hkey ?g y < key" using S(8)[OF y] ne(2)[of y] by metis
  qed
  have after: "\<forall>z \<in> set ?Z. key \<le> hkey ?g z"
  proof
    fix z assume z: "z \<in> set ?Z"
    then have "z \<noteq> a" using na(2) by auto
    then show "key \<le> hkey ?g z" using S(9)[OF z] ne(2)[of z] by metis
  qed
  show ?thesis
    unfolding link_state_def
    using lk dist mem before after A assms(4,5,6) ea D(7,8) by (simp del: fun_upd_apply) (simp)
qed

text \<open>A node linked on all its levels is part of the list.\<close>

lemma linked_as_ok:
  assumes "as_ok sl (ys @ zs)" "grown ((as_heap sl)(a := Some n)) h'" "as_heap sl a = None" "node_ok n"
    "link_state h' (hlen (as_heap sl)) key (as_head sl # ys) a (zs @ [as_tail sl]) (length (hn_nexts n))"
    "\<forall>z \<in> set zs. hkey (as_heap sl) z \<noteq> key" "key < INT64_MAX"
  shows "as_ok (sl\<lparr>as_heap := h', node_num := snd (FetchAddRelaxed (node_num sl) 1)\<rparr>) (ys @ a # zs)"
proof -
  let ?h = "as_heap sl" and ?g = "(as_heap sl)(a := Some n)"
  note D = as_okD[OF assms(1)] and L = link_stateD[OF assms(5)]
  have "same_frame ?g h'" using assms(2) by (simp add: grown_def)
  note F = same_frameD[OF this]
  have len: "hlen h' = (hlen ?h)(a := length (hn_nexts n))" by (rule ext) (simp add: F(1), simp add: hlen_def)
  have key: "hkey h' q = hkey ?h q" if "q \<noteq> a" for q using that by (simp add: F(2), simp add: hkey_def)
  have na: "a \<noteq> as_head sl" "a \<noteq> as_tail sl" "a \<notin> set ys" "a \<notin> set zs" using L(19,20) by auto
  have keys: "hkey h' q = hkey ?h q" if "q \<in> set ys \<or> q \<in> set zs" for q using key[of q] that na by blast
  have dm: "h' p \<noteq> None \<longleftrightarrow> p \<in> set (as_head sl # (ys @ a # zs) @ [as_tail sl])" for p
    using F(3)[of p] D(1)[of p] by auto
  have nd: "node_ok m \<and> p \<noteq> 0 \<and> unat p < 2 ^ 47 \<and> hlen h' p \<le> hs_max_level + 1" if m: "h' p = Some m" for p m
  proof -
    obtain m' where m': "?g p = Some m'" "frame_node m' m" by (rule grown_node[OF assms(2) m])
    have ok: "node_ok m" using frame_node_rest(2)[OF m'(2)] m'(1) D(3)[of p] assms(4) by (auto split: if_splits)
    show ?thesis
    proof (cases "p = a")
      case True
      then show ?thesis using ok L(7,8,11) by simp
    next
      case False
      then show ?thesis using ok m'(1) D(4,5,6)[of p] len by auto
    qed
  qed
  have k: "hkey h' a = key" by (rule L(9))
  have sorted: "sorted_wrt (<) (map (hkey h') ((ys @ a # zs) @ [as_tail sl]))"
  proof -
    have e: "map (hkey h') ys = map (hkey ?h) ys" "map (hkey h') zs = map (hkey ?h) zs" "hkey h' (as_tail sl) = INT64_MAX"
      using key[of "as_tail sl"] keys na(2) D(10) by simp_all
    have lt: "\<forall>y \<in> set ys. hkey ?h y < key" using L(12) keys by simp
    have "key \<le> hkey ?h z" if "z \<in> set zs" for z using L(13) keys[of z] that by (metis Un_iff set_append)
    then have "\<forall>z \<in> set zs. key < hkey ?h z" using assms(6) by (metis order_le_imp_less_or_eq)
    then have "sorted_wrt (<) (map (hkey ?h) ys @ key # map (hkey ?h) zs @ [INT64_MAX])"
      using D(9,10) lt assms(7) by (auto simp: sorted_wrt_append)
    then show ?thesis by (simp only: map_append list.map append.simps append_assoc e k)
  qed
  have tail: "\<not> IsMarked (word_at h' 0 (as_tail sl))"
    using assms(2) D(11) na by (auto simp: grown_def word_at_def)
  have lk: "linked_to (hnxt h') (hlen h') (as_head sl # (ys @ a # zs) @ [as_tail sl]) (\<lambda>_. None)"
    using L(1) len by simp
  show ?thesis
    unfolding as_ok_def as_nodes_def Let_def
    using dm nd sorted tail lk L(2) D(7,8,13) key na len D(10) by (simp add: FetchAddRelaxed_def)
qed

lemma Insert_new_core:
  fixes sl :: "'v askip"
  assumes "as_ok sl xs" "key < INT64_MAX" "as_heap sl (alloc i) = None" "alloc i \<noteq> 0" "unat (alloc i) < 2 ^ 47"
    "\<forall>x \<in> set xs. hkey (as_heap sl) x \<noteq> key"
  obtains sl' ys zs n where "insert_loop coins alloc spurious i sl key handle = Some (None, sl')" "xs = ys @ zs"
    "as_ok sl' (ys @ alloc i # zs)" "grown ((as_heap sl)(alloc i := Some n)) (as_heap sl')" "hn_handle n = handle"
    "\<not> node_IsMarked n" "hkey (as_heap sl') (alloc i) = key" "alloc i \<notin> set ys" "alloc i \<notin> set zs"
    "\<forall>y \<in> set ys. hkey (as_heap sl) y < key" "\<forall>z \<in> set zs. key \<le> hkey (as_heap sl) z"
proof -
  let ?h = "as_heap sl" and ?a = "alloc i" and ?lvl = "RandomLevel (coins i)"
  obtain ys zs where s: "xs = ys @ zs" and sp: "hs_split ?h (hlen ?h) key (as_head sl # ys) (zs @ [as_tail sl])"
    and f: "Find sl ?h key = Some (zs \<noteq> [] \<and> hkey ?h (hd zs) = key,
       map (\<lambda>l. pred_at (hlen ?h) l (as_head sl # ys)) [0..<hs_max_level + 1],
       map (\<lambda>l. word_at ?h l (pred_at (hlen ?h) l (as_head sl # ys))) [0..<hs_max_level + 1])"
    and lt: "\<forall>y \<in> set ys. hkey ?h y < key" and ge: "\<forall>z \<in> set zs. key \<le> hkey ?h z"
    by (rule hs_search[OF assms(1,2)]) blast
  let ?P = "as_head sl # ys"
  define preds where "preds = map (\<lambda>l. pred_at (hlen ?h) l ?P) [0..<hs_max_level + 1]"
  define succs where "succs = map (\<lambda>l. word_at ?h l (pred_at (hlen ?h) l ?P)) [0..<hs_max_level + 1]"
  define n where "n = new_node key handle ?lvl succs"
  have nf: "\<not> (zs \<noteq> [] \<and> hkey ?h (hd zs) = key)" using assms(6) s by auto
  then have f': "Find sl ?h key = Some (False, preds, succs)" using f unfolding preds_def succs_def by simp
  have ok: "as_ok sl (ys @ zs)" using assms(1) s by simp
  note N = new_node_facts[OF succs_def RandomLevel_bound[of "coins i"], where key = key and handle = handle, folded n_def]
  note L = link_state_new[OF ok sp assms(3,4,5) RandomLevel_bound[of "coins i"] succs_def, of handle, folded n_def]
  have P: "preds_ok (?h(?a := Some n)) (hlen ?h) ?P 0 preds succs"
  proof -
    have "word_at (?h(?a := Some n)) l (pred_at (hlen ?h) l ?P) = word_at ?h l (pred_at (hlen ?h) l ?P)"
      if "l \<le> hs_max_level" for l
    proof -
      have "pred_at (hlen ?h) l ?P \<in> set ?P"
        using pred_at_mem[of "as_head sl" ?P l "hlen ?h"] as_okD(7)[OF assms(1)] that by simp
      then have "pred_at (hlen ?h) l ?P \<noteq> ?a" using hs_splitD(4)[OF sp] assms(3) by metis
      then show ?thesis by (simp add: word_at_def)
    qed
    then show ?thesis by (simp add: preds_ok_def preds_def succs_def nth_append del: upt_Suc)
  qed
  have l0: "0 < hlen (?h(?a := Some n)) ?a" using N(1) by (simp add: hlen_def)
  obtain h1 where h1: "LinkLevel (?h(?a := Some n)) (preds ! 0) (succs ! 0) ?a 0 True False = Some (True, h1)"
    "link_state h1 (hlen ?h) key ?P ?a (zs @ [as_tail sl]) (Suc 0)" "preds_ok h1 (hlen ?h) ?P (Suc 0) preds succs"
    "grown (?h(?a := Some n)) h1"
    by (rule LinkLevel_spec[OF L l0 P, of False]) blast
  have hl: "hlen h1 ?a = ?lvl + 1" using N(1) by (simp add: grown_frame(1)[OF h1(4)], simp add: hlen_def)
  obtain h' where h': "link_upper sl spurious h1 key ?a preds succs [Suc 0..<?lvl + 1] = Some h'"
    "link_state h' (hlen ?h) key ?P ?a (zs @ [as_tail sl]) (?lvl + 1)" "grown h1 h'"
    by (rule link_upper_spec[OF h1(2) _ _ _ h1(3), of "?lvl + 1" sl spurious]) (use hl in simp_all)
  define sl' where "sl' = sl\<lparr>as_heap := h', node_num := snd (FetchAddRelaxed (node_num sl) 1)\<rparr>"
  have g: "grown (?h(?a := Some n)) h'" by (rule grown_trans[OF h1(4) h'(3)])
  have as: "as_ok sl' (ys @ ?a # zs)" unfolding sl'_def
    by (rule linked_as_ok[OF ok g assms(3) N(4)]) (use h'(2) N(1) assms(2,6) s in simp_all)
  have up: "link_upper sl spurious h1 key ?a preds succs [1..<?lvl + 1] = Some h'"
    using h'(1) by (simp only: One_nat_def)
  have ins: "insert_loop coins alloc spurious i sl key handle = Some (None, sl')"
    by (subst insert_loop.simps)
      (simp only: f' bind.bind_lunit prod.case if_False Let_def n_def[symmetric] h1(1) up
        not_True_eq_False sl'_def)
  have nm: "\<not> node_IsMarked n" using N(6) by (simp add: node_IsMarked_def LoadAcquire_def LoadRelaxed_def)
  have h: "as_heap sl' = h'" by (simp add: sl'_def)
  show thesis
    by (rule that[OF ins s as _ N(3) nm]) (use g link_stateD(9)[OF h'(2)] link_stateD(19,20)[OF L] lt ge in \<open>simp_all only: h\<close>, auto)
qed

lemma Insert_new_spec:
  fixes sl :: "'v askip"
  assumes "as_ok sl xs" "key < INT64_MAX" "tidy (as_heap sl)" "as_heap sl (alloc i) = None" "alloc i \<noteq> 0" "unat (alloc i) < 2 ^ 47"
    "\<forall>x \<in> set xs. hkey (as_heap sl) x \<noteq> key"
  obtains sl' xs' where "insert_loop coins alloc spurious i sl key handle = Some (None, sl')" "as_ok sl' xs'"
    "tidy (as_heap sl')" "hs_contents (as_heap sl') xs' = (hs_contents (as_heap sl) xs)(key := handle)"
    "hs_contents (as_heap sl) xs key = None" "hkey (as_heap sl') ` set xs' = insert key (hkey (as_heap sl) ` set xs)"
    "dom (as_heap sl') = insert (alloc i) (dom (as_heap sl))"
proof -
  let ?h = "as_heap sl" and ?a = "alloc i"
  obtain sl' ys zs n where C: "insert_loop coins alloc spurious i sl key handle = Some (None, sl')" "xs = ys @ zs"
    "as_ok sl' (ys @ ?a # zs)" "grown (?h(?a := Some n)) (as_heap sl')" "hn_handle n = handle"
    "\<not> node_IsMarked n" "hkey (as_heap sl') ?a = key" "?a \<notin> set ys" "?a \<notin> set zs"
    "\<forall>y \<in> set ys. hkey ?h y < key" "\<forall>z \<in> set zs. key \<le> hkey ?h z"
    by (rule Insert_new_core[where alloc = alloc and i = i, OF assms(1,2,4-7), of coins spurious handle])
  let ?h' = "as_heap sl'"
  note s = C(2) and g = C(4) and lt = C(10) and ge = C(11)
  have na: "?a \<notin> set ys" "?a \<notin> set zs" by (rule C(8), rule C(9))
  have ok: "as_ok sl (ys @ zs)" using assms(1) s by simp
  have nf: "\<not> (zs \<noteq> [] \<and> hkey ?h (hd zs) = key)" using assms(7) s by auto
  have t0: "tidy (?h(?a := Some n))" using assms(3) C(6) by (auto simp: tidy_def)
  then have t: "tidy ?h'" by (rule grown_tidy[OF _ g])
  have e: "hentry ?h' q = hentry ?h q" if "q \<noteq> ?a" for q
  proof -
    have "hkey ?h' q = hkey ?h q" using that by (simp add: grown_frame(2)[OF g], simp add: hkey_def)
    moreover have "handle_at ?h' q = handle_at ?h q" using that by (simp add: grown_handle[OF g], simp add: handle_at_def)
    ultimately show ?thesis by (simp add: tidy_hentry[OF t] tidy_hentry[OF assms(3)])
  qed
  have ea: "hentry ?h' ?a = (key, handle)"
    using C(5,7) by (simp add: tidy_hentry[OF t] grown_handle[OF g], simp add: handle_at_def)
  have ez: "map (hentry ?h') ys = map (hentry ?h) ys" "map (hentry ?h') zs = map (hentry ?h) zs"
    by (rule map_cong[OF refl], rule e, use na in blast)+
  have "\<forall>y \<in> set ys. fst (hentry ?h y) \<noteq> key" using lt by (auto simp: hentry_def)
  from map_of_put[OF this, of handle "map (hentry ?h) zs"]
  have m: "map_of (map (hentry ?h') (ys @ ?a # zs)) = (map_of (map (hentry ?h) ys @ map (hentry ?h) zs))(key \<mapsto> handle)"
    by (simp only: map_append list.map ez ea)
  have c: "hs_contents ?h' (ys @ ?a # zs) = (hs_contents ?h xs)(key := handle)"
    unfolding hs_contents_def m unfolding s map_append by (rule ext) (simp del: map_of_append)
  have cn: "hs_contents ?h xs key = None"
    using hs_contents_split[OF ok lt ge] nf s by (auto split: list.splits)
  have kq: "hkey ?h' q = hkey ?h q" if "q \<noteq> ?a" for q using that by (simp add: grown_frame(2)[OF g], simp add: hkey_def)
  have ks: "hkey ?h' ` set ys = hkey ?h ` set ys" "hkey ?h' ` set zs = hkey ?h ` set zs"
    by (rule image_cong[OF refl], rule kq, use na in blast)+
  have ky: "hkey ?h' ` set (ys @ ?a # zs) = insert key (hkey ?h ` set xs)"
    by (simp only: s set_append list.set image_Un image_insert ks C(7) Un_insert_right)
  have dm: "dom ?h' = insert ?a (dom ?h)"
  proof -
    have "?h' q = None \<longleftrightarrow> (?h(?a := Some n)) q = None" for q using g same_frameD(3)[of "?h(?a := Some n)" ?h' q] by (simp only: grown_def)
    then have "dom ?h' = dom (?h(?a := Some n))" unfolding dom_def by (simp only:)
    then show ?thesis by simp
  qed
  show thesis by (rule that[OF C(1,3) t c cn ky dm])
qed

lemma Insert_known_spec:
  assumes "as_ok sl xs" "key < INT64_MAX" "p \<in> set xs" "as_heap sl p = Some n" "hn_key n = key"
  shows "insert_loop coins alloc spurious i sl key handle =
      Some (hn_handle n, sl\<lparr>as_heap := (as_heap sl)(p := Some (n\<lparr>hn_handle := handle\<rparr>))\<rparr>)"
    "as_ok (sl\<lparr>as_heap := (as_heap sl)(p := Some (n\<lparr>hn_handle := handle\<rparr>))\<rparr>) xs"
    "hs_contents ((as_heap sl)(p := Some (n\<lparr>hn_handle := handle\<rparr>))) xs =
      (hs_contents (as_heap sl) xs)(key := (if node_IsMarked n then None else handle))"
    "hs_contents (as_heap sl) xs key = (if node_IsMarked n then None else hn_handle n)"
proof -
  let ?h = "as_heap sl"
  obtain ys zs where s: "xs = ys @ zs" and f: "Find sl ?h key = Some (zs \<noteq> [] \<and> hkey ?h (hd zs) = key,
       map (\<lambda>l. pred_at (hlen ?h) l (as_head sl # ys)) [0..<hs_max_level + 1],
       map (\<lambda>l. word_at ?h l (pred_at (hlen ?h) l (as_head sl # ys))) [0..<hs_max_level + 1])"
    "GetRawPtr (word_at ?h 0 (pred_at (hlen ?h) 0 (as_head sl # ys))) = hd (zs @ [as_tail sl])"
    and lt: "\<forall>y \<in> set ys. hkey ?h y < key" and ge: "\<forall>z \<in> set zs. key \<le> hkey ?h z"
    by (rule hs_search[OF assms(1,2)]) blast
  have pk: "hkey ?h p = key" using assms(4,5) by (simp add: hkey_def)
  then have "p \<in> set zs" using assms(3) s lt by auto
  then obtain z zs' where z: "zs = z # zs'" by (cases zs) auto
  have "hkey ?h z < hkey ?h z'" if "z' \<in> set zs'" for z'
    using as_ok_keys(1)[OF assms(1)] s z that by (simp add: sorted_wrt_append)
  then have zp: "z = p" using \<open>p \<in> set zs\<close> z ge pk by fastforce
  show "insert_loop coins alloc spurious i sl key handle =
      Some (hn_handle n, sl\<lparr>as_heap := ?h(p := Some (n\<lparr>hn_handle := handle\<rparr>))\<rparr>)"
    using f(2) z zp pk assms(4) by (subst insert_loop.simps) (simp add: f(1) UpdateHandle_def nth_append del: upt_Suc)
  have n: "same_links n (n\<lparr>hn_handle := handle\<rparr>)" "node_ok (n\<lparr>hn_handle := handle\<rparr>)"
    "visible (n\<lparr>hn_handle := handle\<rparr>) = (if node_IsMarked n then None else handle)"
    using as_okD(3)[OF assms(1,4)] by (simp_all add: same_links_def node_ok_def visible_def node_IsMarked_def)
  note N = as_ok_node[OF assms(1,3,4) n(1,2)]
  show "as_ok (sl\<lparr>as_heap := ?h(p := Some (n\<lparr>hn_handle := handle\<rparr>))\<rparr>) xs" by (rule N(1))
  show "hs_contents (?h(p := Some (n\<lparr>hn_handle := handle\<rparr>))) xs =
      (hs_contents ?h xs)(key := (if node_IsMarked n then None else handle))"
    using N(2) n(3) assms(5) by simp
  show "hs_contents ?h xs key = (if node_IsMarked n then None else hn_handle n)"
    using hs_contents_split[of sl ys zs key] assms(1,4) s lt ge z zp pk by (simp add: visible_def)
qed

section \<open>MarkDeleted, the walk along level 0 and the destructor\<close>

definition askip_fresh :: "'v askip \<Rightarrow> u64 \<Rightarrow> bool" where
  "askip_fresh sl a \<longleftrightarrow> as_heap sl a = None \<and> a \<noteq> 0 \<and> unat a < 2 ^ 47"

definition charge_of :: "'v hs_handle option \<Rightarrow> int" where
  "charge_of h = (case h of None \<Rightarrow> 0 | Some h \<Rightarrow> Charge h)"

lemma tidy_update: "tidy h \<Longrightarrow> (node_IsMarked n \<Longrightarrow> hn_handle n = None) \<Longrightarrow> tidy (h(p := Some n))"
  by (simp add: tidy_def)

lemma MarkDeleted_node:
  assumes "node_ok n" "\<not> node_IsMarked n" "MarkDeleted spurious n = (charge, n')"
  shows "charge = charge_of (hn_handle n)" "same_links n n'" "node_ok n'" "node_IsMarked n'" "hn_handle n' = None" "hn_key n' = hn_key n"
proof -
  have l: "0 < length (hn_nexts n)" using assms(1) by (simp add: node_ok_def)
  have n': "charge = charge_of (hn_handle n)"
    "n' = n\<lparr>hn_nexts := (hn_nexts n)[0 := deleted_word (hn_nexts n ! 0)], hn_handle := None\<rparr>"
    using assms(2,3) by (simp_all add: MarkDeleted_eq charge_of_def)
  show "charge = charge_of (hn_handle n)" by (rule n'(1))
  show "same_links n n'"
    using map_update_same[OF l, of GetRawPtr "deleted_word (hn_nexts n ! 0)"]
    by (simp add: n' same_links_def deleted_word_fields)
  show "node_IsMarked n'" using l by (simp add: n' node_IsMarked_def LoadAcquire_def LoadRelaxed_def deleted_word_fields)
  show "node_ok n'" using assms(1) by (simp add: n' node_ok_def)
qed (use assms(2,3) in \<open>auto simp: MarkDeleted_eq\<close>)

lemma as_ok_count: "as_ok (sl\<lparr>marked_deleted_num := m\<rparr>) xs = as_ok sl xs"
  by (simp add: as_ok_def as_nodes_def)

lemma list_MarkDeleted_spec:
  assumes "as_ok sl xs" "p \<in> set xs" "as_heap sl p = Some n" "\<not> node_IsMarked n"
  obtains sl' n' where "list_MarkDeleted spurious sl p = Some (charge_of (hn_handle n), sl')" "as_ok sl' xs"
    "hs_contents (as_heap sl') xs = (hs_contents (as_heap sl) xs)(hn_key n := None)"
    "as_heap sl' = (as_heap sl)(p := Some n')" "node_IsMarked n'" "hn_handle n' = None" "hn_key n' = hn_key n"
    "as_head sl' = as_head sl" "as_tail sl' = as_tail sl"
    "marked_deleted_num sl' = marked_deleted_num sl + (if 0 < charge_of (hn_handle n) then 1 else 0)"
proof -
  obtain charge n' where m: "MarkDeleted spurious n = (charge, n')" by fastforce
  note N = MarkDeleted_node[OF as_okD(3)[OF assms(1,3)] assms(4) m]
  note O = as_ok_node[OF assms(1-3) N(2,3)]
  have v: "visible n' = None" using N(4) by (simp add: visible_def)
  show thesis
    by (rule that[of "(sl\<lparr>as_heap := (as_heap sl)(p := Some n')\<rparr>)\<lparr>marked_deleted_num :=
        marked_deleted_num sl + (if 0 < charge_of (hn_handle n) then 1 else 0)\<rparr>" n'])
      (use O v N in \<open>simp_all add: list_MarkDeleted_def assms(3) m FetchAddRelaxed_def as_ok_count del: fun_upd_apply\<close>)
qed

lemma level0_next:
  assumes "as_ok sl (ys @ zs)"
  obtains w where "next_word (as_heap sl) 0 (last (as_head sl # ys)) = Some w" "GetRawPtr w = hd (zs @ [as_tail sl])"
proof -
  let ?h = "as_heap sl" and ?P = "as_head sl # ys"
  note D = as_okD[OF assms]
  have pos: "0 < hlen ?h x" if "x \<in> set ?P \<or> x \<in> set (zs @ [as_tail sl])" for x
    using as_ok_hlen[OF assms, of x] D(1)[of x] that by auto
  then have "filter (\<lambda>q. 0 < hlen ?h q) ?P = ?P" by (auto simp: filter_id_conv)
  then have p: "pred_at (hlen ?h) 0 ?P = last ?P" by (simp only: pred_at_def)
  have lk: "linked_to (hnxt ?h) (hlen ?h) ?P (first_of (hlen ?h) (zs @ [as_tail sl]) (\<lambda>_. None))"
  proof -
    have "as_head sl # (ys @ zs) @ [as_tail sl] = ?P @ zs @ [as_tail sl]" by simp
    then show ?thesis using D(12) by (simp only: linked_to_append)
  qed
  have "hnxt ?h 0 (last ?P) = first_of (hlen ?h) (zs @ [as_tail sl]) (\<lambda>_. None) 0"
    using pred_at_next[OF lk, of "as_head sl" 0] pos p by simp
  also have "\<dots> = Some (hd (zs @ [as_tail sl]))" using pos by (cases zs) auto
  finally have "hnxt ?h 0 (last ?P) = Some (hd (zs @ [as_tail sl]))" .
  then show thesis
    by (intro that[OF next_word_eq[OF pos]]) (auto simp: hnxt_def Let_def split: if_splits)
qed

lemma tail_unmarked: "as_ok sl xs \<Longrightarrow> as_heap sl (as_tail sl) = Some n \<Longrightarrow> \<not> node_IsMarked n"
  using as_okD(11)[of sl xs] marked_word[of "as_heap sl" "as_tail sl" n] by simp

text \<open>A walk whose function keeps the list: every node is passed, the marked ones without a call.\<close>

lemma iterate_spec:
  assumes "\<And>ys s. I ys s \<Longrightarrow> as_ok (list_of s) xs \<and> as_head (list_of s) = h0"
    "\<And>ys p zs s n. xs = ys @ p # zs \<Longrightarrow> I ys s \<Longrightarrow> as_heap (list_of s) p = Some n \<Longrightarrow>
      (if node_IsMarked n then I (ys @ [p]) s else \<exists>s'. fn p s = Some (True, s') \<and> I (ys @ [p]) s')"
    "I [] s"
  obtains s' where "IterateLevel list_of fn 0 s = Some s'" "I xs s'"
proof -
  have "\<exists>s'. iterate_from list_of fn 0 (last (h0 # ys)) s = Some s' \<and> I xs s'" if "xs = ys @ zs" "I ys s" for ys zs s
    using that
  proof (induction zs arbitrary: ys s)
    case Nil
    have ok: "as_ok (list_of s) (ys @ [])" "as_head (list_of s) = h0" using assms(1)[OF Nil(2)] Nil(1) by simp_all
    obtain w where w: "next_word (as_heap (list_of s)) 0 (last (h0 # ys)) = Some w" "GetRawPtr w = as_tail (list_of s)"
      using level0_next[OF ok(1)] ok(2) by auto
    obtain n where n: "as_heap (list_of s) (as_tail (list_of s)) = Some n" using as_okD(1)[OF ok(1)] by blast
    have "iterate_from list_of fn 0 (last (h0 # ys)) s = Some s"
      by (subst iterate_from.simps) (simp add: w n tail_unmarked[OF ok(1) n] del: last.simps)
    then show ?case using Nil by simp
  next
    case (Cons p zs)
    have ok: "as_ok (list_of s) (ys @ p # zs)" "as_head (list_of s) = h0" using assms(1)[OF Cons(3)] Cons(2) by simp_all
    obtain w where w: "next_word (as_heap (list_of s)) 0 (last (h0 # ys)) = Some w" "GetRawPtr w = p"
      using level0_next[OF ok(1)] ok(2) by auto
    have pt: "p \<noteq> as_tail (list_of s)" using as_okD(2)[OF ok(1)] by auto
    obtain n where n: "as_heap (list_of s) p = Some n" using as_okD(1)[OF ok(1), of p] by auto
    have xs: "xs = (ys @ [p]) @ zs" using Cons(2) by simp
    show ?case
    proof (cases "node_IsMarked n")
      case True
      then have I: "I (ys @ [p]) s" using assms(2)[OF Cons(2,3) n] by simp
      have "iterate_from list_of fn 0 (last (h0 # ys)) s = iterate_from list_of fn 0 p s"
        by (subst iterate_from.simps) (simp add: w n True del: last.simps)
      then show ?thesis using Cons.IH[OF xs I] by simp
    next
      case False
      then obtain s' where s': "fn p s = Some (True, s')" "I (ys @ [p]) s'" using assms(2)[OF Cons(2,3) n] by auto
      have "iterate_from list_of fn 0 (last (h0 # ys)) s = iterate_from list_of fn 0 p s'"
        by (subst iterate_from.simps) (simp add: w n False pt s'(1) del: last.simps)
      then show ?thesis using Cons.IH[OF xs s'(2)] by simp
    qed
  qed
  from this[of "[]" xs s] assms(3) assms(1)[OF assms(3)] show thesis using that by (auto simp: IterateLevel_def)
qed

lemma destroy_from_frees:
  assumes "linked_to (hnxt h) (hlen h) (p # xs @ [t]) (\<lambda>_. None)" "distinct (p # xs @ [t])"
    "\<And>q. h q \<noteq> None \<longleftrightarrow> q \<in> set (p # xs @ [t])" "\<And>q. h q \<noteq> None \<Longrightarrow> 1 \<le> hlen h q" "\<And>q. h q \<noteq> None \<Longrightarrow> q \<noteq> 0"
  shows "destroy_from t h p = Some Map.empty"
  using assms
proof (induction xs arbitrary: h p)
  case (Cons x xs)
  have p: "0 < hlen h p" "0 < hlen h x" using Cons.prems(3,4) by (force simp: Suc_le_eq)+
  have n: "hnxt h 0 p = Some x" using Cons.prems(1) p by simp
  then have r: "GetRawPtr (word_at h 0 p) = x" by (auto simp: hnxt_def Let_def split: if_splits)
  let ?g = "h(p := None)"
  have ne: "hnxt ?g l q = hnxt h l q" "hlen ?g q = hlen h q" if "q \<noteq> p" for l q
    using that by (simp_all add: hnxt_def word_at_def hlen_def)
  have pn: "p \<notin> set (x # xs @ [t])" using Cons.prems(2) by auto
  have "linked_to (hnxt ?g) (hlen ?g) (x # xs @ [t]) (\<lambda>_. None) = linked_to (hnxt h) (hlen h) (x # xs @ [t]) (\<lambda>_. None)"
    by (rule linked_to_cong) (use pn ne in metis)+
  then have lk: "linked_to (hnxt ?g) (hlen ?g) (x # xs @ [t]) (\<lambda>_. None)" using Cons.prems(1) by simp
  have "destroy_from t ?g x = Some Map.empty"
  proof (rule Cons.IH[OF lk])
    show "distinct (x # xs @ [t])" using Cons.prems(2) by simp
    show "?g q \<noteq> None \<longleftrightarrow> q \<in> set (x # xs @ [t])" for q using Cons.prems(3)[of q] pn by auto
    show "1 \<le> hlen ?g q" if "?g q \<noteq> None" for q
      using that Cons.prems(4)[of q] ne(2)[of q] by (cases "q = p") simp_all
    show "q \<noteq> 0" if "?g q \<noteq> None" for q using that Cons.prems(5)[of q] by (cases "q = p") simp_all
  qed
  moreover have "x \<noteq> t" using Cons.prems(2) by auto
  ultimately show ?case by (subst destroy_from.simps) (simp add: next_word_eq[OF p(1)] r)
next
  case Nil
  have p: "0 < hlen h p" "0 < hlen h t" using Nil(3,4) by (force simp: Suc_le_eq)+
  have n: "hnxt h 0 p = Some t" using Nil(1) p by simp
  then have r: "GetRawPtr (word_at h 0 p) = t" by (auto simp: hnxt_def Let_def split: if_splits)
  have "p \<noteq> t" "h t \<noteq> None" using Nil(2,3) by auto
  moreover have "h(p := None, t := None) = Map.empty"
  proof (rule ext)
    show "(h(p := None, t := None)) x = None" for x using Nil(3)[of x] by (cases "h x") auto
  qed
  ultimately show ?case by (subst destroy_from.simps) (simp add: next_word_eq[OF p(1)] r)
qed

lemma destroy_frees: "as_ok sl xs \<Longrightarrow> AtomicSkipList_destroy sl = Some Map.empty"
  unfolding AtomicSkipList_destroy_def
proof (rule destroy_from_frees[OF as_okD(12)])
  assume ok: "as_ok sl xs"
  show "distinct (as_head sl # xs @ [as_tail sl])" by (rule as_okD(2)[OF ok])
  show "as_heap sl q \<noteq> None \<longleftrightarrow> q \<in> set (as_head sl # xs @ [as_tail sl])" for q using as_okD(1)[OF ok, of q] by auto
  show "1 \<le> hlen (as_heap sl) q" if "as_heap sl q \<noteq> None" for q by (rule as_ok_hlen[OF ok that])
  show "q \<noteq> 0" if "as_heap sl q \<noteq> None" for q using that as_okD(4)[OF ok, of q] by blast
qed

definition new_addresses :: "u64 \<Rightarrow> u64 \<Rightarrow> bool" where
  "new_addresses a b \<longleftrightarrow> a \<noteq> b \<and> a \<noteq> 0 \<and> b \<noteq> 0 \<and> unat a < 2 ^ 47 \<and> unat b < 2 ^ 47"

lemma AtomicSkipList_new_ok:
  assumes "new_addresses a b"
  shows "as_ok (AtomicSkipList_new a b :: 'v askip) []" "tidy (as_heap (AtomicSkipList_new a b :: 'v askip))"
    "hs_contents (as_heap (AtomicSkipList_new a b :: 'v askip)) [] = Map.empty"
proof -
  let ?sl = "AtomicSkipList_new a b :: 'v askip"
  have h: "hlen (as_heap ?sl) a = hs_max_level + 1" "hlen (as_heap ?sl) b = hs_max_level + 1"
    using assms by (simp_all add: new_addresses_def AtomicSkipList_new_def hlen_def Node_new_def)
  have w: "word_at (as_heap ?sl) l a = b" "word_at (as_heap ?sl) l b = 0" if "l \<le> hs_max_level" for l
    using assms that by (simp_all add: new_addresses_def AtomicSkipList_new_def word_at_def Node_new_def nth_append del: replicate_Suc)
  have n: "hnxt (as_heap ?sl) l a = Some b" "hnxt (as_heap ?sl) l b = None" if "l \<le> hs_max_level" for l
    using w[OF that] assms GetRawPtr_self[of b] GetRawPtr_self[of 0] by (simp_all add: hnxt_def new_addresses_def Let_def)
  have f: "as_head ?sl = a" "as_tail ?sl = b" "node_num ?sl = 0" by (simp_all add: AtomicSkipList_new_def)
  have m: "\<not> IsMarked 0" by (simp add: IsMarked_bit)
  have nd: "node_ok n \<and> p \<noteq> 0 \<and> unat p < 2 ^ 47 \<and> hlen (as_heap ?sl) p \<le> hs_max_level + 1" if "as_heap ?sl p = Some n" for p n
    using that assms h by (auto simp: AtomicSkipList_new_def new_addresses_def node_ok_def Node_new_def MAX_HIT_COUNT_def split: if_splits)
  have k: "hkey (as_heap ?sl) b = INT64_MAX" using assms by (simp add: AtomicSkipList_new_def hkey_def Node_new_def)
  have d: "as_heap ?sl p \<noteq> None \<longleftrightarrow> p \<in> {a, b}" for p by (auto simp: AtomicSkipList_new_def)
  show "as_ok ?sl []"
    unfolding as_ok_def as_nodes_def Let_def f
    using assms h w(2)[of 0] n m nd k d by (simp add: new_addresses_def)
  show "tidy (as_heap ?sl)" using assms by (auto simp: tidy_def AtomicSkipList_new_def Node_new_def split: if_splits)
  show "hs_contents (as_heap ?sl) [] = Map.empty" by (rule ext) (simp add: hs_contents_def)
qed

section \<open>The list as a map with deleted keys\<close>

lemma as_ok_inj:
  assumes "as_ok sl xs" "p \<in> set xs" "q \<in> set xs" "hkey (as_heap sl) p = hkey (as_heap sl) q"
  shows "p = q"
proof -
  have "distinct (map (hkey (as_heap sl)) xs)"
    using as_ok_keys(1)[OF assms(1)] by (simp add: strict_sorted_iff)
  then show ?thesis using assms(2-4) by (simp add: distinct_map inj_on_def)
qed

lemma contents_at:
  assumes "as_ok sl xs" "p \<in> set xs"
  shows "hs_contents (as_heap sl) xs (hkey (as_heap sl) p) = Option.bind (as_heap sl p) visible"
proof -
  have "distinct (map fst (map (hentry (as_heap sl)) xs))"
    using as_ok_keys(1)[OF assms(1)] by (simp add: strict_sorted_iff comp_def hentry_def)
  then have "map_of (map (hentry (as_heap sl)) xs) (hkey (as_heap sl) p) = Some (Option.bind (as_heap sl p) visible)"
    using assms(2) by (intro map_of_is_SomeI) (auto simp: hentry_def)
  then show ?thesis by (simp add: hs_contents_def)
qed

lemma contents_dom: "hs_contents h xs k \<noteq> None \<Longrightarrow> k \<in> hkey h ` set xs"
  by (auto simp: hs_contents_def hentry_def bind_eq_Some_conv dest!: map_of_SomeD)

text \<open>
  What a client may rely on: the list holds the finite map m, and only keys of D can have a node that
  holds no handle, as one that is deleted but still linked.
\<close>

definition represents_by :: "'v askip \<Rightarrow> u64 list \<Rightarrow> (int \<rightharpoonup> 'v hs_handle) \<Rightarrow> int set \<Rightarrow> bool" where
  "represents_by sl xs m D \<longleftrightarrow> as_ok sl xs \<and> tidy (as_heap sl) \<and> m = hs_contents (as_heap sl) xs \<and>
     hkey (as_heap sl) ` set xs \<subseteq> dom m \<union> D"

definition hs_represents :: "'v askip \<Rightarrow> (int \<rightharpoonup> 'v hs_handle) \<Rightarrow> int set \<Rightarrow> bool" where
  "hs_represents sl m D \<longleftrightarrow> (\<exists>xs. represents_by sl xs m D)"

lemma representsD:
  assumes "represents_by sl xs m D"
  shows "as_ok sl xs" "tidy (as_heap sl)" "m = hs_contents (as_heap sl) xs" "p \<in> set xs \<Longrightarrow> hkey (as_heap sl) p \<in> dom m \<union> D"
    "p \<in> set xs \<Longrightarrow> as_heap sl p \<noteq> None"
  using assms as_okD(1) by (auto simp: represents_by_def)

lemma represents_node:
  assumes "represents_by sl xs m D" "p \<in> set xs" "as_heap sl p = Some n"
  shows "m (hn_key n) = hn_handle n" "hn_key n \<in> dom m \<union> D" "hn_key n < INT64_MAX"
proof -
  note R = representsD[OF assms(1)]
  have k: "hkey (as_heap sl) p = hn_key n" using assms(3) by (simp add: hkey_def)
  show "m (hn_key n) = hn_handle n"
    using contents_at[OF R(1) assms(2)] R(2,3) assms(3) by (auto simp: k visible_def tidy_def)
  show "hn_key n \<in> dom m \<union> D" using R(4)[OF assms(2)] k by simp
  show "hn_key n < INT64_MAX" using as_ok_keys(2)[OF R(1) assms(2)] k by simp
qed

lemma represents_dom: "represents_by sl xs m D \<Longrightarrow> m k = Some v \<Longrightarrow> \<exists>p \<in> set xs. hkey (as_heap sl) p = k"
  using contents_dom[of "as_heap sl" xs k] by (auto simp: represents_by_def)

lemma represents_finite: "hs_represents sl m D \<Longrightarrow> finite (dom m)"
proof -
  assume "hs_represents sl m D"
  then obtain xs where "represents_by sl xs m D" by (auto simp: hs_represents_def)
  then have "dom m \<subseteq> hkey (as_heap sl) ` set xs" using represents_dom by fastforce
  then show ?thesis by (rule finite_subset) simp
qed

lemma represents_unmarked:
  assumes "represents_by sl xs m D" "p \<in> set xs" "as_heap sl p = Some n" "hn_key n \<notin> D"
  shows "\<not> node_IsMarked n"
  using represents_node(1,2)[OF assms(1-3)] representsD(2)[OF assms(1)] assms(3,4) by (auto simp: tidy_def)

text \<open>Changing one node.\<close>

lemma represents_change:
  assumes "represents_by sl xs m D" "p \<in> set xs" "as_heap sl p = Some n" "same_links n n'" "node_ok n'"
    "node_IsMarked n' \<Longrightarrow> hn_handle n' = None" "hn_handle n' = None \<Longrightarrow> hn_key n \<in> D'" "D \<subseteq> D'"
  shows "represents_by (sl\<lparr>as_heap := (as_heap sl)(p := Some n')\<rparr>) xs (m(hn_key n := hn_handle n')) D'"
proof -
  note R = representsD[OF assms(1)] and N = as_ok_node[OF R(1) assms(2-5)]
  have v: "visible n' = hn_handle n'" using assms(6) by (auto simp: visible_def)
  have k: "hkey ((as_heap sl)(p := Some n')) = hkey (as_heap sl)" by (rule node_update(2)[of "as_heap sl" p n n', OF assms(3,4)])
  have "hkey (as_heap sl) ` set xs \<subseteq> dom (m(hn_key n := hn_handle n')) \<union> D'"
    using assms(1,7,8) by (auto simp: represents_by_def)
  then show ?thesis
    unfolding represents_by_def
    using N v R(2,3) assms(6) by (simp add: tidy_update k del: fun_upd_apply)
qed

lemma represents_keep:
  assumes "represents_by sl xs m D" "p \<in> set xs" "as_heap sl p = Some n" "same_links n n'" "node_ok n'"
    "node_IsMarked n' = node_IsMarked n" "hn_handle n' = hn_handle n"
  shows "represents_by (sl\<lparr>as_heap := (as_heap sl)(p := Some n')\<rparr>) xs m D"
proof -
  note R = representsD[OF assms(1)] and N = represents_node[OF assms(1-3)]
  have "represents_by (sl\<lparr>as_heap := (as_heap sl)(p := Some n')\<rparr>) xs (m(hn_key n := hn_handle n')) D"
    by (rule represents_change[OF assms(1-5)]) (use R(2) N assms(3,6,7) in \<open>auto simp: tidy_def\<close>)
  then show ?thesis using N(1) assms(7) by (metis fun_upd_triv)
qed

lemma represents_mark:
  assumes "represents_by sl xs m D" "p \<in> set xs" "as_heap sl p = Some n" "\<not> node_IsMarked n" "MarkDeleted spurious n = (charge, n')"
  shows "charge = charge_of (m (hn_key n))" "node_IsMarked n'" "hn_key n' = hn_key n"
    "represents_by (sl\<lparr>as_heap := (as_heap sl)(p := Some n')\<rparr>) xs (m(hn_key n := None)) (insert (hn_key n) D)"
proof -
  note R = representsD[OF assms(1)]
  note N = MarkDeleted_node[OF as_okD(3)[OF R(1) assms(3)] assms(4,5)]
  show "charge = charge_of (m (hn_key n))" "node_IsMarked n'" "hn_key n' = hn_key n"
    using N represents_node(1)[OF assms(1-3)] by simp_all
  show "represents_by (sl\<lparr>as_heap := (as_heap sl)(p := Some n')\<rparr>) xs (m(hn_key n := None)) (insert (hn_key n) D)"
    using represents_change[OF assms(1-3) N(2,3), of "insert (hn_key n) D"] N(5) by auto
qed

lemma represents_count: "represents_by (sl\<lparr>marked_deleted_num := c\<rparr>) xs m D = represents_by sl xs m D"
  by (simp add: represents_by_def as_ok_count)

lemma represents_delete:
  assumes "represents_by sl xs m D" "p \<in> set xs" "as_heap sl p = Some n" "\<not> node_IsMarked n"
  obtains sl' n' where "list_MarkDeleted spurious sl p = Some (charge_of (m (hn_key n)), sl')"
    "represents_by sl' xs (m(hn_key n := None)) (insert (hn_key n) D)"
    "as_heap sl' = (as_heap sl)(p := Some n')" "node_IsMarked n'" "hn_key n' = hn_key n"
    "as_head sl' = as_head sl"
    "marked_deleted_num sl' = marked_deleted_num sl + (if 0 < charge_of (m (hn_key n)) then 1 else 0)"
proof -
  obtain charge n' where m: "MarkDeleted spurious n = (charge, n')" by fastforce
  note M = represents_mark[OF assms m]
  let ?sl = "sl\<lparr>as_heap := (as_heap sl)(p := Some n')\<rparr>"
  let ?c = "marked_deleted_num sl + (if 0 < charge then 1 else 0)"
  have "list_MarkDeleted spurious sl p = Some (charge, ?sl\<lparr>marked_deleted_num := ?c\<rparr>)"
    by (cases sl) (use assms(3) m in \<open>simp add: list_MarkDeleted_def FetchAddRelaxed_def\<close>)
  moreover have "represents_by (?sl\<lparr>marked_deleted_num := ?c\<rparr>) xs (m(hn_key n := None)) (insert (hn_key n) D)"
    using M(4) by (simp only: represents_count)
  ultimately show thesis using that[of "?sl\<lparr>marked_deleted_num := ?c\<rparr>" n'] M(1-3) by simp
qed

lemma Get_node_by:
  assumes "represents_by sl xs m D" "key < INT64_MAX"
  obtains (none) "Get_node sl key = Some None" "m key = None"
  | (some) p n where "Get_node sl key = Some (Some p)" "p \<in> set xs" "as_heap sl p = Some n" "hn_key n = key"
      "\<not> node_IsMarked n" "m key = hn_handle n"
  by (rule Get_node_cases[OF representsD(1)[OF assms(1)] assms(2)])
    (use representsD(3)[OF assms(1)] in \<open>auto intro: that\<close>)

lemma hs_Get_spec:
  assumes "hs_represents sl m D" "key < INT64_MAX"
  obtains sl' where "Get spurious sl key = Some (m key, sl')" "hs_represents sl' m D"
proof -
  obtain xs where r: "represents_by sl xs m D" using assms(1) by (auto simp: hs_represents_def)
  show thesis
  proof (rule Get_node_by[OF r assms(2)])
    assume "Get_node sl key = Some None" "m key = None"
    then show thesis using that[of sl] assms(1) by (simp add: Get_def)
  next
    fix p n assume p: "Get_node sl key = Some (Some p)" "p \<in> set xs" "as_heap sl p = Some n" "hn_key n = key"
      "\<not> node_IsMarked n" "m key = hn_handle n"
    let ?n = "IncrHitCount spurious n"
    have "represents_by (sl\<lparr>as_heap := (as_heap sl)(p := Some ?n)\<rparr>) xs m D"
      by (rule represents_keep[OF r p(2,3)])
        (use as_okD(3)[OF representsD(1)[OF r] p(3)] in \<open>auto simp: same_links_def IncrHitCount_eq node_ok_def node_IsMarked_def\<close>)
    then show thesis
      by (intro that) (use p in \<open>auto simp: Get_def GetHandle_def hs_represents_def\<close>)
  qed
qed

lemma hs_Insert_spec:
  assumes "hs_represents sl m D" "key < INT64_MAX" "key \<notin> D" "askip_fresh sl (alloc i)"
  obtains sl' where "insert_loop coins alloc spurious i sl key (Some handle) = Some (m key, sl')" "hs_represents sl' (m(key \<mapsto> handle)) D"
    "dom (as_heap sl') \<subseteq> insert (alloc i) (dom (as_heap sl))"
proof -
  obtain xs where r: "represents_by sl xs m D" using assms(1) by (auto simp: hs_represents_def)
  note R = representsD[OF r]
  have a: "as_heap sl (alloc i) = None" "alloc i \<noteq> 0" "unat (alloc i) < 2 ^ 47" using assms(4) by (simp_all add: askip_fresh_def)
  show thesis
  proof (cases "\<exists>p \<in> set xs. hkey (as_heap sl) p = key")
    case True
    then obtain p n where p: "p \<in> set xs" "as_heap sl p = Some n" "hn_key n = key" using R(5) by (force simp: hkey_def)
    have u: "\<not> node_IsMarked n" using represents_unmarked[OF r p(1,2)] p(3) assms(3) by simp
    let ?n = "n\<lparr>hn_handle := Some handle\<rparr>"
    have u': "\<not> node_IsMarked ?n" using u by (simp add: node_IsMarked_def)
    have "represents_by (sl\<lparr>as_heap := (as_heap sl)(p := Some ?n)\<rparr>) xs (m(hn_key n := hn_handle ?n)) D"
      by (rule represents_change[OF r p(1,2)])
        (use u' as_okD(3)[OF R(1) p(2)] in \<open>simp_all add: same_links_def node_ok_def\<close>)
    then have "hs_represents (sl\<lparr>as_heap := (as_heap sl)(p := Some ?n)\<rparr>) (m(key \<mapsto> handle)) D"
      using p(3) by (auto simp: hs_represents_def)
    moreover have "insert_loop coins alloc spurious i sl key (Some handle) = Some (m key, sl\<lparr>as_heap := (as_heap sl)(p := Some ?n)\<rparr>)"
      using Insert_known_spec(1)[OF R(1) assms(2) p] represents_node(1)[OF r p(1,2)] p(3) by simp
    ultimately show thesis using p(2) by (intro that) (auto split: if_splits)
  next
    case False
    then have ne: "\<forall>x \<in> set xs. hkey (as_heap sl) x \<noteq> key" by blast
    obtain sl' xs' where I: "insert_loop coins alloc spurious i sl key (Some handle) = Some (None, sl')" "as_ok sl' xs'"
      "tidy (as_heap sl')" "hs_contents (as_heap sl') xs' = (hs_contents (as_heap sl) xs)(key := Some handle)"
      "hs_contents (as_heap sl) xs key = None" "hkey (as_heap sl') ` set xs' = insert key (hkey (as_heap sl) ` set xs)"
      "dom (as_heap sl') = insert (alloc i) (dom (as_heap sl))"
      by (rule Insert_new_spec[where alloc = alloc and i = i and coins = coins and spurious = spurious and handle = "Some handle", OF R(1) assms(2) R(2) a ne]) blast
    have "represents_by sl' xs' (m(key \<mapsto> handle)) D"
      using I(2-4,6) r by (auto simp: represents_by_def)
    then show thesis by (intro that) (use I(1,5,7) R(3) in \<open>auto simp: hs_represents_def\<close>)
  qed
qed

lemma new_represents: "new_addresses a b \<Longrightarrow> represents_by (AtomicSkipList_new a b) [] Map.empty {}"
  by (simp add: represents_by_def AtomicSkipList_new_ok)

lemma hs_MarkDeleted_spec:
  assumes "hs_represents sl m D" "key < INT64_MAX" "m key = Some handle"
  obtains p sl' xs where "Get_node sl key = Some (Some p)" "list_MarkDeleted spurious sl p = Some (Charge handle, sl')"
    "represents_by sl' xs (m(key := None)) (insert key D)"
    "marked_deleted_num sl' = marked_deleted_num sl + (if 0 < Charge handle then 1 else 0)"
    "deleted_key (as_heap sl') xs key"
proof -
  obtain xs where r: "represents_by sl xs m D" using assms(1) by (auto simp: hs_represents_def)
  obtain p n where p: "Get_node sl key = Some (Some p)" "p \<in> set xs" "as_heap sl p = Some n" "hn_key n = key" "\<not> node_IsMarked n"
    by (rule Get_node_by[OF r assms(2)]) (use assms(3) in auto)
  obtain sl' n' where M: "list_MarkDeleted spurious sl p = Some (charge_of (m (hn_key n)), sl')"
    "represents_by sl' xs (m(hn_key n := None)) (insert (hn_key n) D)"
    "as_heap sl' = (as_heap sl)(p := Some n')" "node_IsMarked n'" "hn_key n' = hn_key n"
    "marked_deleted_num sl' = marked_deleted_num sl + (if 0 < charge_of (m (hn_key n)) then 1 else 0)"
    by (rule represents_delete[OF r p(2,3,5), of spurious]) blast
  have "charge_of (m (hn_key n)) = Charge handle" using assms(3) p(4) by (simp add: charge_of_def)
  moreover have "deleted_key (as_heap sl') xs key" using M(3-5) p(2,4) by (auto simp: deleted_key_def)
  ultimately show thesis using that[OF p(1), of sl' xs] M(1,2,6) p(4) by simp
qed

section \<open>Properties\<close>

text \<open>C29: Insert of the atomic skip list refines the update of a finite map. For every tower height, every
  address of the new node and every number of spurious failures of the weak compare-and-swaps it
  ends, returns the handle the key had, stores the new one and changes no other key, as
  long as the key has no deleted node; a Get of the key then finds it.\<close>

theorem hs_Insert_refines:
  assumes "hs_represents sl m D" "key < INT64_MAX" "key \<notin> D" "askip_fresh sl (alloc 0)"
  shows "\<exists>sl'. Insert coins alloc spurious sl key (Some handle) = Some (m key, sl') \<and>
     hs_represents sl' (m(key \<mapsto> handle)) D \<and>
     (\<exists>sl''. Get spurious' sl' key = Some (Some handle, sl'') \<and> hs_represents sl'' (m(key \<mapsto> handle)) D)"
proof -
  obtain sl' where I: "insert_loop coins alloc spurious 0 sl key (Some handle) = Some (m key, sl')"
    "hs_represents sl' (m(key \<mapsto> handle)) D" by (rule hs_Insert_spec[where alloc = alloc and i = 0, OF assms])
  obtain sl'' where "Get spurious' sl' key = Some ((m(key \<mapsto> handle)) key, sl'')" "hs_represents sl'' (m(key \<mapsto> handle)) D"
    by (rule hs_Get_spec[OF I(2) assms(2)])
  then show ?thesis using I by (simp add: Insert_def)
qed

text \<open>Deleting is the removal of the key from the map: the node Get finds is marked once, its charge is
  returned, the number of deleted nodes counts it if the charge is positive, and no other
  key changes.\<close>

theorem hs_MarkDeleted_refines:
  assumes "hs_represents sl m D" "key < INT64_MAX" "m key = Some handle"
  shows "\<exists>p sl'. Get_node sl key = Some (Some p) \<and> list_MarkDeleted spurious sl p = Some (Charge handle, sl') \<and>
     hs_represents sl' (m(key := None)) (insert key D) \<and>
     marked_deleted_num sl' = marked_deleted_num sl + (if 0 < Charge handle then 1 else 0) \<and>
     Get_node sl' key = Some None"
proof -
  obtain p sl' xs where M: "Get_node sl key = Some (Some p)" "list_MarkDeleted spurious sl p = Some (Charge handle, sl')"
    "represents_by sl' xs (m(key := None)) (insert key D)"
    "marked_deleted_num sl' = marked_deleted_num sl + (if 0 < Charge handle then 1 else 0)"
    "deleted_key (as_heap sl') xs key" by (rule hs_MarkDeleted_spec[OF assms])
  have "Get_node sl' key = Some None"
  proof (rule Get_node_by[OF M(3) assms(2)])
    fix q n assume q: "q \<in> set xs" "as_heap sl' q = Some n" "hn_key n = key" "\<not> node_IsMarked n"
    obtain p' n' where d: "p' \<in> set xs" "as_heap sl' p' = Some n'" "hn_key n' = key" "node_IsMarked n'"
      using M(5) by (auto simp: deleted_key_def)
    have "q = p'" by (rule as_ok_inj[OF representsD(1)[OF M(3)] q(1) d(1)]) (simp add: hkey_def q(2,3) d(2,3))
    then show ?thesis using q d by simp
  qed simp
  then show ?thesis using M(1-4) by (auto simp: hs_represents_def)
qed

text \<open>An insertion at a key whose node is deleted but still linked is lost: it ends as
  any other, but a Get does not find the key and no other key changes, until
  a compaction drops the node.\<close>

theorem hs_Insert_lost:
  assumes "as_ok sl xs" "key < INT64_MAX" "deleted_key (as_heap sl) xs key"
  shows "\<exists>old sl'. Insert coins alloc spurious sl key (Some handle) = Some (old, sl') \<and> as_ok sl' xs \<and>
     hs_contents (as_heap sl') xs = hs_contents (as_heap sl) xs \<and>
     (\<exists>sl''. Get spurious' sl' key = Some (None, sl''))"
proof -
  obtain p n where p: "p \<in> set xs" "as_heap sl p = Some n" "hn_key n = key" "node_IsMarked n"
    using assms(3) by (auto simp: deleted_key_def)
  note K = Insert_known_spec[OF assms(1,2) p(1-3)]
  let ?sl = "sl\<lparr>as_heap := (as_heap sl)(p := Some (n\<lparr>hn_handle := Some handle\<rparr>))\<rparr>"
  have c: "hs_contents (as_heap ?sl) xs = hs_contents (as_heap sl) xs"
    using K(3)[of "Some handle"] K(4) p(4) by (simp add: fun_upd_idem del: fun_upd_apply)
  obtain sl'' where "Get spurious' ?sl key = Some (hs_contents (as_heap ?sl) xs key, sl'')"
    by (rule Get_spec[OF K(2) assms(2)]) blast
  then have "Get spurious' ?sl key = Some (None, sl'')" using c K(4) p(4) by simp
  then show ?thesis using K(1)[of coins alloc spurious 0 "Some handle"] K(2)[of "Some handle"] c unfolding Insert_def by auto
qed

text \<open>Get never changes the map: it finds the handle of exactly the keys of the map. A
  new list is empty, and the destructor frees every node of any list, once, with the two sentinels.\<close>

theorem hs_Get_and_destroy:
  assumes "new_addresses a b" "hs_represents (sl :: 'v askip) m D" "key < INT64_MAX"
  shows "hs_represents (AtomicSkipList_new a b :: 'v askip) Map.empty {} \<and>
     (\<exists>sl'. Get spurious sl key = Some (m key, sl') \<and> hs_represents sl' m D) \<and>
     AtomicSkipList_destroy sl = Some Map.empty"
proof (intro conjI)
  show "hs_represents (AtomicSkipList_new a b :: 'v askip) Map.empty {}"
    using new_represents[OF assms(1)] by (auto simp: hs_represents_def)
  show "\<exists>sl'. Get spurious sl key = Some (m key, sl') \<and> hs_represents sl' m D"
    using hs_Get_spec[OF assms(2,3), of spurious] by blast
  show "AtomicSkipList_destroy sl = Some Map.empty"
    using assms(2) by (auto simp: hs_represents_def represents_by_def destroy_frees)
qed

section \<open>Instances\<close>

lemma demo_new: "hs_represents (AtomicSkipList_new 16 32 :: nat askip) Map.empty {}"
  unfolding hs_represents_def by (rule exI, rule new_represents) (simp add: new_addresses_def)

lemma demo_fresh: "askip_fresh (AtomicSkipList_new 16 32 :: nat askip) 48"
  by (simp add: askip_fresh_def AtomicSkipList_new_def)

lemma demo_key5: "5 < INT64_MAX"
  by (simp add: INT64_MAX_def)

lemma demo_askip:
  obtains sl :: "nat askip" where "hs_represents sl [5 \<mapsto> \<lparr>hs_value = 7, hs_charge = 40\<rparr>] {}"
  by (rule hs_Insert_spec[OF demo_new demo_key5, of "\<lambda>_. 48" "0 :: nat" "\<lambda>_ _. True" "\<lambda>_. 1" "\<lparr>hs_value = 7, hs_charge = 40\<rparr>"])
    (simp_all add: demo_fresh)

lemma hs_Insert_refines_witness:
  "\<exists>sl'. Insert (\<lambda>_ _. True) (\<lambda>_. 48) (\<lambda>l. l) (AtomicSkipList_new 16 32) 5 (Some \<lparr>hs_value = 7 :: nat, hs_charge = 40\<rparr>) = Some (None, sl')"
  using hs_Insert_refines[OF demo_new demo_key5, of "\<lambda>_. 48" "\<lambda>_ _. True" "\<lambda>l. l" "\<lparr>hs_value = 7, hs_charge = 40\<rparr>"] demo_fresh by auto

lemma hs_MarkDeleted_refines_witness:
  "\<exists>(sl :: nat askip) p sl'. list_MarkDeleted 2 sl p = Some (40, sl') \<and> Get_node sl' 5 = Some None"
proof -
  obtain sl :: "nat askip" where "hs_represents sl [5 \<mapsto> \<lparr>hs_value = 7, hs_charge = 40\<rparr>] {}" by (rule demo_askip)
  from hs_MarkDeleted_refines[OF this demo_key5, where spurious = 2] show ?thesis by auto
qed

lemma hs_Insert_lost_witness:
  "\<exists>(sl :: nat askip) old sl' sl''. Insert (\<lambda>_ _. True) (\<lambda>_. 64) (\<lambda>_. 0) sl 5 (Some \<lparr>hs_value = 8, hs_charge = 1\<rparr>) = Some (old, sl') \<and>
     Get 0 sl' 5 = Some (None, sl'')"
proof -
  obtain sl :: "nat askip" where r: "hs_represents sl [5 \<mapsto> \<lparr>hs_value = 7, hs_charge = 40\<rparr>] {}" by (rule demo_askip)
  obtain sl1 xs m D where "represents_by (sl1 :: nat askip) xs m D" "deleted_key (as_heap sl1) xs 5"
    by (rule hs_MarkDeleted_spec[OF r demo_key5, of "\<lparr>hs_value = 7, hs_charge = 40\<rparr>" 0]) auto
  from hs_Insert_lost[OF representsD(1)[OF this(1)] demo_key5 this(2), where spurious' = 0] show ?thesis by blast
qed

lemma hs_Get_and_destroy_witness:
  "(\<exists>sl'. Get 3 (AtomicSkipList_new 16 32 :: nat askip) 5 = Some (None, sl')) \<and>
   AtomicSkipList_destroy (AtomicSkipList_new 16 32 :: nat askip) = Some Map.empty"
proof -
  have "new_addresses 16 32" by (simp add: new_addresses_def)
  from hs_Get_and_destroy[OF this demo_new demo_key5, of 3] show ?thesis by auto
qed

end
