(* ===== verification/HS_Cache.thy ===== *)
theory HS_Cache
  imports HS_Insert Bounded_Queue Sharding Doubles
begin

text \<open>
  HashSkipCache of hash_skip/cache.h, its operations run one after the other: Get and Insert of a client,
  one turn of the decay thread, one turn of the compaction thread. Every bucket is an optional atomic
  skip list with a heap of its own; the atomic shared pointer to it is its content. None is undefined behaviour (a
  division by no buckets, an index out of range, an overflow of the int32_t charge or of an int64_t sum) or a loop
  that does not end; memory_used_, an atomic int64_t, wraps around.
\<close>

section \<open>Operations\<close>

record low_key =
  bucket_index :: int
  gen :: int
  low_key_of :: int

record 'v hs_cache =
  hc_capicity :: int
  memory_used :: int
  buckets :: "'v askip option list"
  buckets_gen :: "int list"
  low_queue :: "low_key queue"
  init_done :: bool

definition HashSkipCache_new :: "int \<Rightarrow> int \<Rightarrow> 'v hs_cache" where
  "HashSkipCache_new capicity bucket_num =
     \<lparr>hc_capicity = capicity, memory_used = 0, buckets = replicate (nat bucket_num) None,
      buckets_gen = map (\<lambda>i. StoreRelaxed i 0) (replicate (nat bucket_num) 0),
      low_queue = Queue_new \<lparr>bucket_index = 0, gen = 0, low_key_of = 0\<rparr> 10000, init_done = False\<rparr>"

text \<open>The i-th list is allocated with its sentinels at the addresses addr i.\<close>

definition Init :: "(nat \<Rightarrow> u64 \<times> u64) \<Rightarrow> 'v hs_cache \<Rightarrow> bool \<times> 'v hs_cache" where
  "Init addr c =
     (if init_done c then (True, c)
      else (True, c\<lparr>buckets := map (\<lambda>i. Some (case addr i of (a, b) \<Rightarrow> AtomicSkipList_new a b)) [0..<length (buckets c)],
                    init_done := True\<rparr>))"

definition GetCapicity :: "'v hs_cache \<Rightarrow> int" where
  "GetCapicity c = hc_capicity c"

definition GetMemoryUsed :: "'v hs_cache \<Rightarrow> int" where
  "GetMemoryUsed c = LoadRelaxed (memory_used c)"

definition GetLowQueueSize :: "'v hs_cache \<Rightarrow> int" where
  "GetLowQueueSize c = Size (low_queue c)"

text \<open>key % buckets_.size(): the key is converted to size_t.\<close>

definition bucket_of :: "nat \<Rightarrow> int \<Rightarrow> nat" where
  "bucket_of n key = residue64 n (of_int key)"

definition load_bucket :: "'v hs_cache \<Rightarrow> nat \<Rightarrow> 'v askip option option" where
  "load_bucket c i = (if i < length (buckets c) then Some (buckets c ! i) else None)"

definition put_bucket :: "'v hs_cache \<Rightarrow> nat \<Rightarrow> 'v askip \<Rightarrow> 'v hs_cache" where
  "put_bucket c i sl = c\<lparr>buckets := (buckets c)[i := Some sl]\<rparr>"

definition hc_Get :: "nat \<Rightarrow> 'v hs_cache \<Rightarrow> int \<Rightarrow> ('v hs_handle option \<times> 'v hs_cache) option" where
  "hc_Get spurious c key =
     do { let i = bucket_of (length (buckets c)) key;
          bucket \<leftarrow> load_bucket c i;
          case bucket of
            None \<Rightarrow> Some (None, c)
          | Some sl \<Rightarrow> do { (handle, sl) \<leftarrow> Get spurious sl key; Some (handle, put_bucket c i sl) } }"

text \<open>The body of the loop of Evict: an entry of low_queue_, and the charge it frees.\<close>

definition evict_one :: "nat \<Rightarrow> 'v hs_cache \<Rightarrow> (int \<times> 'v hs_cache) option" where
  "evict_one spurious c =
     do { (it, q) \<leftarrow> Pop spurious (low_queue c);
          let c = c\<lparr>low_queue := q\<rparr>;
          case it of
            None \<Rightarrow> Some (0, c)
          | Some it \<Rightarrow>
              do { let i = nat (bucket_index it);
                   bucket \<leftarrow> load_bucket c i;
                   if gen it \<noteq> LoadAcquire (buckets_gen c ! i) then Some (0, c)
                   else case bucket of
                     None \<Rightarrow> Some (0, c)
                   | Some sl \<Rightarrow>
                       do { node \<leftarrow> Get_node sl (low_key_of it);
                            case node of
                              None \<Rightarrow> Some (0, c)
                            | Some p \<Rightarrow>
                                do { n \<leftarrow> as_heap sl p;
                                     let (free_charge, n) = MarkDeleted spurious n;
                                     let c = put_bucket c i (sl\<lparr>as_heap := (as_heap sl)(p := Some n)\<rparr>);
                                     if 0 < free_charge
                                     then Some (free_charge, c\<lparr>memory_used := wrap64 (snd (FetchAddRelaxed (memory_used c) free_charge))\<rparr>)
                                     else Some (0, c) } } } }"

text \<open>The difference cannot overflow: while the loop runs need_charge is positive, and what an entry frees is not negative.\<close>

partial_function (option) evict_low :: "nat \<Rightarrow> 'v hs_cache \<Rightarrow> int \<Rightarrow> 'v hs_cache option" where
  [code]: "evict_low spurious c need_charge =
     (if 0 < need_charge \<and> 0 < Size (low_queue c)
      then do { (freed, c) \<leftarrow> evict_one spurious c; evict_low spurious c (need_charge - freed) }
      else Some c)"

definition hc_Evict :: "nat \<Rightarrow> 'v hs_cache \<Rightarrow> int \<Rightarrow> (bool \<times> 'v hs_cache) option" where
  "hc_Evict spurious c need_charge = do { c \<leftarrow> evict_low spurious c need_charge; Some (True, c) }"

text \<open>
  The bucket is loaded before the eviction, which changes the nodes of the same list; so Insert works on
  the list as it is after the eviction.
\<close>

definition hc_Insert ::
  "(nat \<Rightarrow> nat \<Rightarrow> bool) \<Rightarrow> (nat \<Rightarrow> u64) \<Rightarrow> (nat \<Rightarrow> nat) \<Rightarrow> nat \<Rightarrow> 'v hs_cache \<Rightarrow> int \<Rightarrow> 'v hs_handle option \<Rightarrow>
   (bool \<times> 'v hs_cache) option" where
  "hc_Insert coins alloc spurious espurious c key handle =
     do { let charge = charge_of handle;
          let i = bucket_of (length (buckets c)) key;
          bucket \<leftarrow> load_bucket c i;
          if bucket = None then Some (False, c)
          else do { used \<leftarrow> add64 (LoadRelaxed (memory_used c)) charge;
                    (ok, c) \<leftarrow> (if hc_capicity c < used then hc_Evict espurious c charge else Some (True, c));
                    if \<not> ok then Some (False, c)
                    else do { sl \<leftarrow> buckets c ! i;
                              (old_handle, sl) \<leftarrow> Insert coins alloc spurious sl key handle;
                              charge \<leftarrow> (if old_handle = None then Some charge else sub32 charge (charge_of old_handle));
                              let c = put_bucket c i sl;
                              Some (True, c\<lparr>memory_used := wrap64 (snd (FetchAddRelaxed (memory_used c) charge))\<rparr>) } } }"

text \<open>The function DecayOneBucket iterates with.\<close>

definition decay_node :: "nat \<Rightarrow> nat \<Rightarrow> u64 \<Rightarrow> 'v hs_cache \<Rightarrow> (bool \<times> 'v hs_cache) option" where
  "decay_node spurious i p c =
     do { sl \<leftarrow> buckets c ! i;
          n \<leftarrow> as_heap sl p;
          let (hit_count, n) = DecrHitCount spurious 100 n;
          let sl = sl\<lparr>as_heap := (as_heap sl)(p := Some n)\<rparr>;
          let c = put_bucket c i sl;
          if 100 < hit_count then Some (True, c)
          else if 0 < hit_count
          then do { let g = LoadAcquire (buckets_gen c ! i);
                    (_, q) \<leftarrow> Push spurious (low_queue c) \<lparr>bucket_index = int i, gen = g, low_key_of = hn_key n\<rparr>;
                    Some (True, c\<lparr>low_queue := q\<rparr>) }
          else do { (free_charge, sl) \<leftarrow> list_MarkDeleted spurious sl p;
                    let c = put_bucket c i sl;
                    Some (True, if 0 < free_charge then c\<lparr>memory_used := wrap64 (snd (FetchSubRelaxed (memory_used c) free_charge))\<rparr> else c) } }"

definition DecayOneBucket :: "nat \<Rightarrow> 'v hs_cache \<Rightarrow> nat \<Rightarrow> 'v hs_cache option" where
  "DecayOneBucket spurious c i =
     do { bucket \<leftarrow> load_bucket c i;
          case bucket of
            None \<Rightarrow> Some c
          | Some _ \<Rightarrow> IterateLevel (\<lambda>c. the (buckets c ! i)) (decay_node spurious i) 0 c }"

text \<open>The doubles 0.7 and 0.3, a product and a quotient as they are rounded.\<close>

definition dbl_07 :: dbl where
  "dbl_07 = \<lparr>mantissa = 6305039478318694, point = 53\<rparr>"

definition dbl_03 :: dbl where
  "dbl_03 = \<lparr>mantissa = 5404319552844595, point = 54\<rparr>"

definition round_int :: "int \<Rightarrow> int" where
  "round_int x = sgn x * int (round53 (nat \<bar>x\<bar>))"

definition above_product :: "int \<Rightarrow> int \<Rightarrow> dbl \<Rightarrow> bool" where
  "above_product x y d \<longleftrightarrow> round_int (round_int y * int (mantissa d)) < round_int x * 2 ^ point d"

text \<open>
  x * 1.0 / y < d for counters below 2^53: the quotient has 128 digits after the point and
  one that is 1 when it is not exact, so that rounding to 53 digits is right. By zero it is an infinity, or not a number.
\<close>

definition below_quotient :: "int \<Rightarrow> int \<Rightarrow> dbl \<Rightarrow> bool" where
  "below_quotient x y d =
     (if y = 0 then x < 0
      else if x \<noteq> 0 \<and> (x < 0) \<noteq> (y < 0) then True
      else let a = nat \<bar>x\<bar> * 2 ^ 128; b = nat \<bar>y\<bar>; q = 2 * (a div b) + (if b dvd a then 0 else 1)
           in round53 q * 2 ^ point d < mantissa d * 2 ^ 129)"

definition ShouldDecay :: "'v hs_cache \<Rightarrow> bool" where
  "ShouldDecay c =
     (let enable_decay = above_product (LoadRelaxed (memory_used c)) (hc_capicity c) dbl_07
      in if \<not> enable_decay then below_quotient (Size (low_queue c)) (Capicity (low_queue c)) dbl_07 else enable_decay)"

text \<open>The function CompactOneBucket iterates with; k counts its calls, which allocate at alloc k.\<close>

definition compact_node ::
  "(nat \<Rightarrow> nat \<Rightarrow> nat \<Rightarrow> bool) \<Rightarrow> (nat \<Rightarrow> nat \<Rightarrow> u64) \<Rightarrow> (nat \<Rightarrow> nat \<Rightarrow> nat) \<Rightarrow> 'v askip \<Rightarrow> u64 \<Rightarrow> nat \<times> 'v askip \<Rightarrow>
   (bool \<times> (nat \<times> 'v askip)) option" where
  "compact_node coins alloc spurious bucket p s =
     (case s of (k, new_bucket) \<Rightarrow>
       do { n \<leftarrow> as_heap bucket p;
            (_, new_bucket) \<leftarrow> Insert (coins k) (alloc k) (spurious k) new_bucket (hn_key n) (GetHandle n);
            Some (True, (k + 1, new_bucket)) })"

definition CompactOneBucket ::
  "(nat \<Rightarrow> nat \<Rightarrow> nat \<Rightarrow> bool) \<Rightarrow> (nat \<Rightarrow> nat \<Rightarrow> u64) \<Rightarrow> (nat \<Rightarrow> nat \<Rightarrow> nat) \<Rightarrow> u64 \<times> u64 \<Rightarrow> 'v hs_cache \<Rightarrow> nat \<Rightarrow>
   'v askip option option" where
  "CompactOneBucket coins alloc spurious addr c i =
     do { bucket \<leftarrow> load_bucket c i;
          case bucket of
            None \<Rightarrow> Some None
          | Some sl \<Rightarrow>
              if below_quotient (marked_deleted_num sl) (node_num sl) dbl_03 then Some None
              else do { (_, new_bucket) \<leftarrow> IterateLevel (\<lambda>_. sl) (compact_node coins alloc spurious sl) 0
                          (0, case addr of (a, b) \<Rightarrow> AtomicSkipList_new a b);
                        Some (Some new_bucket) } }"

text \<open>A turn of Compact: the old list is destroyed when the last pointer to it is replaced.\<close>

definition compact_turn ::
  "(nat \<Rightarrow> nat \<Rightarrow> nat \<Rightarrow> bool) \<Rightarrow> (nat \<Rightarrow> nat \<Rightarrow> u64) \<Rightarrow> (nat \<Rightarrow> nat \<Rightarrow> nat) \<Rightarrow> u64 \<times> u64 \<Rightarrow> 'v hs_cache \<Rightarrow> nat \<Rightarrow>
   'v hs_cache option" where
  "compact_turn coins alloc spurious addr c i =
     do { new_bucket \<leftarrow> CompactOneBucket coins alloc spurious addr c i;
          case new_bucket of
            None \<Rightarrow> Some c
          | Some sl \<Rightarrow>
              do { old \<leftarrow> buckets c ! i;
                   _ \<leftarrow> AtomicSkipList_destroy old;
                   Some ((put_bucket c i sl)\<lparr>buckets_gen :=
                     (buckets_gen c)[i := snd (FetchAddRelaxed (buckets_gen c ! i) 1)]\<rparr>) } }"

interpretation bucket_route: router bucket_of
  by unfold_locales (simp add: bucket_of_def residue64_less)

section \<open>The cache as a map\<close>

text \<open>
  M is the map the cache holds, D the keys that may have a node without a handle. Every bucket represents
  the part of M whose keys are routed to it. The entries of the low queue name a bucket.
\<close>

definition part :: "nat \<Rightarrow> nat \<Rightarrow> (int \<rightharpoonup> 'h) \<Rightarrow> int \<rightharpoonup> 'h" where
  "part n i M = (\<lambda>k. if bucket_of n k = i then M k else None)"

definition keys_of :: "nat \<Rightarrow> nat \<Rightarrow> int set \<Rightarrow> int set" where
  "keys_of n i D = {k \<in> D. bucket_of n k = i}"

definition low_ok :: "nat \<Rightarrow> low_key queue \<Rightarrow> bool" where
  "low_ok n q \<longleftrightarrow> queue_inv q \<and>
     (\<forall>it \<in> set (queue_list q). 0 \<le> bucket_index it \<and> nat (bucket_index it) < n \<and> low_key_of it < INT64_MAX)"

definition hc_represents :: "'v hs_cache \<Rightarrow> (int \<rightharpoonup> 'v hs_handle) \<Rightarrow> int set \<Rightarrow> bool" where
  "hc_represents c M D \<longleftrightarrow> (let n = length (buckets c) in 0 < n \<and> length (buckets_gen c) = n \<and> low_ok n (low_queue c) \<and>
     (\<forall>i < n. \<exists>sl. buckets c ! i = Some sl \<and> hs_represents sl (part n i M) (keys_of n i D)))"

text \<open>The charges of the entries of the map.\<close>

definition hc_charges :: "(int \<rightharpoonup> 'v hs_handle) \<Rightarrow> int" where
  "hc_charges M = (\<Sum>k \<in> dom M. charge_of (M k))"

lemma charge_of_None [simp]: "charge_of None = 0"
  by (simp add: charge_of_def)

lemma charges_superset: "finite A \<Longrightarrow> dom M \<subseteq> A \<Longrightarrow> hc_charges M = (\<Sum>k \<in> A. charge_of (M k))"
  unfolding hc_charges_def by (rule sum.mono_neutral_left) (auto simp: domIff)

lemma charges_upd:
  assumes "finite (dom M)"
  shows "hc_charges (M(k := v)) = hc_charges M - charge_of (M k) + charge_of v"
proof -
  let ?A = "insert k (dom M)"
  have f: "finite ?A" using assms by simp
  have s: "(\<Sum>x \<in> ?A - {k}. charge_of ((M(k := v)) x)) = (\<Sum>x \<in> ?A - {k}. charge_of (M x))" by (rule sum.cong) auto
  have a: "hc_charges (M(k := v)) = (\<Sum>x \<in> ?A. charge_of ((M(k := v)) x))" by (rule charges_superset[OF f]) auto
  have b: "hc_charges M = (\<Sum>x \<in> ?A. charge_of (M x))" by (rule charges_superset[OF f]) auto
  show ?thesis
    unfolding a b sum.remove[OF f insertI1] s by simp
qed

lemma charges_restrict:
  assumes "finite (dom M)" "finite R"
  shows "hc_charges (M |` (- R)) = hc_charges M - (\<Sum>k \<in> R. charge_of (M k))"
  using assms(2)
proof (induction R)
  case (insert k R)
  have e: "M |` (- insert k R) = (M |` (- R))(k := None)" by (rule ext) (auto simp: restrict_map_def)
  have "finite (dom (M |` (- R)))" using assms(1) by simp
  from charges_upd[OF this, of k None]
  have "hc_charges (M |` (- insert k R)) = hc_charges (M |` (- R)) - charge_of (M k)"
    using insert(2) by (simp only: e) (simp add: restrict_map_def)
  then show ?case using insert by simp
qed (simp add: restrict_map_def)

lemma hc_representsD:
  assumes "hc_represents c M D"
  shows "0 < length (buckets c)" "length (buckets_gen c) = length (buckets c)" "low_ok (length (buckets c)) (low_queue c)"
    "i < length (buckets c) \<Longrightarrow> \<exists>sl. buckets c ! i = Some sl \<and>
      hs_represents sl (part (length (buckets c)) i M) (keys_of (length (buckets c)) i D)"
  using assms by (auto simp: hc_represents_def Let_def)

lemma hc_bucket:
  assumes "hc_represents c M D"
  obtains sl where "bucket_of (length (buckets c)) key < length (buckets c)" "buckets c ! bucket_of (length (buckets c)) key = Some sl"
    "load_bucket c (bucket_of (length (buckets c)) key) = Some (Some sl)"
    "hs_represents sl (part (length (buckets c)) (bucket_of (length (buckets c)) key) M)
       (keys_of (length (buckets c)) (bucket_of (length (buckets c)) key) D)"
proof -
  have l: "bucket_of (length (buckets c)) key < length (buckets c)" by (rule bucket_route.route_less[OF hc_representsD(1)[OF assms]])
  then show thesis using hc_representsD(4)[OF assms l] that by (auto simp: load_bucket_def)
qed

lemma hc_finite:
  assumes "hc_represents c M D"
  shows "finite (dom M)"
proof -
  let ?n = "length (buckets c)"
  have "dom M \<subseteq> (\<Union>i < ?n. dom (part ?n i M))"
  proof
    fix k assume "k \<in> dom M"
    then have "k \<in> dom (part ?n (bucket_of ?n k) M)" by (auto simp: part_def)
    then show "k \<in> (\<Union>i < ?n. dom (part ?n i M))" using bucket_route.route_less[OF hc_representsD(1)[OF assms]] by blast
  qed
  moreover have "finite (dom (part ?n i M))" if "i < ?n" for i
    using hc_representsD(4)[OF assms that] represents_finite by blast
  ultimately show ?thesis by (meson finite_UN_I finite_lessThan finite_subset lessThan_iff)
qed

lemma put_bucket_simps [simp]:
  "length (buckets (put_bucket c i sl)) = length (buckets c)" "buckets_gen (put_bucket c i sl) = buckets_gen c"
  "low_queue (put_bucket c i sl) = low_queue c" "memory_used (put_bucket c i sl) = memory_used c"
  "hc_capicity (put_bucket c i sl) = hc_capicity c"
  "i < length (buckets c) \<Longrightarrow> buckets (put_bucket c i sl) ! j = (if j = i then Some sl else buckets c ! j)"
  by (simp_all add: put_bucket_def)

text \<open>One bucket changes, and with it the map on its keys.\<close>

lemma hc_put:
  assumes "hc_represents c M D" "i < length (buckets c)" "length (buckets c') = length (buckets c)"
    "buckets c' ! i = Some sl" "\<And>j. j \<noteq> i \<Longrightarrow> j < length (buckets c) \<Longrightarrow> buckets c' ! j = buckets c ! j"
    "length (buckets_gen c') = length (buckets_gen c)" "low_ok (length (buckets c)) (low_queue c')"
    "hs_represents sl (part (length (buckets c)) i M') (keys_of (length (buckets c)) i D')"
    "\<And>k. bucket_of (length (buckets c)) k \<noteq> i \<Longrightarrow> M' k = M k \<and> (k \<in> D' \<longleftrightarrow> k \<in> D)"
  shows "hc_represents c' M' D'"
proof -
  let ?n = "length (buckets c)"
  note R = hc_representsD[OF assms(1)]
  have "\<exists>sl. buckets c' ! j = Some sl \<and> hs_represents sl (part ?n j M') (keys_of ?n j D')" if j: "j < ?n" for j
  proof (cases "j = i")
    case False
    then have "part ?n j M' = part ?n j M" "keys_of ?n j D' = keys_of ?n j D"
      using assms(9) by (auto simp: part_def keys_of_def fun_eq_iff)
    then show ?thesis using R(4)[OF j] assms(5)[OF False j] by simp
  qed (use assms(4,8) in simp)
  then show ?thesis unfolding hc_represents_def Let_def assms(3) using R assms(6,7) by simp
qed

lemma hc_represents_frame:
  "hc_represents (c\<lparr>memory_used := u\<rparr>) M D = hc_represents c M D"
  by (simp add: hc_represents_def)

lemma hc_represents_low:
  "hc_represents c M D \<Longrightarrow> low_ok (length (buckets c)) q \<Longrightarrow> hc_represents (c\<lparr>low_queue := q\<rparr>) M D"
  by (simp add: hc_represents_def Let_def)

section \<open>Get and Insert\<close>

lemma hc_Get_facts:
  assumes "hc_represents c M D" "key < INT64_MAX"
  obtains c' where "hc_Get spurious c key = Some (M key, c')" "hc_represents c' M D" "memory_used c' = memory_used c"
    "low_queue c' = low_queue c" "hc_capicity c' = hc_capicity c" "length (buckets c') = length (buckets c)"
proof -
  let ?n = "length (buckets c)"
  let ?i = "bucket_of ?n key"
  obtain sl where b: "?i < ?n" "buckets c ! ?i = Some sl" "load_bucket c ?i = Some (Some sl)"
    "hs_represents sl (part ?n ?i M) (keys_of ?n ?i D)" by (rule hc_bucket[OF assms(1), of key])
  obtain sl' where g: "Get spurious sl key = Some (part ?n ?i M key, sl')" "hs_represents sl' (part ?n ?i M) (keys_of ?n ?i D)"
    by (rule hs_Get_spec[OF b(4) assms(2)])
  have "hc_represents (put_bucket c ?i sl') M D"
    by (rule hc_put[OF assms(1) b(1), of _ sl']) (use b(1) g(2) hc_representsD[OF assms(1)] in simp_all)
  then show thesis
    by (rule that[of "put_bucket c ?i sl'", rotated]) (use b(3) g(1) in \<open>simp_all add: hc_Get_def part_def\<close>)
qed

lemma hc_Get_spec:
  assumes "hc_represents c M D" "key < INT64_MAX"
  obtains c' where "hc_Get spurious c key = Some (M key, c')" "hc_represents c' M D" "memory_used c' = memory_used c"
  by (rule hc_Get_facts[OF assms])

definition hc_fresh :: "'v hs_cache \<Rightarrow> u64 \<Rightarrow> bool" where
  "hc_fresh c a \<longleftrightarrow> (\<forall>sl. Some sl \<in> set (buckets c) \<longrightarrow> askip_fresh sl a)"

lemma hc_fresh_put:
  assumes "hc_fresh c a" "i < length (buckets c)" "buckets c ! i = Some sl" "as_heap sl' a = None \<longleftrightarrow> as_heap sl a = None"
  shows "hc_fresh (put_bucket c i sl') a"
proof -
  have "Some sl \<in> set (buckets c)" using assms(2,3) by (metis nth_mem)
  then have "askip_fresh sl' a" using assms(1,4) by (simp add: hc_fresh_def askip_fresh_def)
  then show ?thesis using assms(1) set_update_subset_insert[of "buckets c" i "Some sl'"]
    unfolding hc_fresh_def put_bucket_def by auto
qed

text \<open>With room nothing is evicted; without room and with nothing in the low queue nothing is evicted either, and the
  insertion is carried out all the same.\<close>

lemma hc_Insert_facts:
  assumes "hc_represents c M D" "key < INT64_MAX" "key \<notin> D" "hc_fresh c (alloc 0)"
    "memory_used c + Charge handle \<le> hc_capicity c \<or> Size (low_queue c) \<le> 0"
    "int64_range (memory_used c + Charge handle)" "int32_range (Charge handle - charge_of (M key))"
    "int64_range (memory_used c + Charge handle - charge_of (M key))"
  obtains c' where "hc_Insert coins alloc spurious espurious c key (Some handle) = Some (True, c')"
    "hc_represents c' (M(key \<mapsto> handle)) D" "memory_used c' = memory_used c + Charge handle - charge_of (M key)"
    "length (buckets c') = length (buckets c)" "low_queue c' = low_queue c" "hc_capicity c' = hc_capicity c"
proof -
  let ?n = "length (buckets c)"
  let ?i = "bucket_of ?n key"
  obtain sl where b: "?i < ?n" "buckets c ! ?i = Some sl" "load_bucket c ?i = Some (Some sl)"
    "hs_represents sl (part ?n ?i M) (keys_of ?n ?i D)" by (rule hc_bucket[OF assms(1), of key])
  have f: "askip_fresh sl (alloc 0)" using assms(4) b(1,2) unfolding hc_fresh_def by (metis nth_mem)
  have k: "key \<notin> keys_of ?n ?i D" using assms(3) by (simp add: keys_of_def)
  obtain sl' where I: "insert_loop coins alloc spurious 0 sl key (Some handle) = Some (part ?n ?i M key, sl')"
    "hs_represents sl' ((part ?n ?i M)(key \<mapsto> handle)) (keys_of ?n ?i D)"
    by (rule hs_Insert_spec[where alloc = alloc and i = 0, OF b(4) assms(2) k f]) blast
  have pu: "(part ?n ?i M)(key \<mapsto> handle) = part ?n ?i (M(key \<mapsto> handle))" by (rule ext) (simp add: part_def)
  have r: "hc_represents (put_bucket c ?i sl') (M(key \<mapsto> handle)) D"
    by (rule hc_put[OF assms(1) b(1), of _ sl']) (use b(1) I(2) pu hc_representsD[OF assms(1)] in \<open>auto\<close>)
  define charge where "charge = (if M key = None then Charge handle else Charge handle - charge_of (M key))"
  have ch: "charge = Charge handle - charge_of (M key)" by (simp add: charge_def)
  have ev: "hc_Evict espurious c ch = Some (True, c)" if "Size (low_queue c) \<le> 0" for ch
    using that by (simp add: hc_Evict_def evict_low.simps)
  have "hc_Insert coins alloc spurious espurious c key (Some handle) =
      Some (True, (put_bucket c ?i sl')\<lparr>memory_used := memory_used c + charge\<rparr>)"
  proof -
    have "memory_used c + charge = memory_used c + Charge handle - charge_of (M key)" using ch by simp
    then have "wrap64 (memory_used c + charge) = memory_used c + charge" using wrap64_id[OF assms(8)] by (simp only:)
    moreover have "add64 (memory_used c) (Charge handle) = Some (memory_used c + Charge handle)"
      "sub32 (Charge handle) (charge_of (M key)) = Some (Charge handle - charge_of (M key))"
      using assms(6,7) by (simp_all add: add64_def sub32_def)
    moreover have "charge_of (Some handle) = Charge handle" by (simp add: charge_of_def)
    ultimately show ?thesis
      using b(2,3) I(1) assms(5) ev
      by (auto simp add: hc_Insert_def Insert_def charge_def part_def LoadRelaxed_def FetchAddRelaxed_def Let_def)
  qed
  then show thesis
    by (rule that) (use r ch in \<open>simp_all add: hc_represents_frame\<close>)
qed

text \<open>No charge is negative. The counter memory_used_ may have drifted from the sum of the charges, but it is not so far below
  it that taking them off could wrap around.\<close>

definition charges_ok :: "(int \<rightharpoonup> 'v hs_handle) \<Rightarrow> bool" where
  "charges_ok M \<longleftrightarrow> (\<forall>k h. M k = Some h \<longrightarrow> 0 \<le> Charge h)"

definition counter_ok :: "'v hs_cache \<Rightarrow> (int \<rightharpoonup> 'v hs_handle) \<Rightarrow> bool" where
  "counter_ok c M \<longleftrightarrow> memory_used c < 2 ^ 63 \<and> - (2 ^ 63) \<le> memory_used c - hc_charges M"

lemma charges_ok_nonneg: "charges_ok M \<Longrightarrow> 0 \<le> charge_of (M k)"
  by (cases "M k") (auto simp: charges_ok_def charge_of_def)

lemma charges_ok_restrict: "charges_ok M \<Longrightarrow> charges_ok (M |` A)"
  by (auto simp: charges_ok_def restrict_map_def)

lemma charge_of_range: "int32_range (charge_of h)"
  using Charge_range by (cases h) (auto simp: charge_of_def int32_range_def)

lemma charge_le_charges:
  assumes "charges_ok M" "finite (dom M)"
  shows "charge_of (M k) \<le> hc_charges M" "0 \<le> hc_charges M"
proof -
  have nn: "0 \<le> charge_of (M x)" for x by (rule charges_ok_nonneg[OF assms(1)])
  then show "0 \<le> hc_charges M" unfolding hc_charges_def by (simp add: sum_nonneg)
  have "hc_charges M = (\<Sum>x \<in> insert k (dom M). charge_of (M x))" by (rule charges_superset) (use assms(2) in auto)
  also have "\<dots> \<ge> charge_of (M k)" using nn assms(2) by (intro member_le_sum) auto
  finally show "charge_of (M k) \<le> hc_charges M" .
qed

lemma hc_Insert_spec:
  assumes "hc_represents c M D" "key < INT64_MAX" "key \<notin> D" "hc_fresh c (alloc 0)" "memory_used c + Charge handle \<le> hc_capicity c"
    "charges_ok M" "counter_ok c M" "0 \<le> Charge handle" "hc_capicity c < 2 ^ 63"
  obtains c' where "hc_Insert coins alloc spurious espurious c key (Some handle) = Some (True, c')"
    "hc_represents c' (M(key \<mapsto> handle)) D" "memory_used c' = memory_used c + Charge handle - charge_of (M key)"
    "length (buckets c') = length (buckets c)"
proof -
  have c: "0 \<le> charge_of (M key)" "charge_of (M key) \<le> hc_charges M" "0 \<le> hc_charges M"
    using charges_ok_nonneg[OF assms(6)] charge_le_charges[OF assms(6) hc_finite[OF assms(1)]] by simp_all
  have a: "int64_range (memory_used c + Charge handle)" "int64_range (memory_used c + Charge handle - charge_of (M key))"
    using c assms(5,7-9) by (auto simp: counter_ok_def int64_range_def)
  have s: "int32_range (Charge handle - charge_of (M key))"
    using c(1) assms(8) Charge_range[of handle] charge_of_range[of "M key"] by (auto simp: int32_range_def)
  show thesis by (rule hc_Insert_facts[where alloc = alloc, OF assms(1-4) disjI1[OF assms(5)] a(1) s a(2)]) (rule that)
qed

lemma Size_pos: "queue_inv q \<Longrightarrow> 0 < Size q \<longleftrightarrow> queue_list q \<noteq> []"
  using length_queue_list[of q] by (cases "queue_list q") (auto simp: Size_def Let_def atomic_defs)

lemma low_pop:
  assumes "low_ok n q" "queue_list q = it # its"
  obtains q' where "Pop spurious q = Some (Some it, q')" "low_ok n q'" "queue_list q' = its"
    "nat (bucket_index it) < n" "low_key_of it < INT64_MAX"
  using assms ring.pop_item[of q it its spurious] by (auto simp: low_ok_def)

lemma restrict_all [simp]: "M |` UNIV = M"
  by (rule ext) (simp add: restrict_map_def)

lemma restrict_one: "M |` (- {k}) = M(k := None)"
  by (rule ext) (simp add: restrict_map_def)

lemma restrict_more: "(M |` (- R)) |` (- S) = M |` (- (R \<union> S))"
  by (rule ext) (auto simp: restrict_map_def)

lemma part_drop: "part n i (M(k := None)) = (part n i M)(k := None)"
  by (rule ext) (simp add: part_def)

text \<open>The key of any node of a bucket is routed to it.\<close>

lemma node_bucket:
  assumes "represents_by sl xs (part n i M) (keys_of n i D)" "p \<in> set xs" "as_heap sl p = Some nd"
  shows "bucket_of n (hn_key nd) = i" "part n i M (hn_key nd) = M (hn_key nd)" "M (hn_key nd) = hn_handle nd"
    "keys_of n i (insert (hn_key nd) D) = insert (hn_key nd) (keys_of n i D)"
proof -
  note N = represents_node[OF assms]
  show b: "bucket_of n (hn_key nd) = i" using N(2) by (auto simp: part_def keys_of_def split: if_splits)
  then show e: "part n i M (hn_key nd) = M (hn_key nd)" by (simp add: part_def)
  show "M (hn_key nd) = hn_handle nd" using N(1) e by simp
  show "keys_of n i (insert (hn_key nd) D) = insert (hn_key nd) (keys_of n i D)" using b by (auto simp: keys_of_def)
qed

text \<open>An entry whose generation is current and whose key the map still holds.\<close>

definition live_entry :: "'v hs_cache \<Rightarrow> (int \<rightharpoonup> 'v hs_handle) \<Rightarrow> low_key \<Rightarrow> bool" where
  "live_entry c M it \<longleftrightarrow> gen it = buckets_gen c ! nat (bucket_index it) \<and>
     nat (bucket_index it) = bucket_of (length (buckets c)) (low_key_of it) \<and> M (low_key_of it) \<noteq> None"

lemma evict_one_spec:
  assumes "hc_represents c M D" "queue_list (low_queue c) = it # its" "charges_ok M"
    "- (2 ^ 63) \<le> memory_used c" "memory_used c + hc_charges M < 2 ^ 63"
  obtains freed c' R where "evict_one spurious c = Some (freed, c')" "finite R" "hc_represents c' (M |` (- R)) (D \<union> R)"
    "freed = hc_charges M - hc_charges (M |` (- R))" "memory_used c' = memory_used c + freed" "0 \<le> freed"
    "queue_list (low_queue c') = its" "live_entry c M it \<Longrightarrow> low_key_of it \<in> R"
proof -
  let ?n = "length (buckets c)" and ?i = "nat (bucket_index it)" and ?k = "low_key_of it"
  note R = hc_representsD[OF assms(1)]
  obtain q where q: "Pop spurious (low_queue c) = Some (Some it, q)" "low_ok ?n q" "queue_list q = its" "?i < ?n" "?k < INT64_MAX"
    by (rule low_pop[OF R(3) assms(2), of spurious])
  obtain sl xs where sl: "buckets c ! ?i = Some sl" "represents_by sl xs (part ?n ?i M) (keys_of ?n ?i D)"
    using R(4)[OF q(4)] by (auto simp: hs_represents_def)
  let ?c = "c\<lparr>low_queue := q\<rparr>"
  have lb: "load_bucket ?c ?i = Some (Some sl)" using q(4) sl(1) by (simp add: load_bucket_def)
  have r0: "hc_represents ?c M D" by (rule hc_represents_low[OF assms(1) q(2)])
  show thesis
  proof (cases "gen it \<noteq> LoadAcquire (buckets_gen c ! ?i)")
    case True
    then have "evict_one spurious c = Some (0, ?c)" using q(1) lb by (simp add: evict_one_def Let_def)
    then show thesis by (rule that[of _ _ "{}"]) (use r0 q(3) True in \<open>simp_all add: live_entry_def LoadAcquire_def LoadRelaxed_def\<close>)
  next
    case False
    show thesis
    proof (rule Get_node_by[OF sl(2) q(5)])
      assume "Get_node sl ?k = Some None" and mk: "part ?n ?i M ?k = None"
      then have "evict_one spurious c = Some (0, ?c)" using q(1) lb False by (simp add: evict_one_def Let_def)
      then show thesis by (rule that[of _ _ "{}"]) (use r0 q(3) mk in \<open>auto simp: live_entry_def part_def\<close>)
    next
      fix p n assume p: "Get_node sl ?k = Some (Some p)" "p \<in> set xs" "as_heap sl p = Some n" "hn_key n = ?k" "\<not> node_IsMarked n"
      obtain charge n' where m: "MarkDeleted spurious n = (charge, n')" by fastforce
      note K = represents_mark[OF sl(2) p(2,3,5) m] and B = node_bucket[OF sl(2) p(2,3), unfolded p(4)]
      have ch: "charge = charge_of (M ?k)" using K(1) B(2) p(4) by simp
      let ?sl = "sl\<lparr>as_heap := (as_heap sl)(p := Some n')\<rparr>"
      let ?d = "(put_bucket ?c ?i ?sl)\<lparr>memory_used := memory_used c + charge\<rparr>"
      have rep: "represents_by ?sl xs (part ?n ?i (M(?k := None))) (keys_of ?n ?i (insert ?k D))"
        using K(4) unfolding p(4) part_drop B(4) .
      have r: "hc_represents (put_bucket ?c ?i ?sl) (M(?k := None)) (insert ?k D)"
        by (rule hc_put[OF r0, of ?i _ ?sl]) (use q(2,4) rep B(1) in \<open>auto simp: hs_represents_def\<close>)
      have nn: "0 \<le> charge" unfolding ch by (rule charges_ok_nonneg[OF assms(3)])
      have "charge \<le> hc_charges M" unfolding ch by (rule charge_le_charges(1)[OF assms(3) hc_finite[OF assms(1)]])
      then have w: "wrap64 (memory_used c + charge) = memory_used c + charge"
        by (intro wrap64_id) (use nn assms(4,5) in \<open>simp add: int64_range_def\<close>)
      have e: "evict_one spurious c = Some (charge, ?d)"
        using q(1) lb False p(1,3) m nn w by (auto simp: evict_one_def Let_def FetchAddRelaxed_def put_bucket_def)
      have hc: "charge = hc_charges M - hc_charges (M |` (- {?k}))"
        using charges_restrict[OF hc_finite[OF assms(1)], of "{?k}"] ch by simp
      show thesis
        by (rule that[OF e _ _ hc]) (use r q(3) nn in \<open>simp_all add: restrict_one hc_represents_frame\<close>)
    qed
  qed
qed

lemma evict_low_spec:
  assumes "hc_represents c M D" "charges_ok M" "- (2 ^ 63) \<le> memory_used c" "memory_used c + hc_charges M < 2 ^ 63"
  obtains c' R where "evict_low spurious c need = Some c'" "finite R" "hc_represents c' (M |` (- R)) (D \<union> R)"
    "memory_used c' = memory_used c + (hc_charges M - hc_charges (M |` (- R)))"
    "need \<le> hc_charges M - hc_charges (M |` (- R)) \<or> queue_list (low_queue c') = []"
    "\<And>it its. 0 < need \<Longrightarrow> queue_list (low_queue c) = it # its \<Longrightarrow> live_entry c M it \<Longrightarrow> low_key_of it \<in> R"
  using assms
proof (induction "queue_list (low_queue c)" arbitrary: c M D need thesis)
  case Nil
  have "\<not> 0 < Size (low_queue c)" using Size_pos Nil(1) hc_representsD(3)[OF Nil(3)] by (metis low_ok_def)
  then have "evict_low spurious c need = Some c" by (subst evict_low.simps) simp
  then show ?case by (rule Nil(2)[of _ "{}"]) (use Nil(1,3) in auto)
next
  case (Cons it its)
  have sz: "0 < Size (low_queue c)" using Size_pos Cons(2) hc_representsD(3)[OF Cons(4)] by (metis low_ok_def list.discI)
  show ?case
  proof (cases "0 < need")
    case False
    then have "evict_low spurious c need = Some c" by (subst evict_low.simps) simp
    then show ?thesis by (rule Cons(3)[of _ "{}"]) (use False Cons(4) in simp_all)
  next
    case True
    obtain freed d R where e: "evict_one spurious c = Some (freed, d)" "finite R" "hc_represents d (M |` (- R)) (D \<union> R)"
      "freed = hc_charges M - hc_charges (M |` (- R))" "memory_used d = memory_used c + freed" "0 \<le> freed"
      "queue_list (low_queue d) = its" "live_entry c M it \<Longrightarrow> low_key_of it \<in> R"
      by (rule evict_one_spec[OF Cons(4) Cons(2)[symmetric] Cons(5-7), of spurious]) blast
    obtain c' S where s: "evict_low spurious d (need - freed) = Some c'" "finite S"
      "hc_represents c' ((M |` (- R)) |` (- S)) (D \<union> R \<union> S)"
      "memory_used c' = memory_used d + (hc_charges (M |` (- R)) - hc_charges ((M |` (- R)) |` (- S)))"
      "need - freed \<le> hc_charges (M |` (- R)) - hc_charges ((M |` (- R)) |` (- S)) \<or> queue_list (low_queue c') = []"
      by (rule Cons(1)[OF e(7)[symmetric] _ e(3) charges_ok_restrict[OF Cons(5)]]) (use e(4-6) Cons(6,7) in auto)
    have "evict_low spurious c need = Some c'"
      using e(1) s(1) True sz by (subst evict_low.simps) simp
    then show ?thesis
      by (rule Cons(3)[of _ "R \<union> S"]) (use e s Cons(2) in \<open>auto simp: restrict_more Un_assoc\<close>)
  qed
qed

section \<open>Decay\<close>

text \<open>A bucket has at most one node for every key.\<close>

lemma represents_length:
  assumes "represents_by sl xs m D" "finite K" "dom m \<union> D \<subseteq> K"
  shows "length xs \<le> card K"
proof -
  note R = representsD[OF assms(1)]
  have "sorted_wrt (<) (map (hkey (as_heap sl)) xs)" by (rule as_ok_keys(1)[OF R(1)])
  then have "distinct (map (hkey (as_heap sl)) xs)" using strict_sorted_iff by blast
  then have "length xs = card (hkey (as_heap sl) ` set xs)" by (metis distinct_card length_map set_map)
  also have "\<dots> \<le> card K" by (rule card_mono[OF assms(2)]) (use R(4) assms(3) in blast)
  finally show ?thesis .
qed

lemma part_keys: "dom (part n i M) \<union> keys_of n i D \<subseteq> dom M \<union> D"
  by (auto simp: part_def keys_of_def split: if_splits)

lemma same_memory: "u = memory_used c \<Longrightarrow> c\<lparr>memory_used := u\<rparr> = c"
  by (cases c) simp

text \<open>The keys of the nodes of ps that are not deleted and have a hit count of at most 100.\<close>

definition cold_keys :: "'v hheap \<Rightarrow> u64 list \<Rightarrow> int set" where
  "cold_keys h ps = {k. \<exists>p \<in> set ps. \<exists>n. h p = Some n \<and> hn_key n = k \<and> \<not> node_IsMarked n \<and> hit_count n \<le> 100}"

lemma cold_keys_snoc:
  "h p = Some n \<Longrightarrow> cold_keys h (ys @ [p]) = cold_keys h ys \<union> (if \<not> node_IsMarked n \<and> hit_count n \<le> 100 then {hn_key n} else {})"
  by (auto simp: cold_keys_def)

lemma cold_keys_finite: "finite (cold_keys h ps)"
proof -
  have "cold_keys h ps \<subseteq> hkey h ` set ps"
  proof
    fix k assume "k \<in> cold_keys h ps"
    then obtain p n where "p \<in> set ps" "h p = Some n" "hn_key n = k" by (auto simp: cold_keys_def)
    then have "p \<in> set ps" "k = hkey h p" by (simp_all add: hkey_def)
    then show "k \<in> hkey h ` set ps" by blast
  qed
  then show ?thesis by (rule finite_subset) simp
qed

lemma low_push:
  assumes "low_ok n q" "0 \<le> bucket_index it" "nat (bucket_index it) < n" "low_key_of it < INT64_MAX" "0 < pushes_left q"
  obtains ok q' where "Push spurious q it = Some (ok, q')" "low_ok n q'" "pushes_left q - 1 \<le> pushes_left q'"
proof -
  have q: "queue_inv q" using assms(1) by (simp add: low_ok_def)
  show thesis
    by (rule ring.push_cases[OF q assms(5), of spurious it]) (use assms in \<open>auto simp: low_ok_def intro: that\<close>)
qed

lemma DecrHitCount_node:
  assumes "node_ok n" "DecrHitCount spurious 100 n = (hit, n')"
  shows "hit = max 0 (hit_count n - 100)" "same_links n n'" "node_ok n'" "node_IsMarked n' = node_IsMarked n"
    "hn_handle n' = hn_handle n" "hn_key n' = hn_key n" "hit_count n' = hit"
  using assms DecrHitCount_eq[of n 100 spurious]
  by (auto simp: node_ok_def same_links_def node_IsMarked_def)

text \<open>A list whose count of deleted nodes is positive has a deleted node.\<close>

definition counts_deleted_in :: "'v askip \<Rightarrow> u64 list \<Rightarrow> bool" where
  "counts_deleted_in sl xs \<longleftrightarrow> (0 < marked_deleted_num sl \<longrightarrow> (\<exists>q \<in> set xs. \<exists>n. as_heap sl q = Some n \<and> node_IsMarked n))"

lemma counts_deleted_keep:
  assumes "counts_deleted_in sl xs" "as_heap sl p = Some n" "\<not> node_IsMarked n"
  shows "counts_deleted_in (sl\<lparr>as_heap := (as_heap sl)(p := Some n')\<rparr>) xs"
proof -
  have "\<exists>q \<in> set xs. \<exists>m. ((as_heap sl)(p := Some n')) q = Some m \<and> node_IsMarked m" if "0 < marked_deleted_num sl"
  proof -
    obtain q m where "q \<in> set xs" "as_heap sl q = Some m" "node_IsMarked m" using assms(1) \<open>0 < marked_deleted_num sl\<close> by (auto simp: counts_deleted_in_def)
    then show ?thesis using assms(2,3) by (intro bexI[of _ q]) auto
  qed
  then show ?thesis by (simp add: counts_deleted_in_def del: fun_upd_apply)
qed

lemma decay_node_facts:
  assumes "hc_represents c M D" "i < length (buckets c)" "buckets c ! i = Some sl"
    "represents_by sl xs (part (length (buckets c)) i M) (keys_of (length (buckets c)) i D)"
    "p \<in> set xs" "as_heap sl p = Some n" "\<not> node_IsMarked n" "charges_ok M"
    "R = (if hit_count n \<le> 100 then {hn_key n} else {})" "counter_ok c M" "0 < pushes_left (low_queue c)"
  obtains c' sl' where "decay_node spurious i p c = Some (True, c')" "hc_represents c' (M |` (- R)) (D \<union> R)"
    "buckets c' ! i = Some sl'" "represents_by sl' xs (part (length (buckets c)) i (M |` (- R))) (keys_of (length (buckets c)) i (D \<union> R))"
    "as_head sl' = as_head sl" "length (buckets c') = length (buckets c)"
    "memory_used c' - hc_charges (M |` (- R)) = memory_used c - hc_charges M"
    "\<And>q. q \<noteq> p \<Longrightarrow> as_heap sl' q = as_heap sl q" "\<And>j. j \<noteq> i \<Longrightarrow> buckets c' ! j = buckets c ! j"
    "\<And>n'. as_heap sl' p = Some n' \<Longrightarrow> \<not> node_IsMarked n' \<Longrightarrow> 100 < hit_count n \<and> hit_count n' = hit_count n - 100"
    "memory_used c' \<le> memory_used c" "pushes_left (low_queue c) - 1 \<le> pushes_left (low_queue c')"
    "counts_deleted_in sl xs \<Longrightarrow> counts_deleted_in sl' xs"
proof -
  let ?n = "length (buckets c)" and ?k = "hn_key n"
  note RD = hc_representsD[OF assms(1)] and B = node_bucket[OF assms(4-6)]
  obtain hit n1 where d: "DecrHitCount spurious 100 n = (hit, n1)" by fastforce
  note N = DecrHitCount_node[OF as_okD(3)[OF representsD(1)[OF assms(4)] assms(6)] d]
  let ?sl = "sl\<lparr>as_heap := (as_heap sl)(p := Some n1)\<rparr>"
  let ?c = "put_bucket c i ?sl"
  have rep: "represents_by ?sl xs (part ?n i M) (keys_of ?n i D)"
    by (rule represents_keep[OF assms(4-6) N(2,3,4,5)])
  have r: "hc_represents ?c M D"
    by (rule hc_put[OF assms(1,2), of _ ?sl]) (use assms(2) rep RD in \<open>auto simp: hs_represents_def\<close>)
  have cd: "counts_deleted_in sl xs \<Longrightarrow> counts_deleted_in ?sl xs" using counts_deleted_keep assms(6,7) by blast
  have W: "0 < hit \<Longrightarrow> 100 < hit_count n \<and> hit_count n1 = hit_count n - 100" using N(1,7) by (simp split: if_splits add: max_def)
  consider (warm) "100 < hit" | (cool) "\<not> 100 < hit" "0 < hit" | (cold) "hit = 0" using N(1) by linarith
  then show thesis
  proof cases
    case warm
    then have "R = {}" using N(1) assms(9) by auto
    moreover have "decay_node spurious i p c = Some (True, ?c)"
      using assms(3,6) d warm by (simp add: decay_node_def Let_def)
    ultimately show thesis using r rep assms(2) W warm cd by (intro that[of ?c ?sl]) simp_all
  next
    case cool
    then have R: "R = {}" using N(1) assms(9) by auto
    let ?it = "\<lparr>bucket_index = int i, gen = LoadAcquire (buckets_gen c ! i), low_key_of = hn_key n1\<rparr>"
    obtain ok q where q: "Push spurious (low_queue c) ?it = Some (ok, q)" "low_ok ?n q" "pushes_left (low_queue c) - 1 \<le> pushes_left q"
      by (rule low_push[OF RD(3), of ?it spurious]) (use assms(2,11) represents_node(3)[OF assms(4-6)] N(6) in simp_all)
    have "decay_node spurious i p c = Some (True, ?c\<lparr>low_queue := q\<rparr>)"
      using assms(3,6) d cool q(1) by (simp add: decay_node_def Let_def)
    moreover have "hc_represents (?c\<lparr>low_queue := q\<rparr>) M D" by (rule hc_represents_low[OF r]) (use q(2) in simp)
    ultimately show thesis using rep assms(2) R W cool q(3) cd by (intro that[of "?c\<lparr>low_queue := q\<rparr>" ?sl]) simp_all
  next
    case cold
    then have R: "R = {?k}" using N(1) assms(9) by auto
    have p1: "as_heap ?sl p = Some n1" "\<not> node_IsMarked n1" using N(4) assms(7) by simp_all
    obtain sl' n2 where m: "list_MarkDeleted spurious ?sl p = Some (charge_of (part ?n i M (hn_key n1)), sl')"
      "represents_by sl' xs ((part ?n i M)(hn_key n1 := None)) (insert (hn_key n1) (keys_of ?n i D))"
      "as_head sl' = as_head ?sl" "as_heap sl' = (as_heap ?sl)(p := Some n2)" "node_IsMarked n2"
      by (rule represents_delete[OF rep assms(5) p1, of spurious]) blast
    let ?ch = "charge_of (M ?k)"
    let ?d = "(put_bucket ?c i sl')\<lparr>memory_used := memory_used c - ?ch\<rparr>"
    have rep': "represents_by sl' xs (part ?n i (M |` (- R))) (keys_of ?n i (D \<union> R))"
      using m(2) unfolding N(6) R restrict_one part_drop using B(4) by simp
    have r': "hc_represents (put_bucket ?c i sl') (M |` (- R)) (D \<union> R)"
      by (rule hc_put[OF r, of i _ sl']) (use assms(2) rep' RD R B(1) in \<open>auto simp: hs_represents_def restrict_one\<close>)
    have nn: "0 \<le> ?ch" by (rule charges_ok_nonneg[OF assms(8)])
    have mk: "list_MarkDeleted spurious ?sl p = Some (?ch, sl')" using m(1) unfolding N(6) B(2) .
    have "?ch \<le> hc_charges M" by (rule charge_le_charges(1)[OF assms(8) hc_finite[OF assms(1)]])
    then have wr: "wrap64 (memory_used c - ?ch) = memory_used c - ?ch"
      by (intro wrap64_id) (use nn assms(10) in \<open>simp add: int64_range_def counter_ok_def\<close>)
    have "decay_node spurious i p c = Some (True, ?d)"
    proof (cases "0 < ?ch")
      case True
      then show ?thesis by (simp add: decay_node_def assms(3,6) d cold mk FetchSubRelaxed_def Let_def wr)
    next
      case False
      then have "?d = put_bucket ?c i sl'" using nn by (simp add: same_memory)
      then show ?thesis using False by (simp add: decay_node_def assms(3,6) d cold mk Let_def)
    qed
    moreover have "hc_charges (M |` (- R)) = hc_charges M - ?ch"
      using charges_restrict[OF hc_finite[OF assms(1)], of R] R by simp
    moreover have "counts_deleted_in sl' xs" using m(4,5) assms(5) by (auto simp: counts_deleted_in_def)
    ultimately show thesis
      using r' rep' m(3-5) assms(2) nn by (intro that[of ?d sl']) (simp_all add: hc_represents_frame)
  qed
qed

lemma DecayOneBucket_facts:
  assumes "hc_represents c M D" "i < length (buckets c)" "buckets c ! i = Some sl" "charges_ok M"
    "represents_by sl xs (part (length (buckets c)) i M) (keys_of (length (buckets c)) i D)" "R = cold_keys (as_heap sl) xs"
    "counter_ok c M" "int (length xs) \<le> pushes_left (low_queue c)"
  obtains c' sl' where "DecayOneBucket spurious c i = Some c'" "hc_represents c' (M |` (- R)) (D \<union> R)"
    "memory_used c' - hc_charges (M |` (- R)) = memory_used c - hc_charges M" "length (buckets c') = length (buckets c)"
    "\<And>j. j \<noteq> i \<Longrightarrow> buckets c' ! j = buckets c ! j" "buckets c' ! i = Some sl'" "as_ok sl' xs"
    "\<And>q n'. q \<in> set xs \<Longrightarrow> as_heap sl' q = Some n' \<Longrightarrow> \<not> node_IsMarked n' \<Longrightarrow>
       \<exists>n. as_heap sl q = Some n \<and> \<not> node_IsMarked n \<and> 100 < hit_count n \<and> hit_count n' = hit_count n - 100"
    "memory_used c' \<le> memory_used c" "pushes_left (low_queue c) - int (length xs) \<le> pushes_left (low_queue c')"
    "counts_deleted_in sl xs \<Longrightarrow> counts_deleted_in sl' xs"
proof -
  let ?n = "length (buckets c)" and ?C = "cold_keys (as_heap sl)"
  define I where "I ys d \<longleftrightarrow> hc_represents d (M |` (- ?C ys)) (D \<union> ?C ys) \<and> length (buckets d) = ?n \<and>
    memory_used d - hc_charges (M |` (- ?C ys)) = memory_used c - hc_charges M \<and> memory_used d \<le> memory_used c \<and>
    pushes_left (low_queue c) - int (length ys) \<le> pushes_left (low_queue d) \<and>
    (\<forall>j. j \<noteq> i \<longrightarrow> buckets d ! j = buckets c ! j) \<and>
    (\<exists>sl'. buckets d ! i = Some sl' \<and> as_head sl' = as_head sl \<and> (counts_deleted_in sl xs \<longrightarrow> counts_deleted_in sl' xs) \<and>
      (\<forall>q \<in> set ys. \<forall>n'. as_heap sl' q = Some n' \<longrightarrow> \<not> node_IsMarked n' \<longrightarrow>
         (\<exists>n. as_heap sl q = Some n \<and> \<not> node_IsMarked n \<and> 100 < hit_count n \<and> hit_count n' = hit_count n - 100)) \<and>
      represents_by sl' xs (part ?n i (M |` (- ?C ys))) (keys_of ?n i (D \<union> ?C ys)) \<and>
      (\<forall>q \<in> set xs - set ys. as_heap sl' q = as_heap sl q))" for ys and d :: "'a hs_cache"
  have dist: "distinct xs" using as_okD(2)[OF representsD(1)[OF assms(5)]] by simp
  obtain c' where c': "IterateLevel (\<lambda>c. the (buckets c ! i)) (decay_node spurious i) 0 c = Some c'" "I xs c'"
  proof (rule iterate_spec[where I = I and xs = xs and ?h0.0 = "as_head sl"])
    show "as_ok (the (buckets d ! i)) xs \<and> as_head (the (buckets d ! i)) = as_head sl" if "I ys d" for ys d
      using that by (auto simp: I_def represents_by_def)
    show "I [] c" using assms(1,3,5) by (auto simp: I_def cold_keys_def restrict_map_def)
    fix ys p zs d n
    assume xs: "xs = ys @ p # zs" and I: "I ys d" and n: "as_heap (the (buckets d ! i)) p = Some n"
    obtain sl' where d: "hc_represents d (M |` (- ?C ys)) (D \<union> ?C ys)" "length (buckets d) = ?n"
      "memory_used d - hc_charges (M |` (- ?C ys)) = memory_used c - hc_charges M"
      "buckets d ! i = Some sl'" "as_head sl' = as_head sl"
      "represents_by sl' xs (part ?n i (M |` (- ?C ys))) (keys_of ?n i (D \<union> ?C ys))"
      "\<forall>q \<in> set xs - set ys. as_heap sl' q = as_heap sl q" "\<forall>j. j \<noteq> i \<longrightarrow> buckets d ! j = buckets c ! j"
      "\<forall>q \<in> set ys. \<forall>n'. as_heap sl' q = Some n' \<longrightarrow> \<not> node_IsMarked n' \<longrightarrow>
         (\<exists>n. as_heap sl q = Some n \<and> \<not> node_IsMarked n \<and> 100 < hit_count n \<and> hit_count n' = hit_count n - 100)"
      "memory_used d \<le> memory_used c" "pushes_left (low_queue c) - int (length ys) \<le> pushes_left (low_queue d)"
      "counts_deleted_in sl xs \<longrightarrow> counts_deleted_in sl' xs"
      using I unfolding I_def by blast
    have room: "0 < pushes_left (low_queue d)" using d(11) assms(8) xs by simp
    have cnt: "counter_ok d (M |` (- ?C ys))" using d(3,10) assms(7) by (simp add: counter_ok_def)
    have pn: "p \<notin> set ys" "p \<in> set xs" using dist xs by auto
    have n': "as_heap sl' p = Some n" "as_heap sl p = Some n" using n d(4,7) pn by auto
    note S = cold_keys_snoc[of "as_heap sl" p n ys, OF n'(2)]
    show "if node_IsMarked n then I (ys @ [p]) d else \<exists>d'. decay_node spurious i p d = Some (True, d') \<and> I (ys @ [p]) d'"
    proof (cases "node_IsMarked n")
      case True
      then have "?C (ys @ [p]) = ?C ys" using S by simp
      then have "I (ys @ [p]) d" using d n'(1) True unfolding I_def by auto
      then show ?thesis using True by simp
    next
      case False
      define T where "T = (if hit_count n \<le> 100 then {hn_key n} else {})"
      obtain e sl2 where e: "decay_node spurious i p d = Some (True, e)"
        "hc_represents e ((M |` (- ?C ys)) |` (- T)) (D \<union> ?C ys \<union> T)" "buckets e ! i = Some sl2"
        "represents_by sl2 xs (part ?n i ((M |` (- ?C ys)) |` (- T))) (keys_of ?n i (D \<union> ?C ys \<union> T))"
        "as_head sl2 = as_head sl'" "length (buckets e) = ?n"
        "memory_used e - hc_charges ((M |` (- ?C ys)) |` (- T)) = memory_used d - hc_charges (M |` (- ?C ys))"
        "\<And>q. q \<noteq> p \<Longrightarrow> as_heap sl2 q = as_heap sl' q" "\<And>j. j \<noteq> i \<Longrightarrow> buckets e ! j = buckets d ! j"
        "\<And>n'. as_heap sl2 p = Some n' \<Longrightarrow> \<not> node_IsMarked n' \<Longrightarrow> 100 < hit_count n \<and> hit_count n' = hit_count n - 100"
        "memory_used e \<le> memory_used d" "pushes_left (low_queue d) - 1 \<le> pushes_left (low_queue e)"
        "counts_deleted_in sl' xs \<Longrightarrow> counts_deleted_in sl2 xs"
        by (rule decay_node_facts[OF d(1) _ d(4) _ pn(2) n'(1) False charges_ok_restrict[OF assms(4)] T_def cnt room, where spurious = spurious, unfolded d(2)])
          (use assms(2) d(6) in auto)
      have C: "?C (ys @ [p]) = ?C ys \<union> T" using S False by (simp add: T_def)
      have old: "\<exists>n. as_heap sl q = Some n \<and> \<not> node_IsMarked n \<and> 100 < hit_count n \<and> hit_count n' = hit_count n - 100"
        if "q \<in> set (ys @ [p])" "as_heap sl2 q = Some n'" "\<not> node_IsMarked n'" for q n'
        using that e(8)[of q] e(10)[of n'] d(9) n'(2) False by (cases "q = p") auto
      have "I (ys @ [p]) e"
        unfolding I_def C using e(2-9,11-13) d(3,5,7,8,10-12) pn(1) old by (auto simp: restrict_more Un_assoc)
      then show ?thesis using False e(1) by auto
    qed
  qed
  have "DecayOneBucket spurious c i = Some c'" using c'(1) assms(2,3) by (simp add: DecayOneBucket_def load_bucket_def)
  moreover obtain sl' where "buckets c' ! i = Some sl'" "represents_by sl' xs (part ?n i (M |` (- R))) (keys_of ?n i (D \<union> R))"
    "\<forall>q \<in> set xs. \<forall>n'. as_heap sl' q = Some n' \<longrightarrow> \<not> node_IsMarked n' \<longrightarrow>
         (\<exists>n. as_heap sl q = Some n \<and> \<not> node_IsMarked n \<and> 100 < hit_count n \<and> hit_count n' = hit_count n - 100)"
    "counts_deleted_in sl xs \<longrightarrow> counts_deleted_in sl' xs"
    using c'(2) assms(6) by (auto simp: I_def)
  moreover have "hc_represents c' (M |` (- R)) (D \<union> R)" "length (buckets c') = ?n" "\<And>j. j \<noteq> i \<Longrightarrow> buckets c' ! j = buckets c ! j"
    "memory_used c' - hc_charges (M |` (- R)) = memory_used c - hc_charges M" "memory_used c' \<le> memory_used c"
    "pushes_left (low_queue c) - int (length xs) \<le> pushes_left (low_queue c')"
    using c'(2) assms(6) by (simp_all add: I_def)
  ultimately show thesis by (intro that[of c' sl']) (auto simp: represents_by_def)
qed

lemma DecayOneBucket_spec:
  assumes "hc_represents c M D" "i < length (buckets c)" "buckets c ! i = Some sl" "charges_ok M"
    "represents_by sl xs (part (length (buckets c)) i M) (keys_of (length (buckets c)) i D)" "R = cold_keys (as_heap sl) xs"
    "counter_ok c M" "int (length xs) \<le> pushes_left (low_queue c)"
  obtains c' where "DecayOneBucket spurious c i = Some c'" "hc_represents c' (M |` (- R)) (D \<union> R)"
    "memory_used c' - hc_charges (M |` (- R)) = memory_used c - hc_charges M"
  by (rule DecayOneBucket_facts[OF assms]) (rule that)

section \<open>Compaction\<close>

text \<open>The addresses a compaction of at most N nodes allocates at are new and differ.\<close>

definition compact_fresh :: "u64 \<times> u64 \<Rightarrow> (nat \<Rightarrow> nat \<Rightarrow> u64) \<Rightarrow> nat \<Rightarrow> bool" where
  "compact_fresh addr alloc N \<longleftrightarrow> new_addresses (fst addr) (snd addr) \<and> inj_on (\<lambda>j. alloc j 0) {..<N} \<and>
     (\<forall>j < N. alloc j 0 \<noteq> 0 \<and> alloc j 0 \<noteq> fst addr \<and> alloc j 0 \<noteq> snd addr \<and> unat (alloc j 0) < 2 ^ 47)"

lemma AtomicSkipList_new_dom: "dom (as_heap (AtomicSkipList_new a b)) = {a, b}"
  by (auto simp: AtomicSkipList_new_def)

lemma compact_fresh_at:
  assumes "compact_fresh (a, b) alloc N" "k < N" "dom (as_heap l) \<subseteq> {a, b} \<union> (\<lambda>j. alloc j 0) ` {..<k}"
  shows "askip_fresh l (alloc k 0)"
proof -
  have "alloc k 0 \<notin> (\<lambda>j. alloc j 0) ` {..<k}"
  proof
    assume "alloc k 0 \<in> (\<lambda>j. alloc j 0) ` {..<k}"
    then obtain j where j: "j < k" "alloc k 0 = alloc j 0" by auto
    have "inj_on (\<lambda>j. alloc j 0) {..<N}" using assms(1) by (simp add: compact_fresh_def)
    then have "k = j" by (rule inj_onD) (use j assms(2) in simp_all)
    then show False using j(1) by simp
  qed
  then show ?thesis using assms by (auto simp: compact_fresh_def askip_fresh_def domIff)
qed

text \<open>The new list holds what the nodes passed so far hold.\<close>

lemma compact_list:
  assumes "represents_by (sl :: 'v askip) xs m D" "compact_fresh (a, b) alloc (length xs)"
  obtains k new_bucket where "IterateLevel (\<lambda>_. sl) (compact_node coins alloc spurious sl) 0 (0, AtomicSkipList_new a b) = Some (k, new_bucket)"
    "hs_represents new_bucket m {}"
proof -
  note R = representsD[OF assms(1)]
  define upto where "upto ys = (\<lambda>key. if key \<in> hkey (as_heap sl) ` set ys then m key else None)" for ys
  define I where "I ys s \<longleftrightarrow> (case s of (k, l) \<Rightarrow> k \<le> length ys \<and> hs_represents l (upto ys) {} \<and>
    dom (as_heap l) \<subseteq> {a, b} \<union> (\<lambda>j. alloc j 0) ` {..<k})" for ys and s :: "nat \<times> 'v askip"
  have start: "I [] (0, AtomicSkipList_new a b)"
    using new_represents[of a b] assms(2) AtomicSkipList_new_dom[of a b]
    by (auto simp: I_def upto_def hs_represents_def compact_fresh_def)
  have up: "upto (ys @ [p]) = (upto ys)(hn_key n := m (hn_key n))" if "as_heap sl p = Some n" for ys p n
    using that by (auto simp: upto_def hkey_def fun_eq_iff)
  have same: "upto (ys @ [p]) = upto ys" if "as_heap sl p = Some n" "m (hn_key n) = None" for ys p n
    using up[OF that(1), of ys] that(2) by (auto simp: upto_def fun_eq_iff)
  obtain s where s: "IterateLevel (\<lambda>_. sl) (compact_node coins alloc spurious sl) 0 (0, AtomicSkipList_new a b) = Some s" "I xs s"
  proof (rule iterate_spec[where I = I and xs = xs and list_of = "\<lambda>_. sl" and ?h0.0 = "as_head sl", OF _ _ start])
    show "as_ok sl xs \<and> as_head sl = as_head sl" using R(1) by simp
    fix ys p zs s n assume xs: "xs = ys @ p # zs" and I: "I ys s" and n: "as_heap sl p = Some n"
    obtain k l where s: "s = (k, l)" "k \<le> length ys" "hs_represents l (upto ys) {}"
      "dom (as_heap l) \<subseteq> {a, b} \<union> (\<lambda>j. alloc j 0) ` {..<k}" using I by (cases s) (auto simp: I_def)
    have p: "p \<in> set xs" using xs by simp
    note N = represents_node[OF assms(1) p n]
    show "if node_IsMarked n then I (ys @ [p]) s
        else \<exists>s'. compact_node coins alloc spurious sl p s = Some (True, s') \<and> I (ys @ [p]) s'"
    proof (cases "hn_handle n")
      case None
      then have u: "upto (ys @ [p]) = upto ys" using same[OF n] N(1) by simp
      have "I (ys @ [p]) (k, l)" "I (ys @ [p]) (k + 1, l)" using s(2-4) u by (auto simp: I_def lessThan_Suc)
      moreover have "compact_node coins alloc spurious sl p (k, l) = Some (True, (k + 1, l))"
        using n None by (simp add: compact_node_def GetHandle_def Insert_def)
      ultimately show ?thesis using s(1) by auto
    next
      case (Some v)
      then have u: "\<not> node_IsMarked n" using R(2) n by (auto simp: tidy_def)
      have kN: "k < length xs" using s(2) xs by simp
      have f: "askip_fresh l (alloc k 0)" by (rule compact_fresh_at[OF assms(2) kN s(4)])
      obtain l' where l': "insert_loop (coins k) (alloc k) (spurious k) 0 l (hn_key n) (Some v) = Some (upto ys (hn_key n), l')"
        "hs_represents l' ((upto ys)(hn_key n \<mapsto> v)) {}" "dom (as_heap l') \<subseteq> insert (alloc k 0) (dom (as_heap l))"
        by (rule hs_Insert_spec[where alloc = "alloc k" and i = 0, OF s(3) N(3) _ f]) auto
      have "dom (as_heap l') \<subseteq> {a, b} \<union> (\<lambda>j. alloc j 0) ` {..<Suc k}"
        using s(4) l'(3) by (simp only: lessThan_Suc image_insert) blast
      then have "I (ys @ [p]) (k + 1, l')"
        using s(2) l'(2) up[OF n, of ys] N(1) Some by (simp add: I_def)
      moreover have "compact_node coins alloc spurious sl p (k, l) = Some (True, (k + 1, l'))"
        using n Some l'(1) by (simp add: compact_node_def GetHandle_def Insert_def)
      ultimately show ?thesis using u s(1) by auto
    qed
  qed
  have "upto xs = m"
  proof (rule ext)
    show "upto xs key = m key" for key
      using represents_dom[OF assms(1), of key] by (cases "m key") (auto simp: upto_def)
  qed
  then show thesis using that s by (cases s) (auto simp: I_def)
qed

lemma hs_represents_mono: "hs_represents sl m D \<Longrightarrow> D \<subseteq> D' \<Longrightarrow> hs_represents sl m D'"
  by (fastforce simp: hs_represents_def represents_by_def)

lemma compact_turn_spec:
  assumes "hc_represents c M D" "i < length (buckets c)" "buckets c ! i = Some sl" "compact_fresh addr alloc (nat (node_num sl))"
  obtains c' where "compact_turn coins alloc spurious addr c i = Some c'" "memory_used c' = memory_used c" "hc_represents c' M D"
    "below_quotient (marked_deleted_num sl) (node_num sl) dbl_03 \<Longrightarrow> c' = c"
    "\<not> below_quotient (marked_deleted_num sl) (node_num sl) dbl_03 \<Longrightarrow>
      hc_represents c' M {k \<in> D. bucket_of (length (buckets c)) k \<noteq> i} \<and>
      buckets_gen c' ! i = buckets_gen c ! i + 1"
proof (cases "below_quotient (marked_deleted_num sl) (node_num sl) dbl_03")
  case True
  then have "compact_turn coins alloc spurious addr c i = Some c"
    using assms(2,3) by (simp add: compact_turn_def CompactOneBucket_def load_bucket_def)
  then show thesis using True assms(1) that by auto
next
  case False
  let ?n = "length (buckets c)" and ?D = "{k \<in> D. bucket_of (length (buckets c)) k \<noteq> i}"
  note RD = hc_representsD[OF assms(1)]
  obtain xs where r: "represents_by sl xs (part ?n i M) (keys_of ?n i D)"
    using RD(4)[OF assms(2)] assms(3) by (auto simp: hs_represents_def)
  note R = representsD[OF r]
  obtain a b where ab: "addr = (a, b)" by fastforce
  have N: "nat (node_num sl) = length xs" using as_okD(13)[OF R(1)] by simp
  obtain k new_bucket where k: "IterateLevel (\<lambda>_. sl) (compact_node coins alloc spurious sl) 0 (0, AtomicSkipList_new a b) = Some (k, new_bucket)"
    "hs_represents new_bucket (part ?n i M) {}"
    by (rule compact_list[OF r assms(4)[unfolded N ab]])
  let ?c = "(put_bucket c i new_bucket)\<lparr>buckets_gen := (buckets_gen c)[i := snd (FetchAddRelaxed (buckets_gen c ! i) 1)]\<rparr>"
  have e: "compact_turn coins alloc spurious addr c i = Some ?c"
    using assms(2,3) False k(1) destroy_frees[OF R(1)]
    by (simp add: compact_turn_def CompactOneBucket_def load_bucket_def ab)
  have z: "keys_of ?n i ?D = {}" by (auto simp: keys_of_def)
  have g: "hc_represents ?c M ?D"
    by (rule hc_put[OF assms(1,2), of _ new_bucket]) (use assms(2) RD k(2) z in auto)
  have D: "hc_represents ?c M D"
    by (rule hc_put[OF assms(1,2), of _ new_bucket]) (use assms(2) RD hs_represents_mono[OF k(2)] in auto)
  show thesis by (rule that[OF e _ D]) (use False g RD(2) assms(2) in \<open>simp_all add: FetchAddRelaxed_def\<close>)
qed

section \<open>The start\<close>

lemma hc_start:
  assumes "0 < bucket_num" "\<And>i. i < nat bucket_num \<Longrightarrow> new_addresses (fst (addr i)) (snd (addr i))"
  shows "hc_represents (snd (Init addr (HashSkipCache_new capicity bucket_num))) Map.empty {}"
    "length (buckets (snd (Init addr (HashSkipCache_new capicity bucket_num)))) = nat bucket_num"
    "memory_used (snd (Init addr (HashSkipCache_new capicity bucket_num))) = 0"
    "hc_capicity (snd (Init addr (HashSkipCache_new capicity bucket_num))) = capicity"
proof -
  have q: "low_ok n (Queue_new v 10000)" for n v
    using Queue_new_inv[of 10000 v] by (simp add: low_ok_def)
  have p: "part n i Map.empty = Map.empty" "keys_of n i {} = {}" for n i
    by (auto simp: part_def keys_of_def)
  have s: "hs_represents (case addr i of (a, b) \<Rightarrow> AtomicSkipList_new a b) Map.empty {}" if "i < nat bucket_num" for i
    using new_represents[OF assms(2)[OF that]] by (auto simp: hs_represents_def case_prod_unfold)
  show "hc_represents (snd (Init addr (HashSkipCache_new capicity bucket_num))) Map.empty {}"
    using assms(1) q s by (auto simp: hc_represents_def HashSkipCache_new_def Init_def Let_def p)
qed (simp_all add: HashSkipCache_new_def Init_def)

section \<open>Properties\<close>

text \<open>C8: With room for the charge, no negative charges and a capacity in int64_t, Insert of the hash skip cache is the update of a
  finite map, for every key that has no deleted node (on one that has, the handle is lost): it ends without an overflow and returns
  true, no other key changes, a Get of the key then returns the handle, and memory_used_ keeps its difference to the sum
  of the charges.\<close>

theorem hc_Insert_refines:
  assumes "hc_represents c M D" "key < INT64_MAX" "key \<notin> D" "hc_fresh c (alloc 0)" "memory_used c + Charge handle \<le> hc_capicity c"
    "charges_ok M" "counter_ok c M" "0 \<le> Charge handle" "hc_capicity c < 2 ^ 63"
  shows "\<exists>c'. hc_Insert coins alloc spurious espurious c key (Some handle) = Some (True, c') \<and>
     hc_represents c' (M(key \<mapsto> handle)) D \<and>
     memory_used c' - hc_charges (M(key \<mapsto> handle)) = memory_used c - hc_charges M \<and>
     (\<exists>c''. hc_Get spurious' c' key = Some (Some handle, c'') \<and> hc_represents c'' (M(key \<mapsto> handle)) D)"
proof -
  obtain c' where c': "hc_Insert coins alloc spurious espurious c key (Some handle) = Some (True, c')"
    "hc_represents c' (M(key \<mapsto> handle)) D" "memory_used c' = memory_used c + Charge handle - charge_of (M key)"
    by (rule hc_Insert_spec[where alloc = alloc, OF assms]) blast
  obtain c'' where "hc_Get spurious' c' key = Some ((M(key \<mapsto> handle)) key, c'')" "hc_represents c'' (M(key \<mapsto> handle)) D"
    by (rule hc_Get_spec[OF c'(2) assms(2)]) blast
  then show ?thesis
    using c' charges_upd[OF hc_finite[OF assms(1)], of key "Some handle"] by (auto simp: charge_of_def)
qed

text \<open>C9: One turn of the decay thread over a bucket ends and deletes exactly its cold entries, those whose hit
  count is at most 100: the map loses their keys and nothing else, memory_used_ falls by their charges,
  and every node of the bucket stays linked, the deleted ones marked. The counter must not wrap around when the charges
  are taken off, and the positions of the low queue must have room for the nodes of the bucket.\<close>

theorem hc_decay_removes_cold:
  assumes "hc_represents c M D" "i < length (buckets c)" "charges_ok M" "counter_ok c M"
    "\<forall>sl. buckets c ! i = Some sl \<longrightarrow> node_num sl \<le> pushes_left (low_queue c)"
  shows "\<exists>sl xs c'. buckets c ! i = Some sl \<and> as_ok sl xs \<and> DecayOneBucket spurious c i = Some c' \<and>
     hc_represents c' (M |` (- cold_keys (as_heap sl) xs)) (D \<union> cold_keys (as_heap sl) xs) \<and>
     memory_used c' - hc_charges (M |` (- cold_keys (as_heap sl) xs)) = memory_used c - hc_charges M"
proof -
  obtain sl xs where sl: "buckets c ! i = Some sl"
    "represents_by sl xs (part (length (buckets c)) i M) (keys_of (length (buckets c)) i D)"
    using hc_representsD(4)[OF assms(1,2)] by (auto simp: hs_represents_def)
  have l: "int (length xs) \<le> pushes_left (low_queue c)" using assms(5) sl(1) as_okD(13)[OF representsD(1)[OF sl(2)]] by simp
  show ?thesis
    by (rule DecayOneBucket_spec[OF assms(1,2) sl(1) assms(3) sl(2) refl assms(4) l, of spurious])
      (use sl representsD(1)[OF sl(2)] in blast)
qed

text \<open>C10: A turn of the compaction thread keeps the map and memory_used_. When the share of deleted nodes is
  large enough it replaces the list of the bucket, which is freed, by one in which no key of the bucket has
  a deleted node any more, and starts a new generation; otherwise it changes nothing.\<close>

theorem hc_compact_keeps_map:
  assumes "hc_represents c M D" "i < length (buckets c)" "buckets c ! i = Some sl" "compact_fresh addr alloc (nat (node_num sl))"
  shows "\<exists>c'. compact_turn coins alloc spurious addr c i = Some c' \<and> hc_represents c' M D \<and> memory_used c' = memory_used c \<and>
     (if below_quotient (marked_deleted_num sl) (node_num sl) dbl_03 then c' = c
      else hc_represents c' M {k \<in> D. bucket_of (length (buckets c)) k \<noteq> i} \<and> buckets_gen c' ! i = buckets_gen c ! i + 1)"
  by (rule compact_turn_spec[OF assms, of coins spurious]) auto

text \<open>C40: Evict ends, and frees the charge that was asked for unless the low queue runs empty; but it adds what it
  frees to memory_used_ instead of subtracting it. So the counter, the sum of the charges before, is
  afterwards too large by twice the evicted charge, as long as it does not wrap around. The first entry of the queue, when it is live, is evicted.\<close>

theorem hc_Evict_raises_memory:
  assumes "hc_represents c M D" "charges_ok M" "memory_used c = hc_charges M" "2 * hc_charges M < 2 ^ 63"
  shows "\<exists>c' R. hc_Evict spurious c need_charge = Some (True, c') \<and> hc_represents c' (M |` (- R)) (D \<union> R) \<and>
     (need_charge \<le> hc_charges M - hc_charges (M |` (- R)) \<or> queue_list (low_queue c') = []) \<and>
     memory_used c' - hc_charges (M |` (- R)) = 2 * (hc_charges M - hc_charges (M |` (- R))) \<and>
     (\<forall>it its. 0 < need_charge \<and> queue_list (low_queue c) = it # its \<and> live_entry c M it \<longrightarrow> low_key_of it \<in> R)"
proof -
  obtain c' R where "evict_low spurious c need_charge = Some c'" "hc_represents c' (M |` (- R)) (D \<union> R)"
    "memory_used c' = memory_used c + (hc_charges M - hc_charges (M |` (- R)))"
    "need_charge \<le> hc_charges M - hc_charges (M |` (- R)) \<or> queue_list (low_queue c') = []"
    "\<And>it its. 0 < need_charge \<Longrightarrow> queue_list (low_queue c) = it # its \<Longrightarrow> live_entry c M it \<Longrightarrow> low_key_of it \<in> R"
    by (rule evict_low_spec[OF assms(1,2), of spurious need_charge])
      (use assms(3,4) charge_le_charges(2)[OF assms(2) hc_finite[OF assms(1)]] in auto)
  then show ?thesis using assms(3) by (intro exI[of _ c'] exI[of _ R]) (auto simp: hc_Evict_def)
qed

text \<open>Get of the hash skip cache returns exactly what the map holds and changes neither the map nor
  memory_used_; a cache is empty after its construction and Init, and before Init every Get fails and every Insert
  is refused.\<close>

theorem hc_Get_and_Init:
  fixes c :: "'v hs_cache" and capicity :: int
  assumes "0 < bucket_num" "\<forall>i < nat bucket_num. new_addresses (fst (addr i)) (snd (addr i))" "hc_represents c M D" "key < INT64_MAX"
  defines "c0 \<equiv> HashSkipCache_new capicity bucket_num :: 'v hs_cache"
  shows "hc_Get spurious c0 key = Some (None, c0) \<and> hc_Insert coins alloc spurious' espurious c0 key handle = Some (False, c0) \<and>
     hc_represents (snd (Init addr c0)) Map.empty {} \<and>
     (\<exists>c'. hc_Get spurious c key = Some (M key, c') \<and> hc_represents c' M D \<and> memory_used c' = memory_used c)"
proof -
  have "load_bucket c0 (bucket_of (nat bucket_num) key) = Some None" "length (buckets c0) = nat bucket_num"
    using bucket_route.route_less[of "nat bucket_num" key] assms(1) by (simp_all add: load_bucket_def c0_def HashSkipCache_new_def)
  then have "hc_Get spurious c0 key = Some (None, c0)" "hc_Insert coins alloc spurious' espurious c0 key handle = Some (False, c0)"
    by (simp_all add: hc_Get_def hc_Insert_def)
  moreover have "hc_represents (snd (Init addr c0)) Map.empty {}"
    unfolding c0_def by (rule hc_start(1)) (use assms(1,2) in simp_all)
  ultimately show ?thesis using hc_Get_spec[OF assms(3,4), of spurious] by blast
qed

section \<open>Instances\<close>

definition demo_cache :: "nat hs_cache" where
  "demo_cache = snd (Init (\<lambda>i. (16, 32)) (HashSkipCache_new 100 2))"

lemma demo_addr: "new_addresses 16 32"
  by (simp add: new_addresses_def)

lemma demo_cache_ok: "hc_represents demo_cache Map.empty {}" "memory_used demo_cache = 0" "hc_capicity demo_cache = 100"
  "length (buckets demo_cache) = 2"
  unfolding demo_cache_def using hc_start[of 2 "\<lambda>i. (16, 32)" 100] demo_addr by simp_all

lemma demo_cache_bucket:
  assumes "i < 2"
  shows "buckets demo_cache ! i = Some (AtomicSkipList_new 16 32)"
  using assms by (simp add: demo_cache_def Init_def HashSkipCache_new_def)

lemma charges_ok_empty: "charges_ok Map.empty"
  by (simp add: charges_ok_def)

lemma demo_counter: "counter_ok demo_cache Map.empty"
  by (simp add: counter_ok_def demo_cache_ok hc_charges_def)

lemma demo_pushes_left: "pushes_left (low_queue demo_cache) = 2 ^ 63 - 10001"
  by (simp add: demo_cache_def Init_def HashSkipCache_new_def Queue_new_inv)

lemma demo_cache_fresh: "hc_fresh demo_cache 48"
  by (auto simp: hc_fresh_def askip_fresh_def demo_cache_def Init_def HashSkipCache_new_def AtomicSkipList_new_def)

lemma hc_Insert_refines_witness:
  "\<exists>c'. hc_Insert (\<lambda>_ _. True) (\<lambda>_. 48) (\<lambda>_. 1) 0 demo_cache 7 (Some \<lparr>hs_value = 3, hs_charge = 40\<rparr>) = Some (True, c') \<and>
     memory_used c' = 40"
proof -
  have k: "7 < INT64_MAX" by (simp add: INT64_MAX_def)
  have r: "memory_used demo_cache + Charge \<lparr>hs_value = 3 :: nat, hs_charge = 40\<rparr> \<le> hc_capicity demo_cache" by (simp add: demo_cache_ok)
  have "hc_capicity demo_cache < 2 ^ 63" by (simp add: demo_cache_ok)
  from hc_Insert_refines[where alloc = "\<lambda>_. 48", OF demo_cache_ok(1) k _ demo_cache_fresh r charges_ok_empty demo_counter _ this,
    of "\<lambda>_ _. True" "\<lambda>_. 1" 0 0]
  show ?thesis by (auto simp: demo_cache_ok(2) hc_charges_def charge_of_def)
qed

lemma hc_decay_removes_cold_witness: "\<exists>c'. DecayOneBucket 1 demo_cache 1 = Some c' \<and> memory_used c' = 0"
proof -
  have l: "1 < length (buckets demo_cache)" by (simp add: demo_cache_ok)
  have b: "buckets demo_cache ! 1 = Some (AtomicSkipList_new 16 32)" by (rule demo_cache_bucket) simp
  have "\<forall>sl. buckets demo_cache ! 1 = Some sl \<longrightarrow> node_num sl \<le> pushes_left (low_queue demo_cache)"
    unfolding b demo_pushes_left by (simp add: AtomicSkipList_new_def)
  from hc_decay_removes_cold[OF demo_cache_ok(1) l charges_ok_empty demo_counter this, of 1]
  show ?thesis by (auto simp: demo_cache_ok(2) hc_charges_def restrict_map_def)
qed

lemma hc_compact_keeps_map_witness:
  "\<exists>c'. compact_turn (\<lambda>_ _ _. False) (\<lambda>_ _. 64) (\<lambda>_ _. 0) (80, 96) demo_cache 0 = Some c' \<and> hc_represents c' Map.empty {}"
proof -
  have l: "0 < length (buckets demo_cache)" by (simp add: demo_cache_ok)
  have b: "buckets demo_cache ! 0 = Some (AtomicSkipList_new 16 32)" by (rule demo_cache_bucket) simp
  have f: "compact_fresh (80, 96) (\<lambda>_ _. 64) (nat (node_num (AtomicSkipList_new 16 32 :: nat askip)))"
    by (simp add: compact_fresh_def new_addresses_def AtomicSkipList_new_def)
  from hc_compact_keeps_map[OF demo_cache_ok(1) l b f, of "\<lambda>_ _ _. False" "\<lambda>_ _. 0"] show ?thesis by auto
qed

text \<open>One entry of charge 40, which the low queue names: evicting it takes the counter from 40 to 80.\<close>

lemma hc_Evict_raises_memory_witness:
  "\<exists>c c' D. memory_used (c :: nat hs_cache) = 40 \<and> hc_Evict 0 c 5 = Some (True, c') \<and> hc_represents c' Map.empty D \<and>
     memory_used c' = 80"
proof -
  let ?h = "\<lparr>hs_value = 3 :: nat, hs_charge = 40\<rparr>" and ?dflt = "\<lparr>bucket_index = 0, gen = 0, low_key_of = 0\<rparr>"
  have k: "7 < INT64_MAX" by (simp add: INT64_MAX_def)
  have r: "memory_used demo_cache + Charge ?h \<le> hc_capicity demo_cache" by (simp add: demo_cache_ok)
  obtain c where c: "hc_represents c [7 \<mapsto> ?h] {}" "memory_used c = 40" "length (buckets c) = 2"
    by (rule hc_Insert_spec[where alloc = "\<lambda>_. 48", OF demo_cache_ok(1) k _ demo_cache_fresh r charges_ok_empty demo_counter])
      (use demo_cache_ok in auto)
  define it where "it = \<lparr>bucket_index = 1, gen = buckets_gen c ! 1, low_key_of = 7\<rparr>"
  obtain q where q: "queue_inv q" "queue_list q = [it]"
    using ring.push_room[OF Queue_new_inv(1), of 10000 ?dflt 0 it] Queue_new_inv(2-4)[of 10000 ?dflt] by auto
  define d where "d = c\<lparr>low_queue := q\<rparr>"
  have d: "hc_represents d [7 \<mapsto> ?h] {}" unfolding d_def
    by (rule hc_represents_low[OF c(1)]) (use q c(3) k in \<open>simp add: low_ok_def it_def\<close>)
  have "bucket_of 2 7 = 1" by (simp add: bucket_of_def residue64_def)
  then have live: "live_entry d [7 \<mapsto> ?h] it" using c(3) by (simp add: live_entry_def d_def it_def)
  have ok: "charges_ok [7 \<mapsto> ?h]" by (simp add: charges_ok_def)
  have m: "memory_used d = hc_charges [7 \<mapsto> ?h]" using c(2) by (simp add: d_def hc_charges_def charge_of_def)
  obtain c' R where e: "hc_Evict 0 d 5 = Some (True, c')" "hc_represents c' ([7 \<mapsto> ?h] |` (- R)) ({} \<union> R)"
    "memory_used c' - hc_charges ([7 \<mapsto> ?h] |` (- R)) = 2 * (hc_charges [7 \<mapsto> ?h] - hc_charges ([7 \<mapsto> ?h] |` (- R)))"
    "low_key_of it \<in> R"
    using hc_Evict_raises_memory[OF d ok m _, of 0 5] m c(2) live q(2) by (auto simp: d_def)
  have "[7 \<mapsto> ?h] |` (- R) = Map.empty" using e(4) by (auto simp: restrict_map_def it_def)
  then have "hc_represents c' Map.empty R" "memory_used c' = 80" using e(2,3) m c(2) by (simp_all add: d_def hc_charges_def)
  then show ?thesis using e(1) c(2) by (intro exI[of _ d] exI[of _ c'] exI[of _ R]) (simp add: d_def)
qed

lemma hc_Get_and_Init_witness: "hc_Get 0 (HashSkipCache_new 10 3 :: nat hs_cache) 5 = Some (None, HashSkipCache_new 10 3)"
  using hc_Get_and_Init[of 3 "\<lambda>_. (16, 32)", OF _ _ demo_cache_ok(1), of 5 0 10] demo_addr by (simp add: INT64_MAX_def)

end
