(* ===== verification/HS_Bench.thy ===== *)
theory HS_Bench
  imports HS_Cache Op_Stat
begin

text \<open>
  The turns of the benchmark programs on the hash skip cache, with the check the programs make of it, for a client
  that runs alone: no turn of the decay or of the compaction thread falls between two of its turns. The keys, whether a turn
  inserts, the coins, the addresses new returns and the spurious failures are arguments, and so is enable_stat.
\<close>

section \<open>The turns\<close>

text \<open>class Handle of the programs: Val() and Charge(), which is sizeof(int64_t).\<close>

definition bench_hs_handle :: "int \<Rightarrow> int hs_handle" where
  "bench_hs_handle val = \<lparr>hs_value = val, hs_charge = 8\<rparr>"

definition hs_get_turn :: "bool \<Rightarrow> nat \<Rightarrow> int \<Rightarrow> op_stat \<times> int hs_cache \<Rightarrow> (op_stat \<times> int hs_cache) option" where
  "hs_get_turn enable_stat spurious key sc =
     (case sc of (stat, c) \<Rightarrow>
        do { (handle, c) \<leftarrow> hc_Get spurious c key;
             case handle of
               None \<Rightarrow> Some (stat, c)
             | Some h \<Rightarrow> Some (if enable_stat then count_get (hs_value h = key) stat else stat, c) })"

definition hs_insert_turn ::
  "bool \<Rightarrow> (nat \<Rightarrow> nat \<Rightarrow> bool) \<Rightarrow> (nat \<Rightarrow> u64) \<Rightarrow> (nat \<Rightarrow> nat) \<Rightarrow> nat \<Rightarrow> int \<Rightarrow> op_stat \<times> int hs_cache \<Rightarrow>
   (op_stat \<times> int hs_cache) option" where
  "hs_insert_turn enable_stat coins alloc spurious espurious key sc =
     (case sc of (stat, c) \<Rightarrow>
        do { (succ, c) \<leftarrow> hc_Insert coins alloc spurious espurious c key (Some (bench_hs_handle key));
             Some (if enable_stat then count_insert succ stat else stat, c) })"

record hs_turn =
  ht_key :: int
  ht_miss :: bool
  ht_coins :: "nat \<Rightarrow> nat \<Rightarrow> bool"
  ht_alloc :: "nat \<Rightarrow> u64"
  ht_spurious :: "nat \<Rightarrow> nat"
  ht_get_spurious :: nat
  ht_evict_spurious :: nat

definition hs_mixed_turn :: "bool \<Rightarrow> hs_turn \<Rightarrow> op_stat \<times> int hs_cache \<Rightarrow> (op_stat \<times> int hs_cache) option" where
  "hs_mixed_turn enable_stat t sc =
     do { sc \<leftarrow> hs_get_turn enable_stat (ht_get_spurious t) (ht_key t) sc;
          if ht_miss t
          then hs_insert_turn enable_stat (ht_coins t) (ht_alloc t) (ht_spurious t) (ht_evict_spurious t) (ht_key t) sc
          else Some sc }"

fun hs_mixed_run :: "bool \<Rightarrow> hs_turn list \<Rightarrow> op_stat \<times> int hs_cache \<Rightarrow> (op_stat \<times> int hs_cache) option" where
  "hs_mixed_run enable_stat [] sc = Some sc"
| "hs_mixed_run enable_stat (t # ts) sc = do { sc \<leftarrow> hs_mixed_turn enable_stat t sc; hs_mixed_run enable_stat ts sc }"

text \<open>The cache of the programs after Init; the programs take capicity = 104000000 and bucket_num = 6000000.\<close>

definition bench_hs_cache :: "(nat \<Rightarrow> u64 \<times> u64) \<Rightarrow> int \<Rightarrow> int \<Rightarrow> int hs_cache" where
  "bench_hs_cache addr capicity bucket_num = snd (Init addr (HashSkipCache_new capicity bucket_num))"

section \<open>The turns keep the cache in order\<close>

text \<open>new returns at every turn an address that is not in use.\<close>

fun fresh_turns :: "hs_turn list \<Rightarrow> op_stat \<times> int hs_cache \<Rightarrow> bool" where
  "fresh_turns [] sc = True"
| "fresh_turns (t # ts) sc \<longleftrightarrow> (ht_miss t \<longrightarrow> hc_fresh (snd sc) (ht_alloc t 0)) \<and>
     (case hs_mixed_turn True t sc of None \<Rightarrow> True | Some sc \<Rightarrow> fresh_turns ts sc)"

lemma Get_dom: "Get spurious sl key = Some (r, sl') \<Longrightarrow> as_heap sl' a = None \<longleftrightarrow> as_heap sl a = None"
  by (auto simp: Get_def split: bind_splits option.splits if_splits)

lemma hc_Get_fresh:
  assumes "hc_Get spurious c key = Some (r, c')" "hc_fresh c a"
  shows "hc_fresh c' a"
proof -
  let ?i = "bucket_of (length (buckets c)) key"
  from assms(1) consider "c' = c" | sl sl' where "Get spurious sl key = Some (r, sl')" "load_bucket c ?i = Some (Some sl)" "c' = put_bucket c ?i sl'"
    by (auto simp: hc_Get_def Let_def split: bind_splits option.splits)
  then show ?thesis
  proof cases
    case 1
    then show ?thesis using assms(2) by simp
  next
    case 2
    have "?i < length (buckets c)" "buckets c ! ?i = Some sl" using 2(2) by (auto simp: load_bucket_def split: if_splits)
    then show ?thesis unfolding 2(3) by (rule hc_fresh_put[OF assms(2)]) (rule Get_dom[OF 2(1)])
  qed
qed

text \<open>The cache holds exactly the keys K, each with its own value.\<close>

definition holds_keys :: "int set \<Rightarrow> int \<rightharpoonup> int hs_handle" where
  "holds_keys K = (\<lambda>k. if k \<in> K then Some (bench_hs_handle k) else None)"

definition bench_hs_ok :: "int set \<Rightarrow> int hs_cache \<Rightarrow> bool" where
  "bench_hs_ok K c \<longleftrightarrow> finite K \<and> hc_represents c (holds_keys K) {} \<and> Size (low_queue c) = 0 \<and>
     memory_used c = 8 * int (card K)"

lemma hs_get_turn_ok:
  assumes "bench_hs_ok K c" "key < INT64_MAX" "all_good i stat"
  obtains stat' c' where "hs_get_turn True spurious key (stat, c) = Some (stat', c')" "bench_hs_ok K c'" "all_good i stat'"
    "\<And>a. hc_fresh c a \<Longrightarrow> hc_fresh c' a"
proof -
  have r: "hc_represents c (holds_keys K) {}" using assms(1) by (simp add: bench_hs_ok_def)
  obtain c' where g: "hc_Get spurious c key = Some (holds_keys K key, c')" "hc_represents c' (holds_keys K) {}"
    "memory_used c' = memory_used c" "low_queue c' = low_queue c"
    by (rule hc_Get_facts[OF r assms(2), of spurious]) blast
  have b: "bench_hs_ok K c'" using g assms(1) by (simp add: bench_hs_ok_def)
  show thesis
    by (rule that[of "if key \<in> K then count_get True stat else stat" c'])
       (use g(1) b assms(3) hc_Get_fresh[OF g(1)] in \<open>auto simp: hs_get_turn_def holds_keys_def bench_hs_handle_def\<close>)
qed

lemma hs_insert_turn_ok:
  assumes "bench_hs_ok K c" "key < INT64_MAX" "all_good i stat" "hc_fresh c (alloc 0)" "card K < 2 ^ 59"
  obtains stat' c' where "hs_insert_turn True coins alloc spurious espurious key (stat, c) = Some (stat', c')"
    "bench_hs_ok (insert key K) c'" "all_good (Suc i) stat'"
proof -
  let ?h = "bench_hs_handle key"
  have r: "hc_represents c (holds_keys K) {}" and q: "Size (low_queue c) \<le> 0" and f: "finite K"
    using assms(1) by (simp_all add: bench_hs_ok_def)
  obtain c' where I: "hc_Insert coins alloc spurious espurious c key (Some ?h) = Some (True, c')"
    "hc_represents c' ((holds_keys K)(key \<mapsto> ?h)) {}" "memory_used c' = memory_used c + Charge ?h - charge_of (holds_keys K key)"
    "low_queue c' = low_queue c"
    by (rule hc_Insert_facts[where alloc = alloc, OF r assms(2) _ assms(4) disjI2[OF q], where coins = coins and spurious = spurious and espurious = espurious and handle = ?h])
      (use assms(1,5) in \<open>simp_all add: bench_hs_ok_def bench_hs_handle_def holds_keys_def charge_of_def int64_range_def int32_range_def\<close>)
  have m: "(holds_keys K)(key \<mapsto> ?h) = holds_keys (insert key K)" by (rule ext) (simp add: holds_keys_def)
  have "memory_used c' = 8 * int (card (insert key K))"
    using I(3) assms(1) f by (simp add: bench_hs_ok_def holds_keys_def charge_of_def bench_hs_handle_def card_insert_if)
  then have "bench_hs_ok (insert key K) c'" using I(2,4) assms(1) f unfolding m by (simp add: bench_hs_ok_def)
  then show thesis using I(1) assms(3)
    by (intro that[of "count_insert True stat" c']) (simp_all add: hs_insert_turn_def)
qed

definition inserted :: "hs_turn list \<Rightarrow> int set" where
  "inserted ts = ht_key ` set (filter ht_miss ts)"

lemma hs_run_ok:
  assumes "bench_hs_ok K c" "all_good i stat" "\<forall>t \<in> set ts. ht_key t < INT64_MAX" "fresh_turns ts (stat, c)"
    "card K + length ts \<le> 2 ^ 59"
  shows "\<exists>stat' c'. hs_mixed_run True ts (stat, c) = Some (stat', c') \<and> bench_hs_ok (K \<union> inserted ts) c' \<and>
    all_good (i + length (filter ht_miss ts)) stat'"
  using assms
proof (induction ts arbitrary: K i stat c)
  case (Cons t ts)
  have k: "ht_key t < INT64_MAX" using Cons.prems(3) by simp
  obtain stat1 c1 where g: "hs_get_turn True (ht_get_spurious t) (ht_key t) (stat, c) = Some (stat1, c1)" "bench_hs_ok K c1"
    "all_good i stat1" "\<And>a. hc_fresh c a \<Longrightarrow> hc_fresh c1 a" by (rule hs_get_turn_ok[OF Cons.prems(1) k Cons.prems(2), of "ht_get_spurious t"]) blast
  show ?case
  proof (cases "ht_miss t")
    case True
    then have f: "hc_fresh c1 (ht_alloc t 0)" using Cons.prems(4) g(4) by simp
    obtain stat2 c2 where n: "hs_insert_turn True (ht_coins t) (ht_alloc t) (ht_spurious t) (ht_evict_spurious t) (ht_key t) (stat1, c1) = Some (stat2, c2)"
      "bench_hs_ok (insert (ht_key t) K) c2" "all_good (Suc i) stat2"
      by (rule hs_insert_turn_ok[where alloc = "ht_alloc t", OF g(2) k g(3) f]) (use Cons.prems(5) in simp)
    have cd: "card (insert (ht_key t) K) + length ts \<le> 2 ^ 59"
      using Cons.prems(1,5) by (simp add: card_insert_if bench_hs_ok_def)
    have turn: "hs_mixed_turn True t (stat, c) = Some (stat2, c2)" using g(1) n(1) True by (simp add: hs_mixed_turn_def)
    have ts: "\<forall>t \<in> set ts. ht_key t < INT64_MAX" "fresh_turns ts (stat2, c2)" using Cons.prems(3,4) turn by simp_all
    have e: "K \<union> inserted (t # ts) = insert (ht_key t) K \<union> inserted ts" using True by (simp add: inserted_def)
    show ?thesis unfolding e using Cons.IH[OF n(2,3) ts cd] turn True by simp
  next
    case False
    have turn: "hs_mixed_turn True t (stat, c) = Some (stat1, c1)" using g(1) False by (simp add: hs_mixed_turn_def)
    have ts: "\<forall>t \<in> set ts. ht_key t < INT64_MAX" "fresh_turns ts (stat1, c1)" using Cons.prems(3,4) turn by simp_all
    have e: "K \<union> inserted (t # ts) = K \<union> inserted ts" using False by (simp add: inserted_def)
    show ?thesis unfolding e using Cons.IH[OF g(2,3) ts] Cons.prems(5) turn False by simp
  qed
qed (simp add: inserted_def)

lemma bench_hs_start:
  assumes "0 < bucket_num" "\<And>i. i < nat bucket_num \<Longrightarrow> new_addresses (fst (addr i)) (snd (addr i))"
  shows "bench_hs_ok {} (bench_hs_cache addr capicity bucket_num)"
proof -
  have "Size (low_queue (bench_hs_cache addr capicity bucket_num)) = 0"
    by (simp add: bench_hs_cache_def Init_def HashSkipCache_new_def Queue_new_def Size_def LoadRelaxed_def)
  moreover have "holds_keys {} = Map.empty" by (simp add: holds_keys_def)
  moreover have "hc_represents (bench_hs_cache addr capicity bucket_num) Map.empty {}" "memory_used (bench_hs_cache addr capicity bucket_num) = 0"
    unfolding bench_hs_cache_def by (rule hc_start[OF assms]; assumption)+
  ultimately show ?thesis by (simp add: bench_hs_ok_def)
qed

section \<open>The benchmark\<close>

text \<open>Run by one client between two turns of the background threads, the mixed benchmark on the hash skip cache
  never faults in up to 2^59 turns: every insertion succeeds, and every value a lookup finds is the one stored under its key. The cache holds
  exactly the keys inserted, and memory_used_ is exactly 8 for each of them. This holds for every capicity: without
  candidates from the decay thread Evict frees nothing and still reports success, so the capacity is no limit.\<close>

theorem hs_mixed_bench_runs:
  assumes "0 < bucket_num" "\<And>i. i < nat bucket_num \<Longrightarrow> new_addresses (fst (addr i)) (snd (addr i))"
    "\<forall>t \<in> set ts. ht_key t < INT64_MAX" "fresh_turns ts (OpStat_new, bench_hs_cache addr capicity bucket_num)"
    "length ts \<le> 2 ^ 59"
  shows "\<exists>stat c. hs_mixed_run True ts (OpStat_new, bench_hs_cache addr capicity bucket_num) = Some (stat, c) \<and>
    get_status stat False = 0 \<and> insert_status stat False = 0 \<and>
    insert_status stat True = of_nat (length (filter ht_miss ts)) \<and>
    hc_represents c (holds_keys (inserted ts)) {} \<and> GetMemoryUsed c = 8 * int (card (inserted ts))"
proof -
  obtain stat c where r: "hs_mixed_run True ts (OpStat_new, bench_hs_cache addr capicity bucket_num) = Some (stat, c)"
    "bench_hs_ok ({} \<union> inserted ts) c" "all_good (0 + length (filter ht_miss ts)) stat"
    using hs_run_ok[OF bench_hs_start[OF assms(1,2), where capicity = capicity] all_good_start assms(3,4)] assms(5) by auto
  then show ?thesis by (auto simp: all_good_def bench_hs_ok_def GetMemoryUsed_def LoadRelaxed_def)
qed

text \<open>A cache of capacity 4 takes an entry of charge 8.\<close>

theorem hs_mixed_bench_runs_witness:
  "\<exists>stat c. hs_mixed_run True [\<lparr>ht_key = 7, ht_miss = True, ht_coins = (\<lambda>_ _. True), ht_alloc = (\<lambda>_. 48),
      ht_spurious = (\<lambda>_. 1), ht_get_spurious = 0, ht_evict_spurious = 0\<rparr>] (OpStat_new, bench_hs_cache (\<lambda>i. (16, 32)) 4 2) =
    Some (stat, c) \<and> insert_status stat True = 1 \<and> GetMemoryUsed c = 8"
proof -
  let ?t = "\<lparr>ht_key = 7, ht_miss = True, ht_coins = (\<lambda>_ _. True), ht_alloc = (\<lambda>_. 48 :: u64),
      ht_spurious = (\<lambda>_. 1), ht_get_spurious = 0, ht_evict_spurious = 0\<rparr>"
  have "hc_fresh (bench_hs_cache (\<lambda>i. (16, 32)) 4 2) 48"
    by (auto simp: bench_hs_cache_def hc_fresh_def askip_fresh_def Init_def HashSkipCache_new_def AtomicSkipList_new_def)
  then have f: "fresh_turns [?t] (OpStat_new, bench_hs_cache (\<lambda>i. (16, 32)) 4 2)" by (simp split: option.splits)
  show ?thesis
    using hs_mixed_bench_runs[of 2 "\<lambda>i. (16, 32)" "[?t]" 4, OF _ _ _ f] demo_addr
    by (auto simp: inserted_def INT64_MAX_def simp del: hs_mixed_run.simps)
qed

end
