(* ===== verification/HS_System.thy ===== *)
theory HS_System
  imports HS_Cache
begin

text \<open>
  The hash skip cache under any sequence of the operations of its clients and of turns of its two background
  threads. An insertion may meet a node that is deleted but still linked, which takes the handle and keeps
  it hidden; so the relation of the cache to a map is given up here for a weaker one that every operation keeps: every node
  holds only handles that were inserted under its key.
\<close>

section \<open>Events\<close>

text \<open>A turn of the loop of Decay, without its waiting: nothing happens while ShouldDecay() is false.\<close>

definition decay_turn :: "nat \<Rightarrow> 'v hs_cache \<Rightarrow> nat \<Rightarrow> 'v hs_cache option" where
  "decay_turn spurious c i = (if \<not> ShouldDecay c then Some c else DecayOneBucket spurious c i)"

datatype 'v hs_event =
    GetEvent nat int
  | InsertEvent "nat \<Rightarrow> nat \<Rightarrow> bool" "nat \<Rightarrow> u64" "nat \<Rightarrow> nat" nat int "'v hs_handle"
  | DecayEvent nat nat
  | CompactEvent "nat \<Rightarrow> nat \<Rightarrow> nat \<Rightarrow> bool" "nat \<Rightarrow> nat \<Rightarrow> u64" "nat \<Rightarrow> nat \<Rightarrow> nat" "u64 \<times> u64" nat

text \<open>Get answers with Inl, the handle it found, Insert with Inr, its result.\<close>

fun hs_event_step :: "'v hs_event \<Rightarrow> 'v hs_cache \<Rightarrow> (('v hs_handle option + bool) \<times> 'v hs_cache) option" where
  "hs_event_step (GetEvent spurious key) c = do { (r, c) \<leftarrow> hc_Get spurious c key; Some (Inl r, c) }"
| "hs_event_step (InsertEvent coins alloc spurious espurious key handle) c =
     do { (ok, c) \<leftarrow> hc_Insert coins alloc spurious espurious c key (Some handle); Some (Inr ok, c) }"
| "hs_event_step (DecayEvent spurious i) c = do { c \<leftarrow> decay_turn spurious c i; Some (Inr True, c) }"
| "hs_event_step (CompactEvent coins alloc spurious addr i) c =
     do { c \<leftarrow> compact_turn coins alloc spurious addr c i; Some (Inr True, c) }"

fun hs_events :: "'v hs_event list \<Rightarrow> 'v hs_cache \<Rightarrow> (('v hs_handle option + bool) list \<times> 'v hs_cache) option" where
  "hs_events [] c = Some ([], c)"
| "hs_events (e # es) c = do { (r, c) \<leftarrow> hs_event_step e c; (rs, c) \<leftarrow> hs_events es c; Some (r # rs, c) }"

text \<open>An insertion relies on a charge that is not negative and does not overflow together with memory_used_; a turn of the decay
  thread on room for the positions of its pushes.\<close>

definition charge_fits :: "'v hs_cache \<Rightarrow> 'v hs_handle \<Rightarrow> bool" where
  "charge_fits c handle \<longleftrightarrow> 0 \<le> Charge handle \<and> int64_range (memory_used c + Charge handle)"

definition decay_room :: "'v hs_cache \<Rightarrow> nat \<Rightarrow> bool" where
  "decay_room c i \<longleftrightarrow> (\<forall>sl. buckets c ! i = Some sl \<longrightarrow> node_num sl \<le> pushes_left (low_queue c))"

text \<open>What the events rely on besides: keys below INT64_MAX, buckets in range, and new returning addresses not in use.\<close>

fun event_ok :: "'v hs_event \<Rightarrow> 'v hs_cache \<Rightarrow> bool" where
  "event_ok (GetEvent _ key) c \<longleftrightarrow> key < INT64_MAX"
| "event_ok (InsertEvent _ alloc _ _ key handle) c \<longleftrightarrow> key < INT64_MAX \<and> hc_fresh c (alloc 0) \<and> charge_fits c handle"
| "event_ok (DecayEvent _ i) c \<longleftrightarrow> i < length (buckets c) \<and> decay_room c i"
| "event_ok (CompactEvent _ alloc _ addr i) c \<longleftrightarrow> i < length (buckets c) \<and>
     (case buckets c ! i of None \<Rightarrow> True | Some sl \<Rightarrow> compact_fresh addr alloc (nat (node_num sl)))"

fun events_ok :: "'v hs_event list \<Rightarrow> 'v hs_cache \<Rightarrow> bool" where
  "events_ok [] c \<longleftrightarrow> True"
| "events_ok (e # es) c \<longleftrightarrow> event_ok e c \<and>
     (case hs_event_step e c of None \<Rightarrow> True | Some (_, c) \<Rightarrow> events_ok es c)"

definition inserts :: "'v hs_event list \<Rightarrow> (int \<times> 'v hs_handle) set" where
  "inserts es = {(key, h). \<exists>coins alloc spurious espurious. InsertEvent coins alloc spurious espurious key h \<in> set es}"

section \<open>Lists whose nodes hold permitted handles\<close>

definition payable :: "(int \<times> 'v hs_handle) set \<Rightarrow> bool" where
  "payable V \<longleftrightarrow> (\<forall>(k, h) \<in> V. 0 \<le> Charge h)"

definition holds_by :: "(int \<times> 'v hs_handle) set \<Rightarrow> 'v askip \<Rightarrow> u64 list \<Rightarrow> bool" where
  "holds_by V sl xs \<longleftrightarrow> as_ok sl xs \<and> (\<forall>p \<in> set xs. \<forall>v. handle_at (as_heap sl) p = Some v \<longrightarrow> (hkey (as_heap sl) p, v) \<in> V)"

definition hs_holds :: "(int \<times> 'v hs_handle) set \<Rightarrow> 'v askip \<Rightarrow> bool" where
  "hs_holds V sl \<longleftrightarrow> (\<exists>xs. holds_by V sl xs)"

lemma holdsD:
  assumes "holds_by V sl xs"
  shows "as_ok sl xs" "p \<in> set xs \<Longrightarrow> as_heap sl p = Some n \<Longrightarrow> hn_handle n = Some v \<Longrightarrow> (hn_key n, v) \<in> V"
    "p \<in> set xs \<Longrightarrow> as_heap sl p = Some n \<Longrightarrow> hn_key n < INT64_MAX"
proof -
  show ok: "as_ok sl xs" using assms by (simp add: holds_by_def)
  show "p \<in> set xs \<Longrightarrow> as_heap sl p = Some n \<Longrightarrow> hn_handle n = Some v \<Longrightarrow> (hn_key n, v) \<in> V"
    using assms by (force simp: holds_by_def handle_at_def hkey_def)
  show "p \<in> set xs \<Longrightarrow> as_heap sl p = Some n \<Longrightarrow> hn_key n < INT64_MAX"
    using as_ok_keys(2)[OF ok, of p] by (simp add: hkey_def)
qed

lemma holds_mono: "hs_holds V sl \<Longrightarrow> V \<subseteq> W \<Longrightarrow> hs_holds W sl"
  by (fastforce simp: hs_holds_def holds_by_def)

lemma holds_node:
  assumes "holds_by V sl xs" "p \<in> set xs" "as_heap sl p = Some n" "same_links n n'" "node_ok n'"
    "\<And>v. hn_handle n' = Some v \<Longrightarrow> (hn_key n, v) \<in> V"
  shows "holds_by V (sl\<lparr>as_heap := (as_heap sl)(p := Some n')\<rparr>) xs"
proof -
  have ok: "as_ok sl xs" by (rule holdsD(1)[OF assms(1)])
  have k: "hkey ((as_heap sl)(p := Some n')) = hkey (as_heap sl)" by (rule node_update(2)[of "as_heap sl" p n n', OF assms(3,4)])
  have "handle_at ((as_heap sl)(p := Some n')) q = (if q = p then hn_handle n' else handle_at (as_heap sl) q)" for q
    by (simp add: handle_at_def)
  moreover have "hkey (as_heap sl) p = hn_key n" using assms(3) by (simp add: hkey_def)
  ultimately show ?thesis
    using as_ok_node(1)[OF ok assms(2-5)] assms(1,6) k by (auto simp: holds_by_def simp del: fun_upd_apply)
qed

lemma new_holds: "new_addresses a b \<Longrightarrow> hs_holds V (AtomicSkipList_new a b)"
  using AtomicSkipList_new_ok(1)[of a b] by (auto simp: hs_holds_def holds_by_def)

lemma Get_holds:
  assumes "hs_holds V sl" "key < INT64_MAX"
  obtains r sl' where "Get spurious sl key = Some (r, sl')" "hs_holds V sl'" "\<And>h. r = Some h \<Longrightarrow> (key, h) \<in> V"
proof -
  obtain xs where h: "holds_by V sl xs" using assms(1) by (auto simp: hs_holds_def)
  show thesis
  proof (rule Get_node_cases[OF holdsD(1)[OF h] assms(2)])
    assume "Get_node sl key = Some None"
    then show thesis using assms(1) by (intro that[of None sl]) (simp_all add: Get_def)
  next
    fix p n assume p: "Get_node sl key = Some (Some p)" "p \<in> set xs" "as_heap sl p = Some n" "hn_key n = key"
    let ?n = "IncrHitCount spurious n"
    have n: "same_links n ?n" "node_ok ?n" "hn_handle ?n = hn_handle n"
      using as_okD(3)[OF holdsD(1)[OF h] p(3)] by (auto simp: same_links_def IncrHitCount_eq node_ok_def)
    have "holds_by V (sl\<lparr>as_heap := (as_heap sl)(p := Some ?n)\<rparr>) xs"
      by (rule holds_node[OF h p(2,3) n(1,2)]) (use holdsD(2)[OF h p(2,3)] n(3) in simp)
    then show thesis
      using p holdsD(2)[OF h p(2,3)] by (intro that) (auto simp: Get_def GetHandle_def hs_holds_def)
  qed
qed

lemma Insert_holds:
  assumes "hs_holds V sl" "key < INT64_MAX" "askip_fresh sl (alloc 0)" "(key, handle) \<in> V"
  obtains old sl' where "Insert coins alloc spurious sl key (Some handle) = Some (old, sl')" "hs_holds V sl'"
    "dom (as_heap sl') \<subseteq> insert (alloc 0) (dom (as_heap sl))" "\<And>h. old = Some h \<Longrightarrow> (key, h) \<in> V"
proof -
  let ?h = "as_heap sl" and ?a = "alloc 0"
  obtain xs where h: "holds_by V sl xs" using assms(1) by (auto simp: hs_holds_def)
  note ok = holdsD(1)[OF h]
  show thesis
  proof (cases "\<exists>p \<in> set xs. hkey ?h p = key")
    case True
    then obtain p where p: "p \<in> set xs" "hkey ?h p = key" by blast
    obtain n where n: "?h p = Some n" using as_okD(1)[OF ok, of p] p(1) by blast
    then have k: "hn_key n = key" using p(2) by (simp add: hkey_def)
    let ?n = "n\<lparr>hn_handle := Some handle\<rparr>"
    have nn: "same_links n ?n" "node_ok ?n" using as_okD(3)[OF ok n] by (simp_all add: same_links_def node_ok_def)
    have "holds_by V (sl\<lparr>as_heap := ?h(p := Some ?n)\<rparr>) xs" by (rule holds_node[OF h p(1) n nn]) (use assms(4) k in simp)
    then have "hs_holds V (sl\<lparr>as_heap := ?h(p := Some ?n)\<rparr>)" by (auto simp: hs_holds_def)
    moreover have "Insert coins alloc spurious sl key (Some handle) = Some (hn_handle n, sl\<lparr>as_heap := ?h(p := Some ?n)\<rparr>)"
      using Insert_known_spec(1)[OF ok assms(2) p(1) n k] by (simp add: Insert_def)
    ultimately show thesis using n holdsD(2)[OF h p(1) n] k by (intro that) (auto split: if_splits)
  next
    case False
    have a: "?h ?a = None" "?a \<noteq> 0" "unat ?a < 2 ^ 47" using assms(3) by (simp_all add: askip_fresh_def)
    have nk: "\<forall>x \<in> set xs. hkey ?h x \<noteq> key" using False by blast
    obtain sl' ys zs n where C: "insert_loop coins alloc spurious 0 sl key (Some handle) = Some (None, sl')" "xs = ys @ zs"
      "as_ok sl' (ys @ ?a # zs)" "grown (?h(?a := Some n)) (as_heap sl')" "hn_handle n = Some handle" "hkey (as_heap sl') ?a = key"
      "?a \<notin> set ys" "?a \<notin> set zs"
      by (rule Insert_new_core[where alloc = alloc and i = 0, OF ok assms(2) a nk, of coins spurious "Some handle"])
    note g = C(4)
    have same: "hkey (as_heap sl') q = hkey ?h q" "handle_at (as_heap sl') q = handle_at ?h q" if "q \<noteq> ?a" for q
      using that grown_frame(2)[OF g, of q] grown_handle[OF g, of q] by (simp_all add: hkey_def handle_at_def)
    have new: "handle_at (as_heap sl') ?a = Some handle" using grown_handle[OF g, of ?a] C(5) by (simp add: handle_at_def)
    have "(hkey (as_heap sl') p, v) \<in> V" if "p \<in> set (ys @ ?a # zs)" "handle_at (as_heap sl') p = Some v" for p v
    proof (cases "p = ?a")
      case True
      then show ?thesis using that new C(6) assms(4) by simp
    next
      case False
      then have "p \<in> set xs" using that(1) C(2) by auto
      then show ?thesis using h that(2) same[OF False] by (simp add: holds_by_def)
    qed
    then have "hs_holds V sl'" using C(3) unfolding hs_holds_def holds_by_def by blast
    moreover have "dom (as_heap sl') \<subseteq> insert ?a (dom ?h)"
    proof
      fix q assume "q \<in> dom (as_heap sl')"
      then have "(?h(?a := Some n)) q \<noteq> None"
        using g same_frameD(3)[of "?h(?a := Some n)" "as_heap sl'" q] by (auto simp: grown_def)
      then show "q \<in> insert ?a (dom ?h)" by (auto split: if_splits)
    qed
    ultimately show thesis using C(1) by (intro that[of None sl']) (simp_all add: Insert_def)
  qed
qed

lemma mark_holds:
  assumes "holds_by V sl xs" "p \<in> set xs" "as_heap sl p = Some n" "\<not> node_IsMarked n" "MarkDeleted spurious n = (charge, n')"
  shows "holds_by V (sl\<lparr>as_heap := (as_heap sl)(p := Some n')\<rparr>) xs"
proof -
  note N = MarkDeleted_node[OF as_okD(3)[OF holdsD(1)[OF assms(1)] assms(3)] assms(4,5)]
  show ?thesis by (rule holds_node[OF assms(1-3) N(2,3)]) (use N(5) in simp)
qed

lemma decay_room_card:
  assumes "hc_represents c M D" "finite K" "dom M \<union> D \<subseteq> K" "int (card K) \<le> pushes_left (low_queue c)" "i < length (buckets c)"
  shows "decay_room c i"
  unfolding decay_room_def
proof (intro allI impI)
  fix sl assume sl: "buckets c ! i = Some sl"
  obtain xs where xs: "represents_by sl xs (part (length (buckets c)) i M) (keys_of (length (buckets c)) i D)"
    using hc_representsD(4)[OF assms(1,5)] sl unfolding hs_represents_def by auto
  have "length xs \<le> card K" by (rule represents_length[OF xs assms(2) order.trans[OF part_keys assms(3)]])
  then show "node_num sl \<le> pushes_left (low_queue c)"
    using as_okD(13)[OF representsD(1)[OF xs]] assms(4) by simp
qed

section \<open>Caches whose lists hold permitted handles\<close>

definition hc_holds :: "(int \<times> 'v hs_handle) set \<Rightarrow> 'v hs_cache \<Rightarrow> bool" where
  "hc_holds V c \<longleftrightarrow> 0 < length (buckets c) \<and> length (buckets_gen c) = length (buckets c) \<and>
     low_ok (length (buckets c)) (low_queue c) \<and> (\<forall>b \<in> set (buckets c). \<exists>sl. b = Some sl \<and> hs_holds V sl)"

lemma hc_holds_bucket:
  assumes "hc_holds V c" "i < length (buckets c)"
  obtains sl where "buckets c ! i = Some sl" "load_bucket c i = Some (Some sl)" "hs_holds V sl"
proof -
  have "buckets c ! i \<in> set (buckets c)" using assms(2) by simp
  then obtain sl where "buckets c ! i = Some sl" "hs_holds V sl" using assms(1) unfolding hc_holds_def by blast
  then show thesis using assms(2) by (intro that) (simp_all add: load_bucket_def)
qed

lemma hc_holds_at: "hc_holds V c \<Longrightarrow> bucket_of (length (buckets c)) key < length (buckets c)"
  using bucket_route.route_less by (auto simp: hc_holds_def)

lemma hc_holds_put: "hc_holds V c \<Longrightarrow> hs_holds V sl \<Longrightarrow> hc_holds V (put_bucket c i sl)"
  using set_update_subset_insert[of "buckets c" i "Some sl"] by (auto simp: hc_holds_def put_bucket_def)

lemma hc_holds_frame: "hc_holds V (c\<lparr>memory_used := m\<rparr>) \<longleftrightarrow> hc_holds V c"
  by (simp add: hc_holds_def)

lemma hc_holds_low: "hc_holds V c \<Longrightarrow> low_ok (length (buckets c)) q \<Longrightarrow> hc_holds V (c\<lparr>low_queue := q\<rparr>)"
  by (simp add: hc_holds_def)

lemma hc_holds_mono: "hc_holds V c \<Longrightarrow> V \<subseteq> W \<Longrightarrow> hc_holds W c"
  using holds_mono by (fastforce simp: hc_holds_def)

lemma hc_Get_holds:
  assumes "hc_holds V c" "key < INT64_MAX"
  obtains r c' where "hc_Get spurious c key = Some (r, c')" "hc_holds V c'" "\<And>h. r = Some h \<Longrightarrow> (key, h) \<in> V"
proof -
  let ?i = "bucket_of (length (buckets c)) key"
  obtain sl where b: "load_bucket c ?i = Some (Some sl)" "hs_holds V sl"
    by (rule hc_holds_bucket[OF assms(1) hc_holds_at[OF assms(1)], of key])
  obtain r sl' where g: "Get spurious sl key = Some (r, sl')" "hs_holds V sl'" "\<And>h. r = Some h \<Longrightarrow> (key, h) \<in> V"
    by (rule Get_holds[OF b(2) assms(2), of spurious]) blast
  show thesis by (rule that[OF _ hc_holds_put[OF assms(1) g(2)] g(3)]) (simp_all add: hc_Get_def b g(1))
qed

text \<open>Eviction; it allocates nothing.\<close>

lemma evict_one_holds:
  assumes "hc_holds V c" "queue_list (low_queue c) = it # its"
  obtains freed c' where "evict_one spurious c = Some (freed, c')" "hc_holds V c'" "queue_list (low_queue c') = its"
    "length (buckets c') = length (buckets c)" "\<And>a. hc_fresh c a \<Longrightarrow> hc_fresh c' a"
proof -
  let ?n = "length (buckets c)" and ?i = "nat (bucket_index it)" and ?k = "low_key_of it"
  have lo: "low_ok ?n (low_queue c)" using assms(1) by (simp add: hc_holds_def)
  obtain q where q: "Pop spurious (low_queue c) = Some (Some it, q)" "low_ok ?n q" "queue_list q = its" "?i < ?n" "?k < INT64_MAX"
    by (rule low_pop[OF lo assms(2), of spurious])
  let ?c = "c\<lparr>low_queue := q\<rparr>"
  have h: "hc_holds V ?c" by (rule hc_holds_low[OF assms(1) q(2)])
  have fr: "hc_fresh ?c a = hc_fresh c a" for a by (simp add: hc_fresh_def)
  obtain sl where sl: "buckets c ! ?i = Some sl" "load_bucket ?c ?i = Some (Some sl)" "hs_holds V sl"
    by (rule hc_holds_bucket[OF h, of ?i]) (use q(4) in auto)
  obtain xs where xs: "holds_by V sl xs" using sl(3) by (auto simp: hs_holds_def)
  show thesis
  proof (cases "gen it \<noteq> LoadAcquire (buckets_gen c ! ?i)")
    case True
    then have "evict_one spurious c = Some (0, ?c)" using q(1) sl(2) by (simp add: evict_one_def Let_def)
    then show thesis by (rule that) (use h q(3) fr in simp_all)
  next
    case False
    show thesis
    proof (rule Get_node_cases[OF holdsD(1)[OF xs] q(5)])
      assume "Get_node sl ?k = Some None"
      then have "evict_one spurious c = Some (0, ?c)" using q(1) sl(2) False by (simp add: evict_one_def Let_def)
      then show thesis by (rule that) (use h q(3) fr in simp_all)
    next
      fix p n assume p: "Get_node sl ?k = Some (Some p)" "p \<in> set xs" "as_heap sl p = Some n" "\<not> node_IsMarked n"
      obtain charge n' where m: "MarkDeleted spurious n = (charge, n')" by fastforce
      let ?sl = "sl\<lparr>as_heap := (as_heap sl)(p := Some n')\<rparr>"
      let ?d = "put_bucket ?c ?i ?sl"
      have "hs_holds V ?sl" using mark_holds[OF xs p(2-4) m] by (auto simp: hs_holds_def)
      then have d: "hc_holds V ?d" by (rule hc_holds_put[OF h])
      have f: "hc_fresh ?d a" if "hc_fresh c a" for a
        by (rule hc_fresh_put[of ?c a ?i sl]) (use that fr q(4) sl(1) p(3) in simp_all)
      have e: "\<exists>freed m. evict_one spurious c = Some (freed, ?d\<lparr>memory_used := m\<rparr>)"
      proof (cases "0 < charge")
        case True
        then have "evict_one spurious c = Some (charge, ?d\<lparr>memory_used := wrap64 (memory_used c + charge)\<rparr>)"
          using q(1) sl(2) False p(1,3) m by (simp add: evict_one_def Let_def FetchAddRelaxed_def)
        then show ?thesis by blast
      next
        case nofree: False
        have "?d\<lparr>memory_used := memory_used c\<rparr> = ?d" by (rule same_memory) simp
        then have "evict_one spurious c = Some (0, ?d\<lparr>memory_used := memory_used c\<rparr>)"
          using q(1) sl(2) False p(1,3) m nofree by (simp add: evict_one_def Let_def)
        then show ?thesis by blast
      qed
      then obtain freed m where e: "evict_one spurious c = Some (freed, ?d\<lparr>memory_used := m\<rparr>)" by blast
      show thesis by (rule that[OF e]) (use d f q(3) in \<open>simp_all add: hc_holds_frame hc_fresh_def\<close>)
    qed
  qed
qed

lemma evict_low_holds:
  assumes "hc_holds V c"
  obtains c' where "evict_low spurious c need = Some c'" "hc_holds V c'" "length (buckets c') = length (buckets c)"
    "\<And>a. hc_fresh c a \<Longrightarrow> hc_fresh c' a"
  using assms
proof (induction "queue_list (low_queue c)" arbitrary: c need thesis)
  case Nil
  have "low_ok (length (buckets c)) (low_queue c)" using Nil(3) by (simp add: hc_holds_def)
  then have "\<not> 0 < Size (low_queue c)" using Size_pos Nil(1) by (metis low_ok_def)
  then have "evict_low spurious c need = Some c" by (subst evict_low.simps) simp
  then show ?case by (rule Nil(2)) (use Nil(3) in simp_all)
next
  case (Cons it its)
  obtain freed d where e: "evict_one spurious c = Some (freed, d)" "hc_holds V d" "queue_list (low_queue d) = its"
    "length (buckets d) = length (buckets c)" "\<And>a. hc_fresh c a \<Longrightarrow> hc_fresh d a"
    by (rule evict_one_holds[OF Cons(4) Cons(2)[symmetric], of spurious]) blast
  obtain c' where s: "evict_low spurious d (need - freed) = Some c'" "hc_holds V c'" "length (buckets c') = length (buckets d)"
    "\<And>a. hc_fresh d a \<Longrightarrow> hc_fresh c' a" by (rule Cons(1)[OF e(3)[symmetric] _ e(2), of "need - freed"]) blast
  show ?case
  proof (cases "0 < need \<and> 0 < Size (low_queue c)")
    case True
    then have "evict_low spurious c need = Some c'" using e(1) s(1) by (subst evict_low.simps) simp
    then show ?thesis by (rule Cons(3)) (use e s in simp_all)
  next
    case False
    then have "evict_low spurious c need = Some c" by (subst evict_low.simps) (simp only: if_False)
    then show ?thesis by (rule Cons(3)) (use Cons(4) in simp_all)
  qed
qed

lemma hc_Insert_holds:
  assumes "hc_holds V c" "key < INT64_MAX" "hc_fresh c (alloc 0)" "(key, handle) \<in> V" "charge_fits c handle" "payable V"
  obtains c' where "hc_Insert coins alloc spurious espurious c key (Some handle) = Some (True, c')" "hc_holds V c'"
    "length (buckets c') = length (buckets c)"
proof -
  let ?i = "bucket_of (length (buckets c)) key"
  obtain sl0 where b0: "load_bucket c ?i = Some (Some sl0)"
    by (rule hc_holds_bucket[OF assms(1) hc_holds_at[OF assms(1)], of key])
  obtain c1 where c1: "(if hc_capicity c < memory_used c + Charge handle then hc_Evict espurious c (Charge handle) else Some (True, c)) =
      Some (True, c1)" "hc_holds V c1" "length (buckets c1) = length (buckets c)" "hc_fresh c1 (alloc 0)"
  proof (cases "hc_capicity c < memory_used c + Charge handle")
    case True
    obtain c1 where "evict_low espurious c (Charge handle) = Some c1" "hc_holds V c1" "length (buckets c1) = length (buckets c)"
      "\<And>a. hc_fresh c a \<Longrightarrow> hc_fresh c1 a" by (rule evict_low_holds[OF assms(1)]) blast
    then show thesis using True assms(3) by (intro that[of c1]) (simp_all add: hc_Evict_def)
  next
    case False
    then show thesis using assms(1,3) by (intro that[of c]) simp_all
  qed
  have i: "?i < length (buckets c1)" using hc_holds_at[OF assms(1)] c1(3) by simp
  obtain sl where b: "buckets c1 ! ?i = Some sl" "hs_holds V sl" by (rule hc_holds_bucket[OF c1(2) i])
  have f: "askip_fresh sl (alloc 0)" using c1(4) b(1) i unfolding hc_fresh_def by (metis nth_mem)
  obtain old sl' where I: "Insert coins alloc spurious sl key (Some handle) = Some (old, sl')" "hs_holds V sl'"
    and o: "\<And>h. old = Some h \<Longrightarrow> (key, h) \<in> V"
    by (rule Insert_holds[where alloc = alloc, OF b(2) assms(2) f assms(4), of coins spurious]) blast
  have "\<exists>ch. (if old = None then Some (Charge handle) else sub32 (Charge handle) (charge_of old)) = Some ch"
  proof (cases old)
    case (Some h)
    then have "0 \<le> Charge h" "0 \<le> Charge handle" using o assms(5,6) by (auto simp: payable_def charge_fits_def)
    then show ?thesis using Some Charge_range[of h] Charge_range[of handle]
      by (simp add: sub32_def int32_range_def charge_of_def)
  qed simp
  then obtain ch where ch: "(if old = None then Some (Charge handle) else sub32 (Charge handle) (charge_of old)) = Some ch" by blast
  have a: "add64 (LoadRelaxed (memory_used c)) (Charge handle) = Some (memory_used c + Charge handle)"
    using assms(5) by (simp add: add64_def charge_fits_def LoadRelaxed_def)
  have "\<exists>m. hc_Insert coins alloc spurious espurious c key (Some handle) = Some (True, (put_bucket c1 ?i sl')\<lparr>memory_used := m\<rparr>)"
    using b0 c1(1) b(1) I(1) ch by (auto simp: hc_Insert_def Let_def charge_of_def[of "Some handle"] a)
  then obtain m where e: "hc_Insert coins alloc spurious espurious c key (Some handle) =
      Some (True, (put_bucket c1 ?i sl')\<lparr>memory_used := m\<rparr>)" by blast
  show thesis by (rule that[OF e]) (use hc_holds_put[OF c1(2) I(2)] c1(3) in \<open>simp_all add: hc_holds_frame\<close>)
qed

text \<open>The decay thread.\<close>

lemma decay_node_holds:
  assumes "hc_holds V c" "i < length (buckets c)" "buckets c ! i = Some sl" "holds_by V sl xs"
    "p \<in> set xs" "as_heap sl p = Some n" "\<not> node_IsMarked n" "0 < pushes_left (low_queue c)"
  obtains c' sl' where "decay_node spurious i p c = Some (True, c')" "hc_holds V c'" "buckets c' ! i = Some sl'"
    "holds_by V sl' xs" "as_head sl' = as_head sl" "length (buckets c') = length (buckets c)"
    "pushes_left (low_queue c) - 1 \<le> pushes_left (low_queue c')"
proof -
  obtain hit n1 where d: "DecrHitCount spurious 100 n = (hit, n1)" by fastforce
  note N = DecrHitCount_node[OF as_okD(3)[OF holdsD(1)[OF assms(4)] assms(6)] d]
  let ?sl = "sl\<lparr>as_heap := (as_heap sl)(p := Some n1)\<rparr>"
  let ?c = "put_bucket c i ?sl"
  have h: "holds_by V ?sl xs" by (rule holds_node[OF assms(4-6) N(2,3)]) (use N(5) holdsD(2)[OF assms(4-6)] in simp)
  then have c: "hc_holds V ?c" by (intro hc_holds_put[OF assms(1)]) (auto simp: hs_holds_def)
  consider (warm) "100 < hit" | (cool) "\<not> 100 < hit" "0 < hit" | (cold) "\<not> 100 < hit" "\<not> 0 < hit" by linarith
  then show thesis
  proof cases
    case warm
    then have "decay_node spurious i p c = Some (True, ?c)" using assms(3,6) d by (simp add: decay_node_def Let_def)
    then show thesis by (rule that[OF _ c, of ?sl]) (use h assms(2) in simp_all)
  next
    case cool
    let ?it = "\<lparr>bucket_index = int i, gen = LoadAcquire (buckets_gen c ! i), low_key_of = hn_key n1\<rparr>"
    have lo: "low_ok (length (buckets c)) (low_queue c)" using assms(1) by (simp add: hc_holds_def)
    obtain ok q where q: "Push spurious (low_queue c) ?it = Some (ok, q)" "low_ok (length (buckets c)) q"
      "pushes_left (low_queue c) - 1 \<le> pushes_left q"
      by (rule low_push[OF lo, of ?it spurious]) (use assms(2,8) holdsD(3)[OF assms(4-6)] N(6) in simp_all)
    have "decay_node spurious i p c = Some (True, ?c\<lparr>low_queue := q\<rparr>)"
      using assms(3,6) d cool q(1) by (simp add: decay_node_def Let_def)
    then show thesis by (rule that[where sl' = ?sl]) (use hc_holds_low[OF c] q(2,3) h assms(2) in simp_all)
  next
    case cold
    obtain charge n2 where m: "MarkDeleted spurious n1 = (charge, n2)" by fastforce
    have p1: "as_heap ?sl p = Some n1" "\<not> node_IsMarked n1" using N(4) assms(7) by simp_all
    let ?sl2 = "?sl\<lparr>as_heap := (as_heap ?sl)(p := Some n2)\<rparr>"
    have h2: "holds_by V ?sl2 xs" by (rule mark_holds[OF h assms(5) p1 m])
    define sl3 where "sl3 = (if 0 < charge then ?sl2\<lparr>marked_deleted_num := snd (FetchAddRelaxed (marked_deleted_num ?sl2) 1)\<rparr> else ?sl2)"
    have l: "list_MarkDeleted spurious ?sl p = Some (charge, sl3)" "as_heap sl3 = as_heap ?sl2" "as_head sl3 = as_head ?sl2"
      "as_tail sl3 = as_tail ?sl2" "node_num sl3 = node_num ?sl2"
      using m by (simp_all add: sl3_def list_MarkDeleted_def Let_def)
    have h3: "holds_by V sl3 xs" using h2 l(2-5) by (simp add: holds_by_def as_ok_def as_nodes_def)
    have c3: "hc_holds V (put_bucket ?c i sl3)" by (rule hc_holds_put[OF c]) (use h3 in \<open>auto simp: hs_holds_def\<close>)
    let ?d = "put_bucket ?c i sl3"
    have "decay_node spurious i p c =
        Some (True, if 0 < charge then ?d\<lparr>memory_used := wrap64 (snd (FetchSubRelaxed (memory_used ?d) charge))\<rparr> else ?d)"
      using assms(3,6) d cold l(1) by (simp add: decay_node_def Let_def)
    then show thesis
      by (rule that[where sl' = sl3]) (use c3 h3 l(3) assms(2) in \<open>simp_all add: hc_holds_frame\<close>)
  qed
qed

lemma DecayOneBucket_holds:
  assumes "hc_holds V c" "i < length (buckets c)" "decay_room c i"
  obtains c' where "DecayOneBucket spurious c i = Some c'" "hc_holds V c'" "length (buckets c') = length (buckets c)"
proof -
  obtain sl where sl: "buckets c ! i = Some sl" "load_bucket c i = Some (Some sl)" "hs_holds V sl"
    by (rule hc_holds_bucket[OF assms(1,2)])
  obtain xs where xs: "holds_by V sl xs" using sl(3) by (auto simp: hs_holds_def)
  have l: "int (length xs) \<le> pushes_left (low_queue c)"
    using assms(3) sl(1) as_okD(13)[OF holdsD(1)[OF xs]] by (simp add: decay_room_def)
  define I where "I ys d \<longleftrightarrow> hc_holds V d \<and> length (buckets d) = length (buckets c) \<and>
    pushes_left (low_queue c) - int (length ys) \<le> pushes_left (low_queue d) \<and>
    (\<exists>sl'. buckets d ! i = Some sl' \<and> as_head sl' = as_head sl \<and> holds_by V sl' xs)" for ys :: "u64 list" and d
  obtain c' where c': "IterateLevel (\<lambda>c. the (buckets c ! i)) (decay_node spurious i) 0 c = Some c'" "I xs c'"
  proof (rule iterate_spec[where I = I and xs = xs and ?h0.0 = "as_head sl"])
    show "as_ok (the (buckets d ! i)) xs \<and> as_head (the (buckets d ! i)) = as_head sl" if "I ys d" for ys d
      using that holdsD(1) by (auto simp: I_def)
    show "I [] c" using assms(1) sl(1) xs by (auto simp: I_def)
    fix ys p zs d n
    assume p: "xs = ys @ p # zs" and I: "I ys d" and n: "as_heap (the (buckets d ! i)) p = Some n"
    obtain sl' where d: "hc_holds V d" "length (buckets d) = length (buckets c)" "buckets d ! i = Some sl'"
      "as_head sl' = as_head sl" "holds_by V sl' xs" "pushes_left (low_queue c) - int (length ys) \<le> pushes_left (low_queue d)"
      using I by (auto simp: I_def)
    have room: "0 < pushes_left (low_queue d)" using d(6) l p by simp
    have pm: "p \<in> set xs" and n': "as_heap sl' p = Some n" using p n d(3) by simp_all
    have i: "i < length (buckets d)" using assms(2) d(2) by simp
    show "if node_IsMarked n then I (ys @ [p]) d else \<exists>d'. decay_node spurious i p d = Some (True, d') \<and> I (ys @ [p]) d'"
    proof (cases "node_IsMarked n")
      case True
      then show ?thesis using I by (simp add: I_def)
    next
      case False
      obtain e sl2 where "decay_node spurious i p d = Some (True, e)" "hc_holds V e" "buckets e ! i = Some sl2"
        "holds_by V sl2 xs" "as_head sl2 = as_head sl'" "length (buckets e) = length (buckets d)"
        "pushes_left (low_queue d) - 1 \<le> pushes_left (low_queue e)"
        by (rule decay_node_holds[OF d(1) i d(3,5) pm n' False room, of spurious]) blast
      then show ?thesis using False d by (simp add: I_def)
    qed
  qed
  have "DecayOneBucket spurious c i = Some c'" using c'(1) sl(2) by (simp add: DecayOneBucket_def)
  then show thesis using c'(2) by (intro that[of c']) (simp_all add: I_def)
qed

text \<open>The compaction thread: the new list has the handles of the old one that are not hidden.\<close>

lemma compact_list_holds:
  assumes "holds_by V sl xs" "compact_fresh (a, b) alloc (length xs)"
  obtains k new_bucket where "IterateLevel (\<lambda>_. sl) (compact_node coins alloc spurious sl) 0 (0, AtomicSkipList_new a b) = Some (k, new_bucket)"
    "hs_holds V new_bucket"
proof -
  define I where "I ys s \<longleftrightarrow> (case s of (k, l) \<Rightarrow> k \<le> length ys \<and> hs_holds V l \<and>
    dom (as_heap l) \<subseteq> {a, b} \<union> (\<lambda>j. alloc j 0) ` {..<k})" for ys :: "u64 list" and s :: "nat \<times> 'a askip"
  have start: "I [] (0, AtomicSkipList_new a b)"
    using assms(2) AtomicSkipList_new_dom[of a b] new_holds[of a b] by (auto simp: I_def compact_fresh_def)
  obtain s where s: "IterateLevel (\<lambda>_. sl) (compact_node coins alloc spurious sl) 0 (0, AtomicSkipList_new a b) = Some s" "I xs s"
  proof (rule iterate_spec[where I = I and xs = xs and list_of = "\<lambda>_. sl" and ?h0.0 = "as_head sl", OF _ _ start])
    show "as_ok sl xs \<and> as_head sl = as_head sl" using holdsD(1)[OF assms(1)] by simp
    fix ys p zs s n assume xs: "xs = ys @ p # zs" and I: "I ys s" and n: "as_heap sl p = Some n"
    obtain k l where s: "s = (k, l)" "k \<le> length ys" "hs_holds V l"
      "dom (as_heap l) \<subseteq> {a, b} \<union> (\<lambda>j. alloc j 0) ` {..<k}" using I by (cases s) (auto simp: I_def)
    have p: "p \<in> set xs" using xs by simp
    have skip: "I (ys @ [p]) (k, l)" "I (ys @ [p]) (k + 1, l)" using s(2-4) by (auto simp: I_def lessThan_Suc)
    have "\<exists>s'. compact_node coins alloc spurious sl p s = Some (True, s') \<and> I (ys @ [p]) s'"
    proof (cases "hn_handle n")
      case None
      then have "compact_node coins alloc spurious sl p (k, l) = Some (True, (k + 1, l))"
        using n by (simp add: compact_node_def GetHandle_def Insert_def)
      then show ?thesis using skip(2) s(1) by auto
    next
      case (Some v)
      have kN: "k < length xs" using s(2) xs by simp
      have f: "askip_fresh l (alloc k 0)" by (rule compact_fresh_at[OF assms(2) kN s(4)])
      obtain old l' where l': "Insert (coins k) (alloc k) (spurious k) l (hn_key n) (Some v) = Some (old, l')" "hs_holds V l'"
        "dom (as_heap l') \<subseteq> insert (alloc k 0) (dom (as_heap l))"
        by (rule Insert_holds[where alloc = "alloc k", OF s(3) holdsD(3)[OF assms(1) p n] f holdsD(2)[OF assms(1) p n Some]])
      have "dom (as_heap l') \<subseteq> {a, b} \<union> (\<lambda>j. alloc j 0) ` {..<Suc k}"
        using s(4) l'(3) by (simp only: lessThan_Suc image_insert) blast
      then have "I (ys @ [p]) (k + 1, l')" using s(2) l'(2) by (simp add: I_def)
      moreover have "compact_node coins alloc spurious sl p (k, l) = Some (True, (k + 1, l'))"
        using n Some l'(1) by (simp add: compact_node_def GetHandle_def)
      ultimately show ?thesis using s(1) by auto
    qed
    then show "if node_IsMarked n then I (ys @ [p]) s
        else \<exists>s'. compact_node coins alloc spurious sl p s = Some (True, s') \<and> I (ys @ [p]) s'"
      using skip(1) s(1) by simp
  qed
  then show thesis using that by (cases s) (auto simp: I_def)
qed

lemma compact_turn_holds:
  assumes "hc_holds V c" "i < length (buckets c)" "buckets c ! i = Some sl" "compact_fresh addr alloc (nat (node_num sl))"
  obtains c' where "compact_turn coins alloc spurious addr c i = Some c'" "hc_holds V c'" "length (buckets c') = length (buckets c)"
proof (cases "below_quotient (marked_deleted_num sl) (node_num sl) dbl_03")
  case True
  then have "compact_turn coins alloc spurious addr c i = Some c"
    using assms(2,3) by (simp add: compact_turn_def CompactOneBucket_def load_bucket_def)
  then show thesis by (rule that) (use assms(1) in simp_all)
next
  case False
  obtain xs where r: "holds_by V sl xs" by (rule hc_holds_bucket[OF assms(1,2)]) (use assms(3) in \<open>auto simp: hs_holds_def\<close>)
  obtain a b where ab: "addr = (a, b)" by fastforce
  have N: "nat (node_num sl) = length xs" using as_okD(13)[OF holdsD(1)[OF r]] by simp
  obtain k new_bucket where k: "IterateLevel (\<lambda>_. sl) (compact_node coins alloc spurious sl) 0 (0, AtomicSkipList_new a b) = Some (k, new_bucket)"
    "hs_holds V new_bucket" by (rule compact_list_holds[OF r assms(4)[unfolded N ab]])
  let ?c = "(put_bucket c i new_bucket)\<lparr>buckets_gen := (buckets_gen c)[i := snd (FetchAddRelaxed (buckets_gen c ! i) 1)]\<rparr>"
  have "compact_turn coins alloc spurious addr c i = Some ?c"
    using assms(2,3) False k(1) destroy_frees[OF holdsD(1)[OF r]]
    by (simp add: compact_turn_def CompactOneBucket_def load_bucket_def ab)
  then show thesis by (rule that) (use hc_holds_put[OF assms(1) k(2), of i] in \<open>simp_all add: hc_holds_def\<close>)
qed

section \<open>Runs\<close>

lemma event_holds:
  assumes "hc_holds V c" "event_ok e c" "inserts [e] \<subseteq> V" "payable V"
  obtains r c' where "hs_event_step e c = Some (r, c')" "hc_holds V c'" "r \<noteq> Inr False"
    "\<And>spurious key h. e = GetEvent spurious key \<Longrightarrow> r = Inl (Some h) \<Longrightarrow> (key, h) \<in> V"
proof (cases e)
  case (GetEvent spurious key)
  have k: "key < INT64_MAX" using assms(2) GetEvent by simp
  obtain r c' where "hc_Get spurious c key = Some (r, c')" "hc_holds V c'" "\<And>h. r = Some h \<Longrightarrow> (key, h) \<in> V"
    by (rule hc_Get_holds[OF assms(1) k, of spurious]) blast
  then show thesis using GetEvent by (intro that[of "Inl r" c']) auto
next
  case (InsertEvent coins alloc spurious espurious key handle)
  have k: "key < INT64_MAX" "hc_fresh c (alloc 0)" and v: "(key, handle) \<in> V" "charge_fits c handle"
    using assms(2,3) InsertEvent by (auto simp: inserts_def)
  obtain c' where "hc_Insert coins alloc spurious espurious c key (Some handle) = Some (True, c')" "hc_holds V c'"
    by (rule hc_Insert_holds[where alloc = alloc, OF assms(1) k v assms(4), of coins spurious espurious]) blast
  then show thesis using InsertEvent by (intro that[of "Inr True" c']) auto
next
  case (DecayEvent spurious i)
  have i: "i < length (buckets c)" "decay_room c i" using assms(2) DecayEvent by simp_all
  obtain c' where "DecayOneBucket spurious c i = Some c'" "hc_holds V c'"
    by (rule DecayOneBucket_holds[OF assms(1) i, of spurious]) blast
  then have "\<exists>d. decay_turn spurious c i = Some d \<and> hc_holds V d" using assms(1) by (simp add: decay_turn_def)
  then obtain d where "decay_turn spurious c i = Some d" "hc_holds V d" by blast
  then show thesis using DecayEvent by (intro that[of "Inr True" d]) auto
next
  case (CompactEvent coins alloc spurious addr i)
  have i: "i < length (buckets c)" using assms(2) CompactEvent by simp
  obtain sl where sl: "buckets c ! i = Some sl" by (rule hc_holds_bucket[OF assms(1) i])
  have f: "compact_fresh addr alloc (nat (node_num sl))" using assms(2) CompactEvent sl by simp
  obtain c' where "compact_turn coins alloc spurious addr c i = Some c'" "hc_holds V c'"
    by (rule compact_turn_holds[OF assms(1) i sl f, of coins spurious]) blast
  then show thesis using CompactEvent by (intro that[of "Inr True" c']) auto
qed

lemma payable_empty: "payable {} \<longleftrightarrow> True"
  by (simp add: payable_def)

lemma payable_event: "payable V \<Longrightarrow> event_ok e c \<Longrightarrow> payable (V \<union> inserts [e])"
  by (cases e) (auto simp: payable_def inserts_def charge_fits_def)

lemma events_hold:
  assumes "hc_holds V c" "events_ok es c" "payable V"
  shows "\<exists>rs c'. hs_events es c = Some (rs, c') \<and> length rs = length es \<and> hc_holds (V \<union> inserts es) c' \<and> Inr False \<notin> set rs \<and>
    (\<forall>j < length es. \<forall>spurious key h. es ! j = GetEvent spurious key \<longrightarrow> rs ! j = Inl (Some h) \<longrightarrow>
       (key, h) \<in> V \<union> inserts (take j es))"
  using assms
proof (induction es arbitrary: V c)
  case Nil
  then show ?case by (simp add: inserts_def)
next
  case (Cons e es)
  have ins: "inserts (e # xs) = inserts [e] \<union> inserts xs" for xs by (auto simp: inserts_def)
  have h: "hc_holds (V \<union> inserts [e]) c" by (rule hc_holds_mono[OF Cons.prems(1)]) simp
  have ok: "event_ok e c" using Cons.prems(2) by simp
  note pay = payable_event[OF Cons.prems(3) ok]
  obtain r c1 where r: "hs_event_step e c = Some (r, c1)" "hc_holds (V \<union> inserts [e]) c1" "r \<noteq> Inr False"
    "\<And>spurious key h. e = GetEvent spurious key \<Longrightarrow> r = Inl (Some h) \<Longrightarrow> (key, h) \<in> V \<union> inserts [e]"
    by (rule event_holds[OF h ok _ pay]) blast+
  have ok1: "events_ok es c1" using Cons.prems(2) r(1) by simp
  obtain rs c' where rs: "hs_events es c1 = Some (rs, c')" "length rs = length es" "hc_holds (V \<union> inserts [e] \<union> inserts es) c'"
    "Inr False \<notin> set rs" "\<forall>j < length es. \<forall>spurious key h. es ! j = GetEvent spurious key \<longrightarrow> rs ! j = Inl (Some h) \<longrightarrow>
       (key, h) \<in> V \<union> inserts [e] \<union> inserts (take j es)"
    using Cons.IH[OF r(2) ok1 pay] by (elim exE conjE) (rule that)
  have get: "(key, h) \<in> V \<union> inserts (take j (e # es))"
    if j: "j < length (e # es)" "(e # es) ! j = GetEvent spurious key" "(r # rs) ! j = Inl (Some h)" for j spurious key h
  proof (cases j)
    case 0
    then have "(key, h) \<in> V \<union> inserts [e]" "inserts [e] = {}" using j r(4) by (auto simp: inserts_def)
    then show ?thesis by simp
  next
    case (Suc i)
    then have "(key, h) \<in> V \<union> inserts [e] \<union> inserts (take i es)" using rs(5) j by simp
    then show ?thesis using Suc ins[of "take i es"] by auto
  qed
  show ?case
  proof (intro exI[of _ "r # rs"] exI[of _ c'] conjI allI impI)
    show "hs_events (e # es) c = Some (r # rs, c')" using r(1) rs(1) by simp
    show "hc_holds (V \<union> inserts (e # es)) c'" using rs(3) unfolding ins[of es] by (simp add: Un_assoc)
    show "Inr False \<notin> set (r # rs)" using r(3) rs(4) by auto
    show "length (r # rs) = length (e # es)" using rs(2) by simp
    show "(key, h) \<in> V \<union> inserts (take j (e # es))"
      if "j < length (e # es)" "(e # es) ! j = GetEvent spurious key" "(r # rs) ! j = Inl (Some h)" for j spurious key h
      using that by (rule get)
  qed
qed

lemma start_holds:
  assumes "0 < bucket_num" "\<And>i. i < nat bucket_num \<Longrightarrow> new_addresses (fst (addr i)) (snd (addr i))"
  shows "hc_holds V (snd (Init addr (HashSkipCache_new capicity bucket_num)))"
proof -
  have "hc_represents (snd (Init addr (HashSkipCache_new capicity bucket_num))) Map.empty {}" by (rule hc_start(1)[OF assms])
  note R = hc_representsD(1-3)[OF this]
  have "hs_holds V (AtomicSkipList_new (fst (addr i)) (snd (addr i)))" if "i < nat bucket_num" for i
    by (rule new_holds[OF assms(2)[OF that]])
  then show ?thesis
    using R by (auto simp: hc_holds_def Init_def HashSkipCache_new_def case_prod_unfold)
qed

section \<open>The system\<close>

text \<open>A cache after Init runs through every sequence of lookups, insertions and turns of the two background threads without
  undefined behaviour, and every operation ends, evictions, decay and compaction included, also when insertions meet
  deleted nodes. Every insertion reports success, and whatever a lookup finds has been inserted under its key
  before.\<close>

theorem hs_system_safe:
  assumes "0 < bucket_num" "\<forall>i < nat bucket_num. new_addresses (fst (addr i)) (snd (addr i))"
    "events_ok es (snd (Init addr (HashSkipCache_new capicity bucket_num)))"
  shows "\<exists>rs c. hs_events es (snd (Init addr (HashSkipCache_new capicity bucket_num))) = Some (rs, c) \<and>
    length rs = length es \<and> Inr False \<notin> set rs \<and>
    (\<forall>j < length es. \<forall>spurious key h. es ! j = GetEvent spurious key \<longrightarrow> rs ! j = Inl (Some h) \<longrightarrow>
       (key, h) \<in> inserts (take j es))"
proof -
  have "hc_holds {} (snd (Init addr (HashSkipCache_new capicity bucket_num)))" by (rule start_holds) (use assms in simp_all)
  from events_hold[OF this assms(3)] show ?thesis
    by (simp only: Un_empty_left payable_empty simp_thms True_implies_equals) (elim exE conjE, intro exI conjI, assumption+)
qed

text \<open>An insertion and a lookup.\<close>

theorem hs_system_safe_witness:
  "\<exists>rs c. hs_events [InsertEvent (\<lambda>_ _. True) (\<lambda>_. 48) (\<lambda>_. 1) 0 7 \<lparr>hs_value = 3 :: nat, hs_charge = 40\<rparr>,
      GetEvent 0 7] demo_cache = Some (rs, c) \<and> length rs = 2 \<and> Inr False \<notin> set rs"
proof -
  let ?es = "[InsertEvent (\<lambda>_ _. True) (\<lambda>_. 48) (\<lambda>_. 1) 0 7 \<lparr>hs_value = 3 :: nat, hs_charge = 40\<rparr>, GetEvent 0 7]"
  have k: "7 < INT64_MAX" by (simp add: INT64_MAX_def)
  have f: "charge_fits demo_cache \<lparr>hs_value = 3 :: nat, hs_charge = 40\<rparr>"
    by (simp add: charge_fits_def demo_cache_ok int64_range_def)
  have ok: "events_ok ?es demo_cache" using demo_cache_fresh k f by (simp split: option.splits)
  from hs_system_safe[of 2 "\<lambda>i. (16, 32)" ?es 100] ok demo_addr show ?thesis
    unfolding demo_cache_def by (auto simp del: hs_events.simps)
qed

end
