(* ===== verification/HS_Threads.thy ===== *)
theory HS_Threads
  imports HS_System
begin

text \<open>
  The two background threads of HashSkipCache with their cursors, the flag stop_ and the destructor. An
  iteration of the loop of Decay or Compact is one step; sleeping is a step that changes nothing. The threads start
  with the construction of the cache; their iterations, Init, the operations of clients and the shutdown interleave
  freely, one step at a time.
\<close>

section \<open>The loops of the threads\<close>

text \<open>bucket_index is compared with buckets_.size() at the start of an iteration of either loop.\<close>

definition wrap_index :: "'v hs_cache \<Rightarrow> nat \<Rightarrow> nat" where
  "wrap_index c idx = (if idx = length (buckets c) then 0 else idx)"

text \<open>An iteration returns the new index, or None for it when the thread ends.\<close>

definition decay_iteration :: "bool \<Rightarrow> nat \<Rightarrow> 'v hs_cache \<Rightarrow> nat \<Rightarrow> (nat option \<times> 'v hs_cache) option" where
  "decay_iteration stop spurious c idx =
     (let idx = wrap_index c idx
      in if \<not> stop \<and> \<not> ShouldDecay c then Some (Some idx, c)
         else if stop then Some (None, c)
         else do { c \<leftarrow> DecayOneBucket spurious c idx; Some (Some (idx + 1), c) })"

definition compact_iteration ::
  "bool \<Rightarrow> (nat \<Rightarrow> nat \<Rightarrow> nat \<Rightarrow> bool) \<Rightarrow> (nat \<Rightarrow> nat \<Rightarrow> u64) \<Rightarrow> (nat \<Rightarrow> nat \<Rightarrow> nat) \<Rightarrow> u64 \<times> u64 \<Rightarrow> 'v hs_cache \<Rightarrow> nat \<Rightarrow>
   (nat option \<times> 'v hs_cache) option" where
  "compact_iteration stop coins alloc spurious addr c idx =
     (if stop then Some (None, c)
      else let idx = wrap_index c idx
           in do { c \<leftarrow> compact_turn coins alloc spurious addr c idx; Some (Some (idx + 1), c) })"

text \<open>The destruction of the buckets, after the threads have been joined.\<close>

fun destroy_buckets :: "'v askip option list \<Rightarrow> 'v hheap list option" where
  "destroy_buckets [] = Some []"
| "destroy_buckets (None # bs) = destroy_buckets bs"
| "destroy_buckets (Some sl # bs) =
     do { h \<leftarrow> AtomicSkipList_destroy sl; hs \<leftarrow> destroy_buckets bs; Some (h # hs) }"

section \<open>The object\<close>

text \<open>None is a thread that has ended.\<close>

record 'v hs_object =
  ob_cache :: "'v hs_cache"
  ob_stop :: bool
  ob_decay :: "nat option"
  ob_compact :: "nat option"

definition hs_object_new :: "int \<Rightarrow> int \<Rightarrow> 'v hs_object" where
  "hs_object_new capicity bucket_num =
     \<lparr>ob_cache = HashSkipCache_new capicity bucket_num, ob_stop = False, ob_decay = Some 0, ob_compact = Some 0\<rparr>"

datatype 'v th_event =
    ClientInit "nat \<Rightarrow> u64 \<times> u64"
  | ClientGet nat int
  | ClientInsert "nat \<Rightarrow> nat \<Rightarrow> bool" "nat \<Rightarrow> u64" "nat \<Rightarrow> nat" nat int "'v hs_handle"
  | DecayStep nat
  | CompactStep "nat \<Rightarrow> nat \<Rightarrow> nat \<Rightarrow> bool" "nat \<Rightarrow> nat \<Rightarrow> u64" "nat \<Rightarrow> nat \<Rightarrow> nat" "u64 \<times> u64"
  | Shutdown

fun th_step :: "'v th_event \<Rightarrow> 'v hs_object \<Rightarrow> (('v hs_handle option + bool) \<times> 'v hs_object) option" where
  "th_step (ClientInit addr) s = (case Init addr (ob_cache s) of (ok, c) \<Rightarrow> Some (Inr ok, s\<lparr>ob_cache := c\<rparr>))"
| "th_step (ClientGet spurious key) s =
     do { (r, c) \<leftarrow> hc_Get spurious (ob_cache s) key; Some (Inl r, s\<lparr>ob_cache := c\<rparr>) }"
| "th_step (ClientInsert coins alloc spurious espurious key handle) s =
     do { (ok, c) \<leftarrow> hc_Insert coins alloc spurious espurious (ob_cache s) key (Some handle); Some (Inr ok, s\<lparr>ob_cache := c\<rparr>) }"
| "th_step (DecayStep spurious) s =
     (case ob_decay s of
        None \<Rightarrow> Some (Inr True, s)
      | Some i \<Rightarrow> do { (i, c) \<leftarrow> decay_iteration (ob_stop s) spurious (ob_cache s) i;
                       Some (Inr True, s\<lparr>ob_cache := c, ob_decay := i\<rparr>) })"
| "th_step (CompactStep coins alloc spurious addr) s =
     (case ob_compact s of
        None \<Rightarrow> Some (Inr True, s)
      | Some i \<Rightarrow> do { (i, c) \<leftarrow> compact_iteration (ob_stop s) coins alloc spurious addr (ob_cache s) i;
                       Some (Inr True, s\<lparr>ob_cache := c, ob_compact := i\<rparr>) })"
| "th_step Shutdown s = Some (Inr True, s\<lparr>ob_stop := StoreRelaxed (ob_stop s) True\<rparr>)"

fun th_run :: "'v th_event list \<Rightarrow> 'v hs_object \<Rightarrow> (('v hs_handle option + bool) list \<times> 'v hs_object) option" where
  "th_run [] s = Some ([], s)"
| "th_run (e # es) s = do { (r, s) \<leftarrow> th_step e s; (rs, s) \<leftarrow> th_run es s; Some (r # rs, s) }"

text \<open>
  What the steps rely on: keys below INT64_MAX, new returning addresses not in use, charges that are not negative and
  do not overflow together with memory_used_, and room for the positions a turn of the decay thread may push.
\<close>

fun th_event_ok :: "'v th_event \<Rightarrow> 'v hs_object \<Rightarrow> bool" where
  "th_event_ok (ClientInit addr) s \<longleftrightarrow> (\<forall>i < length (buckets (ob_cache s)). new_addresses (fst (addr i)) (snd (addr i)))"
| "th_event_ok (ClientGet _ key) s \<longleftrightarrow> key < INT64_MAX"
| "th_event_ok (ClientInsert _ alloc _ _ key handle) s \<longleftrightarrow>
     key < INT64_MAX \<and> hc_fresh (ob_cache s) (alloc 0) \<and> charge_fits (ob_cache s) handle"
| "th_event_ok (DecayStep _) s \<longleftrightarrow> (\<forall>i < length (buckets (ob_cache s)). decay_room (ob_cache s) i)"
| "th_event_ok (CompactStep _ alloc _ addr) s \<longleftrightarrow>
     (\<forall>sl. Some sl \<in> set (buckets (ob_cache s)) \<longrightarrow> compact_fresh addr alloc (nat (node_num sl)))"
| "th_event_ok Shutdown s \<longleftrightarrow> True"

fun th_events_ok :: "'v th_event list \<Rightarrow> 'v hs_object \<Rightarrow> bool" where
  "th_events_ok [] s \<longleftrightarrow> True"
| "th_events_ok (e # es) s \<longleftrightarrow> th_event_ok e s \<and>
     (case th_step e s of None \<Rightarrow> True | Some (_, s) \<Rightarrow> th_events_ok es s)"

definition th_inserts :: "'v th_event list \<Rightarrow> (int \<times> 'v hs_handle) set" where
  "th_inserts es = {(key, h). \<exists>coins alloc spurious espurious. ClientInsert coins alloc spurious espurious key h \<in> set es}"

section \<open>Before and after Init\<close>

text \<open>Before Init every bucket is null: nothing is found, nothing is inserted, and the threads pass over it.\<close>

definition hc_blank :: "'v hs_cache \<Rightarrow> bool" where
  "hc_blank c \<longleftrightarrow> \<not> init_done c \<and> 0 < length (buckets c) \<and> length (buckets_gen c) = length (buckets c) \<and>
     low_ok (length (buckets c)) (low_queue c) \<and> (\<forall>b \<in> set (buckets c). b = None)"

lemma blank_load: "hc_blank c \<Longrightarrow> i < length (buckets c) \<Longrightarrow> load_bucket c i = Some None"
  by (simp add: hc_blank_def load_bucket_def)

lemma blank_steps:
  assumes "hc_blank c"
  shows "hc_Get spurious c key = Some (None, c)" "hc_Insert coins alloc sp esp c key h = Some (False, c)"
    "i < length (buckets c) \<Longrightarrow> DecayOneBucket spurious c i = Some c"
    "i < length (buckets c) \<Longrightarrow> compact_turn coins' alloc' sp' addr c i = Some c"
proof -
  have b: "bucket_of (length (buckets c)) key < length (buckets c)" using assms bucket_route.route_less by (simp add: hc_blank_def)
  note load = blank_load[OF assms]
  show "hc_Get spurious c key = Some (None, c)" "hc_Insert coins alloc sp esp c key h = Some (False, c)"
    using load[OF b] by (simp_all add: hc_Get_def hc_Insert_def Let_def)
  show "DecayOneBucket spurious c i = Some c" "compact_turn coins' alloc' sp' addr c i = Some c" if "i < length (buckets c)"
    using load[OF that] by (simp_all add: DecayOneBucket_def compact_turn_def CompactOneBucket_def)
qed

lemma new_blank:
  assumes "0 < bucket_num"
  shows "hc_blank (HashSkipCache_new capicity bucket_num)"
proof -
  have q: "low_ok n (Queue_new v 10000)" for n v
    using Queue_new_inv[of 10000 v] by (simp add: low_ok_def)
  then show ?thesis using assms by (simp add: hc_blank_def HashSkipCache_new_def)
qed

lemma Init_blank:
  assumes "hc_blank c" "\<forall>i < length (buckets c). new_addresses (fst (addr i)) (snd (addr i))"
  shows "hc_holds V (snd (Init addr c))" "init_done (snd (Init addr c))" "length (buckets (snd (Init addr c))) = length (buckets c)"
proof -
  have "hs_holds V (AtomicSkipList_new (fst (addr i)) (snd (addr i)))" if "i < length (buckets c)" for i
    by (rule new_holds) (use assms(2) that in blast)
  then show "hc_holds V (snd (Init addr c))" using assms(1) by (auto simp: hc_blank_def hc_holds_def Init_def case_prod_unfold)
qed (use assms(1) in \<open>simp_all add: hc_blank_def Init_def\<close>)

text \<open>No operation but Init changes init_.\<close>

lemma iterate_from_inv:
  assumes "\<And>p s g s'. fn p s = Some (g, s') \<Longrightarrow> P s \<Longrightarrow> P s'" "iterate_from list_of fn l pred s = Some s'" "P s"
  shows "P s'"
proof -
  have "(\<forall>p s g s'. fn p s = Some (g, s') \<longrightarrow> P s \<longrightarrow> P s') \<longrightarrow> P s \<longrightarrow> P s'"
  proof (rule iterate_from.raw_induct[where P = "\<lambda>list_of fn l pred s s'. (\<forall>p s g s'. fn p s = Some (g, s') \<longrightarrow> P s \<longrightarrow> P s') \<longrightarrow> P s \<longrightarrow> P s'", OF _ assms(2)])
    fix it list_of l pred fn s r
    assume IH: "\<And>list_of fn l pred s y. it list_of fn l pred s = Some y \<Longrightarrow>
      (\<forall>p s g s'. fn p s = Some (g, s') \<longrightarrow> P s \<longrightarrow> P s') \<longrightarrow> P s \<longrightarrow> P y"
      and r: "do { w \<leftarrow> next_word (as_heap (list_of s)) l pred; let curr = GetRawPtr w; n \<leftarrow> as_heap (list_of s) curr;
        if node_IsMarked n then it list_of fn l curr s else if curr = as_tail (list_of s) then Some s
        else do { (go, s) \<leftarrow> fn curr s; if go then it list_of fn l curr s else Some s } } = Some r"
    show "(\<forall>p s g s'. fn p s = Some (g, s') \<longrightarrow> P s \<longrightarrow> P s') \<longrightarrow> P s \<longrightarrow> P r"
      using r by (auto simp: Let_def split: bind_splits if_splits dest: IH) (blast dest: IH)
  qed
  then show ?thesis using assms(1,3) by blast
qed

lemma init_kept:
  "hc_Get spurious c key = Some (r, c') \<Longrightarrow> init_done c' = init_done c"
  "hc_Insert coins alloc sp esp c key h = Some (ok, c') \<Longrightarrow> init_done c' = init_done c"
  "DecayOneBucket spurious c i = Some c' \<Longrightarrow> init_done c' = init_done c"
  "compact_turn coins' alloc' sp' addr c i = Some c' \<Longrightarrow> init_done c' = init_done c"
proof -
  show "hc_Get spurious c key = Some (r, c') \<Longrightarrow> init_done c' = init_done c"
    by (auto simp: hc_Get_def put_bucket_def Let_def split: bind_splits option.splits)
  have one: "evict_one esp c = Some (f, d) \<Longrightarrow> init_done d = init_done c" for f and c d :: "'a hs_cache"
    by (auto simp: evict_one_def put_bucket_def Let_def split: bind_splits option.splits if_splits prod.splits)
  have low: "init_done d = init_done c" if e: "evict_low esp c n = Some d" for n and c d :: "'a hs_cache"
  proof (rule evict_low.raw_induct[where P = "\<lambda>_ c n d. init_done d = init_done c", OF _ e])
    fix ev sp n and c d :: "'a hs_cache"
    assume IH: "\<And>sp c n d. ev sp c n = Some d \<Longrightarrow> init_done d = init_done c"
      and e: "(if 0 < n \<and> 0 < Size (low_queue c) then do { (freed, c) \<leftarrow> evict_one sp c; ev sp c (n - freed) } else Some c) = Some d"
    then show "init_done d = init_done c"
      by (auto split: bind_splits if_splits dest!: IH simp: evict_one_def put_bucket_def Let_def split: option.splits prod.splits)
  qed
  show "hc_Insert coins alloc sp esp c key h = Some (ok, c') \<Longrightarrow> init_done c' = init_done c"
    by (auto simp: hc_Insert_def hc_Evict_def put_bucket_def Let_def split: bind_splits if_splits dest!: low)
  have d: "decay_node spurious i p d = Some (g, d') \<Longrightarrow> init_done d = init_done c \<Longrightarrow> init_done d' = init_done c" for p d g d'
    by (auto simp: decay_node_def put_bucket_def Let_def split: bind_splits if_splits prod.splits)
  have "init_done c' = init_done c" if "IterateLevel (\<lambda>c. the (buckets c ! i)) (decay_node spurious i) 0 c = Some c'"
    by (rule iterate_from_inv[where P = "\<lambda>d. init_done d = init_done c", OF _ that[unfolded IterateLevel_def]])
      (rule d, assumption+, rule refl)
  then show "DecayOneBucket spurious c i = Some c' \<Longrightarrow> init_done c' = init_done c"
    by (auto simp: DecayOneBucket_def split: bind_splits option.splits)
  show "compact_turn coins' alloc' sp' addr c i = Some c' \<Longrightarrow> init_done c' = init_done c"
    by (auto simp: compact_turn_def put_bucket_def split: bind_splits option.splits)
qed

section \<open>Every step is defined\<close>

definition hc_sound :: "(int \<times> 'v hs_handle) set \<Rightarrow> 'v hs_cache \<Rightarrow> bool" where
  "hc_sound V c \<longleftrightarrow> init_done c \<and> hc_holds V c \<or> hc_blank c"

definition ob_holds :: "(int \<times> 'v hs_handle) set \<Rightarrow> 'v hs_object \<Rightarrow> bool" where
  "ob_holds V s \<longleftrightarrow> hc_sound V (ob_cache s) \<and>
     (\<forall>i. ob_decay s = Some i \<longrightarrow> i \<le> length (buckets (ob_cache s))) \<and>
     (\<forall>i. ob_compact s = Some i \<longrightarrow> i \<le> length (buckets (ob_cache s)))"

lemma wrap_less: "hc_sound V c \<Longrightarrow> i \<le> length (buckets c) \<Longrightarrow> wrap_index c i < length (buckets c)"
  by (auto simp: wrap_index_def hc_sound_def hc_holds_def hc_blank_def)

lemma sound_cases:
  assumes "hc_sound V c"
  obtains (live) "init_done c" "hc_holds V c" | (blank) "\<not> init_done c" "hc_blank c"
  using assms by (auto simp: hc_sound_def hc_blank_def)

lemma ob_holds_mono: "ob_holds V s \<Longrightarrow> V \<subseteq> W \<Longrightarrow> ob_holds W s"
  using hc_holds_mono by (auto simp: ob_holds_def hc_sound_def)

lemma ob_holds_cache:
  "ob_holds V s \<Longrightarrow> hc_sound V c \<Longrightarrow> length (buckets c) = length (buckets (ob_cache s)) \<Longrightarrow> ob_holds V (s\<lparr>ob_cache := c\<rparr>)"
  by (simp add: ob_holds_def)

lemma hc_Get_length: "hc_Get spurious c key = Some (r, c') \<Longrightarrow> length (buckets c') = length (buckets c)"
  by (auto simp: hc_Get_def Let_def split: bind_splits option.splits)

text \<open>The four operations on a cache that may not be initialised.\<close>

lemma Get_sound:
  assumes "hc_sound V c" "key < INT64_MAX"
  obtains r c' where "hc_Get spurious c key = Some (r, c')" "hc_sound V c'" "init_done c' = init_done c"
    "length (buckets c') = length (buckets c)" "\<And>h. r = Some h \<Longrightarrow> (key, h) \<in> V"
  using assms(1)
proof (cases rule: sound_cases)
  case live
  obtain r c' where g: "hc_Get spurious c key = Some (r, c')" "hc_holds V c'" "\<And>h. r = Some h \<Longrightarrow> (key, h) \<in> V"
    by (rule hc_Get_holds[OF live(2) assms(2), of spurious]) blast
  then show thesis using live(1) init_kept(1)[OF g(1)] hc_Get_length[OF g(1)] by (intro that[OF g(1)]) (simp_all add: hc_sound_def)
next
  case blank
  then show thesis using assms(1) by (intro that[OF blank_steps(1)[OF blank(2)]]) simp_all
qed

lemma Insert_sound:
  assumes "hc_sound V c" "key < INT64_MAX" "hc_fresh c (alloc 0)" "(key, handle) \<in> V" "charge_fits c handle" "payable V"
  obtains c' where "hc_Insert coins alloc spurious espurious c key (Some handle) = Some (init_done c, c')" "hc_sound V c'"
    "init_done c' = init_done c" "length (buckets c') = length (buckets c)"
  using assms(1)
proof (cases rule: sound_cases)
  case live
  obtain c' where i: "hc_Insert coins alloc spurious espurious c key (Some handle) = Some (True, c')" "hc_holds V c'"
    "length (buckets c') = length (buckets c)"
    by (rule hc_Insert_holds[where alloc = alloc, OF live(2) assms(2-6), of coins spurious espurious]) blast
  then show thesis using live(1) init_kept(2)[OF i(1)] by (intro that[of c']) (simp_all add: hc_sound_def)
next
  case blank
  then show thesis using assms(1) blank_steps(2)[OF blank(2)] by (intro that[of c]) simp_all
qed

lemma Decay_sound:
  assumes "hc_sound V c" "i < length (buckets c)" "decay_room c i"
  obtains c' where "DecayOneBucket spurious c i = Some c'" "hc_sound V c'" "init_done c' = init_done c" "length (buckets c') = length (buckets c)"
  using assms(1)
proof (cases rule: sound_cases)
  case live
  obtain c' where d: "DecayOneBucket spurious c i = Some c'" "hc_holds V c'" "length (buckets c') = length (buckets c)"
    by (rule DecayOneBucket_holds[OF live(2) assms(2,3)])
  then show thesis using live(1) init_kept(3)[OF d(1)] by (intro that[OF d(1)]) (simp_all add: hc_sound_def)
next
  case blank
  then show thesis using assms by (intro that[OF blank_steps(3)[OF blank(2)]]) simp_all
qed

lemma Compact_sound:
  assumes "hc_sound V c" "i < length (buckets c)" "\<And>sl. Some sl \<in> set (buckets c) \<Longrightarrow> compact_fresh addr alloc (nat (node_num sl))"
  obtains c' where "compact_turn coins alloc spurious addr c i = Some c'" "hc_sound V c'" "init_done c' = init_done c"
    "length (buckets c') = length (buckets c)"
  using assms(1)
proof (cases rule: sound_cases)
  case live
  obtain sl where sl: "buckets c ! i = Some sl" by (rule hc_holds_bucket[OF live(2) assms(2)])
  then have "Some sl \<in> set (buckets c)" using assms(2) by (metis nth_mem)
  from compact_turn_holds[OF live(2) assms(2) sl assms(3)[OF this], of coins spurious] obtain c' where
    d: "compact_turn coins alloc spurious addr c i = Some c'" "hc_holds V c'" "length (buckets c') = length (buckets c)"
    by blast
  then show thesis using live(1) init_kept(4)[OF d(1)] by (intro that[OF d(1)]) (simp_all add: hc_sound_def)
next
  case blank
  then show thesis using assms(1,2) by (intro that[OF blank_steps(4)[OF blank(2)]]) simp_all
qed

lemma decay_iteration_sound:
  assumes "hc_sound V c" "i \<le> length (buckets c)" "\<And>i. i < length (buckets c) \<Longrightarrow> decay_room c i"
  obtains i' c' where "decay_iteration stop spurious c i = Some (i', c')" "hc_sound V c'" "init_done c' = init_done c"
    "length (buckets c') = length (buckets c)" "\<And>j. i' = Some j \<Longrightarrow> j \<le> length (buckets c)"
proof -
  note w = wrap_less[OF assms(1,2)]
  obtain d where d: "DecayOneBucket spurious c (wrap_index c i) = Some d" "hc_sound V d" "init_done d = init_done c"
    "length (buckets d) = length (buckets c)"
    by (rule Decay_sound[OF assms(1) w assms(3)[OF w]])
  consider "stop" | "\<not> stop" "\<not> ShouldDecay c" | "\<not> stop" "ShouldDecay c" by blast
  then show thesis
  proof cases
    case 1
    then show thesis using assms(1,2) by (intro that[of None c]) (simp_all add: decay_iteration_def)
  next
    case 2
    then show thesis using assms(1,2) w by (intro that[of "Some (wrap_index c i)" c]) (simp_all add: decay_iteration_def)
  next
    case 3
    then show thesis using d w by (intro that[of "Some (wrap_index c i + 1)" d]) (auto simp: decay_iteration_def)
  qed
qed

lemma compact_iteration_sound:
  assumes "hc_sound V c" "i \<le> length (buckets c)" "\<And>sl. Some sl \<in> set (buckets c) \<Longrightarrow> compact_fresh addr alloc (nat (node_num sl))"
  obtains i' c' where "compact_iteration stop coins alloc spurious addr c i = Some (i', c')" "hc_sound V c'" "init_done c' = init_done c"
    "length (buckets c') = length (buckets c)" "\<And>j. i' = Some j \<Longrightarrow> j \<le> length (buckets c)"
proof (cases stop)
  case True
  then show thesis using assms by (intro that[of None c]) (simp_all add: compact_iteration_def)
next
  case False
  note w = wrap_less[OF assms(1,2)]
  obtain d where d: "compact_turn coins alloc spurious addr c (wrap_index c i) = Some d" "hc_sound V d" "init_done d = init_done c"
    "length (buckets d) = length (buckets c)"
    by (rule Compact_sound[OF assms(1) w, where addr = addr and alloc = alloc and coins = coins and spurious = spurious])
      (use assms(3) in blast)+
  then show thesis using False w by (intro that[of "Some (wrap_index c i + 1)" d]) (auto simp: compact_iteration_def)
qed

definition is_init :: "'v th_event \<Rightarrow> bool" where
  "is_init e \<longleftrightarrow> (\<exists>addr. e = ClientInit addr)"

definition is_insert :: "'v th_event \<Rightarrow> bool" where
  "is_insert e \<longleftrightarrow> (\<exists>coins alloc spurious espurious key handle. e = ClientInsert coins alloc spurious espurious key handle)"

lemmas event_kinds = is_init_def is_insert_def

lemma th_step_holds:
  assumes "ob_holds V s" "th_event_ok e s" "th_inserts [e] \<subseteq> V" "payable V"
  obtains r s' where "th_step e s = Some (r, s')" "ob_holds V s'"
    "init_done (ob_cache s') \<longleftrightarrow> init_done (ob_cache s) \<or> is_init e"
    "is_insert e \<Longrightarrow> r = Inr (init_done (ob_cache s))"
    "\<And>spurious key h. e = ClientGet spurious key \<Longrightarrow> r = Inl (Some h) \<Longrightarrow> (key, h) \<in> V"
proof (cases e)
  case (ClientInit addr)
  have h: "hc_sound V (ob_cache s)" using assms(1) by (simp add: ob_holds_def)
  obtain ok c where i: "Init addr (ob_cache s) = (ok, c)" by fastforce
  have "hc_sound V c \<and> init_done c \<and> length (buckets c) = length (buckets (ob_cache s))"
    using h
  proof (cases rule: sound_cases)
    case live
    then show ?thesis using i h by (simp add: Init_def)
  next
    case blank
    then show ?thesis using Init_blank(1)[OF blank(2), where addr = addr and V = V] Init_blank(2,3)[OF blank(2), where addr = addr] assms(2) ClientInit i by (simp add: hc_sound_def)
  qed
  then show thesis using ClientInit i ob_holds_cache[OF assms(1), of c]
    by (intro that[of "Inr ok" "s\<lparr>ob_cache := c\<rparr>"]) (auto simp: event_kinds)
next
  case (ClientGet spurious key)
  have h: "hc_sound V (ob_cache s)" and k: "key < INT64_MAX" using assms(1,2) ClientGet by (simp_all add: ob_holds_def)
  obtain r c' where g: "hc_Get spurious (ob_cache s) key = Some (r, c')" "hc_sound V c'" "init_done c' = init_done (ob_cache s)"
    "length (buckets c') = length (buckets (ob_cache s))" "\<And>h. r = Some h \<Longrightarrow> (key, h) \<in> V"
    by (rule Get_sound[OF h k, of spurious]) blast
  then show thesis using ClientGet ob_holds_cache[OF assms(1) g(2,4)]
    by (intro that[of "Inl r" "s\<lparr>ob_cache := c'\<rparr>"]) (auto simp: event_kinds)
next
  case (ClientInsert coins alloc spurious espurious key handle)
  have h: "hc_sound V (ob_cache s)" and k: "key < INT64_MAX" "hc_fresh (ob_cache s) (alloc 0)" and v: "(key, handle) \<in> V" "charge_fits (ob_cache s) handle"
    using assms(1-3) ClientInsert by (auto simp: th_inserts_def ob_holds_def)
  obtain c' where i: "hc_Insert coins alloc spurious espurious (ob_cache s) key (Some handle) = Some (init_done (ob_cache s), c')"
    "hc_sound V c'" "init_done c' = init_done (ob_cache s)" "length (buckets c') = length (buckets (ob_cache s))"
    by (rule Insert_sound[where alloc = alloc, OF h k v assms(4), of coins spurious espurious]) blast
  then show thesis using ClientInsert ob_holds_cache[OF assms(1) i(2,4)]
    by (intro that[of "Inr (init_done (ob_cache s))" "s\<lparr>ob_cache := c'\<rparr>"]) (auto simp: event_kinds)
next
  case (DecayStep spurious)
  show thesis
  proof (cases "ob_decay s")
    case None
    then show thesis using assms(1) DecayStep by (intro that[of "Inr True" s]) (auto simp: event_kinds)
  next
    case (Some i)
    have h: "hc_sound V (ob_cache s)" "i \<le> length (buckets (ob_cache s))" using assms(1) Some by (simp_all add: ob_holds_def)
    obtain i' c' where d: "decay_iteration (ob_stop s) spurious (ob_cache s) i = Some (i', c')" "hc_sound V c'"
      "init_done c' = init_done (ob_cache s)" "length (buckets c') = length (buckets (ob_cache s))"
      "\<And>j. i' = Some j \<Longrightarrow> j \<le> length (buckets (ob_cache s))"
      by (rule decay_iteration_sound[OF h, of "ob_stop s" spurious]) (use assms(2) DecayStep in \<open>simp, blast\<close>)
    then have "ob_holds V (s\<lparr>ob_cache := c', ob_decay := i'\<rparr>)" using assms(1) by (simp add: ob_holds_def)
    then show thesis using DecayStep Some d(1,3)
      by (intro that[of "Inr True" "s\<lparr>ob_cache := c', ob_decay := i'\<rparr>"]) (auto simp: event_kinds)
  qed
next
  case (CompactStep coins alloc spurious addr)
  show thesis
  proof (cases "ob_compact s")
    case None
    then show thesis using assms(1) CompactStep by (intro that[of "Inr True" s]) (auto simp: event_kinds)
  next
    case (Some i)
    have h: "hc_sound V (ob_cache s)" "i \<le> length (buckets (ob_cache s))" using assms(1) Some by (simp_all add: ob_holds_def)
    have f: "\<And>sl. Some sl \<in> set (buckets (ob_cache s)) \<Longrightarrow> compact_fresh addr alloc (nat (node_num sl))"
      using assms(2) CompactStep by simp
    obtain i' c' where d: "compact_iteration (ob_stop s) coins alloc spurious addr (ob_cache s) i = Some (i', c')" "hc_sound V c'"
      "init_done c' = init_done (ob_cache s)" "length (buckets c') = length (buckets (ob_cache s))"
      "\<And>j. i' = Some j \<Longrightarrow> j \<le> length (buckets (ob_cache s))"
      by (rule compact_iteration_sound[where addr = addr and alloc = alloc and stop = "ob_stop s" and coins = coins and spurious = spurious, OF h]) (use f in blast)+
    then have "ob_holds V (s\<lparr>ob_cache := c', ob_compact := i'\<rparr>)" using assms(1) by (simp add: ob_holds_def)
    then show thesis using CompactStep Some d(1,3)
      by (intro that[of "Inr True" "s\<lparr>ob_cache := c', ob_compact := i'\<rparr>"]) (auto simp: event_kinds)
  qed
next
  case Shutdown
  then show thesis using assms(1)
    by (intro that[of "Inr True" "s\<lparr>ob_stop := True\<rparr>"]) (auto simp: ob_holds_def StoreRelaxed_def event_kinds)
qed

lemma payable_step: "payable V \<Longrightarrow> th_event_ok e s \<Longrightarrow> payable (V \<union> th_inserts [e])"
  by (cases e) (auto simp: payable_def th_inserts_def charge_fits_def)

lemma th_run_holds:
  assumes "ob_holds V s" "th_events_ok es s" "payable V"
  shows "\<exists>rs s'. th_run es s = Some (rs, s') \<and> length rs = length es \<and> ob_holds (V \<union> th_inserts es) s' \<and>
    (\<forall>j < length es. is_insert (es ! j) \<longrightarrow> rs ! j = Inr (init_done (ob_cache s) \<or> (\<exists>e \<in> set (take j es). is_init e))) \<and>
    (\<forall>j < length es. \<forall>spurious key h. es ! j = ClientGet spurious key \<longrightarrow> rs ! j = Inl (Some h) \<longrightarrow>
       (key, h) \<in> V \<union> th_inserts (take j es))"
  using assms
proof (induction es arbitrary: V s)
  case Nil
  then show ?case by (simp add: th_inserts_def)
next
  case (Cons e es)
  have ins: "th_inserts (e # xs) = th_inserts [e] \<union> th_inserts xs" for xs by (auto simp: th_inserts_def)
  have h: "ob_holds (V \<union> th_inserts [e]) s" by (rule ob_holds_mono[OF Cons.prems(1)]) simp
  have ok: "th_event_ok e s" using Cons.prems(2) by simp
  note pay = payable_step[OF Cons.prems(3) ok]
  obtain r s1 where r: "th_step e s = Some (r, s1)" "ob_holds (V \<union> th_inserts [e]) s1"
    "init_done (ob_cache s1) \<longleftrightarrow> init_done (ob_cache s) \<or> is_init e" "is_insert e \<Longrightarrow> r = Inr (init_done (ob_cache s))"
    "\<And>spurious key h. e = ClientGet spurious key \<Longrightarrow> r = Inl (Some h) \<Longrightarrow> (key, h) \<in> V \<union> th_inserts [e]"
    by (rule th_step_holds[OF h ok _ pay]) blast+
  have ok1: "th_events_ok es s1" using Cons.prems(2) r(1) by simp
  obtain rs s' where rs: "th_run es s1 = Some (rs, s')" "length rs = length es" "ob_holds (V \<union> th_inserts [e] \<union> th_inserts es) s'"
    "\<forall>j < length es. is_insert (es ! j) \<longrightarrow> rs ! j = Inr (init_done (ob_cache s1) \<or> (\<exists>e \<in> set (take j es). is_init e))"
    "\<forall>j < length es. \<forall>spurious key h. es ! j = ClientGet spurious key \<longrightarrow> rs ! j = Inl (Some h) \<longrightarrow>
       (key, h) \<in> V \<union> th_inserts [e] \<union> th_inserts (take j es)"
    using Cons.IH[OF r(2) ok1 pay] by (elim exE conjE) (rule that)
  have get: "(key, h) \<in> V \<union> th_inserts (take j (e # es))"
    if j: "j < length (e # es)" "(e # es) ! j = ClientGet spurious key" "(r # rs) ! j = Inl (Some h)" for j spurious key h
  proof (cases j)
    case 0
    then have "(key, h) \<in> V \<union> th_inserts [e]" "th_inserts [e] = {}" using j r(5) by (auto simp: th_inserts_def)
    then show ?thesis by simp
  next
    case (Suc i)
    then have "(key, h) \<in> V \<union> th_inserts [e] \<union> th_inserts (take i es)" using rs(5) j by simp
    then show ?thesis using Suc ins[of "take i es"] by auto
  qed
  have ins_ok: "(r # rs) ! j = Inr (init_done (ob_cache s) \<or> (\<exists>e \<in> set (take j (e # es)). is_init e))"
    if "j < length (e # es)" "is_insert ((e # es) ! j)" for j
    using that r(3,4) rs(4) by (cases j) auto
  show ?case
  proof (intro exI[of _ "r # rs"] exI[of _ s'] conjI allI impI)
    show "th_run (e # es) s = Some (r # rs, s')" using r(1) rs(1) by simp
    show "ob_holds (V \<union> th_inserts (e # es)) s'" using rs(3) unfolding ins[of es] by (simp add: Un_assoc)
    show "length (r # rs) = length (e # es)" using rs(2) by simp
    show "(r # rs) ! j = Inr (init_done (ob_cache s) \<or> (\<exists>e \<in> set (take j (e # es)). is_init e))"
      if "j < length (e # es)" "is_insert ((e # es) ! j)" for j using that by (rule ins_ok)
    show "(key, h) \<in> V \<union> th_inserts (take j (e # es))"
      if "j < length (e # es)" "(e # es) ! j = ClientGet spurious key" "(r # rs) ! j = Inl (Some h)" for j spurious key h
      using that by (rule get)
  qed
qed

lemma new_ob_holds: "0 < bucket_num \<Longrightarrow> ob_holds V (hs_object_new capicity bucket_num)"
  by (simp add: ob_holds_def hs_object_new_def hc_sound_def new_blank)

section \<open>Shutting down\<close>

lemma destroy_buckets_frees:
  assumes "\<forall>b \<in> set bs. \<forall>sl. b = Some sl \<longrightarrow> hs_holds V sl"
  shows "destroy_buckets bs = Some (replicate (length (filter (\<lambda>b. b \<noteq> None) bs)) Map.empty)"
  using assms
proof (induction bs)
  case (Cons b bs)
  show ?case
  proof (cases b)
    case None
    then show ?thesis using Cons by simp
  next
    case (Some sl)
    then obtain xs where "holds_by V sl xs" using Cons.prems by (auto simp: hs_holds_def)
    then have "AtomicSkipList_destroy sl = Some Map.empty" by (rule destroy_frees[OF holdsD(1)])
    then show ?thesis using Some Cons by simp
  qed
qed simp

definition ended :: "'v hs_object \<Rightarrow> bool" where
  "ended s \<longleftrightarrow> ob_decay s = None \<and> ob_compact s = None"

text \<open>The destructor: after stop_ is set one more iteration of each thread ends it, and the buckets are freed.\<close>

lemma shutdown_ends:
  assumes "ob_holds V s"
  shows "\<exists>rs s' hs. th_run [Shutdown, DecayStep sp, CompactStep coins alloc spurious addr] s = Some (rs, s') \<and> ended s' \<and>
    destroy_buckets (buckets (ob_cache s')) = Some hs \<and> set hs \<subseteq> {Map.empty}"
proof -
  have h: "hc_sound V (ob_cache s)" using assms(1) by (simp add: ob_holds_def)
  have d: "decay_iteration True sp c i = Some (None, c)" "compact_iteration True coins alloc spurious addr c i = Some (None, c)"
    for i and c :: "'a hs_cache" by (simp_all add: decay_iteration_def compact_iteration_def Let_def)
  have b: "destroy_buckets (buckets (ob_cache s)) = Some (replicate (length (filter (\<lambda>b. b \<noteq> None) (buckets (ob_cache s)))) Map.empty)"
    by (rule destroy_buckets_frees[of _ V]) (use h in \<open>auto simp: hc_sound_def hc_holds_def hc_blank_def\<close>)
  show ?thesis using d b by (auto simp: StoreRelaxed_def ended_def split: option.splits)
qed

text \<open>C11: The object with its two threads runs through every interleaving of Init, lookups and insertions of clients, thread
  iterations and shutdown, each of them run as a whole, without a fault of the model: no overflow, no index out of range, no access
  to a node that is gone, no loop that does not end, also when the threads start before Init. The steps rely on charges that are not
  negative and fit int64_t together with memory_used_, on positions of the low queue below 2^63, and on fresh addresses. The cursors
  stay in range, an insertion succeeds if and only if Init has been called before, and whatever a lookup finds has been inserted under
  its key before. Wherever the run stops, setting stop_ and one more iteration of each thread end both of them, and the destruction
  of the buckets then frees every node.\<close>

theorem hs_threads_safe:
  assumes "0 < bucket_num" "th_events_ok es (hs_object_new capicity bucket_num)"
  shows "\<exists>rs s. th_run es (hs_object_new capicity bucket_num) = Some (rs, s) \<and> length rs = length es \<and>
    (\<forall>j < length es. is_insert (es ! j) \<longrightarrow> rs ! j = Inr (\<exists>e \<in> set (take j es). is_init e)) \<and>
    (\<forall>j < length es. \<forall>spurious key h. es ! j = ClientGet spurious key \<longrightarrow> rs ! j = Inl (Some h) \<longrightarrow>
       (key, h) \<in> th_inserts (take j es)) \<and>
    (\<exists>rs' s' hs. th_run [Shutdown, DecayStep sp, CompactStep coins alloc spurious addr] s = Some (rs', s') \<and> ended s' \<and>
       destroy_buckets (buckets (ob_cache s')) = Some hs \<and> set hs \<subseteq> {Map.empty})"
proof -
  have i: "\<not> init_done (ob_cache (hs_object_new capicity bucket_num))" by (simp add: hs_object_new_def HashSkipCache_new_def)
  from th_run_holds[OF new_ob_holds[OF assms(1), of "{}"] assms(2)] obtain rs s where
    r: "th_run es (hs_object_new capicity bucket_num) = Some (rs, s)" "length rs = length es" "ob_holds (th_inserts es) s"
    "\<forall>j < length es. is_insert (es ! j) \<longrightarrow> rs ! j = Inr (\<exists>e \<in> set (take j es). is_init e)"
    "\<forall>j < length es. \<forall>spurious key h. es ! j = ClientGet spurious key \<longrightarrow> rs ! j = Inl (Some h) \<longrightarrow>
       (key, h) \<in> th_inserts (take j es)" by (simp only: Un_empty_left i payable_empty simp_thms True_implies_equals) (elim exE conjE, rule that)
  show ?thesis using r(1,2,4,5) shutdown_ends[OF r(3), of sp coins alloc spurious addr]
    by - (rule exI[of _ rs], rule exI[of _ s], intro conjI)
qed

text \<open>Both threads start before Init; an insertion, a turn of the decay thread over the bucket with the entry, and a lookup.\<close>

theorem hs_threads_safe_witness:
  "\<exists>rs s. th_run [DecayStep 0, ClientInit (\<lambda>_. (16, 32)), ClientInsert (\<lambda>_ _. True) (\<lambda>_. 48) (\<lambda>_. 1) 0 7 \<lparr>hs_value = 3 :: nat, hs_charge = 40\<rparr>,
      DecayStep 0, ClientGet 0 7] (hs_object_new 100 2) = Some (rs, s) \<and> rs ! 2 = Inr True"
proof -
  let ?h = "\<lparr>hs_value = 3 :: nat, hs_charge = 40\<rparr>"
  let ?e1 = "ClientInsert (\<lambda>_ _. True) (\<lambda>_. 48) (\<lambda>_. 1) 0 7 ?h"
  let ?es = "[DecayStep 0, ClientInit (\<lambda>_. (16, 32)), ?e1, DecayStep 0, ClientGet 0 7]"
  let ?c = "HashSkipCache_new 100 2 :: nat hs_cache"
  have k: "7 < INT64_MAX" by (simp add: INT64_MAX_def)
  have l: "length (buckets ?c) = 2" by (simp add: HashSkipCache_new_def)
  have "DecayOneBucket 0 ?c 0 = Some ?c" by (rule blank_steps(3)) (simp_all add: new_blank l)
  then obtain n where d: "decay_iteration False 0 ?c 0 = Some (n, ?c)" using l
    by (cases "ShouldDecay ?c") (simp_all add: decay_iteration_def wrap_index_def)
  have dr: "decay_room ?c i" if "i < 2" for i using that by (simp add: decay_room_def HashSkipCache_new_def)
  obtain b where i: "Init (\<lambda>_. (16, 32)) ?c = (b, demo_cache)" unfolding demo_cache_def by (metis prod.collapse)
  have f: "charge_fits demo_cache ?h" by (simp add: charge_fits_def demo_cache_ok int64_range_def)
  obtain c where c: "hc_Insert (\<lambda>_ _. True) (\<lambda>_. 48) (\<lambda>_. 1) 0 demo_cache 7 (Some ?h) = Some (True, c)"
    "hc_represents c [7 \<mapsto> ?h] {}" "length (buckets c) = 2" "low_queue c = low_queue demo_cache"
    by (rule hc_Insert_facts[where alloc = "\<lambda>_. 48" and handle = ?h and coins = "\<lambda>_ _. True" and spurious = "\<lambda>_. 1" and espurious = 0,
        OF demo_cache_ok(1) k _ demo_cache_fresh]) (simp_all add: demo_cache_ok int64_range_def int32_range_def)
  have dr2: "decay_room c i" if "i < 2" for i
    by (rule decay_room_card[OF c(2), of "{7}"]) (use c(3,4) that demo_pushes_left in simp_all)
  have ok: "th_events_ok ?es (hs_object_new 100 2)"
    using demo_cache_fresh demo_addr k f dr dr2 c(1,3) by (simp add: hs_object_new_def l d i split: option.split prod.split)
  note run = hs_threads_safe[OF _ ok, of 0 "\<lambda>_ _ _. True" "\<lambda>_ _. 0" "\<lambda>_ _. 0" "(0, 0)"]
  obtain rs s where r: "th_run ?es (hs_object_new 100 2) = Some (rs, s)"
    "\<forall>j < length ?es. is_insert (?es ! j) \<longrightarrow> rs ! j = Inr (\<exists>e \<in> set (take j ?es). is_init e)"
    by (rule exE[OF run], simp, elim exE conjE, rule that)
  have "rs ! 2 = Inr True" using r(2)[rule_format, of 2] by (simp add: event_kinds numeral_2_eq_2)
  then show ?thesis using r(1) by (intro exI[of _ rs] exI[of _ s]) simp
qed

end
