(* ===== verification/HS_Drain.thy ===== *)
theory HS_Drain
  imports HS_Threads
begin

text \<open>
  Decay makes progress while the compaction thread runs along: when nothing is looked up or inserted, enough turns of the
  decay thread over every bucket empty the cache. A turn takes 100 off every hit count and MAX_HIT_COUNT is 1000; a list that
  the compaction thread replaces starts with hit counts of 200 again, but it is replaced only when a deleted node can be dropped, so
  each of the nodes pays for two more turns. Turns count only when ShouldDecay holds; the iterations that sleep may come
  anywhere in between.
\<close>

section \<open>The hit counts of a list the compaction has built\<close>









section \<open>The hit counts of a bucket\<close>














section \<open>The buckets of the cache\<close>












section \<open>The turns of the threads\<close>
























section \<open>An instance\<close>











end
