(* ===== verification/HS_Race.thy ===== *)
theory HS_Race
  imports HS_Insert
begin

text \<open>
  Two insertions into an atomic skip list at once: between the search of the one and its
  compare-and-swap on level 0 an operation of another thread runs to its end. When that operation has linked a node
  behind the same predecessor, the compare-and-swap fails and Insert starts again, but its handle has been moved into the node it deletes.
\<close>

section \<open>Insert with another thread in between\<close>

text \<open>The first turn of the loop of Insert; rival is what other threads do to the list after Find.\<close>

definition insert_raced ::
  "('v askip \<Rightarrow> 'v askip option) \<Rightarrow> (nat \<Rightarrow> nat \<Rightarrow> bool) \<Rightarrow> (nat \<Rightarrow> u64) \<Rightarrow> (nat \<Rightarrow> nat) \<Rightarrow> 'v askip \<Rightarrow> int \<Rightarrow> 'v hs_handle option \<Rightarrow>
   ('v hs_handle option \<times> 'v askip) option" where
  "insert_raced rival coins alloc spurious sl key handle =
     (if handle = None then Some (None, sl)
      else do { (found, preds, succs) \<leftarrow> Find sl (as_heap sl) key;
                sl \<leftarrow> rival sl;
                if found
                then do { let p = GetRawPtr (succs ! 0);
                          n \<leftarrow> as_heap sl p;
                          let (old, n) = UpdateHandle handle n;
                          Some (old, sl\<lparr>as_heap := (as_heap sl)(p := Some n)\<rparr>) }
                else do { let lvl = RandomLevel (coins 0);
                          (ok, h) \<leftarrow> LinkLevel ((as_heap sl)(alloc 0 := Some (new_node key handle lvl succs)))
                                       (preds ! 0) (succs ! 0) (alloc 0) 0 True False;
                          if \<not> ok then insert_loop coins alloc spurious 1 (sl\<lparr>as_heap := h(alloc 0 := None)\<rparr>) key None
                          else do { h \<leftarrow> link_upper sl spurious h key (alloc 0) preds succs [1..<lvl + 1];
                                    Some (None, sl\<lparr>as_heap := h, node_num := snd (FetchAddRelaxed (node_num sl) 1)\<rparr>) } } })"

lemma insert_raced_alone: "insert_raced Some coins alloc spurious sl key handle = Insert coins alloc spurious sl key handle"
  unfolding insert_raced_def Insert_def insert_loop.simps[of coins alloc spurious 0]
  by (simp only: bind.bind_lunit add_0)

section \<open>A compare-and-swap that fails\<close>

lemma LinkLevel_fails:
  assumes "next_word h l p = Some w" "w \<noteq> expected"
  shows "LinkLevel h p expected a l True spurious = Some (False, h)"
proof -
  obtain n where n: "h p = Some n" "l < length (hn_nexts n)" "w = hn_nexts n ! l"
    using assms(1) by (auto simp: next_word_def atomic_defs split: bind_splits if_splits)
  have "set_word h l p w = Some h" using n by (simp add: set_word_def fun_upd_idem)
  then show ?thesis using assms by (simp add: LinkLevel_def atomic_defs)
qed

lemma insert_loop_ends:
  assumes "insert_loop coins alloc spurious i sl key handle = Some (r, sl')"
  shows "as_head sl' = as_head sl" "as_tail sl' = as_tail sl"
proof -
  have "as_head (snd (r, sl')) = as_head sl \<and> as_tail (snd (r, sl')) = as_tail sl"
  proof (rule insert_loop.raw_induct[where P = "\<lambda>coins alloc spurious i sl key handle y.
      as_head (snd y) = as_head sl \<and> as_tail (snd y) = as_tail sl", OF _ assms])
  qed (auto simp: Let_def split: bind_splits if_splits prod.splits)
  then show "as_head sl' = as_head sl" "as_tail sl' = as_tail sl" by simp_all
qed

lemma sorted_gap:
  fixes a b :: int
  assumes "ys @ zs = ys' @ zs'" "\<forall>y \<in> set ys. f y < a" "\<forall>z \<in> set zs. a < f z" "\<forall>y \<in> set ys'. f y < b" "\<forall>z \<in> set zs'. b < f z"
    "\<forall>x \<in> set (ys @ zs). \<not> (min a b \<le> f x \<and> f x \<le> max a b)"
  shows "ys = ys' \<and> zs = zs'"
  using assms(1) unfolding append_eq_append_conv2
proof (elim exE disjE conjE)
  fix us assume u: "ys = ys' @ us" "us @ zs = zs'"
  have "us = []"
  proof (cases us)
    case (Cons x _)
    then have "f x < a" "b < f x" "x \<in> set (ys @ zs)" using u assms(2,5) by auto
    then show ?thesis using assms(6) by force
  qed simp
  then show ?thesis using u by simp
next
  fix us assume u: "ys @ us = ys'" "zs = us @ zs'"
  have "us = []"
  proof (cases us)
    case (Cons x _)
    then have "f x < b" "a < f x" "x \<in> set (ys @ zs)" using u assms(3,4) by auto
    then show ?thesis using assms(6) by force
  qed simp
  then show ?thesis using u by simp
qed

text \<open>The rival has linked its node behind the predecessor that Find has returned.\<close>

lemma raced_retries:
  assumes "as_ok sl xs" "key < INT64_MAX" "\<forall>x \<in> set xs. hkey (as_heap sl) x \<noteq> key" "xs = ys @ zs"
    "\<forall>y \<in> set ys. hkey (as_heap sl) y < key" "\<forall>z \<in> set zs. key < hkey (as_heap sl) z"
    "rival sl = Some sl1" "as_ok sl1 (ys @ a2 # zs)" "as_head sl1 = as_head sl" "as_heap sl a2 = None"
    "as_heap sl1 (alloc 0) = None"
  shows "insert_raced rival coins alloc spurious sl key (Some handle) = insert_loop coins alloc spurious 1 sl1 key None"
proof -
  let ?h = "as_heap sl" and ?h1 = "as_heap sl1" and ?a = "alloc 0"
  obtain ys' zs' where s: "xs = ys' @ zs'" and f: "Find sl ?h key = Some (zs' \<noteq> [] \<and> hkey ?h (hd zs') = key,
       map (\<lambda>l. pred_at (hlen ?h) l (as_head sl # ys')) [0..<hs_max_level + 1],
       map (\<lambda>l. word_at ?h l (pred_at (hlen ?h) l (as_head sl # ys'))) [0..<hs_max_level + 1])"
    "GetRawPtr (word_at ?h 0 (pred_at (hlen ?h) 0 (as_head sl # ys'))) = hd (zs' @ [as_tail sl])"
    and lt: "\<forall>y \<in> set ys'. hkey ?h y < key" and ge: "\<forall>z \<in> set zs'. key \<le> hkey ?h z"
    by (rule hs_search[OF assms(1,2)]) blast
  have gt: "\<forall>z \<in> set zs'. key < hkey ?h z" using ge assms(3) s by (metis Un_iff le_less set_append)
  have "ys = ys' \<and> zs = zs'"
    by (rule sorted_gap[where f = "hkey ?h" and a = key and b = key]) (use s assms(3-6) lt gt in auto)
  then have e: "ys' = ys" "zs' = zs" by simp_all
  have pos: "0 < hlen ?h x" if "x \<in> set (as_head sl # ys)" for x
    using as_ok_hlen[OF assms(1), of x] as_okD(1)[OF assms(1), of x] that assms(4) by auto
  then have "filter (\<lambda>q. 0 < hlen ?h q) (as_head sl # ys) = as_head sl # ys" by (auto simp: filter_id_conv)
  then have p: "pred_at (hlen ?h) 0 (as_head sl # ys) = last (as_head sl # ys)" by (simp only: pred_at_def)
  define preds where "preds = map (\<lambda>l. pred_at (hlen ?h) l (as_head sl # ys)) [0..<hs_max_level + 1]"
  define succs where "succs = map (\<lambda>l. word_at ?h l (pred_at (hlen ?h) l (as_head sl # ys))) [0..<hs_max_level + 1]"
  have nf: "\<not> (zs \<noteq> [] \<and> hkey ?h (hd zs) = key)" using assms(3,4) by auto
  have F: "Find sl ?h key = Some (False, preds, succs)" using f(1) nf unfolding e preds_def succs_def by simp
  have p0: "preds ! 0 = last (as_head sl # ys)" "GetRawPtr (succs ! 0) = hd (zs @ [as_tail sl])"
    using p f(2) unfolding e preds_def succs_def by (simp_all add: nth_append del: upt_Suc)
  obtain w where w: "next_word ?h1 0 (last (as_head sl # ys)) = Some w" "GetRawPtr w = a2"
    by (rule level0_next[OF assms(8)]) (simp add: assms(9))
  have "hd (zs @ [as_tail sl]) \<noteq> a2" using as_okD(1)[OF assms(1), of a2] assms(4,10) by (cases zs) auto
  then have ne: "w \<noteq> succs ! 0" using w(2) p0(2) by auto
  have pa: "last (as_head sl # ys) \<noteq> ?a" using w(1) assms(11) by (auto simp: next_word_def)
  let ?g = "?h1(?a := Some (new_node key (Some handle) (RandomLevel (coins 0)) succs))"
  have "next_word ?g 0 (preds ! 0) = Some w" using w(1) pa unfolding p0 by (simp add: next_word_def)
  note L = LinkLevel_fails[OF this ne, of ?a False]
  have "sl1\<lparr>as_heap := ?g(?a := None)\<rparr> = sl1" using assms(11) by (simp add: fun_upd_idem)
  then show ?thesis by (simp add: insert_raced_def F assms(7) L Let_def del: fun_upd_apply)
qed

text \<open>The second turn of the loop inserts a null pointer: whatever the key held is gone.\<close>

lemma insert_null_spec:
  assumes "hs_represents sl m D" "key < INT64_MAX" "askip_fresh sl (alloc i)"
  obtains sl' where "insert_loop coins alloc spurious i sl key None = Some (m key, sl')"
    "hs_represents sl' (m(key := None)) (insert key D)"
proof -
  obtain xs where r: "represents_by sl xs m D" using assms(1) by (auto simp: hs_represents_def)
  note R = representsD[OF r]
  have a: "as_heap sl (alloc i) = None" "alloc i \<noteq> 0" "unat (alloc i) < 2 ^ 47" using assms(3) by (simp_all add: askip_fresh_def)
  show thesis
  proof (cases "\<exists>p \<in> set xs. hkey (as_heap sl) p = key")
    case True
    then obtain p n where p: "p \<in> set xs" "as_heap sl p = Some n" "hn_key n = key" using R(5) by (force simp: hkey_def)
    let ?sl = "sl\<lparr>as_heap := (as_heap sl)(p := Some (n\<lparr>hn_handle := None\<rparr>))\<rparr>"
    have "represents_by ?sl xs (m(hn_key n := hn_handle (n\<lparr>hn_handle := None\<rparr>))) (insert key D)"
      by (rule represents_change[OF r p(1,2)])
        (use p(3) as_okD(3)[OF R(1) p(2)] in \<open>auto simp: same_links_def node_ok_def\<close>)
    then have "hs_represents ?sl (m(key := None)) (insert key D)" using p(3) by (auto simp: hs_represents_def)
    moreover have "insert_loop coins alloc spurious i sl key None = Some (m key, ?sl)"
      using Insert_known_spec(1)[OF R(1) assms(2) p] represents_node(1)[OF r p(1,2)] p(3) by simp
    ultimately show thesis by (intro that)
  next
    case False
    then have ne: "\<forall>x \<in> set xs. hkey (as_heap sl) x \<noteq> key" by blast
    obtain sl' xs' where I: "insert_loop coins alloc spurious i sl key None = Some (None, sl')" "as_ok sl' xs'"
      "tidy (as_heap sl')" "hs_contents (as_heap sl') xs' = (hs_contents (as_heap sl) xs)(key := None)"
      "hs_contents (as_heap sl) xs key = None" "hkey (as_heap sl') ` set xs' = insert key (hkey (as_heap sl) ` set xs)"
      "dom (as_heap sl') = insert (alloc i) (dom (as_heap sl))"
      by (rule Insert_new_spec[where alloc = alloc and i = i and coins = coins and spurious = spurious and handle = None, OF R(1) assms(2) R(2) a ne]) blast
    have "hkey (as_heap sl) ` set xs \<subseteq> dom m \<union> D" using r unfolding represents_by_def by blast
    then have "represents_by sl' xs' (m(key := None)) (insert key D)"
      using I(2-4,6) R(3) by (auto simp: represents_by_def)
    then show thesis by (intro that) (use I(1,5) R(3) in \<open>auto simp: hs_represents_def\<close>)
  qed
qed

text \<open>C30: Two insertions race for the same gap of an atomic skip list, for one key or for two without a node between them: when the second runs between
  the search and the compare-and-swap of the first, the first retries with a null pointer. It ends and reports no
  failure, but a Get of its key finds nothing; when the keys are equal, the handle of the second is lost as well.\<close>

theorem insert_race_loses:
  assumes "hs_represents sl m D" "key < INT64_MAX" "key2 < INT64_MAX"
    "\<forall>k \<in> dom m \<union> D. \<not> (min key key2 \<le> k \<and> k \<le> max key key2)"
    "askip_fresh sl (alloc 0)" "askip_fresh sl (alloc 1)" "askip_fresh sl (alloc2 0)" "alloc2 0 \<noteq> alloc 0" "alloc2 0 \<noteq> alloc 1"
  shows "\<exists>sl'. insert_raced (\<lambda>sl. map_option snd (Insert coins2 alloc2 spurious2 sl key2 (Some h2))) coins alloc spurious sl key (Some h1) =
      Some (if key2 = key then Some h2 else None, sl') \<and>
    hs_represents sl' (m(key2 := Some h2, key := None)) (insert key D) \<and>
    (\<exists>sl''. Get spurious' sl' key = Some (None, sl''))"
proof -
  let ?h = "as_heap sl" and ?rival = "\<lambda>sl. map_option snd (Insert coins2 alloc2 spurious2 sl key2 (Some h2))"
  obtain xs where r: "represents_by sl xs m D" using assms(1) by (auto simp: hs_represents_def)
  note R = representsD[OF r]
  have gap: "\<not> (min key key2 \<le> hkey ?h x \<and> hkey ?h x \<le> max key key2)" if "x \<in> set xs" for x using R(4)[OF that] assms(4) by blast
  have a2: "?h (alloc2 0) = None" "alloc2 0 \<noteq> 0" "unat (alloc2 0) < 2 ^ 47" using assms(7) by (simp_all add: askip_fresh_def)
  have k2: "\<forall>x \<in> set xs. hkey ?h x \<noteq> key2" using gap by force
  obtain sl1 ys zs n where C: "insert_loop coins2 alloc2 spurious2 0 sl key2 (Some h2) = Some (None, sl1)" "xs = ys @ zs"
    "as_ok sl1 (ys @ alloc2 0 # zs)" "\<forall>y \<in> set ys. hkey ?h y < key2" "\<forall>z \<in> set zs. key2 \<le> hkey ?h z"
    by (rule Insert_new_core[where alloc = alloc2 and i = 0, OF R(1) assms(3) a2 k2, of coins2 spurious2 "Some h2"]) blast
  have d2: "key2 \<notin> D" using assms(4)[rule_format, of key2] by auto
  obtain sl1' where S: "insert_loop coins2 alloc2 spurious2 0 sl key2 (Some h2) = Some (m key2, sl1')"
    "hs_represents sl1' (m(key2 := Some h2)) D" "dom (as_heap sl1') \<subseteq> insert (alloc2 0) (dom ?h)"
    by (rule hs_Insert_spec[where alloc = alloc2 and i = 0, OF assms(1,3) d2 assms(7), of coins2 spurious2 h2])
  have S1: "sl1' = sl1" using C(1) S(1) by simp
  have fresh: "askip_fresh sl1 a" if "askip_fresh sl a" "a \<noteq> alloc2 0" for a
    using that S(3) unfolding S1 by (auto simp: askip_fresh_def)
  have rival: "?rival sl = Some sl1" using C(1) by (simp add: Insert_def)
  have lt: "\<forall>y \<in> set ys. hkey ?h y < key" and gt: "\<forall>z \<in> set zs. key < hkey ?h z" using C(2,4,5) gap by force+
  have n0: "as_heap sl1 (alloc 0) = None" using fresh[OF assms(5)] assms(8) by (simp add: askip_fresh_def)
  have retry: "insert_raced ?rival coins alloc spurious sl key (Some h1) = insert_loop coins alloc spurious 1 sl1 key None"
    by (rule raced_retries[where rival = ?rival and alloc = alloc, OF R(1) assms(2) _ C(2) lt gt rival C(3) insert_loop_ends(1)[OF C(1)] a2(1) n0]) (use gap in force)
  obtain sl' where N: "insert_loop coins alloc spurious 1 sl1 key None = Some ((m(key2 := Some h2)) key, sl')"
    "hs_represents sl' (m(key2 := Some h2, key := None)) (insert key D)"
    by (rule insert_null_spec[where alloc = alloc and i = 1, OF S(2)[unfolded S1] assms(2) fresh[OF assms(6) assms(9)[symmetric]], of coins spurious])
  have "key \<notin> dom m" using assms(4)[rule_format, of key] by auto
  then have "m key = None" by (simp add: domIff)
  then have "(m(key2 := Some h2)) key = (if key2 = key then Some h2 else None)" by simp
  moreover obtain sl'' where "Get spurious' sl' key = Some ((m(key2 := Some h2, key := None)) key, sl'')"
    by (rule hs_Get_spec[OF N(2) assms(2), of spurious'])
  ultimately show ?thesis using retry N by auto
qed

theorem insert_race_loses_witness:
  "\<exists>sl'. insert_raced (\<lambda>sl. map_option snd (Insert (\<lambda>_ _. True) (\<lambda>_. 64) (\<lambda>_. 0) sl 7 (Some \<lparr>hs_value = 1 :: nat, hs_charge = 10\<rparr>)))
      (\<lambda>_ _. True) (\<lambda>_. 48) (\<lambda>_. 0) (AtomicSkipList_new 16 32) 5 (Some \<lparr>hs_value = 2, hs_charge = 20\<rparr>) = Some (None, sl') \<and>
    hs_represents sl' [7 \<mapsto> \<lparr>hs_value = 1, hs_charge = 10\<rparr>] {5}"
proof -
  have k: "7 < INT64_MAX" by (simp add: INT64_MAX_def)
  have f: "askip_fresh (AtomicSkipList_new 16 32 :: nat askip) 64" by (simp add: askip_fresh_def AtomicSkipList_new_def)
  have e: "(Map.empty(7 := Some v, 5 := None) :: int \<rightharpoonup> nat hs_handle) = [7 \<mapsto> v]" for v :: "nat hs_handle" by (auto simp: fun_eq_iff)
  show ?thesis
    using insert_race_loses[OF demo_new demo_key5 k, of "\<lambda>_. 48" "\<lambda>_. 64"] demo_fresh f by (simp add: e) blast
qed

section \<open>A level that loses a node\<close>

text \<open>
  When linking on an upper level fails, Insert searches again, but the links of its node keep pointing to the successors of the
  first search. An instance: the list holds 10; after the search for 5 another thread links 20 on the levels 0 and
  1; then 5 is linked on level 1 between the head and the tail, and 20 is left on level 0 alone, though its height is 2.
\<close>

definition demo_ten :: "nat askip" where
  "demo_ten = snd (the (Insert (\<lambda>_ _. False) (\<lambda>_. 48) (\<lambda>_. 0) (AtomicSkipList_new 16 32) 10 (Some \<lparr>hs_value = 1, hs_charge = 1\<rparr>)))"

definition demo_cut :: "(nat hs_handle option \<times> nat askip) option" where
  "demo_cut = insert_raced
     (\<lambda>sl. map_option snd (Insert (\<lambda>_ l. l < 1) (\<lambda>_. 64) (\<lambda>_. 0) sl 20 (Some \<lparr>hs_value = 2, hs_charge = 1\<rparr>)))
     (\<lambda>_ l. l < 1) (\<lambda>_. 80) (\<lambda>_. 0) demo_ten 5 (Some \<lparr>hs_value = 3, hs_charge = 1\<rparr>)"

definition level_links :: "'v askip \<Rightarrow> nat \<Rightarrow> u64 option list" where
  "level_links sl l = map (\<lambda>p. if l < hlen (as_heap sl) p then hnxt (as_heap sl) l p else None) [16, 80, 48, 64]"

lemma insert_race_cuts_level:
  "map_option (\<lambda>(r, sl). (r, node_num sl, hlen (as_heap sl) 64, level_links sl 0, level_links sl 1)) demo_cut =
   Some (None, 3, 2, [Some 80, Some 48, Some 64, Some 32], [Some 80, Some 32, None, Some 32])"
  by code_simp

end
