(* ===== verification/Skip_List.thy ===== *)
theory Skip_List
  imports Levels "HOL-Library.List_Lexorder" "HOL-Library.Char_ord" "HOL-Library.Monad_Syntax"
begin

text \<open>
  The sequential skip list of util/skiplist.h. Nodes live in a heap, a map from addresses to nodes;
  None as a result is undefined behaviour (a null or dangling pointer, an index outside a vector) or a
  loop that does not end. Keys and values are byte strings compared lexicographically. The
  address of a new node and the random coins of RandomLevel are arguments. Levels lie between 0
  and max_level_ = 16, so the int8_t variables are natural numbers here.
\<close>

section \<open>The operations\<close>

record node =
  n_key :: string
  n_value :: string
  n_next :: "nat option list"

type_synonym heap = "nat \<Rightarrow> node option"

record skip_list =
  sl_heap :: heap
  sl_head :: nat
  cur_max_level :: nat

definition max_level :: nat where "max_level = 16"

definition new_node :: "string \<Rightarrow> string \<Rightarrow> nat \<Rightarrow> node" where
  "new_node key val level = \<lparr>n_key = key, n_value = val, n_next = replicate level None\<rparr>"

definition SkipList_new :: "nat \<Rightarrow> skip_list" where
  "SkipList_new a = \<lparr>sl_heap = [a \<mapsto> new_node [] [] max_level], sl_head = a, cur_max_level = 1\<rparr>"

definition next_at :: "heap \<Rightarrow> nat \<Rightarrow> nat \<Rightarrow> nat option option" where
  "next_at h l p = do { n \<leftarrow> h p; if l < length (n_next n) then Some (n_next n ! l) else None }"

definition set_next :: "heap \<Rightarrow> nat \<Rightarrow> nat \<Rightarrow> nat option \<Rightarrow> heap option" where
  "set_next h l p q =
     do { n \<leftarrow> h p;
          if l < length (n_next n) then Some (h(p \<mapsto> n\<lparr>n_next := (n_next n)[l := q]\<rparr>)) else None }"

text \<open>The inner while loop of Get, Insert and Erase on one level.\<close>

partial_function (option) advance :: "heap \<Rightarrow> string \<Rightarrow> nat \<Rightarrow> nat \<Rightarrow> nat option" where
  [code]: "advance h key l p =
     do { nx \<leftarrow> next_at h l p;
          case nx of
            None \<Rightarrow> Some p
          | Some q \<Rightarrow> do { m \<leftarrow> h q; if n_key m < key then advance h key l q else Some p } }"

text \<open>The loop over the levels below its argument: the node it ends at and the vector update.\<close>

fun find_update :: "heap \<Rightarrow> string \<Rightarrow> nat \<Rightarrow> nat \<Rightarrow> (nat \<times> nat list) option" where
  "find_update h key 0 p = Some (p, [])"
| "find_update h key (Suc l) p =
     do { p \<leftarrow> advance h key l p; (q, upd) \<leftarrow> find_update h key l p; Some (q, upd @ [p]) }"

text \<open>The node after p on level 0, if it has the key.\<close>

definition match_next :: "heap \<Rightarrow> string \<Rightarrow> nat \<Rightarrow> nat option option" where
  "match_next h key p =
     do { nx \<leftarrow> next_at h 0 p;
          case nx of
            None \<Rightarrow> Some None
          | Some q \<Rightarrow> do { m \<leftarrow> h q; Some (if n_key m = key then Some q else None) } }"

definition Get :: "skip_list \<Rightarrow> string \<Rightarrow> string option option" where
  "Get sl key =
     do { (p, _) \<leftarrow> find_update (sl_heap sl) key (cur_max_level sl) (sl_head sl);
          found \<leftarrow> match_next (sl_heap sl) key p;
          case found of
            None \<Rightarrow> Some None
          | Some q \<Rightarrow> do { m \<leftarrow> sl_heap sl q; Some (Some (n_value m)) } }"

text \<open>coins l tells whether the draw at level l is below p_.\<close>

function random_level :: "(nat \<Rightarrow> bool) \<Rightarrow> nat \<Rightarrow> nat" where
  "random_level coins level =
     (if coins level \<and> level < max_level then random_level coins (level + 1) else level)"
  by pat_completeness auto
termination by (relation "measure (\<lambda>(_, level). max_level - level)") auto

declare random_level.simps [simp del]

definition RandomLevel :: "(nat \<Rightarrow> bool) \<Rightarrow> nat" where
  "RandomLevel coins = random_level coins 1"

fun link_levels :: "heap \<Rightarrow> nat list \<Rightarrow> nat \<Rightarrow> nat list \<Rightarrow> heap option" where
  "link_levels h upd a [] = Some h"
| "link_levels h upd a (l # ls) =
     (if l < length upd
      then do { s \<leftarrow> next_at h l (upd ! l);
                h \<leftarrow> set_next h l a s;
                h \<leftarrow> set_next h l (upd ! l) (Some a);
                link_levels h upd a ls }
      else None)"

definition Insert :: "(nat \<Rightarrow> bool) \<Rightarrow> nat \<Rightarrow> skip_list \<Rightarrow> string \<Rightarrow> string \<Rightarrow> skip_list option" where
  "Insert coins a sl key val =
     do { let h = sl_heap sl;
          (p, upd) \<leftarrow> find_update h key (cur_max_level sl) (sl_head sl);
          found \<leftarrow> match_next h key p;
          case found of
            Some q \<Rightarrow> do { m \<leftarrow> h q; Some (sl\<lparr>sl_heap := h(q \<mapsto> m\<lparr>n_value := val\<rparr>)\<rparr>) }
          | None \<Rightarrow>
              do { let new_level = RandomLevel coins;
                   let (upd, cur) =
                     (if cur_max_level sl < new_level
                      then (upd @ replicate (new_level - cur_max_level sl) (sl_head sl), new_level)
                      else (upd, cur_max_level sl));
                   h \<leftarrow> link_levels (h(a \<mapsto> new_node key val new_level)) upd a [0..<new_level];
                   Some (sl\<lparr>sl_heap := h, cur_max_level := cur\<rparr>) } }"

fun unlink_levels :: "heap \<Rightarrow> nat list \<Rightarrow> nat \<Rightarrow> nat list \<Rightarrow> heap option" where
  "unlink_levels h upd q [] = Some h"
| "unlink_levels h upd q (l # ls) =
     (if l < length upd
      then do { s \<leftarrow> next_at h l (upd ! l);
                if s \<noteq> Some q then Some h
                else do { r \<leftarrow> next_at h l q;
                          h \<leftarrow> set_next h l (upd ! l) r;
                          unlink_levels h upd q ls } }
      else None)"

primrec lower_level :: "heap \<Rightarrow> nat \<Rightarrow> nat \<Rightarrow> nat option" where
  "lower_level h head 0 = Some 0"
| "lower_level h head (Suc n) =
     (if n = 0 then Some 1
      else do { s \<leftarrow> next_at h n head; if s = None then lower_level h head n else Some (Suc n) })"

definition Erase :: "skip_list \<Rightarrow> string \<Rightarrow> (bool \<times> skip_list) option" where
  "Erase sl key =
     do { let h = sl_heap sl;
          (p, upd) \<leftarrow> find_update h key (cur_max_level sl) (sl_head sl);
          found \<leftarrow> match_next h key p;
          case found of
            None \<Rightarrow> Some (False, sl)
          | Some q \<Rightarrow>
              do { h \<leftarrow> unlink_levels h upd q [0..<cur_max_level sl];
                   let h = h(q := None);
                   cur \<leftarrow> lower_level h (sl_head sl) (cur_max_level sl);
                   Some (True, sl\<lparr>sl_heap := h, cur_max_level := cur\<rparr>) } }"

text \<open>The destructor, which deletes each node after reading its successor.\<close>

partial_function (option) destroy_from :: "heap \<Rightarrow> nat option \<Rightarrow> heap option" where
  [code]: "destroy_from h p =
     (case p of
        None \<Rightarrow> Some h
      | Some p \<Rightarrow> do { nx \<leftarrow> next_at h 0 p; destroy_from (h(p := None)) nx })"

definition SkipList_destroy :: "skip_list \<Rightarrow> heap option" where
  "SkipList_destroy sl = destroy_from (sl_heap sl) (Some (sl_head sl))"

section \<open>Heaps\<close>

definition ht :: "heap \<Rightarrow> nat \<Rightarrow> nat" where
  "ht h p = (case h p of None \<Rightarrow> 0 | Some n \<Rightarrow> length (n_next n))"

definition nxt :: "heap \<Rightarrow> nat \<Rightarrow> nat \<Rightarrow> nat option" where
  "nxt h l p = (case h p of None \<Rightarrow> None | Some n \<Rightarrow> if l < length (n_next n) then n_next n ! l else None)"

definition entry :: "heap \<Rightarrow> nat \<Rightarrow> string \<times> string" where
  "entry h p = (case h p of None \<Rightarrow> ([], []) | Some n \<Rightarrow> (n_key n, n_value n))"

text \<open>Two heaps that differ in links alone.\<close>

definition same_nodes :: "heap \<Rightarrow> heap \<Rightarrow> bool" where
  "same_nodes h h' \<longleftrightarrow> dom h' = dom h \<and> ht h' = ht h \<and> entry h' = entry h"

lemma same_nodes_trans: "same_nodes h h' \<Longrightarrow> same_nodes h' h'' \<Longrightarrow> same_nodes h h''"
  by (simp add: same_nodes_def)

lemma ht_dom: "l < ht h p \<Longrightarrow> p \<in> dom h"
  by (auto simp: ht_def split: option.splits)

lemma next_at_nxt: "l < ht h p \<Longrightarrow> next_at h l p = Some (nxt h l p)"
  by (auto simp: next_at_def nxt_def ht_def split: option.splits)

lemma set_next_spec:
  assumes "l < ht h p"
  obtains h' where "set_next h l p q = Some h'" "same_nodes h h'"
    "\<And>l' p'. nxt h' l' p' = (if l' = l \<and> p' = p then q else nxt h l' p')"
proof -
  obtain n where n: "h p = Some n" "l < length (n_next n)" using assms by (auto simp: ht_def split: option.splits)
  let ?h = "h(p \<mapsto> n\<lparr>n_next := (n_next n)[l := q]\<rparr>)"
  have "same_nodes h ?h" using n by (auto simp: same_nodes_def ht_def entry_def fun_eq_iff)
  moreover have "nxt ?h l' p' = (if l' = l \<and> p' = p then q else nxt h l' p')" for l' p'
    using n by (auto simp: nxt_def nth_list_update)
  ultimately show thesis using n that by (simp add: set_next_def)
qed

text \<open>The invariant: the nodes after the head, in order, are xs.\<close>

definition sl_ok :: "skip_list \<Rightarrow> nat list \<Rightarrow> bool" where
  "sl_ok sl xs \<longleftrightarrow> (let h = sl_heap sl; root = sl_head sl in
     dom h = insert root (set xs) \<and> root \<notin> set xs \<and> sorted_wrt (<) (map (fst \<circ> entry h) xs) \<and>
     ht h root = max_level \<and> (\<forall>x \<in> set xs. 1 \<le> ht h x \<and> ht h x \<le> cur_max_level sl) \<and>
     1 \<le> cur_max_level sl \<and> cur_max_level sl \<le> max_level \<and>
     linked_to (nxt h) (ht h) (root # xs) (\<lambda>_. None))"

text \<open>The map the list represents.\<close>

definition represents :: "skip_list \<Rightarrow> (string \<Rightarrow> string option) \<Rightarrow> bool" where
  "represents sl m \<longleftrightarrow> (\<exists>xs. sl_ok sl xs \<and> m = map_of (map (entry (sl_heap sl)) xs))"

section \<open>Searching\<close>

lemma sl_okD:
  assumes "sl_ok sl xs"
  shows "dom (sl_heap sl) = insert (sl_head sl) (set xs)" "sl_head sl \<notin> set xs"
    "sorted_wrt (<) (map (fst \<circ> entry (sl_heap sl)) xs)" "ht (sl_heap sl) (sl_head sl) = max_level"
    "\<And>x. x \<in> set xs \<Longrightarrow> 1 \<le> ht (sl_heap sl) x" "\<And>x. x \<in> set xs \<Longrightarrow> ht (sl_heap sl) x \<le> cur_max_level sl"
    "1 \<le> cur_max_level sl" "cur_max_level sl \<le> max_level"
    "linked_to (nxt (sl_heap sl)) (ht (sl_heap sl)) (sl_head sl # xs) (\<lambda>_. None)" "distinct xs"
proof -
  show "sorted_wrt (<) (map (fst \<circ> entry (sl_heap sl)) xs)" using assms by (simp add: sl_ok_def Let_def)
  then have "distinct (map (fst \<circ> entry (sl_heap sl)) xs)" using strict_sorted_iff by blast
  then show "distinct xs" by (simp add: distinct_map)
qed (use assms in \<open>simp_all add: sl_ok_def Let_def\<close>)

lemma entry_Some: "h q = Some n \<Longrightarrow> entry h q = (n_key n, n_value n)"
  by (simp add: entry_def)

lemma advance_step:
  assumes "l < ht h p" "\<And>q. nxt h l p = Some q \<Longrightarrow> q \<in> dom h"
  shows "advance h key l p = (case nxt h l p of None \<Rightarrow> Some p
     | Some q \<Rightarrow> if fst (entry h q) < key then advance h key l q else Some p)"
  using assms(2) by (subst advance.simps) (auto simp: next_at_nxt[OF assms(1)] entry_Some split: option.splits)

text \<open>
  The nodes before the key, with the head, are ps, and those from the key on are zs. The search ends
  at the last of the former, and update holds the last one of each level.
\<close>

definition split_at :: "heap \<Rightarrow> string \<Rightarrow> nat list \<Rightarrow> nat list \<Rightarrow> bool" where
  "split_at h key ps zs \<longleftrightarrow> linked_to (nxt h) (ht h) (ps @ zs) (\<lambda>_. None) \<and> set (ps @ zs) \<subseteq> dom h \<and>
     (\<forall>y \<in> set (tl ps). fst (entry h y) < key) \<and> (\<forall>z \<in> set zs. key \<le> fst (entry h z)) \<and>
     (\<forall>x \<in> set (ps @ zs). 1 \<le> ht h x) \<and> ps \<noteq> []"

lemma split_next:
  assumes "split_at h key ps zs" "p \<in> set ps" "l < ht h p"
  shows "nxt h l (pred_at (ht h) l ps) = first_of (ht h) zs (\<lambda>_. None) l"
  using assms by (intro pred_at_next) (auto simp: split_at_def linked_to_append)

lemma linked_next_mem:
  assumes "linked_to nx hh ps e" "p \<in> set ps" "l < hh p" "nx l p = Some q"
  shows "q \<in> set ps \<or> e l = Some q"
  using assms
proof (induction ps)
  case (Cons a ps)
  show ?case
  proof (cases "p \<in> set ps")
    case False
    then have "first_of hh ps e l = Some q" using Cons.prems by auto
    then show ?thesis using first_of_cases[of hh ps e l] by auto
  qed (use Cons in auto)
qed simp

lemma advance_spec:
  assumes "split_at h key ps zs" "p \<in> set ps" "l < ht h p"
  shows "advance h key l p = Some (pred_at (ht h) l ps)"
proof (rule level_walk[where nxt = "nxt h" and e = "first_of (ht h) zs (\<lambda>_. None)" and before = "\<lambda>q. fst (entry h q) < key"])
  note S = assms(1)[unfolded split_at_def]
  show "linked_to (nxt h) (ht h) ps (first_of (ht h) zs (\<lambda>_. None))" using S by (simp add: linked_to_append)
  show "advance h key l q = (case nxt h l q of None \<Rightarrow> Some q
       | Some r \<Rightarrow> if fst (entry h r) < key then advance h key l r else Some q)"
    if "q \<in> set ps" "l < ht h q" for q
  proof (rule advance_step[OF that(2)])
    fix r assume "nxt h l q = Some r"
    then have "r \<in> set (ps @ zs)"
      using linked_next_mem[of "nxt h" "ht h" "ps @ zs" "\<lambda>_. None" q l r] S that by simp
    then show "r \<in> dom h" using S by blast
  qed
  show "fst (entry h q) < key" if "q \<in> set (tl ps)" for q using S that by blast
  show "\<not> fst (entry h q) < key" if "first_of (ht h) zs (\<lambda>_. None) l = Some q" for q
    using S that first_of_cases[of "ht h" zs "\<lambda>_. None" l] by (auto simp: not_less)
qed (use assms in simp_all)

lemma find_update_spec:
  assumes "split_at h key ps zs" "p \<in> set ps" "n \<le> ht h p"
  shows "find_update h key n p = Some (if n = 0 then p else pred_at (ht h) 0 ps, map (\<lambda>l. pred_at (ht h) l ps) [0..<n])"
  using assms(2,3)
proof (induction n arbitrary: p)
  case (Suc l)
  let ?q = "pred_at (ht h) l ps"
  have a: "advance h key l p = Some ?q" using advance_spec[OF assms(1) Suc.prems(1)] Suc.prems(2) by simp
  have q: "?q \<in> set ps" "l < ht h ?q" using pred_at_mem[of p ps l "ht h"] Suc.prems by simp_all
  then show ?case using Suc.IH[of ?q] by (auto simp: a)
qed simp

lemma pred_at_0:
  assumes "\<forall>x \<in> set ps. 1 \<le> ht h x"
  shows "pred_at (ht h) 0 ps = last ps"
proof -
  have "filter (\<lambda>q. 0 < ht h q) ps = ps" using assms by (intro filter_True) auto
  then show ?thesis by (simp add: pred_at_def)
qed

lemma match_next_spec:
  assumes "split_at h key ps zs"
  shows "match_next h key (pred_at (ht h) 0 ps) = Some (case zs of [] \<Rightarrow> None | z # _ \<Rightarrow> if fst (entry h z) = key then Some z else None)"
proof -
  note S = assms[unfolded split_at_def]
  have l: "last ps \<in> set ps" using S by simp
  have p: "pred_at (ht h) 0 ps = last ps" using S by (intro pred_at_0) auto
  have z: "0 < ht h (last ps)" using S l by (auto simp: Suc_le_eq)
  have "nxt h 0 (last ps) = first_of (ht h) zs (\<lambda>_. None) 0" using split_next[OF assms l z] p by simp
  also have "\<dots> = (case zs of [] \<Rightarrow> None | z # _ \<Rightarrow> Some z)"
    using S by (cases zs) (auto simp: Suc_le_eq)
  finally show ?thesis
    using S by (cases zs) (auto simp: p match_next_def next_at_nxt[OF z] entry_Some)
qed

text \<open>The search of the three operations on a list that satisfies the invariant.\<close>

lemma search:
  assumes "sl_ok sl xs"
  obtains ys zs where "xs = ys @ zs" "split_at (sl_heap sl) key (sl_head sl # ys) zs"
    "find_update (sl_heap sl) key (cur_max_level sl) (sl_head sl) =
       Some (pred_at (ht (sl_heap sl)) 0 (sl_head sl # ys),
             map (\<lambda>l. pred_at (ht (sl_heap sl)) l (sl_head sl # ys)) [0..<cur_max_level sl])"
proof -
  note D = sl_okD[OF assms]
  obtain ys zs where s: "xs = ys @ zs" "\<forall>y \<in> set ys. (fst \<circ> entry (sl_heap sl)) y < key"
    "\<forall>z \<in> set zs. key \<le> (fst \<circ> entry (sl_heap sl)) z" by (rule key_split[OF D(3)])
  have sp: "split_at (sl_heap sl) key (sl_head sl # ys) zs"
    using s D(1,4,5,9) by (auto simp: split_at_def max_level_def)
  have "find_update (sl_heap sl) key (cur_max_level sl) (sl_head sl) =
      Some (if cur_max_level sl = 0 then sl_head sl else pred_at (ht (sl_heap sl)) 0 (sl_head sl # ys),
             map (\<lambda>l. pred_at (ht (sl_heap sl)) l (sl_head sl # ys)) [0..<cur_max_level sl])"
    by (rule find_update_spec[OF sp]) (use D(4,8) in simp_all)
  then show thesis using s(1) sp D(7) by (intro that) auto
qed

lemma skip_Get_spec:
  assumes "sl_ok sl xs"
  shows "Get sl key = Some (map_of (map (entry (sl_heap sl)) xs) key)"
proof -
  obtain ys zs where s: "xs = ys @ zs" "split_at (sl_heap sl) key (sl_head sl # ys) zs"
    and f: "find_update (sl_heap sl) key (cur_max_level sl) (sl_head sl) =
       Some (pred_at (ht (sl_heap sl)) 0 (sl_head sl # ys),
             map (\<lambda>l. pred_at (ht (sl_heap sl)) l (sl_head sl # ys)) [0..<cur_max_level sl])"
    by (rule search[OF assms, of key])
  note S = s(2)[unfolded split_at_def]
  have "map_of (map (entry (sl_heap sl)) xs) key =
      (case zs of [] \<Rightarrow> None | z # _ \<Rightarrow> if fst (entry (sl_heap sl) z) = key then Some (snd (entry (sl_heap sl) z)) else None)"
    unfolding s(1) by (rule map_of_split) (use S sl_okD(3)[OF assms] s(1) in \<open>auto simp: sorted_wrt_append\<close>)
  then show ?thesis using S
    by (cases zs) (auto simp: Get_def f match_next_spec[OF s(2)] entry_Some)
qed

section \<open>Linking and unlinking\<close>

lemma link_levels_spec:
  assumes "distinct ls" "\<forall>l \<in> set ls. l < length upd \<and> upd ! l \<noteq> a \<and> l < ht h (upd ! l) \<and> l < ht h a"
  shows "\<exists>h'. link_levels h upd a ls = Some h' \<and> same_nodes h h' \<and>
    (\<forall>l p. nxt h' l p = (if l \<in> set ls \<and> p = a then nxt h l (upd ! l)
        else if l \<in> set ls \<and> p = upd ! l then Some a else nxt h l p))"
  using assms
proof (induction ls arbitrary: h)
  case (Cons l ls)
  have l: "l < length upd" "upd ! l \<noteq> a" "l < ht h (upd ! l)" "l < ht h a" using Cons.prems by auto
  obtain h1 where 1: "set_next h l a (nxt h l (upd ! l)) = Some h1" "same_nodes h h1"
    "\<And>l' p'. nxt h1 l' p' = (if l' = l \<and> p' = a then nxt h l (upd ! l) else nxt h l' p')"
    by (rule set_next_spec[OF l(4)]) blast
  have "l < ht h1 (upd ! l)" using 1(2) l(3) by (simp add: same_nodes_def)
  then obtain h2 where 2: "set_next h1 l (upd ! l) (Some a) = Some h2" "same_nodes h1 h2"
    "\<And>l' p'. nxt h2 l' p' = (if l' = l \<and> p' = upd ! l then Some a else nxt h1 l' p')"
    by (rule set_next_spec) blast
  have h: "same_nodes h h2" using same_nodes_trans[OF 1(2) 2(2)] .
  then have "\<forall>l \<in> set ls. l < length upd \<and> upd ! l \<noteq> a \<and> l < ht h2 (upd ! l) \<and> l < ht h2 a"
    using Cons.prems by (simp add: same_nodes_def)
  then obtain h' where 3: "link_levels h2 upd a ls = Some h'" "same_nodes h2 h'"
    "\<And>l p. nxt h' l p = (if l \<in> set ls \<and> p = a then nxt h2 l (upd ! l)
        else if l \<in> set ls \<and> p = upd ! l then Some a else nxt h2 l p)"
    using Cons.IH[of h2] Cons.prems(1) by auto
  have "nxt h' l' p = (if l' \<in> set (l # ls) \<and> p = a then nxt h l' (upd ! l')
        else if l' \<in> set (l # ls) \<and> p = upd ! l' then Some a else nxt h l' p)" for l' p
    using Cons.prems l by (auto simp: 3(3) 2(3) 1(3))
  then show ?case
    using same_nodes_trans[OF h 3(2)] 3(1) l by (simp add: next_at_nxt 1(1) 2(1))
qed (simp add: same_nodes_def)

lemma unlink_levels_spec:
  assumes "\<forall>l < c. i \<le> l \<longrightarrow> l < length upd \<and> upd ! l \<noteq> q \<and> l < ht h (upd ! l) \<and> (nxt h l (upd ! l) = Some q \<longleftrightarrow> l < ht h q)"
    "i + k = c"
  shows "\<exists>h'. unlink_levels h upd q [i..<c] = Some h' \<and> same_nodes h h' \<and>
    (\<forall>l p. nxt h' l p = (if i \<le> l \<and> l < c \<and> l < ht h q \<and> p = upd ! l then nxt h l q else nxt h l p))"
  using assms
proof (induction k arbitrary: i h)
  case 0
  then show ?case by (auto simp: same_nodes_def)
next
  case (Suc k)
  then have ic: "i < c" and i: "i < length upd" "upd ! i \<noteq> q" "i < ht h (upd ! i)" "nxt h i (upd ! i) = Some q \<longleftrightarrow> i < ht h q"
    by auto
  have e: "[i..<c] = i # [Suc i..<c]" by (rule upt_conv_Cons[OF ic])
  show ?case
  proof (cases "i < ht h q")
    case False
    then have "unlink_levels h upd q [i..<c] = Some h" using i by (simp add: e next_at_nxt)
    then show ?thesis using False by (auto simp: same_nodes_def)
  next
    case True
    obtain h1 where 1: "set_next h i (upd ! i) (nxt h i q) = Some h1" "same_nodes h h1"
      "\<And>l' p'. nxt h1 l' p' = (if l' = i \<and> p' = upd ! i then nxt h i q else nxt h l' p')"
      by (rule set_next_spec[OF i(3)]) blast
    have "\<forall>l < c. Suc i \<le> l \<longrightarrow> l < length upd \<and> upd ! l \<noteq> q \<and> l < ht h1 (upd ! l) \<and> (nxt h1 l (upd ! l) = Some q \<longleftrightarrow> l < ht h1 q)"
      using Suc.prems(1) 1(2,3) by (simp add: same_nodes_def)
    then obtain h' where 2: "unlink_levels h1 upd q [Suc i..<c] = Some h'" "same_nodes h1 h'"
      "\<And>l p. nxt h' l p = (if Suc i \<le> l \<and> l < c \<and> l < ht h1 q \<and> p = upd ! l then nxt h1 l q else nxt h1 l p)"
      using Suc.IH[of "Suc i" h1] Suc.prems(2) by auto
    have "nxt h' l p = (if i \<le> l \<and> l < c \<and> l < ht h q \<and> p = upd ! l then nxt h l q else nxt h l p)" for l p
      using True ic i(2) 1(2) by (auto simp: 2(3) 1(3) same_nodes_def not_less_eq_eq le_Suc_eq)
    moreover have "unlink_levels h upd q [i..<c] = Some h'"
      using i True by (simp add: e next_at_nxt 1(1) 2(1))
    ultimately show ?thesis using same_nodes_trans[OF 1(2) 2(2)] by blast
  qed
qed

section \<open>Insert\<close>

lemma random_level_bounds: "level \<le> max_level \<Longrightarrow> level \<le> random_level coins level \<and> random_level coins level \<le> max_level"
proof (induction coins level rule: random_level.induct)
  case (1 coins level)
  then show ?case by (subst (1 2) random_level.simps) (auto simp: Suc_le_eq)
qed

lemma RandomLevel_bounds: "1 \<le> RandomLevel coins" "RandomLevel coins \<le> max_level"
  using random_level_bounds[of 1 coins] by (simp_all add: RandomLevel_def max_level_def)

lemma update_value_spec:
  fixes val :: string
  assumes "sl_ok sl (ys @ z # zs)" "sl_heap sl z = Some n" "\<forall>y \<in> set ys. fst (entry (sl_heap sl) y) \<noteq> n_key n"
  defines "sl' \<equiv> sl\<lparr>sl_heap := (sl_heap sl)(z \<mapsto> n\<lparr>n_value := val\<rparr>)\<rparr>"
  shows "sl_ok sl' (ys @ z # zs)"
    "map_of (map (entry (sl_heap sl')) (ys @ z # zs)) = (map_of (map (entry (sl_heap sl)) (ys @ z # zs)))(n_key n \<mapsto> val)"
proof -
  let ?h = "sl_heap sl" and ?h' = "sl_heap sl'"
  note D = sl_okD[OF assms(1)]
  have h: "dom ?h' = dom ?h" "ht ?h' = ht ?h" "nxt ?h' = nxt ?h" "fst \<circ> entry ?h' = fst \<circ> entry ?h"
    using assms(2) by (auto simp: sl'_def ht_def nxt_def entry_def fun_eq_iff)
  have "sl_head sl' = sl_head sl" "cur_max_level sl' = cur_max_level sl" by (simp_all add: sl'_def)
  then show "sl_ok sl' (ys @ z # zs)" using assms(1) h by (simp only: sl_ok_def Let_def not_False_eq_True simp_thms) blast
  have e: "entry ?h' z = (n_key n, val)" "entry ?h z = (n_key n, n_value n)" using assms(2) by (simp_all add: sl'_def entry_def)
  have m: "map (entry ?h') ys = map (entry ?h) ys" "map (entry ?h') zs = map (entry ?h) zs"
    using D(10) by (auto simp: sl'_def entry_def)
  show "map_of (map (entry ?h') (ys @ z # zs)) = (map_of (map (entry ?h) (ys @ z # zs)))(n_key n \<mapsto> val)"
    using map_of_put[OF assms(3), of val] map_of_put[OF assms(3), of "n_value n"]
    by (simp only: map_append list.map e m fun_upd_upd)
qed

lemma link_node_spec:
  assumes "sl_ok sl (ys @ zs)" "split_at (sl_heap sl) key (sl_head sl # ys) zs" "\<forall>z \<in> set zs. key < fst (entry (sl_heap sl) z)"
    "sl_heap sl a = None" "1 \<le> new_level" "new_level \<le> max_level"
    "length upd \<ge> new_level" "\<forall>l < new_level. upd ! l = pred_at (ht (sl_heap sl)) l (sl_head sl # ys)"
  shows "\<exists>h. link_levels ((sl_heap sl)(a \<mapsto> new_node key val new_level)) upd a [0..<new_level] = Some h \<and>
    sl_ok (sl\<lparr>sl_heap := h, cur_max_level := max (cur_max_level sl) new_level\<rparr>) (ys @ a # zs) \<and>
    map_of (map (entry h) (ys @ a # zs)) = (map_of (map (entry (sl_heap sl)) (ys @ zs)))(key \<mapsto> val)"
proof -
  let ?h = "sl_heap sl" and ?ps = "sl_head sl # ys"
  let ?g = "?h(a \<mapsto> new_node key val new_level)"
  note D = sl_okD[OF assms(1)] and S = assms(2)[unfolded split_at_def]
  have a: "a \<notin> set (?ps @ zs)" using assms(4) S by blast
  have g: "ht ?g p = (if p = a then new_level else ht ?h p)" "nxt ?g l p = (if p = a then None else nxt ?h l p)"
    "entry ?g p = (if p = a then (key, val) else entry ?h p)" for l p
    by (auto simp: ht_def nxt_def entry_def new_node_def)
  have hd: "\<And>l. l < new_level \<Longrightarrow> l < ht ?h (sl_head sl)" using D(4) assms(6) by simp
  have up: "upd ! l \<in> set ?ps" "l < ht ?h (upd ! l)" "nxt ?h l (upd ! l) = first_of (ht ?h) zs (\<lambda>_. None) l"
    if "l < new_level" for l
    using pred_at_mem[of "sl_head sl" ?ps l "ht ?h"] hd[OF that] that assms(8) split_next[OF assms(2) _ hd[OF that]] by simp_all
  have "\<forall>l \<in> set [0..<new_level]. l < length upd \<and> upd ! l \<noteq> a \<and> l < ht ?g (upd ! l) \<and> l < ht ?g a"
  proof
    fix l assume l: "l \<in> set [0..<new_level]"
    then have "upd ! l \<noteq> a" using up(1)[of l] a by auto
    then show "l < length upd \<and> upd ! l \<noteq> a \<and> l < ht ?g (upd ! l) \<and> l < ht ?g a"
      using l up(2)[of l] assms(7) by (simp add: g)
  qed
  then obtain h where h: "link_levels ?g upd a [0..<new_level] = Some h" "same_nodes ?g h"
    "\<And>l p. nxt h l p = (if l \<in> set [0..<new_level] \<and> p = a then nxt ?g l (upd ! l)
        else if l \<in> set [0..<new_level] \<and> p = upd ! l then Some a else nxt ?g l p)"
    using link_levels_spec[of "[0..<new_level]" upd a ?g] by auto
  have nx: "nxt h l p = (if l < new_level \<and> p = a then nxt ?h l (upd ! l)
        else if l < new_level \<and> p = upd ! l then Some a else if p = a then None else nxt ?h l p)" for l p
  proof -
    have "l < new_level \<Longrightarrow> upd ! l \<noteq> a" using up(1)[of l] a by auto
    then show ?thesis by (simp add: h(3) g)
  qed
  have hh: "ht h p = (if p = a then new_level else ht ?h p)" "entry h p = (if p = a then (key, val) else entry ?h p)"
    "dom h = insert a (dom ?h)" for p
    using h(2) g by (auto simp: same_nodes_def fun_eq_iff)
  let ?e = "first_of (ht ?h) zs (\<lambda>_. None)" and ?e' = "first_of (ht h) (a # zs) (\<lambda>_. None)"
  have fz: "first_of (ht h) zs (\<lambda>_. None) l = ?e l" for l by (rule first_of_cong) (use a hh(1) in auto)
  have e': "?e' l = (if l < new_level then Some a else ?e l)" for l by (simp add: hh(1) fz)
  have "linked_to (nxt h) (ht ?h) ?ps ?e'"
  proof (rule linked_to_redirect[where nxt = "nxt ?h" and e = ?e and L = "\<lambda>l. l < new_level"])
    show "linked_to (nxt ?h) (ht ?h) ?ps ?e" using S by (simp only: linked_to_append)
    show "distinct ?ps" using D(2,10) by simp
    show "nxt h l p = (if l < new_level \<and> p = pred_at (ht ?h) l ?ps then ?e' l else nxt ?h l p)"
      if "p \<in> set ?ps" for l p
    proof -
      have "p \<noteq> a" using that a by auto
      then show ?thesis unfolding e' nx using assms(8) by (cases "l < new_level") simp_all
    qed
    show "?e' l = ?e l" if "\<not> l < new_level" for l using that by (simp only: e' if_False)
  qed
  then have L1: "linked_to (nxt h) (ht h) ?ps ?e'"
    by (subst linked_to_cong[where nxt = "nxt h" and ht = "ht ?h"]) (use a hh(1) in auto)
  have "linked_to (nxt ?h) (ht ?h) zs (\<lambda>_. None)" using S by (simp add: linked_to_append)
  moreover have "upd ! l \<notin> set zs" if "l < new_level" for l using up(1)[OF that] D(2,10) by auto
  ultimately have L2: "linked_to (nxt h) (ht h) zs (\<lambda>_. None)"
    by (subst linked_to_cong[where nxt = "nxt ?h" and ht = "ht ?h"]) (use a hh(1) in \<open>auto simp: nx\<close>)
  have "linked_to (nxt h) (ht h) (a # zs) (\<lambda>_. None)" using L2 up(3) by (simp add: nx hh(1) fz)
  then have L: "linked_to (nxt h) (ht h) (sl_head sl # ys @ a # zs) (\<lambda>_. None)"
    using L1 linked_to_append[of "nxt h" "ht h" ?ps "a # zs"] by simp
  have en: "map (entry h) ys = map (entry ?h) ys" "map (entry h) zs = map (entry ?h) zs" "entry h a = (key, val)"
    using a hh(2) by auto
  have fe: "map (fst \<circ> entry h) ys = map (fst \<circ> entry ?h) ys" "map (fst \<circ> entry h) zs = map (fst \<circ> entry ?h) zs"
    using a hh(2) by auto
  have "sorted_wrt (<) (map (fst \<circ> entry ?h) ys @ key # map (fst \<circ> entry ?h) zs)"
    using D(3) S assms(3) by (auto simp: sorted_wrt_append)
  then have "sorted_wrt (<) (map (fst \<circ> entry h) (ys @ a # zs))"
    by (simp only: map_append list.map fe comp_apply en(3) fst_conv)
  moreover have "ht h (sl_head sl) = max_level" using a hh(1) D(4) by auto
  moreover have "\<forall>x \<in> set (ys @ a # zs). 1 \<le> ht h x \<and> ht h x \<le> max (cur_max_level sl) new_level"
    using D(5,6) assms(5) hh(1) by (auto simp: le_max_iff_disj)
  ultimately have "sl_ok (sl\<lparr>sl_heap := h, cur_max_level := max (cur_max_level sl) new_level\<rparr>) (ys @ a # zs)"
    using D(1,2,7,8) a hh(3) L assms(6) by (auto simp: sl_ok_def Let_def)
  moreover have "\<forall>y \<in> set ys. fst (entry ?h y) \<noteq> key" using S by auto
  then have "map_of (map (entry h) (ys @ a # zs)) = (map_of (map (entry ?h) (ys @ zs)))(key \<mapsto> val)"
    using map_of_put[of ys "entry ?h" key val "map (entry ?h) zs"] by (simp only: map_append list.map en)
  ultimately show ?thesis using h(1) by blast
qed

lemma Insert_spec:
  assumes "sl_ok sl xs" "sl_heap sl a = None"
  obtains sl' xs' where "Insert coins a sl key val = Some sl'" "sl_ok sl' xs'"
    "map_of (map (entry (sl_heap sl')) xs') = (map_of (map (entry (sl_heap sl)) xs))(key \<mapsto> val)"
proof -
  let ?h = "sl_heap sl" and ?cur = "cur_max_level sl"
  obtain ys zs where s: "xs = ys @ zs" "split_at ?h key (sl_head sl # ys) zs"
    and f: "find_update ?h key ?cur (sl_head sl) =
       Some (pred_at (ht ?h) 0 (sl_head sl # ys), map (\<lambda>l. pred_at (ht ?h) l (sl_head sl # ys)) [0..<?cur])"
    by (rule search[OF assms(1), of key])
  note S = s(2)[unfolded split_at_def] and D = sl_okD[OF assms(1)]
  show thesis
  proof (cases "\<exists>z zs'. zs = z # zs' \<and> fst (entry ?h z) = key")
    case True
    then obtain z zs' where z: "zs = z # zs'" "fst (entry ?h z) = key" by blast
    then obtain n where n: "?h z = Some n" "n_key n = key" using S by (auto simp: entry_def)
    have "\<forall>y \<in> set ys. fst (entry ?h y) \<noteq> n_key n" using S n(2) by auto
    note U = update_value_spec[OF assms(1)[unfolded s(1) z(1)] n(1) this, of val]
    show thesis
      by (rule that[OF _ U(1)])
        (use U(2) n in \<open>simp_all add: Insert_def f match_next_spec[OF s(2)] z s(1) Let_def\<close>)
  next
    case False
    let ?new = "RandomLevel coins"
    define upd where "upd = (if ?cur < ?new then map (\<lambda>l. pred_at (ht ?h) l (sl_head sl # ys)) [0..<?cur] @ replicate (?new - ?cur) (sl_head sl)
        else map (\<lambda>l. pred_at (ht ?h) l (sl_head sl # ys)) [0..<?cur])"
    have gt: "\<forall>z \<in> set zs. key < fst (entry ?h z)"
    proof
      fix z assume z: "z \<in> set zs"
      then obtain z0 zs' where z0: "zs = z0 # zs'" by (cases zs) auto
      have "fst (entry ?h z0) \<le> fst (entry ?h z)" using D(3) z s(1) z0 by (auto simp: sorted_wrt_append)
      moreover have "key < fst (entry ?h z0)" using S z0 False by (auto simp: less_le)
      ultimately show "key < fst (entry ?h z)" by (rule less_le_trans[rotated])
    qed
    have top: "pred_at (ht ?h) l (sl_head sl # ys) = sl_head sl" if "?cur \<le> l" "l < ?new" for l
    proof -
      have "\<not> l < ht ?h y" if "y \<in> set ys" for y using D(6)[of y] that \<open>?cur \<le> l\<close> s(1) by force
      moreover have "l < ht ?h (sl_head sl)" using D(4) that RandomLevel_bounds(2)[of coins] by simp
      ultimately show ?thesis by (auto simp: pred_at_Cons)
    qed
    have u: "?new \<le> length upd" "\<forall>l < ?new. upd ! l = pred_at (ht ?h) l (sl_head sl # ys)"
      using top by (auto simp: upd_def nth_append)
    obtain h where h: "link_levels (?h(a \<mapsto> new_node key val ?new)) upd a [0..<?new] = Some h"
      "sl_ok (sl\<lparr>sl_heap := h, cur_max_level := max ?cur ?new\<rparr>) (ys @ a # zs)"
      "map_of (map (entry h) (ys @ a # zs)) = (map_of (map (entry ?h) (ys @ zs)))(key \<mapsto> val)"
      using link_node_spec[OF assms(1)[unfolded s(1)] s(2) gt assms(2) RandomLevel_bounds u] by blast
    have m: "match_next ?h key (pred_at (ht ?h) 0 (sl_head sl # ys)) = Some None"
      using match_next_spec[OF s(2)] False by (cases zs) auto
    have "Insert coins a sl key val = Some (sl\<lparr>sl_heap := h, cur_max_level := max ?cur ?new\<rparr>)"
      using h(1) by (cases "?cur < ?new") (simp_all add: Insert_def f m upd_def Let_def max_def)
    then show thesis by (rule that[OF _ h(2)]) (use h(3) s(1) in simp)
  qed
qed

section \<open>Erase\<close>

lemma lower_level_spec:
  assumes "n \<le> ht h p" "1 \<le> n"
  obtains m where "lower_level h p n = Some m" "1 \<le> m" "m \<le> n" "\<forall>l. m \<le> l \<and> l < n \<longrightarrow> nxt h l p = None"
proof -
  have "\<exists>m. lower_level h p n = Some m \<and> 1 \<le> m \<and> m \<le> n \<and> (\<forall>l. m \<le> l \<and> l < n \<longrightarrow> nxt h l p = None)"
    using assms
  proof (induction n)
    case (Suc n)
    then have x: "next_at h n p = Some (nxt h n p)" by (intro next_at_nxt) simp
    show ?case
    proof (cases "n = 0 \<or> nxt h n p \<noteq> None")
      case True
      then show ?thesis using x by auto
    next
      case False
      then obtain m where "lower_level h p n = Some m" "1 \<le> m" "m \<le> n" "\<forall>l. m \<le> l \<and> l < n \<longrightarrow> nxt h l p = None"
        using Suc by auto
      then show ?thesis using False x by (auto simp: less_Suc_eq)
    qed
  qed simp
  then show thesis using that by blast
qed

lemma unlink_node_spec:
  assumes "sl_ok sl (ys @ q # zs)" "split_at (sl_heap sl) key (sl_head sl # ys) (q # zs)" "fst (entry (sl_heap sl) q) = key"
  defines "upd \<equiv> map (\<lambda>l. pred_at (ht (sl_heap sl)) l (sl_head sl # ys)) [0..<cur_max_level sl]"
  shows "\<exists>h cur. unlink_levels (sl_heap sl) upd q [0..<cur_max_level sl] = Some h \<and>
    lower_level (h(q := None)) (sl_head sl) (cur_max_level sl) = Some cur \<and>
    sl_ok (sl\<lparr>sl_heap := h(q := None), cur_max_level := cur\<rparr>) (ys @ zs) \<and>
    map_of (map (entry (h(q := None))) (ys @ zs)) = (map_of (map (entry (sl_heap sl)) (ys @ q # zs)))(key := None)"
proof -
  let ?h = "sl_heap sl" and ?ps = "sl_head sl # ys" and ?cur = "cur_max_level sl"
  let ?e = "first_of (ht ?h) (q # zs) (\<lambda>_. None)" and ?e' = "first_of (ht ?h) zs (\<lambda>_. None)"
  note D = sl_okD[OF assms(1)] and S = assms(2)[unfolded split_at_def]
  have q: "q \<notin> set (?ps @ zs)" using D(2,10) by auto
  have htq: "ht ?h q \<le> ?cur" using D(6) by simp
  have lk: "linked_to (nxt ?h) (ht ?h) ?ps ?e" "linked_to (nxt ?h) (ht ?h) (q # zs) (\<lambda>_. None)"
    using S by (simp_all only: linked_to_append)
  have up: "upd ! l = pred_at (ht ?h) l ?ps" "upd ! l \<in> set ?ps" "l < ht ?h (upd ! l)" "nxt ?h l (upd ! l) = ?e l"
    if "l < ?cur" for l
  proof -
    show u: "upd ! l = pred_at (ht ?h) l ?ps" using that by (simp add: upd_def)
    have hd: "l < ht ?h (sl_head sl)" using that D(4,8) by simp
    show "upd ! l \<in> set ?ps" "l < ht ?h (upd ! l)" "nxt ?h l (upd ! l) = ?e l"
      using pred_at_mem[of "sl_head sl" ?ps l "ht ?h"] hd split_next[OF assms(2) _ hd] u by simp_all
  qed
  have eq: "?e l = Some q \<longleftrightarrow> l < ht ?h q" for l
    using first_of_cases[of "ht ?h" zs "\<lambda>_. None" l] q by auto
  have "\<forall>l < ?cur. 0 \<le> l \<longrightarrow> l < length upd \<and> upd ! l \<noteq> q \<and> l < ht ?h (upd ! l) \<and> (nxt ?h l (upd ! l) = Some q \<longleftrightarrow> l < ht ?h q)"
  proof (intro allI impI)
    fix l assume l: "l < ?cur"
    have "upd ! l \<noteq> q" using up(2)[OF l] q by auto
    then show "l < length upd \<and> upd ! l \<noteq> q \<and> l < ht ?h (upd ! l) \<and> (nxt ?h l (upd ! l) = Some q \<longleftrightarrow> l < ht ?h q)"
      using l up(3,4)[OF l] eq[of l] by (simp add: upd_def)
  qed
  from unlink_levels_spec[OF this, of ?cur] obtain h where h: "unlink_levels ?h upd q [0..<?cur] = Some h" "same_nodes ?h h"
    "\<And>l p. nxt h l p = (if l < ?cur \<and> l < ht ?h q \<and> p = upd ! l then nxt ?h l q else nxt ?h l p)" by auto
  let ?g = "h(q := None)"
  have g: "ht ?g p = (if p = q then 0 else ht ?h p)" "entry ?g p = (if p = q then ([], []) else entry ?h p)"
    "dom ?g = dom ?h - {q}" "nxt ?g l p = (if p = q then None else nxt h l p)" for l p
    using h(2) by (auto simp: same_nodes_def fun_eq_iff ht_def entry_def nxt_def)
  have e': "?e' l = (if l < ht ?h q then nxt ?h l q else ?e l)" for l using lk(2) by simp
  have "linked_to (nxt ?g) (ht ?h) ?ps ?e'"
  proof (rule linked_to_redirect[OF lk(1), where L = "\<lambda>l. l < ht ?h q"])
    show "distinct ?ps" using D(2,10) by simp
    show "nxt ?g l p = (if l < ht ?h q \<and> p = pred_at (ht ?h) l ?ps then ?e' l else nxt ?h l p)"
      if "p \<in> set ?ps" for l p
    proof -
      have "p \<noteq> q" using that q by auto
      then show ?thesis unfolding e' using up(1)[of l] htq by (auto simp: g(4) h(3))
    qed
    show "?e' l = ?e l" if "\<not> l < ht ?h q" for l using that by (simp only: e' if_False)
  qed
  moreover have fz: "first_of (ht ?g) zs (\<lambda>_. None) = ?e'" by (rule ext, rule first_of_cong) (use q g(1) in auto)
  ultimately have L1: "linked_to (nxt ?g) (ht ?g) ?ps (first_of (ht ?g) zs (\<lambda>_. None))"
    unfolding fz by (subst linked_to_cong[where nxt = "nxt ?g" and ht = "ht ?h"]) (use q g(1) in auto)
  have "upd ! l \<notin> set zs" if "l < ?cur" for l using up(2)[OF that] D(2,10) by auto
  then have "linked_to (nxt ?g) (ht ?g) zs (\<lambda>_. None)"
    using lk(2) by (subst linked_to_cong[where nxt = "nxt ?h" and ht = "ht ?h"]) (use q g(1) in \<open>auto simp: g(4) h(3)\<close>)
  then have L: "linked_to (nxt ?g) (ht ?g) (?ps @ zs) (\<lambda>_. None)" using L1 by (simp only: linked_to_append)
  have hd: "ht ?g (sl_head sl) = max_level" using D(4) q g(1) by auto
  obtain cur where c: "lower_level ?g (sl_head sl) ?cur = Some cur" "1 \<le> cur" "cur \<le> ?cur"
    "\<forall>l. cur \<le> l \<and> l < ?cur \<longrightarrow> nxt ?g l (sl_head sl) = None"
    by (rule lower_level_spec[of ?cur ?g "sl_head sl"]) (use hd D(7,8) in auto)
  have small: "ht ?g x \<le> cur" if x: "x \<in> set (ys @ zs)" for x
  proof (rule ccontr)
    assume "\<not> ht ?g x \<le> cur"
    moreover have "ht ?g x \<le> ?cur" using x D(6) q g(1) by auto
    ultimately have l: "cur < ht ?g x" "cur < ?cur" by auto
    then have "first_of (ht ?g) (ys @ zs) (\<lambda>_. None) cur \<noteq> None"
      using first_of_cases[of "ht ?g" "ys @ zs" "\<lambda>_. None" cur] x by auto
    moreover have "nxt ?g cur (sl_head sl) = first_of (ht ?g) (ys @ zs) (\<lambda>_. None) cur"
      using L hd l(2) D(8) by simp
    ultimately show False using c(4) l(2) by simp
  qed
  have srt: "sorted_wrt (<) (map (fst \<circ> entry ?h) (ys @ zs))" using D(3) by (auto simp: sorted_wrt_append)
  have en: "map (entry ?g) (ys @ zs) = map (entry ?h) (ys @ zs)" "map (fst \<circ> entry ?g) (ys @ zs) = map (fst \<circ> entry ?h) (ys @ zs)"
    using q g(2) by auto
  have sh: "sl_heap (sl\<lparr>sl_heap := ?g, cur_max_level := cur\<rparr>) = ?g" by simp
  have "sl_ok (sl\<lparr>sl_heap := ?g, cur_max_level := cur\<rparr>) (ys @ zs)"
    unfolding sl_ok_def Let_def
  proof (intro conjI)
    show "sorted_wrt (<) (map (fst \<circ> entry (sl_heap (sl\<lparr>sl_heap := ?g, cur_max_level := cur\<rparr>))) (ys @ zs))"
      unfolding sh en(2) by (rule srt)
    show "\<forall>x \<in> set (ys @ zs). 1 \<le> ht (sl_heap (sl\<lparr>sl_heap := ?g, cur_max_level := cur\<rparr>)) x \<and>
        ht (sl_heap (sl\<lparr>sl_heap := ?g, cur_max_level := cur\<rparr>)) x \<le> cur_max_level (sl\<lparr>sl_heap := ?g, cur_max_level := cur\<rparr>)"
      using small D(5) q g(1) by auto
  qed (use D(1,2,8) q g(3) hd c L in auto)
  moreover have "\<forall>y \<in> set ys. fst (entry ?h y) \<noteq> key" "\<forall>z \<in> set zs. fst (entry ?h z) \<noteq> key"
    using S D(3) assms(3) by (auto simp: sorted_wrt_append)
  then have "map_of (map (entry ?g) (ys @ zs)) = (map_of (map (entry ?h) (ys @ q # zs)))(key := None)"
    unfolding en(1) by (rule map_of_drop) (fact assms(3))
  ultimately show ?thesis using h(1) c(1) by blast
qed

lemma skip_Erase_spec:
  assumes "sl_ok sl xs"
  obtains sl' xs' where "Erase sl key = Some (map_of (map (entry (sl_heap sl)) xs) key \<noteq> None, sl')" "sl_ok sl' xs'"
    "map_of (map (entry (sl_heap sl')) xs') = (map_of (map (entry (sl_heap sl)) xs))(key := None)"
proof -
  let ?h = "sl_heap sl" and ?cur = "cur_max_level sl"
  obtain ys zs where s: "xs = ys @ zs" "split_at ?h key (sl_head sl # ys) zs"
    and f: "find_update ?h key ?cur (sl_head sl) =
       Some (pred_at (ht ?h) 0 (sl_head sl # ys), map (\<lambda>l. pred_at (ht ?h) l (sl_head sl # ys)) [0..<?cur])"
    by (rule search[OF assms(1), of key])
  note S = s(2)[unfolded split_at_def] and D = sl_okD[OF assms(1)]
  have m: "map_of (map (entry ?h) xs) key = (case zs of [] \<Rightarrow> None | z # _ \<Rightarrow> if fst (entry ?h z) = key then Some (snd (entry ?h z)) else None)"
    unfolding s(1) by (rule map_of_split) (use S D(3) s(1) in \<open>auto simp: sorted_wrt_append\<close>)
  show thesis
  proof (cases "\<exists>z zs'. zs = z # zs' \<and> fst (entry ?h z) = key")
    case True
    then obtain q zs' where z: "zs = q # zs'" "fst (entry ?h q) = key" by blast
    from unlink_node_spec[OF assms[unfolded s(1) z(1)] s(2)[unfolded z(1)] z(2)]
    obtain h cur where u: "unlink_levels ?h (map (\<lambda>l. pred_at (ht ?h) l (sl_head sl # ys)) [0..<?cur]) q [0..<?cur] = Some h"
      "lower_level (h(q := None)) (sl_head sl) ?cur = Some cur"
      "sl_ok (sl\<lparr>sl_heap := h(q := None), cur_max_level := cur\<rparr>) (ys @ zs')"
      "map_of (map (entry (h(q := None))) (ys @ zs')) = (map_of (map (entry ?h) (ys @ q # zs')))(key := None)" by blast
    show thesis
      by (rule that[OF _ u(3)]) (use u z m s(1) in \<open>simp_all add: Erase_def f match_next_spec[OF s(2)] Let_def\<close>)
  next
    case False
    then have n: "map_of (map (entry ?h) xs) key = None" unfolding m by (cases zs) auto
    have "match_next ?h key (pred_at (ht ?h) 0 (sl_head sl # ys)) = Some None"
      using match_next_spec[OF s(2)] False by (cases zs) auto
    then have "Erase sl key = Some (False, sl)" by (simp add: Erase_def f Let_def)
    then show thesis using n by (intro that[OF _ assms]) (auto simp: fun_eq_iff)
  qed
qed

section \<open>Construction and destruction\<close>

lemma SkipList_new_ok: "sl_ok (SkipList_new a) []"
proof -
  have "nxt [a \<mapsto> new_node [] [] max_level] l a = None" for l by (simp add: nxt_def new_node_def)
  then show ?thesis by (simp add: sl_ok_def SkipList_new_def ht_def new_node_def Let_def) (simp add: max_level_def)
qed

lemma destroy_from_spec:
  assumes "\<forall>p \<in> set ps. 1 \<le> ht h p" "linked_to (nxt h) (ht h) ps (\<lambda>_. None)" "distinct ps"
  shows "destroy_from h (case ps of [] \<Rightarrow> None | p # _ \<Rightarrow> Some p) = Some (\<lambda>p. if p \<in> set ps then None else h p)"
  using assms
proof (induction ps arbitrary: h)
  case Nil
  then show ?case by (simp add: destroy_from.simps)
next
  case (Cons p ps)
  let ?g = "h(p := None)"
  have "0 < ht h p" using Cons.prems(1) by (simp add: Suc_le_eq)
  then have "next_at h 0 p = Some (nxt h 0 p)" "nxt h 0 p = first_of (ht h) ps (\<lambda>_. None) 0"
    using Cons.prems(2) next_at_nxt by simp_all
  moreover have "first_of (ht h) ps (\<lambda>_. None) 0 = (case ps of [] \<Rightarrow> None | q # _ \<Rightarrow> Some q)"
    using Cons.prems(1) by (cases ps) (auto simp: Suc_le_eq)
  ultimately have d: "destroy_from h (Some p) = destroy_from ?g (case ps of [] \<Rightarrow> None | q # _ \<Rightarrow> Some q)"
    by (subst destroy_from.simps) simp
  have g: "ht ?g q = ht h q" "nxt ?g l q = nxt h l q" if "q \<in> set ps" for l q
    using that Cons.prems(3) by (auto simp: ht_def nxt_def)
  have "linked_to (nxt ?g) (ht ?g) ps (\<lambda>_. None)"
    using Cons.prems(2) g by (subst linked_to_cong[where nxt = "nxt h" and ht = "ht h"]) auto
  then have "destroy_from ?g (case ps of [] \<Rightarrow> None | q # _ \<Rightarrow> Some q) = Some (\<lambda>r. if r \<in> set ps then None else ?g r)"
    by (rule Cons.IH[rotated]) (use Cons.prems(1,3) g(1) in \<open>simp_all del: fun_upd_apply\<close>)
  then show ?case using d by (auto simp: fun_eq_iff)
qed

section \<open>Properties\<close>

text \<open>C27: Insert returns, keeps the invariant of the list (sorted levels, each a sublist of the one below) and
  implements the update of a finite map, whether the key is new or known and whatever level the
  coins choose.\<close>

theorem skip_Insert_refines:
  assumes "represents sl m" "sl_heap sl a = None"
  shows "\<exists>sl'. Insert coins a sl key val = Some sl' \<and> represents sl' (m(key \<mapsto> val))"
proof -
  obtain xs where xs: "sl_ok sl xs" "m = map_of (map (entry (sl_heap sl)) xs)" using assms(1) by (auto simp: represents_def)
  obtain sl' xs' where "Insert coins a sl key val = Some sl'" "sl_ok sl' xs'"
    "map_of (map (entry (sl_heap sl')) xs') = (map_of (map (entry (sl_heap sl)) xs))(key \<mapsto> val)"
    by (rule Insert_spec[OF xs(1) assms(2)])
  then show ?thesis unfolding represents_def xs(2) by metis
qed

text \<open>C28: Erase returns, says whether the key was in the list, and removes it from the map; the node is unlinked
  on every level before it is freed, so no pointer to it stays behind.\<close>

theorem skip_Erase_refines:
  assumes "represents sl m"
  shows "\<exists>sl'. Erase sl key = Some (m key \<noteq> None, sl') \<and> represents sl' (m(key := None))"
proof -
  obtain xs where xs: "sl_ok sl xs" "m = map_of (map (entry (sl_heap sl)) xs)" using assms(1) by (auto simp: represents_def)
  obtain sl' xs' where "Erase sl key = Some (map_of (map (entry (sl_heap sl)) xs) key \<noteq> None, sl')" "sl_ok sl' xs'"
    "map_of (map (entry (sl_heap sl')) xs') = (map_of (map (entry (sl_heap sl)) xs))(key := None)"
    by (rule skip_Erase_spec[OF xs(1)])
  then show ?thesis unfolding represents_def xs(2) by metis
qed

text \<open>Get returns the value the map holds, and the destructor visits every node once: it ends, never frees
  a node twice or reads a freed one, and leaves no node behind.\<close>

theorem skip_Get_and_destroy:
  assumes "represents sl m"
  shows "Get sl key = Some (m key) \<and> SkipList_destroy sl = Some Map.empty"
proof -
  obtain xs where xs: "sl_ok sl xs" "m = map_of (map (entry (sl_heap sl)) xs)" using assms(1) by (auto simp: represents_def)
  note D = sl_okD[OF xs(1)]
  have "SkipList_destroy sl = Some (\<lambda>p. if p \<in> set (sl_head sl # xs) then None else sl_heap sl p)"
    using destroy_from_spec[of "sl_head sl # xs" "sl_heap sl"] D(2,4,5,9,10) by (simp add: SkipList_destroy_def max_level_def)
  also have "(\<lambda>p. if p \<in> set (sl_head sl # xs) then None else sl_heap sl p) = Map.empty"
    using D(1) by (auto simp: fun_eq_iff)
  finally show ?thesis using skip_Get_spec[OF xs(1)] xs(2) by simp
qed

lemma represents_new: "represents (SkipList_new a) Map.empty"
  unfolding represents_def by (intro exI[of _ "[]"]) (simp add: SkipList_new_ok)

lemma skip_Insert_refines_witness:
  "\<exists>sl. Insert (\<lambda>_. False) 1 (SkipList_new 0) ''k'' ''v'' = Some sl \<and> represents sl [''k'' \<mapsto> ''v'']"
  using skip_Insert_refines[OF represents_new, of 0 1 "\<lambda>_. False" "''k''" "''v''"] by (simp add: SkipList_new_def)

text \<open>A list with the key k, for the other witnesses.\<close>

lemma demo_list:
  obtains sl where "Insert (\<lambda>_. True) 1 (SkipList_new 0) ''k'' ''v'' = Some sl" "represents sl [''k'' \<mapsto> ''v'']"
proof -
  have "sl_heap (SkipList_new 0) 1 = None" by (simp add: SkipList_new_def)
  then obtain sl' xs' where "Insert (\<lambda>_. True) 1 (SkipList_new 0) ''k'' ''v'' = Some sl'" "sl_ok sl' xs'"
    "map_of (map (entry (sl_heap sl')) xs') = (map_of (map (entry (sl_heap (SkipList_new 0))) []))(''k'' \<mapsto> ''v'')"
    by (rule Insert_spec[OF SkipList_new_ok])
  then show thesis by (intro that) (auto simp: represents_def)
qed

lemma skip_Erase_refines_witness:
  "\<exists>sl sl'. Insert (\<lambda>_. True) 1 (SkipList_new 0) ''k'' ''v'' = Some sl \<and> Erase sl ''k'' = Some (True, sl') \<and>
     represents sl' Map.empty"
proof -
  obtain sl where sl: "Insert (\<lambda>_. True) 1 (SkipList_new 0) ''k'' ''v'' = Some sl" "represents sl [''k'' \<mapsto> ''v'']"
    by (rule demo_list)
  obtain sl' where "Erase sl ''k'' = Some ([''k'' \<mapsto> ''v''] ''k'' \<noteq> None, sl')" "represents sl' ([''k'' \<mapsto> ''v''](''k'' := None))"
    using skip_Erase_refines[OF sl(2), of "''k''"] by blast
  then have "Erase sl ''k'' = Some (True, sl')" "represents sl' Map.empty" by simp_all
  then show ?thesis using sl(1) by blast
qed

lemma skip_Get_and_destroy_witness:
  "\<exists>sl. Insert (\<lambda>_. True) 1 (SkipList_new 0) ''k'' ''v'' = Some sl \<and> Get sl ''k'' = Some (Some ''v'') \<and>
     SkipList_destroy sl = Some Map.empty"
proof -
  obtain sl where "Insert (\<lambda>_. True) 1 (SkipList_new 0) ''k'' ''v'' = Some sl" "represents sl [''k'' \<mapsto> ''v'']"
    by (rule demo_list)
  then show ?thesis using skip_Get_and_destroy[of sl "[''k'' \<mapsto> ''v'']" "''k''"] by auto
qed

end
