(* ===== verification/Printing.thy ===== *)
theory Printing
  imports HS_Cache Skip_List Lru_Shard Op_Stat
begin

text \<open>
  The functions that print: what they write to std::cout, or return, is a string. SkipList::Print of util/skiplist.h,
  AtomicSkipList::DebugPrint of hash_skip/atomic_skiplist.h, PrintBucketsStatus of hash_skip/cache.h, Print of
  lru/cache_shard.h and OpStat::Print of the benchmarks. std::endl and a newline are the same character.
\<close>

section \<open>Numbers\<close>

definition newline :: string where
  "newline = [CHR 0x0A]"

fun show_nat :: "nat \<Rightarrow> string" where
  "show_nat n = (if n < 10 then [char_of (48 + n)] else show_nat (n div 10) @ [char_of (48 + n mod 10)])"

declare show_nat.simps [simp del]

definition show_int :: "int \<Rightarrow> string" where
  "show_int i = (if i < 0 then CHR ''-'' # show_nat (nat (- i)) else show_nat (nat i))"

definition read_nat :: "string \<Rightarrow> nat" where
  "read_nat = foldl (\<lambda>n c. 10 * n + (of_char c - 48)) 0"

lemma read_show_nat: "read_nat (show_nat n) = n"
proof (induction n rule: show_nat.induct)
  case (1 n)
  have d: "of_char (char_of (48 + m) :: char) = 48 + m" if "m < 10" for m :: nat using that by simp
  show ?case
  proof (cases "n < 10")
    case True
    then show ?thesis by (subst show_nat.simps) (simp add: read_nat_def d)
  next
    case False
    then have "read_nat (show_nat (n div 10)) = n div 10" by (rule 1)
    then show ?thesis using False d[of "n mod 10"] by (subst show_nat.simps) (simp add: read_nat_def)
  qed
qed

lemma digit_no_minus: "m < 10 \<Longrightarrow> char_of (48 + m) \<noteq> CHR ''-''" for m :: nat
proof
  assume m: "m < 10" "char_of (48 + m) = CHR ''-''"
  then have "of_char (char_of (48 + m) :: char) = (of_char (CHR ''-'') :: nat)" by simp
  moreover have "of_char (char_of (48 + m) :: char) = 48 + m" using m(1) by simp
  ultimately show False by simp
qed

lemma show_nat_no_minus: "CHR ''-'' \<notin> set (show_nat n)"
proof (induction n rule: show_nat.induct)
  case (1 n)
  then show ?case using digit_no_minus[of n] digit_no_minus[of "n mod 10"] by (subst show_nat.simps) auto
qed

text \<open>Different numbers are printed differently.\<close>

lemma show_int_inj: "show_int i = show_int j \<longleftrightarrow> i = j"
proof -
  have "show_nat n = show_nat k \<longleftrightarrow> n = k" for n k by (metis read_show_nat)
  moreover have "show_nat n \<noteq> CHR ''-'' # s" "CHR ''-'' # s \<noteq> show_nat n" for n s using show_nat_no_minus[of n] by (metis list.set_intros(1))+
  ultimately show ?thesis by (auto simp: show_int_def)
qed

section \<open>SkipList::Print\<close>

partial_function (option) print_level :: "heap \<Rightarrow> nat \<Rightarrow> nat option \<Rightarrow> string option" where
  [code]: "print_level h l p =
     (case p of
        None \<Rightarrow> Some newline
      | Some q \<Rightarrow> do { m \<leftarrow> h q; nx \<leftarrow> next_at h l q; rest \<leftarrow> print_level h l nx;
                       Some (''('' @ n_key m @ '':'' @ n_value m @ '') '' @ rest) })"

fun print_levels :: "heap \<Rightarrow> nat \<Rightarrow> nat \<Rightarrow> string option" where
  "print_levels h root 0 = Some []"
| "print_levels h root (Suc l) =
     do { nx \<leftarrow> next_at h l root; line \<leftarrow> print_level h l nx; rest \<leftarrow> print_levels h root l;
          Some (''Level '' @ show_nat l @ '': '' @ line @ rest) }"

definition skip_Print :: "skip_list \<Rightarrow> string option" where
  "skip_Print sl = do { rest \<leftarrow> print_levels (sl_heap sl) (sl_head sl) (cur_max_level sl); Some (''SkipList:'' @ newline @ rest) }"

definition entry_text :: "string \<times> string \<Rightarrow> string" where
  "entry_text e = ''('' @ fst e @ '':'' @ snd e @ '') ''"

lemma print_level_spec:
  assumes "linked_to (nxt h) (ht h) ps (\<lambda>_. None)" "\<And>p. p \<in> set ps \<Longrightarrow> h p \<noteq> None"
  shows "print_level h l (first_of (ht h) ps (\<lambda>_. None) l) =
    Some (concat (map (\<lambda>p. entry_text (entry h p)) (filter (\<lambda>p. l < ht h p) ps)) @ newline)"
  using assms
proof (induction ps)
  case Nil
  then show ?case by (subst print_level.simps) simp
next
  case (Cons p ps)
  then have IH: "print_level h l (first_of (ht h) ps (\<lambda>_. None) l) =
    Some (concat (map (\<lambda>p. entry_text (entry h p)) (filter (\<lambda>p. l < ht h p) ps)) @ newline)" by simp
  show ?case
  proof (cases "l < ht h p")
    case True
    obtain n where n: "h p = Some n" using Cons.prems(2)[of p] by auto
    have "nxt h l p = first_of (ht h) ps (\<lambda>_. None) l" using Cons.prems(1) True by simp
    then have nx: "next_at h l p = Some (first_of (ht h) ps (\<lambda>_. None) l)"
      using True n by (auto simp: next_at_def nxt_def ht_def)
    show ?thesis using True n by (subst print_level.simps) (simp add: nx IH entry_text_def entry_def)
  next
    case False
    then show ?thesis using IH by simp
  qed
qed

text \<open>Print of a list: a line for each level with the entries of the level, in the order of their keys.\<close>

lemma skip_Print_shows:
  assumes "sl_ok sl xs"
  shows "skip_Print sl = Some (''SkipList:'' @ newline @ concat (map (\<lambda>l. ''Level '' @ show_nat l @ '': '' @
    concat (map (\<lambda>p. entry_text (entry (sl_heap sl) p)) (filter (\<lambda>p. l < ht (sl_heap sl) p) xs)) @ newline) (rev [0..<cur_max_level sl])))"
proof -
  let ?h = "sl_heap sl"
  note D = sl_okD[OF assms]
  have "print_levels ?h (sl_head sl) k = Some (concat (map (\<lambda>l. ''Level '' @ show_nat l @ '': '' @
    concat (map (\<lambda>p. entry_text (entry ?h p)) (filter (\<lambda>p. l < ht ?h p) xs)) @ newline) (rev [0..<k])))" if "k \<le> cur_max_level sl" for k
    using that
  proof (induction k)
    case (Suc l)
    have l: "l < ht ?h (sl_head sl)" using Suc.prems D(4,8) by simp
    have "nxt ?h l (sl_head sl) = first_of (ht ?h) xs (\<lambda>_. None) l" using D(9) l by simp
    then have nx: "next_at ?h l (sl_head sl) = Some (first_of (ht ?h) xs (\<lambda>_. None) l)"
      using l by (auto simp: next_at_def nxt_def ht_def split: option.splits)
    have "print_level ?h l (first_of (ht ?h) xs (\<lambda>_. None) l) =
      Some (concat (map (\<lambda>p. entry_text (entry ?h p)) (filter (\<lambda>p. l < ht ?h p) xs)) @ newline)"
      by (rule print_level_spec) (use D(1,9) in auto)
    then show ?case using Suc nx by simp
  qed simp
  then show ?thesis by (simp add: skip_Print_def)
qed

section \<open>AtomicSkipList::DebugPrint and PrintBucketsStatus\<close>

partial_function (option) debug_nodes :: "'v hheap \<Rightarrow> u64 \<Rightarrow> nat \<Rightarrow> u64 \<Rightarrow> string option" where
  [code]: "debug_nodes h tail level p =
     (if p = tail then Some []
      else do { n \<leftarrow> h p; w \<leftarrow> next_word h level p; rest \<leftarrow> debug_nodes h tail level (GetRawPtr w);
                Some (show_int (hn_key n) @ '' '' @ rest) })"

fun debug_levels :: "'v askip \<Rightarrow> nat \<Rightarrow> string option" where
  "debug_levels sl 0 = Some []"
| "debug_levels sl (Suc level) =
     do { w \<leftarrow> next_word (as_heap sl) level (as_head sl);
          let p = GetRawPtr w;
          let valid = (p \<noteq> as_tail sl);
          line \<leftarrow> debug_nodes (as_heap sl) (as_tail sl) level p;
          rest \<leftarrow> debug_levels sl level;
          Some ((if valid then ''Level '' @ show_nat level @ '': '' else []) @ line @ (if valid then newline else []) @ rest) }"

definition DebugPrint :: "'v askip \<Rightarrow> string option" where
  "DebugPrint sl = do { s \<leftarrow> debug_levels sl (hs_max_level + 1); Some (s @ newline) }"

definition GetNodeNum :: "'v askip \<Rightarrow> int" where
  "GetNodeNum sl = LoadRelaxed (node_num sl)"

definition GetMarkedDeletedNum :: "'v askip \<Rightarrow> int" where
  "GetMarkedDeletedNum sl = LoadRelaxed (marked_deleted_num sl)"

fun status_lines :: "nat \<Rightarrow> 'v askip option list \<Rightarrow> string option" where
  "status_lines i [] = Some []"
| "status_lines i (b # bs) =
     do { bucket \<leftarrow> b;
          rest \<leftarrow> status_lines (i + 1) bs;
          Some (''bucket:'' @ show_nat i @ '', size:'' @ show_int (GetNodeNum bucket) @
                '', marked_deleted_num:'' @ show_int (GetMarkedDeletedNum bucket) @ newline @ rest) }"

definition PrintBucketsStatus :: "'v hs_cache \<Rightarrow> string option" where
  "PrintBucketsStatus c = status_lines 0 (buckets c)"

definition key_text :: "'v hheap \<Rightarrow> u64 \<Rightarrow> string" where
  "key_text h p = show_int (hkey h p) @ '' ''"

lemma debug_nodes_spec:
  assumes "linked_to (hnxt h) (hlen h) (ps @ [q]) (\<lambda>_. None)" "\<And>p. p \<in> set ps \<Longrightarrow> h p \<noteq> None" "l < hlen h q" "q \<notin> set ps"
  shows "debug_nodes h q l (the (first_of (hlen h) (ps @ [q]) (\<lambda>_. None) l)) =
    Some (concat (map (key_text h) (filter (\<lambda>p. l < hlen h p) ps)))"
  using assms
proof (induction ps)
  case Nil
  then show ?case by (subst debug_nodes.simps) simp
next
  case (Cons p ps)
  let ?f = "first_of (hlen h) (ps @ [q]) (\<lambda>_. None) l"
  have IH: "debug_nodes h q l (the ?f) = Some (concat (map (key_text h) (filter (\<lambda>p. l < hlen h p) ps)))" using Cons by simp
  show ?case
  proof (cases "l < hlen h p")
    case True
    obtain n where n: "h p = Some n" using Cons.prems(2)[of p] by auto
    obtain z where z: "?f = Some z" using first_of_cases[of "hlen h" "ps @ [q]" "\<lambda>_. None" l] Cons.prems(3) by auto
    have "hnxt h l p = ?f" using Cons.prems(1) True by simp
    then have "GetRawPtr (word_at h l p) = z" using z by (auto simp: hnxt_def Let_def split: if_splits)
    then show ?thesis using True n z IH Cons.prems(4) next_word_eq[OF True] not_sym[of q p]
      by (subst debug_nodes.simps) (simp add: key_text_def hkey_def)
  next
    case False
    then show ?thesis using IH by simp
  qed
qed

text \<open>DebugPrint shows, level by level, the keys of all nodes, those of deleted nodes too, in ascending order.\<close>

lemma DebugPrint_shows:
  assumes "as_ok sl xs"
  shows "DebugPrint sl = Some (concat (map (\<lambda>l. let keys = filter (\<lambda>p. l < hlen (as_heap sl) p) xs
      in if keys = [] then [] else ''Level '' @ show_nat l @ '': '' @ concat (map (key_text (as_heap sl)) keys) @ newline)
    (rev [0..<hs_max_level + 1])) @ newline)"
proof -
  let ?h = "as_heap sl" and ?t = "as_tail sl"
  note D = as_okD[OF assms]
  have lk: "linked_to (hnxt ?h) (hlen ?h) (xs @ [?t]) (\<lambda>_. None)" using D(12) by simp
  have mem: "?h p \<noteq> None" if "p \<in> set xs" for p using D(1)[of p] that by simp
  have tl: "?t \<notin> set xs" using D(2) by auto
  have "debug_levels sl k = Some (concat (map (\<lambda>l. let keys = filter (\<lambda>p. l < hlen ?h p) xs
      in if keys = [] then [] else ''Level '' @ show_nat l @ '': '' @ concat (map (key_text ?h) keys) @ newline) (rev [0..<k])))"
    if "k \<le> hs_max_level + 1" for k
    using that
  proof (induction k)
    case (Suc l)
    let ?f = "first_of (hlen ?h) (xs @ [?t]) (\<lambda>_. None) l" and ?keys = "filter (\<lambda>p. l < hlen ?h p) xs"
    have l: "l < hlen ?h (as_head sl)" "l < hlen ?h ?t" using Suc.prems D(7,8) by simp_all
    obtain z where z: "?f = Some z" "z \<in> set xs \<or> z = ?t"
      using first_of_cases[of "hlen ?h" "xs @ [?t]" "\<lambda>_. None" l] l(2) by auto
    have "hnxt ?h l (as_head sl) = ?f" using D(12) l(1) by simp
    then have w: "GetRawPtr (word_at ?h l (as_head sl)) = z" using z(1) by (auto simp: hnxt_def Let_def split: if_splits)
    have v: "z = ?t \<longleftrightarrow> ?keys = []"
    proof
      assume "?keys = []"
      then have "first_of (hlen ?h) xs e l = e l" for e using first_of_cases[of "hlen ?h" xs e l] by (auto simp: filter_empty_conv)
      then show "z = ?t" using z(1) l(2) by (simp add: first_of_append)
    next
      assume "z = ?t"
      then have "\<not> (\<exists>q \<in> set xs. l < hlen ?h q \<and> first_of (hlen ?h) xs e l = Some q)" for e
        using z(1) tl first_of_cases[of "hlen ?h" xs "first_of (hlen ?h) [?t] (\<lambda>_. None)" l]
        by (auto simp: first_of_append first_of_def find_Some_iff split: option.splits)
      then show "?keys = []" using first_of_cases[of "hlen ?h" xs "\<lambda>_. None" l] z(1) tl \<open>z = ?t\<close>
        by (auto simp: filter_empty_conv first_of_append first_of_def find_None_iff find_Some_iff split: option.splits)
    qed
    have n: "debug_nodes ?h ?t l z = Some (concat (map (key_text ?h) ?keys))"
      using debug_nodes_spec[OF lk mem l(2) tl] z(1) by simp
    have IH: "debug_levels sl l = Some (concat (map (\<lambda>l. let keys = filter (\<lambda>p. l < hlen ?h p) xs
      in if keys = [] then [] else ''Level '' @ show_nat l @ '': '' @ concat (map (key_text ?h) keys) @ newline) (rev [0..<l])))"
      using Suc by simp
    show ?case using next_word_eq[OF l(1)] w n v by (simp add: IH Let_def)
  qed simp
  from this[OF order_refl] show ?thesis by (simp only: DebugPrint_def bind.bind_lunit)
qed

text \<open>PrintBucketsStatus is undefined before Init, and defined ever after.\<close>

lemma status_lines_defined: "status_lines i bs \<noteq> None \<longleftrightarrow> None \<notin> set bs"
proof (induction bs arbitrary: i)
  case (Cons b bs)
  show ?case using Cons.IH[of "i + 1"] by (cases b; cases "status_lines (i + 1) bs") auto
qed simp

lemma PrintBucketsStatus_defined:
  "0 < bucket_num \<Longrightarrow> PrintBucketsStatus (HashSkipCache_new capicity bucket_num) = None"
  "PrintBucketsStatus (snd (Init addr (HashSkipCache_new capicity bucket_num))) \<noteq> None"
  "hc_represents c M D \<Longrightarrow> PrintBucketsStatus c \<noteq> None"
proof -
  show "PrintBucketsStatus (HashSkipCache_new capicity bucket_num) = None" if "0 < bucket_num"
    using status_lines_defined[of 0 "replicate (nat bucket_num) None"] that by (auto simp: PrintBucketsStatus_def HashSkipCache_new_def)
  show "PrintBucketsStatus (snd (Init addr (HashSkipCache_new capicity bucket_num))) \<noteq> None"
    unfolding PrintBucketsStatus_def status_lines_defined by (auto simp: Init_def HashSkipCache_new_def)
  show "PrintBucketsStatus c \<noteq> None" if "hc_represents c M D"
    unfolding PrintBucketsStatus_def status_lines_defined using that by (fastforce simp: hc_represents_def Let_def in_set_conv_nth)
qed

section \<open>The shard of the LRU cache and the counters of the benchmarks\<close>

text \<open>How a key and a std::shared_ptr, which prints its address, are written are arguments.\<close>

definition lru_Print :: "('k \<Rightarrow> string) \<Rightarrow> ('v option \<Rightarrow> string) \<Rightarrow> ('k, 'v) lru_shard \<Rightarrow> string" where
  "lru_Print show_key show_ptr s =
     concat (map (\<lambda>(_, key, handle). show_key key @ '':'' @ show_ptr (l_value handle) @ '' '') (entries s)) @ newline"

definition OpStat_Print :: "op_stat \<Rightarrow> string" where
  "OpStat_Print stat =
     ''[Insert] fail='' @ show_int (sint (LoadRelaxed (insert_status stat False))) @ '', succ='' @ show_int (sint (LoadRelaxed (insert_status stat True))) @
     '' | [Get] fail='' @ show_int (sint (LoadRelaxed (get_status stat False))) @ '', succ='' @ show_int (sint (LoadRelaxed (get_status stat True)))"

end
