(* ===== verification/Spec2Isabelle.thy ===== *)
theory Spec2Isabelle
  imports Queue_Concurrent Murmur Clock_Concurrent Clock_Displacement Fast_Random SP_Linear Lru_Bench Clock_Bench
    HS_Bench HS_Drain HS_Race Printing
begin

text \<open>
  A model of hyper_cache, a C++ library of three concurrent caches: an LRU cache (src/lru), a clock
  cache with open addressing (src/clock) and a cache over hashed skip lists (src/hash_skip), with the
  helpers they share (src/util). All file names below are under src/src.

  Common to all theories. A class is a record, an operation a function from the state to its results and the new
  state. None is undefined behaviour of the code (a null or dangling pointer, an index outside a
  vector, a division by zero, a failed assertion, an overflow of a signed integer) or a loop that does not end, so a property
  of the form "the operation is Some ..." says that the code returns and, but for the two places that follow, is
  defined. ClockUpdate moves a pointer out of the counter it points to (clock/clock_cache.cc:133): its result has None for this
  pointer, which nothing reads again, and the callers go on. The eviction of the LRU cache reads a list node it has
  just removed (lru/cache_shard.h:107-111): what this read gives is an argument, popped, and with no value it is a
  fault. Loops that need not end are partial functions; no loop has fuel. Machine words keep their width wherever the code packs
  bits or can wrap around; add64, sub64 and sub32 of Prelude are signed sums and differences that fault on an overflow, wrap64
  is an atomic int64_t, which wraps. What the code takes from outside (the address new returns, random coins, the seed,
  the spurious failures of weak compare-and-swaps) are arguments, over which the properties quantify.

  Helpers.
  \<^item> Prelude: names of the machine types, signed arithmetic, lemmas on words, lists and cyclic indices.
  \<^item> Atomics: RelaxedAtomic and AcqRelAtomic of util/atomic.h. A cell is its content, an operation returns the
    old content or the outcome of the exchange and the new content. Memory orders are not
    distinguished.
  \<^item> Murmur: MurmurHash3_x64_128 of util/murmur128_hash.cc on lists of bytes; every stage is a
    bijection, hence the hash is injective on keys of one length up to 16.
  \<^item> Fast_Random: FastRandomDouble of util/util.cc. The state never becomes zero, the results lie in [0, 1).
  \<^item> Bounded_Queue, Queue_Concurrent: the bounded queue of util/queue.h, first run by one thread, with positions in
    int64_t and spurious failures of the compare-and-swaps, as a refinement of a list for capacities of at least two; then
    as a step relation over any number of threads with one atomic access per step, its positions unbounded. Its
    invariant gives that slots are used exclusively and that values come out in order.
  \<^item> Levels: lists linked on several levels, the part of the theory of skip lists that only speaks of a
    successor function and heights.
  \<^item> Skip_List: util/skiplist.h on a heap of nodes. The invariant says that level k links the nodes
    higher than k in the order of their keys; the operations refine those of a map.

  LRU cache.
  \<^item> Lru_Shard: lru/cache_shard.h, the list of entries with the most recent first and the map to them. The
    invariant ties the two together; Get and Insert refine a list specification of an LRU cache, Insert for the
    handles that are insertable and under the reading of a popped node described above. The accounting errors of the
    code are theorems.
  \<^item> Sharding, Lru_Cache: lru/cache.h, routing a key to a shard.

  Clock cache.
  \<^item> Clock_Handle: clock/handle.h and the operations on the meta word of clock/clock_cache.cc, whose four fields
    f_ref, f_hit, f_bit and f_st are read as natural numbers.
  \<^item> Clock_Probe: FindSlot and Rollback over an abstract state, as functions that need not end. For a
    length that is a power of two the probe sequence is a cycle through every slot, and the templates
    become structural recursions over it.
  \<^item> Clock_Slots, Clock_Array: the operations on one slot and the slot array as a hash table. arr_ok: the
    displacement counter of a slot is the number of entries whose walk passes over it.
  \<^item> Clock_Cache, Clock_Evict: Lookup, Release, Erase, DoInsert, then Evict, EvictForCharge and Insert of
    clock/clock_cache.cc. The deleter calls are logged in the field calls. The invariant cc_ok adds to arr_ok that
    occupancy and usage are the sums over the entries. Spurious failures are counted by spurious_usage and
    spurious_erase, and all loops end for every value of them.
  \<^item> Clock_Bounds: usage and occupancy as natural numbers within their limits, Insert as the update of a map.
  \<^item> Doubles, Clock_Life: the constructor with its product of a size and a double, the destructor with its
    assertions.
  \<^item> Clock_Concurrent: one slot as a step relation over any number of threads that look up, release, insert, evict and
    erase. A reference protects the entry, every entry is freed once, no thread waits for another. The
    safety theorems speak of runs that are calm; the last sections show the two races that calm and the bound on the
    threads (N * N \<le> 2000) exclude.
  \<^item> Clock_Accounting: the counters usage_ and occupancy_ as a step relation over threads that insert and erase, with one
    access to a counter per step and the table reduced to its charges. Every thread's share of the counters is part
    of the invariant.
  \<^item> Clock_Displacement: the walks of FindSlot and Rollback over the table as a step relation over threads that insert, look
    up, erase and evict. The displacement counters stay exact, so a lookup never stops before an entry that stays.
  \<^item> Clock_Shards: the class Cache of clock/cache.cc and clock/cache.h over a vector of shards.

  Hash skip cache.
  \<^item> Marked_Ptr: MarkVersionedPtr of hash_skip/ptr_util.h, pointer, version and mark in 64 bits.
  \<^item> Shared_Ptr: AtomicSharedPtr of hash_skip/atomic_shared_ptr.h as a step relation over any number of threads. A
    loader never reads a deleted object and nothing leaks while fewer than 2^14 threads run; the bound is sharp.
  \<^item> SP_Linear: the class behind the #else of the same file, one std::atomic, as its specification: a refinement mapping
    takes every step of the versioned implementation to steps of the atomic one.
  \<^item> HS_Node, HS_Skiplist, HS_Insert: the nodes and the list of hash_skip/node.h and
    hash_skip/atomic_skiplist.h on a heap of nodes. hs_represents relates a list to the map of the keys
    whose node is not marked; Get, Insert, MarkDeleted, IterateLevel and the destructor are proved against it.
  \<^item> HS_Race: Insert with an operation of another thread between its search and its compare-and-swap. The retry stores a
    null handle, and a retry on an upper level cuts off the other thread's node.
  \<^item> HS_Cache: hash_skip/cache.h with every operation run to its end, one turn of the decay thread and one
    turn of the compaction thread included. hc_represents relates the buckets to a map and memory_used_ to
    the sum of its charges.
  \<^item> HS_System: any sequence of operations of clients and turns of the two threads, also with insertions that meet
    deleted nodes. hc_holds says that every node holds only handles inserted under its key; every
    operation is defined, ends and keeps it.
  \<^item> HS_Threads: the loops of the two threads with their cursors, the flag stop_ and the destructor. An object of type hs_object is
    the cache with both threads, which start with its construction; th_run interleaves Init, clients, iterations of the
    loops and the shutdown. hc_blank is a cache before Init, whose null buckets the threads pass over.
  \<^item> HS_Drain: the progress of the decay thread while the compaction thread runs along, by a bound on the hit counts of every
    bucket that each turn lowers and that has 200 to spare for every list the compaction can still replace.

  \<^item> Printing: what the printing functions of the lists, the caches and the benchmarks write, as strings.

  The benchmark programs cache_rw_mixed_bench.cc and cache_rw_separate_bench.cc as clients of the caches; a turn
  is one iteration of a benchmark loop, run by one thread, and what it draws at random is its argument.
  \<^item> Op_Stat: the counters OpStat of insertions and lookups.
  \<^item> Lru_Bench, HS_Bench, Clock_Bench: the turns on each of the caches, their options, the displacement
    statistics. Runs of turns end without a fault of the model, but for the two places named above, the check the programs make
    of the LRU and the hash skip cache never fails, and the accounting is exact at the end of a run.

  Locales. bounded_fifo (Bounded_Queue) is what a client of the queue relies on, router (Sharding) what
  the three sharded caches rely on, open_addressing (Clock_Probe) what the displacement counters rely on. Each is
  interpreted on the definitions of the code, in the theory that provides them.

  Bounds. The length of a clock table is a power of two: for length 3 a search need not end
  (FindSlot_diverges_length_3). Reference counters stay below 2^30 and usage below 2^64 by hypotheses
  of the properties, which also say how much room an insertion needs. The run on the clock cache is bounded by 2^28
  turns because a lookup can leave a reference on an empty slot, the one on the hash skip cache by 2^59 because its counter
  is an int64_t. The hash skip cache needs charges that are not negative (an int32_t each), a counter memory_used_ that fits int64_t
  together with the charge of an insertion (counter_ok, charge_fits) and positions of the low queue that stay below
  2^63 (pushes_left, decay_room). In Clock_Accounting an
  insertion is called with a charge that does not overflow together with the capacity, and the number of threads and
  the occupancy limit stay below 2^64 together; in Clock_Displacement the table and the threads stay below 2^32.
  In HS_Drain 12 + 2 N turns over a bucket of at most N nodes suffice: ten because MAX_HIT_COUNT is 1000 and a turn takes
  100, two more for every time its list can be replaced by one with hit counts of 200, which N deleted nodes and one
  wrong count of them pay for.

  Not modelled: main, registration, threads, timing and the reports of the benchmark programs, and the success counters of
  their clock turns, which read the stored integer through a pointer; ThreadSafeNormalRandom, a wrapper of
  std::normal_distribution; the memory orders of the atomics. The operations of the hash skip cache and of its lists run to
  their end, but for the one point of Insert that HS_Race opens: the steps of HS_Threads are whole operations of clients and
  whole iterations of the two threads, so its theorems do not speak of data races within them.
  The three concurrent views of the clock cache (one slot, the counters, the walks) each abstract from what the
  others keep, and are not composed into one step relation.
\<close>

end
